(* ===== verification/Prelude.thy ===== *)
theory Prelude
  imports Main "HOL-Library.Word"
begin

text \<open>
  Shared vocabulary of the development: the machine types of the 32-bit Windows target,
  the run-time errors a C++ statement can end in, sequencing of fallible steps, and the
  generic facts on lists and linked nodes that several components use.

  Conventions. A fallible operation returns \<open>cerror + 'a\<close>: \<open>Inl\<close> is a run-time fault
  (undefined behaviour of the C++ code made visible), \<open>Inr\<close> a normal return. A pointer is
  an \<open>addr\<close>, with 0 for NULL. Lengths and counters that the code keeps in \<open>uint32\<close> or
  \<open>size_t\<close> are \<open>u32\<close> words; \<open>int\<close> values are HOL integers, converted at the places
  where the code converts them.
\<close>

unbundle bit_operations_syntax

type_synonym byte = "8 word"
type_synonym u16 = "16 word"
type_synonym u32 = "32 word"
type_synonym addr = nat

abbreviation (input) NULL :: addr where
  "NULL \<equiv> 0"

datatype cerror = NullDeref | UseAfterFree | DoubleFree | OutOfBounds | RangeError | DivByZero

section \<open>Sequencing fallible steps\<close>

fun rbind :: "'e + 'a \<Rightarrow> ('a \<Rightarrow> 'e + 'b) \<Rightarrow> 'e + 'b" where
  "rbind (Inl e) f = Inl e"
| "rbind (Inr x) f = f x"

lemma rbind_cong [fundef_cong]:
  "r = r' \<Longrightarrow> (\<And>x. r' = Inr x \<Longrightarrow> f x = g x) \<Longrightarrow> rbind r f = rbind r' g"
  by (cases r') auto

named_theorems res_simps

lemma rbind_eq_Inr [res_simps]:
  "rbind r f = Inr y \<longleftrightarrow> (\<exists>x. r = Inr x \<and> f x = Inr y)"
  by (cases r) auto

lemma rbind_assoc: "rbind (rbind r f) g = rbind r (\<lambda>x. rbind (f x) g)"
  by (cases r) auto

lemma if_Inr [res_simps]: "(if b then Inl e else r) = Inr y \<longleftrightarrow> \<not> b \<and> r = Inr y"
  by auto

text \<open>Conversion of a C \<open>int\<close> to an unsigned 32-bit value, and back.\<close>

definition to_u32 :: "int \<Rightarrow> u32" where
  "to_u32 n = word_of_int n"

lemma unat_to_u32: "0 \<le> n \<Longrightarrow> n < 2 ^ 32 \<Longrightarrow> unat (to_u32 n) = nat n"
  unfolding to_u32_def by (simp add: unsigned_of_int take_bit_int_eq_self)

lemma to_u32_of_nat [simp]: "to_u32 (int n) = of_nat n"
  by (simp add: to_u32_def)

lemma unat_of_nat_u32: "n < 2 ^ 32 \<Longrightarrow> unat (of_nat n :: u32) = n"
  by (simp add: unsigned_of_nat take_bit_nat_eq_self)

lemma u32_less: "unat (x :: u32) < 4294967296"
  using unsigned_less [of x, where ?'a = nat] by simp

lemma u32_le: "unat (x :: u32) \<le> 4294967295"
  using u32_less [of x] by simp

lemma unat_max_minus_u32: "unat (- 1 - x :: u32) = 4294967295 - unat x"
proof -
  have "unat (- 1 - x) = unat (- 1 :: u32) - unat x"
    by (rule unat_sub) (rule word_order.extremum)
  then show ?thesis by (simp add: unsigned_minus_1_eq_mask mask_eq_exp_minus_1)
qed

lemma sint_of_nat_u32: "n < 2 ^ 31 \<Longrightarrow> sint (of_nat n :: u32) = int n"
  by (simp add: signed_of_nat signed_take_bit_int_eq_self)

lemma sint_unat_u32: "unat (k :: u32) < 2 ^ 31 \<Longrightarrow> sint k = int (unat k)"
  using sint_of_nat_u32 [of "unat k"] by simp

section \<open>Little-endian byte strings\<close>

text \<open>The memory layout of an unsigned value of \<open>k\<close> bytes on the x86 target, and the value
  that reading such bytes back gives.\<close>

fun le_bytes :: "nat \<Rightarrow> nat \<Rightarrow> byte list" where
  "le_bytes 0 x = []"
| "le_bytes (Suc k) x = of_nat (x mod 256) # le_bytes k (x div 256)"

fun le_val :: "byte list \<Rightarrow> nat" where
  "le_val [] = 0"
| "le_val (b # bs) = unat b + 256 * le_val bs"

lemma length_le_bytes [simp]: "length (le_bytes k x) = k"
  by (induction k arbitrary: x) auto

lemma le_val_le_bytes: "le_val (le_bytes k x) = x mod 256 ^ k"
proof (induction k arbitrary: x)
  case (Suc k)
  have "unat (of_nat (x mod 256) :: byte) = x mod 256"
    by (simp add: unsigned_of_nat take_bit_eq_mod)
  then have "le_val (le_bytes (Suc k) x) = x mod 256 + 256 * (x div 256 mod 256 ^ k)"
    using Suc by simp
  then show ?case by (simp add: mod_mult2_eq)
qed simp

lemma le_val_less: "le_val bs < 256 ^ length bs"
proof (induction bs)
  case (Cons b bs)
  have "unat b < 256" using unsigned_less [of b] by simp
  with Cons show ?case by simp
qed simp

section \<open>Linked nodes\<close>

text \<open>
  \<open>linked nx ps\<close>: every node of \<open>ps\<close> but the last has the one after it as its successor.
  Nothing is said of the last node's successor, which the queue never reads.
\<close>

fun linked :: "('a \<Rightarrow> 'a) \<Rightarrow> 'a list \<Rightarrow> bool" where
  "linked nx [] = True"
| "linked nx [p] = True"
| "linked nx (p # q # ps) = (nx p = q \<and> linked nx (q # ps))"

lemma linked_tl [intro]: "linked nx ps \<Longrightarrow> linked nx (tl ps)"
  by (cases "(nx, ps)" rule: linked.cases) auto

lemma linked_Cons: "linked nx (p # ps) \<longleftrightarrow> (ps = [] \<or> (nx p = hd ps \<and> linked nx ps))"
  by (cases ps) auto

lemma linked_snoc:
  "ps \<noteq> [] \<Longrightarrow> linked nx (ps @ [q]) \<longleftrightarrow> linked nx ps \<and> nx (last ps) = q"
  by (induction nx ps rule: linked.induct) auto

lemma linked_cong:
  assumes "distinct ps" and "\<And>p. p \<in> set (butlast ps) \<Longrightarrow> nx p = nx' p"
  shows "linked nx ps = linked nx' ps"
  using assms by (induction nx ps rule: linked.induct) auto

lemma distinct_last_notin_butlast: "distinct ps \<Longrightarrow> ps \<noteq> [] \<Longrightarrow> last ps \<notin> set (butlast ps)"
  by (induction ps rule: rev_induct) auto

end
