(* ===== verification/CHeap.thy ===== *)
theory CHeap
  imports Prelude
begin

text \<open>
  The C run-time heap: \<open>malloc\<close>, \<open>realloc\<close>, \<open>free\<close> and \<open>memcpy\<close>, as the sources use them.
  A block is a byte list at the address of its first byte, and pointers into blocks are
  an address and an offset. Freed addresses are never handed out again, so a use after
  free and a double free are visible as faults. \<open>ch_avail\<close> is the number of bytes that are
  left: an allocation of more returns NULL. Fresh bytes have the arbitrary value \<open>ch_fill\<close>.
\<close>

record cheap =
  ch_blocks :: "addr \<Rightarrow> byte list option"
  ch_brk :: addr
  ch_avail :: nat
  ch_fill :: byte

definition cheap_ok :: "cheap \<Rightarrow> bool" where
  "cheap_ok h \<longleftrightarrow> 0 < ch_brk h \<and> (\<forall>p. ch_blocks h p \<noteq> None \<longrightarrow> 0 < p \<and> p < ch_brk h)"

definition malloc :: "nat \<Rightarrow> cheap \<Rightarrow> addr \<times> cheap" where
  "malloc n h =
     (if n \<le> ch_avail h
      then (ch_brk h, h\<lparr>ch_blocks := (ch_blocks h)(ch_brk h \<mapsto> replicate n (ch_fill h)),
                        ch_brk := Suc (ch_brk h), ch_avail := ch_avail h - n\<rparr>)
      else (NULL, h))"

definition free :: "addr \<Rightarrow> cheap \<Rightarrow> cerror + cheap" where
  "free p h =
     (if p = NULL then Inr h
      else case ch_blocks h p of
        None \<Rightarrow> Inl DoubleFree
      | Some bs \<Rightarrow> Inr (h\<lparr>ch_blocks := (ch_blocks h)(p := None),
                          ch_avail := ch_avail h + length bs\<rparr>))"

text \<open>\<open>realloc\<close> moves the block; if there is no room it returns NULL and keeps the old block,
  and a size of 0 frees it (the Microsoft run-time library).\<close>

definition realloc :: "addr \<Rightarrow> nat \<Rightarrow> cheap \<Rightarrow> cerror + addr \<times> cheap" where
  "realloc p n h =
     (if p = NULL then Inr (malloc n h)
      else case ch_blocks h p of
        None \<Rightarrow> Inl UseAfterFree
      | Some bs \<Rightarrow>
          if n = 0 then rbind (free p h) (\<lambda>h'. Inr (NULL, h'))
          else if n \<le> ch_avail h + length bs
          then Inr (ch_brk h,
                 h\<lparr>ch_blocks := (ch_blocks h)(p := None,
                      ch_brk h \<mapsto> take n bs @ replicate (n - length bs) (ch_fill h)),
                    ch_brk := Suc (ch_brk h),
                    ch_avail := ch_avail h + length bs - n\<rparr>)
          else Inr (NULL, h))"

definition load :: "addr \<Rightarrow> nat \<Rightarrow> nat \<Rightarrow> cheap \<Rightarrow> cerror + byte list" where
  "load p off n h =
     (if n = 0 then Inr []
      else if p = NULL then Inl NullDeref
      else case ch_blocks h p of
        None \<Rightarrow> Inl UseAfterFree
      | Some bs \<Rightarrow> if off + n \<le> length bs then Inr (take n (drop off bs)) else Inl OutOfBounds)"

definition store :: "addr \<Rightarrow> nat \<Rightarrow> byte list \<Rightarrow> cheap \<Rightarrow> cerror + cheap" where
  "store p off new h =
     (if new = [] then Inr h
      else if p = NULL then Inl NullDeref
      else case ch_blocks h p of
        None \<Rightarrow> Inl UseAfterFree
      | Some bs \<Rightarrow>
          if off + length new \<le> length bs
          then Inr (h\<lparr>ch_blocks := (ch_blocks h)(p \<mapsto>
                 take off bs @ new @ drop (off + length new) bs)\<rparr>)
          else Inl OutOfBounds)"

text \<open>A source operand of \<open>memcpy\<close>: a heap pointer, or the bytes of a value outside the
  heap (a local variable or a string literal).\<close>

datatype src = Ptr addr | Imm "byte list"

fun src_addr :: "src \<Rightarrow> addr option" where
  "src_addr (Ptr p) = Some p"
| "src_addr (Imm bs) = None"

fun fetch :: "src \<Rightarrow> nat \<Rightarrow> cheap \<Rightarrow> cerror + byte list" where
  "fetch (Ptr p) n h = load p 0 n h"
| "fetch (Imm bs) n h = (if n \<le> length bs then Inr (take n bs) else Inl OutOfBounds)"

definition memcpy :: "addr \<Rightarrow> nat \<Rightarrow> src \<Rightarrow> nat \<Rightarrow> cheap \<Rightarrow> cerror + cheap" where
  "memcpy dst off s n h = rbind (fetch s n h) (\<lambda>bs. store dst off bs h)"

section \<open>Facts about the heap\<close>

lemma malloc_okD:
  assumes "n \<le> ch_avail h"
  shows "malloc n h = (ch_brk h,
           h\<lparr>ch_blocks := (ch_blocks h)(ch_brk h \<mapsto> replicate n (ch_fill h)),
             ch_brk := Suc (ch_brk h), ch_avail := ch_avail h - n\<rparr>)"
  using assms by (simp add: malloc_def)

lemma cheap_ok_malloc [intro]: "cheap_ok h \<Longrightarrow> malloc n h = (p, h') \<Longrightarrow> cheap_ok h'"
  by (auto simp: malloc_def cheap_ok_def less_Suc_eq split: if_splits)

lemma cheap_ok_free [intro]: "cheap_ok h \<Longrightarrow> free p h = Inr h' \<Longrightarrow> cheap_ok h'"
  by (auto simp: free_def cheap_ok_def split: if_splits option.splits)

lemma cheap_ok_realloc [intro]: "cheap_ok h \<Longrightarrow> realloc p n h = Inr (q, h') \<Longrightarrow> cheap_ok h'"
  unfolding realloc_def
  by (auto simp: res_simps cheap_ok_def less_Suc_eq free_def malloc_def
           split: if_splits option.splits)

lemma cheap_ok_store [intro]: "cheap_ok h \<Longrightarrow> store p off bs h = Inr h' \<Longrightarrow> cheap_ok h'"
  by (auto simp: store_def cheap_ok_def split: if_splits option.splits)

lemma cheap_ok_memcpy [intro]: "cheap_ok h \<Longrightarrow> memcpy p off s n h = Inr h' \<Longrightarrow> cheap_ok h'"
  by (auto simp: memcpy_def res_simps)

lemma cheap_ok_block: "cheap_ok h \<Longrightarrow> ch_blocks h p = Some bs \<Longrightarrow> p \<noteq> NULL \<and> p < ch_brk h"
  by (auto simp: cheap_ok_def)

lemma length_fetch: "fetch s n h = Inr bs \<Longrightarrow> length bs = n"
  by (cases s) (auto simp: load_def split: if_splits option.splits)

text \<open>A fetched operand does not change when other blocks do.\<close>

lemma fetch_frame:
  assumes "fetch s n h = Inr bs"
    and "\<And>p. src_addr s = Some p \<Longrightarrow> ch_blocks h' p = ch_blocks h p"
  shows "fetch s n h' = Inr bs"
  using assms by (cases s) (auto simp: load_def split: if_splits option.splits)

lemma free_live:
  assumes "cheap_ok h" "ch_blocks h p = Some bs"
  shows "\<exists>h'. free p h = Inr h' \<and> cheap_ok h' \<and> ch_blocks h' = (ch_blocks h)(p := None) \<and>
           ch_avail h' = ch_avail h + length bs \<and> ch_brk h' = ch_brk h"
  using assms by (auto simp: free_def cheap_ok_def)

lemma fresh_brk: "cheap_ok h \<Longrightarrow> ch_blocks h (ch_brk h) = None"
  by (auto simp: cheap_ok_def)

lemma load_Some:
  "load p 0 n h = Inr bs \<Longrightarrow> 0 < n \<Longrightarrow>
   p \<noteq> NULL \<and> (\<exists>blk. ch_blocks h p = Some blk \<and> n \<le> length blk \<and> bs = take n blk)"
  by (auto simp: load_def split: if_splits option.splits)

lemma store_at:
  assumes "ch_blocks h p = Some old" "off + length new \<le> length old" "p \<noteq> NULL"
  shows "store p off new h =
    Inr (h\<lparr>ch_blocks := (ch_blocks h)(p \<mapsto> take off old @ new @ drop (off + length new) old)\<rparr>)"
  using assms by (auto simp: store_def fun_upd_idem)

text \<open>\<open>memcpy\<close> into a live block that has room, from an operand that can be read.\<close>

lemma memcpy_at:
  assumes "fetch s n h = Inr new" "ch_blocks h p = Some old" "off + n \<le> length old" "p \<noteq> NULL"
  shows "memcpy p off s n h =
    Inr (h\<lparr>ch_blocks := (ch_blocks h)(p \<mapsto> take off old @ new @ drop (off + n) old)\<rparr>)"
  using assms length_fetch [OF assms(1)] by (simp add: memcpy_def store_at)

text \<open>Two pieces copied one after the other into a fresh block.\<close>

lemma memcpy_twice:
  assumes "fetch s n h = Inr a" "fetch t m h = Inr b"
    and "ch_blocks h1 q = Some blk" "n + m \<le> length blk" "q \<noteq> NULL" "cheap_ok h1"
    and "ch_blocks h q = None" "\<And>p. p \<noteq> q \<Longrightarrow> ch_blocks h1 p = ch_blocks h p"
  shows "\<exists>h2 h3. memcpy q 0 s n h1 = Inr h2 \<and> memcpy q n t m h2 = Inr h3 \<and> cheap_ok h3 \<and>
           (\<forall>p. p \<noteq> q \<longrightarrow> ch_blocks h3 p = ch_blocks h p) \<and>
           (\<exists>c. ch_blocks h3 q = Some c \<and> length c = length blk \<and> take (n + m) c = a @ b)"
proof -
  have fr: "fetch u k h' = Inr x"
    if "fetch u k h = Inr x" "\<And>p. p \<noteq> q \<Longrightarrow> ch_blocks h' p = ch_blocks h p" for u k x h'
  proof -
    note eq = that(2)
    have "ch_blocks h' p = Some y" if "ch_blocks h p = Some y" for p y
      using that eq [of p] assms(7) by (cases "p = q") auto
    with that(1) show ?thesis
      by (cases u) (auto simp: load_def split: if_splits option.splits)
  qed
  let ?h2 = "h1\<lparr>ch_blocks := (ch_blocks h1)(q \<mapsto> take 0 blk @ a @ drop (0 + n) blk)\<rparr>"
  have c1: "memcpy q 0 s n h1 = Inr ?h2"
    using fr [OF assms(1,8)] assms(3,4,5) by (intro memcpy_at) auto
  have la: "length a = n" "length b = m" using assms(1,2) by (auto dest: length_fetch)
  have "fetch t m ?h2 = Inr b" using assms(8) by (intro fr [OF assms(2)]) simp
  note c2 = memcpy_at [OF this, of q "take 0 blk @ a @ drop (0 + n) blk" n]
  have "cheap_ok ?h2" using assms(6) c1 by blast
  with c1 c2 la assms(3,4,5,8) show ?thesis
    by (fastforce intro: cheap_ok_memcpy)
qed

end
