(* ===== verification/ByteBuffer.thy ===== *)
theory ByteBuffer
  imports CHeap
begin

text \<open>
  \<open>CByteBuffer\<close> of slext/ByteBuffer.h: a byte block with a size, a capacity and an
  ownership flag, over the C heap of theory CHeap. The fields \<open>bb_szData\<close>, \<open>bb_nSize\<close>,
  \<open>bb_nCapacity\<close> and \<open>bb_bOwner\<close> are \<open>m_szData\<close>, \<open>m_nSize\<close>, \<open>m_nCapacity\<close> and
  \<open>m_bOwner\<close>. Sizes are \<open>size_t\<close>, 32 bits wide, so sums and the growth formula wrap as
  in the code. The theorems: every operation keeps the invariant \<open>bb_ok\<close>, copying and
  appending store the bytes they are given, and nothing else of the heap changes.
\<close>

section \<open>State and operations\<close>

record CByteBuffer =
  bb_nSize :: u32
  bb_nCapacity :: u32
  bb_bOwner :: bool
  bb_szData :: addr

definition CByteBuffer_new :: CByteBuffer where
  "CByteBuffer_new = \<lparr>bb_nSize = 0, bb_nCapacity = 0, bb_bOwner = True, bb_szData = NULL\<rparr>"

definition CByteBuffer_new_cap :: "u32 \<Rightarrow> cheap \<Rightarrow> CByteBuffer \<times> cheap" where
  "CByteBuffer_new_cap nCapacity h =
     (let (p, h') = malloc (unat nCapacity) h
      in (\<lparr>bb_nSize = 0, bb_nCapacity = nCapacity, bb_bOwner = True, bb_szData = p\<rparr>, h'))"

definition CByteBuffer_new_data ::
    "addr \<Rightarrow> u32 \<Rightarrow> bool \<Rightarrow> cheap \<Rightarrow> cerror + CByteBuffer \<times> cheap" where
  "CByteBuffer_new_data szData nSize bOwner h =
     (let b = \<lparr>bb_nSize = nSize, bb_nCapacity = nSize, bb_bOwner = bOwner, bb_szData = szData\<rparr>
      in if bOwner
         then (let (p, h1) = malloc (unat nSize) h
               in rbind (memcpy p 0 (Ptr szData) (unat nSize) h1)
                    (\<lambda>h2. Inr (b\<lparr>bb_szData := p\<rparr>, h2)))
         else Inr (b, h))"

definition CByteBuffer_owner :: "CByteBuffer \<Rightarrow> bool" where
  "CByteBuffer_owner b = bb_bOwner b"

definition CByteBuffer_set_owner :: "bool \<Rightarrow> CByteBuffer \<Rightarrow> CByteBuffer" where
  "CByteBuffer_set_owner bOwner b = b\<lparr>bb_bOwner := bOwner\<rparr>"

definition CByteBuffer_capacity :: "CByteBuffer \<Rightarrow> u32" where
  "CByteBuffer_capacity b = bb_nCapacity b"

definition CByteBuffer_size :: "CByteBuffer \<Rightarrow> u32" where
  "CByteBuffer_size b = bb_nSize b"

definition CByteBuffer_max_size :: u32 where
  "CByteBuffer_max_size = - 1"

definition CByteBuffer_empty :: "CByteBuffer \<Rightarrow> bool" where
  "CByteBuffer_empty b \<longleftrightarrow> bb_nSize b = 0"

text \<open>\<open>begin()\<close> and \<open>end()\<close>: the block's address, and the address with the offset \<open>m_nSize\<close>.\<close>

definition CByteBuffer_begin :: "CByteBuffer \<Rightarrow> addr \<times> nat" where
  "CByteBuffer_begin b = (bb_szData b, 0)"

definition CByteBuffer_end :: "CByteBuffer \<Rightarrow> addr \<times> nat" where
  "CByteBuffer_end b = (bb_szData b, unat (bb_nSize b))"

text \<open>The destructor only calls \<open>clear\<close>.\<close>

definition CByteBuffer_clear :: "CByteBuffer \<Rightarrow> cheap \<Rightarrow> cerror + CByteBuffer \<times> cheap" where
  "CByteBuffer_clear b h =
     rbind (if bb_bOwner b \<and> bb_szData b \<noteq> NULL then free (bb_szData b) h else Inr h)
       (\<lambda>h'. Inr (b\<lparr>bb_szData := NULL, bb_nSize := 0, bb_nCapacity := 0, bb_bOwner := True\<rparr>, h'))"

definition CByteBuffer_data ::
    "addr \<Rightarrow> u32 \<Rightarrow> bool \<Rightarrow> CByteBuffer \<Rightarrow> cheap \<Rightarrow> cerror + CByteBuffer \<times> cheap" where
  "CByteBuffer_data szData nSize bOwner b h =
     (if nSize = 0 then Inr (b, h)
      else if szData = bb_szData b then Inr (b, h)
      else rbind
        (if bOwner
         then rbind
           (if bb_bOwner b
            then if bb_nCapacity b < nSize
                 then rbind (if bb_nCapacity b = 0 then Inr (malloc (unat nSize) h)
                             else realloc (bb_szData b) (unat nSize) h)
                        (\<lambda>(p, h1). Inr (b\<lparr>bb_szData := p, bb_nCapacity := nSize\<rparr>, h1))
                 else Inr (b, h)
            else (let (p, h1) = malloc (unat nSize) h
                  in Inr (b\<lparr>bb_szData := p, bb_nCapacity := nSize\<rparr>, h1)))
           (\<lambda>(b1, h1). rbind (memcpy (bb_szData b1) 0 (Ptr szData) (unat nSize) h1)
              (\<lambda>h2. Inr (b1, h2)))
         else rbind (if bb_bOwner b \<and> bb_szData b \<noteq> NULL then free (bb_szData b) h else Inr h)
           (\<lambda>h1. Inr (b\<lparr>bb_szData := szData, bb_nCapacity := nSize\<rparr>, h1)))
        (\<lambda>(b2, h2). Inr (b2\<lparr>bb_nSize := nSize, bb_bOwner := bOwner\<rparr>, h2)))"

text \<open>
  \<open>append\<close>: the growth formula is \<open>m_nCapacity + max(m_nCapacity * nMultiple / 100, nSize)\<close>
  on 32-bit unsigned values.
\<close>

definition CByteBuffer_new_capacity :: "u32 \<Rightarrow> u32 \<Rightarrow> u32 \<Rightarrow> u32" where
  "CByteBuffer_new_capacity nCapacity nMultiple nSize =
     nCapacity + max (nCapacity * nMultiple div 100) nSize"

definition CByteBuffer_append ::
    "src \<Rightarrow> u32 \<Rightarrow> u32 \<Rightarrow> CByteBuffer \<Rightarrow> cheap \<Rightarrow> cerror + bool \<times> CByteBuffer \<times> cheap" where
  "CByteBuffer_append szData nSize nMultiple b h =
     (if \<not> bb_bOwner b \<or> nSize = 0 then Inr (False, b, h)
      else if CByteBuffer_max_size - bb_nSize b < nSize then Inr (False, b, h)
      else rbind
        (if bb_nSize b + nSize \<le> bb_nCapacity b
         then rbind (memcpy (bb_szData b) (unat (bb_nSize b)) szData (unat nSize) h)
                (\<lambda>h1. Inr (b, h1))
         else (let nNewCapacity = CByteBuffer_new_capacity (bb_nCapacity b) nMultiple nSize;
                   (pNew, h1) = malloc (unat nNewCapacity) h
               in rbind (memcpy pNew 0 (Ptr (bb_szData b)) (unat (bb_nSize b)) h1)
                    (\<lambda>h2. rbind (memcpy pNew (unat (bb_nSize b)) szData (unat nSize) h2)
                       (\<lambda>h3. rbind (if bb_szData b \<noteq> NULL then free (bb_szData b) h3 else Inr h3)
                          (\<lambda>h4. Inr (b\<lparr>bb_szData := pNew, bb_nCapacity := nNewCapacity\<rparr>, h4))))))
        (\<lambda>(b1, h1). Inr (True, b1\<lparr>bb_nSize := bb_nSize b1 + nSize\<rparr>, h1)))"

text \<open>The overloads of \<open>append\<close>, with the default \<open>nMultiple = 100\<close>. \<open>float\<close> and
  \<open>double\<close> arguments are given by their bit patterns.\<close>

definition c_strlen :: "addr \<Rightarrow> cheap \<Rightarrow> cerror + nat" where
  "c_strlen p h =
     (if p = NULL then Inl NullDeref
      else case ch_blocks h p of
        None \<Rightarrow> Inl UseAfterFree
      | Some bs \<Rightarrow> if 0 \<in> set bs then Inr (length (takeWhile (\<lambda>c. c \<noteq> 0) bs))
                   else Inl OutOfBounds)"

definition CByteBuffer_append_str ::
    "addr \<Rightarrow> CByteBuffer \<Rightarrow> cheap \<Rightarrow> cerror + bool \<times> CByteBuffer \<times> cheap" where
  "CByteBuffer_append_str szData b h =
     rbind (c_strlen szData h) (\<lambda>n. CByteBuffer_append (Ptr szData) (of_nat n) 100 b h)"

definition CByteBuffer_append_char ::
    "byte \<Rightarrow> CByteBuffer \<Rightarrow> cheap \<Rightarrow> cerror + bool \<times> CByteBuffer \<times> cheap" where
  "CByteBuffer_append_char c = CByteBuffer_append (Imm [c]) 1 100"

definition CByteBuffer_append_int ::
    "u32 \<Rightarrow> CByteBuffer \<Rightarrow> cheap \<Rightarrow> cerror + bool \<times> CByteBuffer \<times> cheap" where
  "CByteBuffer_append_int n = CByteBuffer_append (Imm (le_bytes 4 (unat n))) 4 100"

definition CByteBuffer_append_short ::
    "u16 \<Rightarrow> CByteBuffer \<Rightarrow> cheap \<Rightarrow> cerror + bool \<times> CByteBuffer \<times> cheap" where
  "CByteBuffer_append_short n = CByteBuffer_append (Imm (le_bytes 2 (unat n))) 2 100"

definition CByteBuffer_append_float ::
    "u32 \<Rightarrow> CByteBuffer \<Rightarrow> cheap \<Rightarrow> cerror + bool \<times> CByteBuffer \<times> cheap" where
  "CByteBuffer_append_float n = CByteBuffer_append (Imm (le_bytes 4 (unat n))) 4 100"

definition CByteBuffer_append_double ::
    "64 word \<Rightarrow> CByteBuffer \<Rightarrow> cheap \<Rightarrow> cerror + bool \<times> CByteBuffer \<times> cheap" where
  "CByteBuffer_append_double n = CByteBuffer_append (Imm (le_bytes 8 (unat n))) 8 100"

definition CByteBuffer_resize :: "u32 \<Rightarrow> CByteBuffer \<Rightarrow> CByteBuffer" where
  "CByteBuffer_resize nSize b =
     (if nSize \<le> bb_nCapacity b then b\<lparr>bb_nSize := nSize\<rparr>
      else b\<lparr>bb_nSize := bb_nCapacity b\<rparr>)"

definition CByteBuffer_reserve ::
    "u32 \<Rightarrow> CByteBuffer \<Rightarrow> cheap \<Rightarrow> cerror + bool \<times> CByteBuffer \<times> cheap" where
  "CByteBuffer_reserve nCapacity b h =
     (if bb_bOwner b
      then rbind (if 0 < bb_nCapacity b then realloc (bb_szData b) (unat nCapacity) h
                  else Inr (malloc (unat nCapacity) h))
             (\<lambda>(p, h1). Inr (True, b\<lparr>bb_szData := p, bb_nSize := 0, bb_nCapacity := nCapacity\<rparr>, h1))
      else Inr (True, b, h))"

section \<open>Invariant and contents\<close>

text \<open>
  An owning buffer has no block and no capacity, or a live block of at least its capacity
  that holds its size (a message taken over from a queue node records only its own length
  as capacity, the block may be longer). A buffer that does not own its data points into memory somebody
  else manages; the class promises nothing of it.
\<close>

definition bb_ok :: "CByteBuffer \<Rightarrow> cheap \<Rightarrow> bool" where
  "bb_ok b h \<longleftrightarrow>
     (bb_bOwner b \<longrightarrow>
        bb_nSize b \<le> bb_nCapacity b \<and>
        (if bb_szData b = NULL then bb_nCapacity b = 0
         else \<exists>bs. ch_blocks h (bb_szData b) = Some bs \<and> unat (bb_nCapacity b) \<le> length bs))"

definition bb_bytes :: "CByteBuffer \<Rightarrow> cheap \<Rightarrow> byte list" where
  "bb_bytes b h =
     (case ch_blocks h (bb_szData b) of
        None \<Rightarrow> []
      | Some bs \<Rightarrow> take (unat (bb_nSize b)) bs)"

lemma bb_ok_new [simp]: "bb_ok CByteBuffer_new h"
  by (simp add: bb_ok_def CByteBuffer_new_def)

lemma bb_ok_frame:
  "bb_ok b h \<Longrightarrow> (bb_bOwner b \<Longrightarrow> ch_blocks h' (bb_szData b) = ch_blocks h (bb_szData b)) \<Longrightarrow>
   bb_ok b h'"
  by (simp add: bb_ok_def)

lemma bb_bytes_frame:
  "ch_blocks h' (bb_szData b) = ch_blocks h (bb_szData b) \<Longrightarrow> bb_bytes b h' = bb_bytes b h"
  by (simp add: bb_bytes_def)

section \<open>What the operations do\<close>

text \<open>Where a copying \<open>data\<close> puts the bytes, and what it leaves alone: blocks other than
  the buffer's own old and new one.\<close>

definition bb_frame :: "CByteBuffer \<Rightarrow> cheap \<Rightarrow> CByteBuffer \<Rightarrow> cheap \<Rightarrow> bool" where
  "bb_frame b h b' h' \<longleftrightarrow>
     (\<forall>q. q \<noteq> bb_szData b' \<longrightarrow> \<not> (bb_bOwner b \<and> q = bb_szData b) \<longrightarrow>
          ch_blocks h' q = ch_blocks h q) \<and>
     (bb_szData b' = bb_szData b \<and> bb_bOwner b \<or> ch_blocks h (bb_szData b') = None) \<and>
     ch_avail h \<le> ch_avail h' + unat (bb_nSize b')"

lemma unat_gt_0_u32: "(n::u32) \<noteq> 0 \<Longrightarrow> 0 < unat n"
  by (simp add: unat_gt_0)

lemma CByteBuffer_data_copy:
  assumes ok: "bb_ok b h" "cheap_ok h"
    and n: "n \<noteq> 0" and av: "unat n \<le> ch_avail h"
    and src: "load p 0 (unat n) h = Inr new" "p \<noteq> bb_szData b"
  shows "\<exists>b' h'. CByteBuffer_data p n True b h = Inr (b', h') \<and>
           bb_bytes b' h' = new \<and> bb_nSize b' = n \<and> bb_bOwner b' \<and> bb_szData b' \<noteq> NULL \<and>
           bb_ok b' h' \<and> cheap_ok h' \<and> bb_frame b h b' h'"
proof -
  have n0: "0 < unat n" using n by (rule unat_gt_0_u32)
  have len: "length new = unat n" using src length_fetch [of "Ptr p"] by simp
  obtain blk where blk: "ch_blocks h p = Some blk" "unat n \<le> length blk" "new = take (unat n) blk"
    using load_Some [OF src(1) n0] by auto
  have pb: "p < ch_brk h" using ok(2) blk(1) by (auto dest: cheap_ok_block)
  have brk0: "0 < ch_brk h" using ok(2) by (simp add: cheap_ok_def)
  note fr = fresh_brk [OF ok(2)]
  consider (fresh) "\<not> bb_bOwner b \<or> bb_nCapacity b = 0"
    | (grow) "bb_bOwner b" "bb_nCapacity b \<noteq> 0" "bb_nCapacity b < n"
    | (fits) "bb_bOwner b" "bb_nCapacity b \<noteq> 0" "n \<le> bb_nCapacity b"
    by fastforce
  then show ?thesis
  proof cases
    case fresh
    let ?h1 = "h\<lparr>ch_blocks := (ch_blocks h)(ch_brk h \<mapsto> replicate (unat n) (ch_fill h)),
                 ch_brk := Suc (ch_brk h), ch_avail := ch_avail h - unat n\<rparr>"
    have "load p 0 (unat n) ?h1 = Inr new"
      using fetch_frame [of "Ptr p" "unat n" h new ?h1] src pb by simp
    note cp = memcpy_at [where s = "Ptr p" and off = 0, simplified, OF this, of "ch_brk h" "replicate (unat n) (ch_fill h)"]
    have cap: "bb_bOwner b \<Longrightarrow> bb_nCapacity b < n" using fresh n by (auto simp: word_neq_0_conv)
    show ?thesis
      using fresh n src(2) av cap brk0 cp len ok fr pb
      by (auto simp: CByteBuffer_data_def malloc_okD bb_bytes_def bb_ok_def bb_frame_def
            cheap_ok_def less_Suc_eq)
  next
    case grow
    obtain old where old: "ch_blocks h (bb_szData b) = Some old"
        "unat (bb_nCapacity b) \<le> length old" "bb_szData b \<noteq> NULL"
      using grow ok(1) by (auto simp: bb_ok_def split: if_splits)
    let ?new = "take (unat n) old @ replicate (unat n - length old) (ch_fill h)"
    let ?h1 = "h\<lparr>ch_blocks := (ch_blocks h)(bb_szData b := None, ch_brk h \<mapsto> ?new),
                 ch_brk := Suc (ch_brk h), ch_avail := ch_avail h + length old - unat n\<rparr>"
    have re: "realloc (bb_szData b) (unat n) h = Inr (ch_brk h, ?h1)"
      using old n0 av by (simp add: realloc_def)
    have lnew: "length ?new = unat n"
      using grow(3) old(2) by (simp add: word_less_nat_alt)
    have "load p 0 (unat n) ?h1 = Inr new"
      using fetch_frame [of "Ptr p" "unat n" h new ?h1] src pb by simp
    note cp = memcpy_at [where s = "Ptr p" and off = 0, simplified, OF this, of "ch_brk h" ?new]
    show ?thesis
      using grow n src(2) brk0 cp lnew re len ok(2) old fr
      by (auto simp: CByteBuffer_data_def bb_bytes_def bb_ok_def bb_frame_def
            cheap_ok_def less_Suc_eq)
  next
    case fits
    obtain old where old: "ch_blocks h (bb_szData b) = Some old"
        "unat (bb_nCapacity b) \<le> length old" "bb_szData b \<noteq> NULL"
      using fits ok(1) by (auto simp: bb_ok_def split: if_splits)
    have le: "unat n \<le> length old" using fits(3) old(2) by (simp add: word_le_nat_alt)
    note cp = memcpy_at [where s = "Ptr p" and off = 0, simplified, OF src(1) old(1) le old(3)[simplified]]
    show ?thesis
      using fits n src(2) cp len ok(2) old le
      by (auto simp: CByteBuffer_data_def bb_bytes_def bb_ok_def bb_frame_def cheap_ok_def)
  qed
qed

text \<open>Taking over a block: the old own block is freed, nothing is copied.\<close>

lemma CByteBuffer_data_take:
  assumes ok: "bb_ok b h" "cheap_ok h" and n: "n \<noteq> 0" and p: "p \<noteq> bb_szData b"
  shows "\<exists>h'. CByteBuffer_data p n False b h =
           Inr (\<lparr>bb_nSize = n, bb_nCapacity = n, bb_bOwner = False, bb_szData = p\<rparr>, h') \<and>
           cheap_ok h' \<and> ch_avail h \<le> ch_avail h' \<and> ch_brk h' = ch_brk h \<and> ch_fill h' = ch_fill h \<and>
           ch_blocks h' = (if bb_bOwner b then (ch_blocks h)(bb_szData b := None) else ch_blocks h)"
proof (cases "bb_bOwner b \<and> bb_szData b \<noteq> NULL")
  case True
  then obtain bs where "ch_blocks h (bb_szData b) = Some bs"
    using ok(1) by (auto simp: bb_ok_def)
  with True show ?thesis
    using n p ok(2) by (auto simp: CByteBuffer_data_def free_def cheap_ok_def)
next
  case False
  have "ch_blocks h NULL = None" using ok(2) by (auto simp: cheap_ok_def)
  then have "(ch_blocks h)(NULL := None) = ch_blocks h" by (simp add: fun_upd_idem)
  with False show ?thesis
    using n p ok by (auto simp: CByteBuffer_data_def)
qed

lemma CByteBuffer_clear_ok:
  assumes "bb_ok b h" "cheap_ok h"
  shows "\<exists>h'. CByteBuffer_clear b h = Inr (CByteBuffer_new, h') \<and> cheap_ok h' \<and>
           ch_avail h \<le> ch_avail h' \<and>
           ch_blocks h' = (if bb_bOwner b then (ch_blocks h)(bb_szData b := None) else ch_blocks h)"
proof (cases "bb_bOwner b \<and> bb_szData b \<noteq> NULL")
  case True
  then obtain bs where "ch_blocks h (bb_szData b) = Some bs"
    using assms(1) by (auto simp: bb_ok_def)
  with True show ?thesis
    using assms(2) by (auto simp: CByteBuffer_clear_def CByteBuffer_new_def free_def cheap_ok_def)
next
  case False
  have "ch_blocks h NULL = None" using assms(2) by (auto simp: cheap_ok_def)
  then have "(ch_blocks h)(NULL := None) = ch_blocks h" by (simp add: fun_upd_idem)
  with False show ?thesis
    using assms by (auto simp: CByteBuffer_clear_def CByteBuffer_new_def)
qed

text \<open>The growth formula never yields less than what the new contents need, as long as the
  capacity and the addition stay below two gigabytes together.\<close>

lemma new_capacity_bounds:
  assumes "unat cap + unat n < 2 ^ 31"
  shows "unat cap + unat n \<le> unat (CByteBuffer_new_capacity cap mult n)"
proof -
  define x where "x = cap * mult div 100"
  have x: "unat x \<le> 42949672"
  proof -
    have "unat x = unat (cap * mult) div 100" by (simp add: x_def unat_div)
    also have "\<dots> \<le> 4294967295 div 100"
      using u32_le [of "cap * mult"] by (intro div_le_mono) simp
    finally show ?thesis by simp
  qed
  have m: "unat (max x n) = max (unat x) (unat n)"
    by (simp add: max_def word_le_nat_alt)
  have lt: "unat cap + unat (max x n) < 2 ^ 32"
    using x m assms by (auto simp: max_def)
  then have "unat (cap + max x n) = unat cap + unat (max x n)"
    by (simp add: unat_add_lem [symmetric])
  then show ?thesis
    using m by (simp add: CByteBuffer_new_capacity_def x_def)
qed

lemma bb_old_block:
  assumes "bb_ok b h" "bb_bOwner b" "cheap_ok h"
  obtains old where "unat (bb_nCapacity b) \<le> length old" "unat (bb_nSize b) \<le> length old"
    "bb_bytes b h = take (unat (bb_nSize b)) old"
    "load (bb_szData b) 0 (unat (bb_nSize b)) h = Inr (bb_bytes b h)"
    "bb_szData b \<noteq> NULL \<Longrightarrow> ch_blocks h (bb_szData b) = Some old"
proof (cases "bb_szData b = NULL")
  case True
  then have "ch_blocks h (bb_szData b) = None" using assms(3) by (auto simp: cheap_ok_def)
  then have "bb_bytes b h = []" "bb_nSize b = 0" "bb_nCapacity b = 0"
    using assms True by (auto simp: bb_ok_def bb_bytes_def)
  then show ?thesis using True that [of "[]"] by (simp add: load_def)
next
  case False
  then obtain old where "ch_blocks h (bb_szData b) = Some old" "unat (bb_nCapacity b) \<le> length old"
      "bb_nSize b \<le> bb_nCapacity b"
    using assms by (auto simp: bb_ok_def)
  then show ?thesis
    using False by (intro that [of old]) (auto simp: bb_bytes_def load_def word_le_nat_alt)
qed

lemma CByteBuffer_append_ok:
  assumes ok: "bb_ok b h" "cheap_ok h" "bb_bOwner b"
    and n: "n \<noteq> 0" and room: "unat (bb_nCapacity b) + unat n < 2 ^ 31"
    and av: "unat (CByteBuffer_new_capacity (bb_nCapacity b) mult n) \<le> ch_avail h"
    and src: "fetch s (unat n) h = Inr new"
  shows "\<exists>b' h'. CByteBuffer_append s n mult b h = Inr (True, b', h') \<and>
           bb_bytes b' h' = bb_bytes b h @ new \<and> bb_nSize b' = bb_nSize b + n \<and>
           bb_bOwner b' \<and> bb_ok b' h' \<and> cheap_ok h'"
proof -
  have n0: "0 < unat n" using n by (rule unat_gt_0_u32)
  have len: "length new = unat n" using src by (rule length_fetch)
  with n0 have new0: "new \<noteq> []" by auto
  obtain old where old: "unat (bb_nCapacity b) \<le> length old" "unat (bb_nSize b) \<le> length old"
    "bb_bytes b h = take (unat (bb_nSize b)) old"
    "load (bb_szData b) 0 (unat (bb_nSize b)) h = Inr (bb_bytes b h)"
    "bb_szData b \<noteq> NULL \<Longrightarrow> ch_blocks h (bb_szData b) = Some old"
    using bb_old_block [OF ok(1,3,2)] by blast
  have sc: "unat (bb_nSize b) \<le> unat (bb_nCapacity b)"
    using ok(1,3) by (simp add: bb_ok_def word_le_nat_alt)
  have sum: "unat (bb_nSize b + n) = unat (bb_nSize b) + unat n"
    using sc room by (intro unat_add_lem [THEN iffD1]) simp
  have max: "\<not> CByteBuffer_max_size - bb_nSize b < n"
  proof -
    have "unat (CByteBuffer_max_size - bb_nSize b) = 4294967295 - unat (bb_nSize b)"
      by (simp add: CByteBuffer_max_size_def unat_max_minus_u32)
    with sc room show ?thesis by (simp add: word_less_nat_alt)
  qed
  show ?thesis
  proof (cases "bb_nSize b + n \<le> bb_nCapacity b")
    case True
    then have fit: "unat (bb_nSize b) + unat n \<le> length old"
      using sum old(1) by (simp add: word_le_nat_alt)
    have nn: "bb_szData b \<noteq> NULL"
    proof
      assume "bb_szData b = NULL"
      then have "bb_nCapacity b = 0" using ok(1,3) by (simp add: bb_ok_def)
      with True sum n0 show False by (simp add: word_le_nat_alt)
    qed
    have st: "store (bb_szData b) (unat (bb_nSize b)) new h = Inr (h\<lparr>ch_blocks :=
        (ch_blocks h)(bb_szData b \<mapsto> take (unat (bb_nSize b)) old @ new @
           drop (unat (bb_nSize b) + length new) old)\<rparr>)"
      using old(5) [OF nn] fit len nn new0 by (intro store_at) auto
    show ?thesis
      using True ok(2,3) n max src st len fit old sum
      by (auto simp: CByteBuffer_append_def memcpy_def bb_ok_def cheap_ok_def bb_bytes_def
            word_le_nat_alt nn)
  next
    case False
    let ?cap = "CByteBuffer_new_capacity (bb_nCapacity b) mult n"
    let ?q = "ch_brk h"
    have cap: "unat (bb_nSize b) + unat n \<le> unat ?cap"
      using new_capacity_bounds [OF room, of mult] sc by simp
    have q0: "?q \<noteq> NULL" "bb_szData b \<noteq> ?q"
      using ok(2) old(5) fresh_brk [OF ok(2)] by (auto simp: cheap_ok_def)
    obtain h1 where m: "malloc (unat ?cap) h = (?q, h1)"
      "ch_blocks h1 ?q = Some (replicate (unat ?cap) (ch_fill h))"
      "cheap_ok h1" "\<And>p. p \<noteq> ?q \<Longrightarrow> ch_blocks h1 p = ch_blocks h p"
      using av ok(2) by (auto simp: malloc_okD cheap_ok_def less_Suc_eq)
    obtain h2 h3 c where cp: "memcpy ?q 0 (Ptr (bb_szData b)) (unat (bb_nSize b)) h1 = Inr h2"
      "memcpy ?q (unat (bb_nSize b)) s (unat n) h2 = Inr h3" "cheap_ok h3"
      "\<And>p. p \<noteq> ?q \<Longrightarrow> ch_blocks h3 p = ch_blocks h p" "ch_blocks h3 ?q = Some c"
      "length c = unat ?cap" "take (unat (bb_nSize b) + unat n) c = bb_bytes b h @ new"
      using memcpy_twice [of "Ptr (bb_szData b)", simplified, OF old(4) src m(2)] cap q0 m
        fresh_brk [OF ok(2)] by auto
    obtain h4 where h4: "(if bb_szData b \<noteq> NULL then free (bb_szData b) h3 else Inr h3) = Inr h4"
      "cheap_ok h4" "ch_blocks h4 ?q = Some c"
    proof (cases "bb_szData b = NULL")
      case True
      then show ?thesis using that cp by simp
    next
      case False
      then have "ch_blocks h3 (bb_szData b) = Some old" using old(5) q0 cp(4) by simp
      then show ?thesis using False that free_live [OF cp(3)] q0 cp(5) by fastforce
    qed
    have "CByteBuffer_append s n mult b h = Inr (True,
        b\<lparr>bb_szData := ?q, bb_nCapacity := ?cap, bb_nSize := bb_nSize b + n\<rparr>, h4)"
      using False ok(3) n max m(1) cp(1,2) h4(1)
      by (simp add: CByteBuffer_append_def Let_def split del: if_split)
    then show ?thesis
      using h4 cp(6,7) cap sum q0 ok(3) by (auto simp: bb_bytes_def bb_ok_def word_le_nat_alt)
  qed
qed

section \<open>Several buffers on one heap\<close>

text \<open>
  A family of buffers \<open>f\<close>, indexed by the addresses in \<open>P\<close>, is well formed if each buffer
  is and no block has two owners.
\<close>

fun bb_block :: "CByteBuffer option \<Rightarrow> addr option" where
  "bb_block None = None"
| "bb_block (Some b) = (if bb_bOwner b \<and> bb_szData b \<noteq> NULL then Some (bb_szData b) else None)"

lemma Some_eq_block: "Some a = bb_block x \<longleftrightarrow> bb_block x = Some a"
  by auto

definition bufs_ok :: "(addr \<Rightarrow> CByteBuffer option) \<Rightarrow> cheap \<Rightarrow> addr set \<Rightarrow> bool" where
  "bufs_ok f h P \<longleftrightarrow> cheap_ok h \<and>
     (\<forall>p \<in> P. \<exists>b. f p = Some b \<and> bb_ok b h) \<and>
     (\<forall>p \<in> P. \<forall>q \<in> P. p \<noteq> q \<longrightarrow> bb_block (f p) \<noteq> None \<longrightarrow> bb_block (f p) \<noteq> bb_block (f q))"

lemma bufs_okD:
  assumes "bufs_ok f h P"
  shows "cheap_ok h" "p \<in> P \<Longrightarrow> f p = Some b \<Longrightarrow> bb_ok b h"
    "p \<in> P \<Longrightarrow> q \<in> P \<Longrightarrow> p \<noteq> q \<Longrightarrow> bb_block (f p) = Some a \<Longrightarrow> bb_block (f q) \<noteq> Some a"
  using assms by (fastforce simp: bufs_ok_def)+

lemma bufs_ok_block_live:
  assumes "bufs_ok f h P" "p \<in> P" "bb_block (f p) = Some a"
  shows "\<exists>bs. ch_blocks h a = Some bs"
  using assms by (fastforce simp: bufs_ok_def bb_ok_def split: if_splits)

lemma bufs_ok_cong:
  "bufs_ok f h P \<Longrightarrow> Q \<subseteq> P \<Longrightarrow> (\<And>p. p \<in> Q \<Longrightarrow> f p = g p) \<Longrightarrow> bufs_ok g h Q"
  unfolding bufs_ok_def by (metis subsetD)

text \<open>Fresh buffers may join the family.\<close>

lemma bufs_ok_join:
  assumes "bufs_ok f h P" "\<And>p. p \<in> Q \<Longrightarrow> p \<in> P \<and> g p = f p \<or> g p = Some CByteBuffer_new"
  shows "bufs_ok g h Q"
  unfolding bufs_ok_def
proof (intro conjI ballI impI)
  show "cheap_ok h" using assms(1) by (rule bufs_okD)
  show "\<exists>b. g p = Some b \<and> bb_ok b h" if "p \<in> Q" for p
    using assms(2) [OF that] assms(1) bb_ok_new by (auto simp: bufs_ok_def)
  have n: "bb_block (Some CByteBuffer_new) = None" by (simp add: CByteBuffer_new_def)
  show "bb_block (g p) \<noteq> bb_block (g q)"
    if "p \<in> Q" "q \<in> Q" "p \<noteq> q" "bb_block (g p) \<noteq> None" for p q
    using assms(2) [OF that(1)] assms(2) [OF that(2)] that(3,4) assms(1) n
    by (fastforce simp: bufs_ok_def simp del: bb_block.simps)
qed

text \<open>One buffer of the family takes a copy of foreign bytes: the others keep theirs.\<close>

lemma bufs_ok_write:
  assumes ok: "bufs_ok f h P" and p: "p \<in> P" "f p = Some b"
    and b': "bb_ok b' h'" "cheap_ok h'" "bb_frame b h b' h'"
  shows "bufs_ok (f(p \<mapsto> b')) h' P"
    and "\<And>q a. q \<in> P \<Longrightarrow> q \<noteq> p \<Longrightarrow> bb_block (f q) = Some a \<Longrightarrow> ch_blocks h' a = ch_blocks h a"
proof -
  have blk: "a \<noteq> bb_szData b' \<and> ch_blocks h' a = ch_blocks h a"
    if q: "q \<in> P" "q \<noteq> p" "bb_block (f q) = Some a" for q a
  proof -
    have a0: "a \<noteq> NULL" using q(3) by (cases "f q") (auto split: if_splits)
    have "bb_block (f p) \<noteq> Some a" using bufs_okD(3) [OF ok q(1) p(1) q(2,3)] by auto
    then have old: "\<not> (bb_bOwner b \<and> a = bb_szData b)" using p(2) a0 by auto
    obtain bs where "ch_blocks h a = Some bs" using bufs_ok_block_live [OF ok q(1,3)] by blast
    with old b'(3) have "a \<noteq> bb_szData b'" by (auto simp: bb_frame_def)
    with old b'(3) show ?thesis by (auto simp: bb_frame_def)
  qed
  then show "ch_blocks h' a = ch_blocks h a"
    if "q \<in> P" "q \<noteq> p" "bb_block (f q) = Some a" for q a using that by blast
  show "bufs_ok (f(p \<mapsto> b')) h' P"
    unfolding bufs_ok_def
  proof (intro conjI ballI impI)
    show "\<exists>bq. (f(p \<mapsto> b')) q = Some bq \<and> bb_ok bq h'" if qP: "q \<in> P" for q
    proof (cases "q = p")
      case False
      obtain bq where bq: "f q = Some bq" "bb_ok bq h"
        using ok qP by (auto simp: bufs_ok_def)
      have "ch_blocks h' (bb_szData bq) = ch_blocks h (bb_szData bq)"
        if "bb_bOwner bq" "bb_szData bq \<noteq> NULL"
        using blk [OF \<open>q \<in> P\<close> False, of "bb_szData bq"] bq(1) that by simp
      then have "bb_ok bq h'" using bq(2) by (auto simp: bb_ok_def)
      then show ?thesis using bq(1) False by simp
    qed (use b'(1) in simp)
    show "bb_block ((f(p \<mapsto> b')) q) \<noteq> bb_block ((f(p \<mapsto> b')) r)"
      if "q \<in> P" "r \<in> P" "q \<noteq> r" "bb_block ((f(p \<mapsto> b')) q) \<noteq> None" for q r
      using that blk [of q] blk [of r] bufs_okD(3) [OF ok that(1,2,3)]
      by (cases "q = p"; cases "r = p") (auto simp: Some_eq_block split: if_splits)
  qed (rule b'(2))
qed

text \<open>Buffer \<open>i\<close> takes the block of buffer \<open>j\<close> over, as \<open>Dequeue\<close> does: \<open>i\<close> frees its own
  block and becomes the owner of \<open>j\<close>'s, \<open>j\<close> keeps a pointer it does not own.\<close>

lemma bufs_ok_take:
  assumes ok: "bufs_ok f h P" and ij: "i \<in> P" "j \<in> P" "i \<noteq> j" "f i = Some bi" "f j = Some bj"
    and own: "bb_bOwner bj" "bb_szData bj \<noteq> NULL" "bb_nSize bj \<noteq> 0"
    and take: "ch_blocks h' = (if bb_bOwner bi then (ch_blocks h)(bb_szData bi := None)
                               else ch_blocks h)" "cheap_ok h'"
  defines "n \<equiv> bb_nSize bj" and "p \<equiv> bb_szData bj"
  shows "bufs_ok (f(i \<mapsto> \<lparr>bb_nSize = n, bb_nCapacity = n, bb_bOwner = True, bb_szData = p\<rparr>,
                    j \<mapsto> bj\<lparr>bb_bOwner := False\<rparr>)) h' P"
    and "ch_blocks h' p = ch_blocks h p"
    and "\<And>q a. q \<in> P \<Longrightarrow> q \<noteq> i \<Longrightarrow> bb_block (f q) = Some a \<Longrightarrow> ch_blocks h' a = ch_blocks h a"
proof -
  let ?bi = "\<lparr>bb_nSize = n, bb_nCapacity = n, bb_bOwner = True, bb_szData = p\<rparr>"
  let ?f = "f(i \<mapsto> ?bi, j \<mapsto> bj\<lparr>bb_bOwner := False\<rparr>)"
  have blk: "ch_blocks h' a = ch_blocks h a"
    if q: "q \<in> P" "q \<noteq> i" "bb_block (f q) = Some a" for q a
  proof -
    have "a \<noteq> NULL" using q(3) by (cases "f q") (auto split: if_splits)
    moreover have "bb_block (f i) \<noteq> Some a" using bufs_okD(3) [OF ok q(1) ij(1) q(2,3)] by auto
    ultimately show ?thesis using take(1) ij(4) by auto
  qed
  then show "ch_blocks h' a = ch_blocks h a"
    if "q \<in> P" "q \<noteq> i" "bb_block (f q) = Some a" for q a using that by blast
  have bj: "bb_block (f j) = Some p" using ij(5) own by (simp add: p_def)
  show pb: "ch_blocks h' p = ch_blocks h p" using blk [OF ij(2) ij(3)[symmetric] bj] .
  have bjok: "bb_ok bj h" by (rule bufs_okD(2) [OF ok ij(2,5)])
  then obtain bs where bs: "ch_blocks h p = Some bs" "unat n \<le> length bs"
    using own by (auto simp: bb_ok_def p_def n_def word_le_nat_alt)
  show "bufs_ok ?f h' P"
    unfolding bufs_ok_def
  proof (intro conjI ballI impI)
    show "\<exists>bq. ?f q = Some bq \<and> bb_ok bq h'" if qP: "q \<in> P" for q
    proof -
      consider "q = i" | "q = j" | (other) "q \<noteq> i" "q \<noteq> j" by blast
      then show ?thesis
      proof cases
        case other
        obtain bq where bq: "f q = Some bq" "bb_ok bq h"
          using ok qP by (auto simp: bufs_ok_def)
        have "ch_blocks h' (bb_szData bq) = ch_blocks h (bb_szData bq)"
          if "bb_bOwner bq" "bb_szData bq \<noteq> NULL"
          using blk [OF \<open>q \<in> P\<close> other(1), of "bb_szData bq"] bq(1) that by simp
        then have "bb_ok bq h'" using bq(2) by (auto simp: bb_ok_def)
        then show ?thesis using bq(1) other by simp
      qed (use pb bs ij(3) own(2) in \<open>auto simp: bb_ok_def p_def\<close>)
    qed
    have jn: "bb_block (?f j) = None" by simp
    have ib: "bb_block (?f i) = Some p" using own(2) ij(3) by (simp add: p_def)
    have keep: "q \<noteq> i \<Longrightarrow> q \<noteq> j \<Longrightarrow> ?f q = f q" for q by simp
    show "bb_block (?f q) \<noteq> bb_block (?f r)"
      if qr: "q \<in> P" "r \<in> P" "q \<noteq> r" "bb_block (?f q) \<noteq> None" for q r
    proof -
      have "bb_block (f q) \<noteq> Some p" if "q \<noteq> j" "q \<in> P" for q
        using that bufs_okD(3) [OF ok ij(2) that(2) _ bj] by auto
      then show ?thesis
        using qr jn ib bufs_okD(3) [OF ok qr(1,2,3)] keep
        by (cases "q = i"; cases "r = i"; cases "r = j") (auto simp: Some_eq_block simp del: bb_block.simps)
    qed
  qed (rule take(2))
qed

text \<open>A buffer of the family is cleared and leaves it.\<close>

lemma bufs_ok_clear:
  assumes ok: "bufs_ok f h P" and p: "p \<in> P" "f p = Some b"
  shows "\<exists>h'. CByteBuffer_clear b h = Inr (CByteBuffer_new, h') \<and> bufs_ok f h' (P - {p}) \<and>
           (\<forall>q \<in> P - {p}. \<forall>a. bb_block (f q) = Some a \<longrightarrow> ch_blocks h' a = ch_blocks h a)"
proof -
  obtain h' where h': "CByteBuffer_clear b h = Inr (CByteBuffer_new, h')" "cheap_ok h'"
    "ch_blocks h' = (if bb_bOwner b then (ch_blocks h)(bb_szData b := None) else ch_blocks h)"
    using CByteBuffer_clear_ok [OF bufs_okD(2) [OF ok p] bufs_okD(1) [OF ok]] by blast
  have blk: "ch_blocks h' a = ch_blocks h a" if q: "q \<in> P - {p}" "bb_block (f q) = Some a" for q a
  proof -
    have "a \<noteq> NULL" using q(2) by (cases "f q") (auto split: if_splits)
    moreover have "bb_block (f p) \<noteq> Some a" using bufs_okD(3) [OF ok _ p(1) _ q(2)] q(1) by auto
    ultimately show ?thesis using h'(3) p(2) by auto
  qed
  have "\<exists>bq. f q = Some bq \<and> bb_ok bq h'" if q: "q \<in> P - {p}" for q
  proof -
    obtain bq where bq: "f q = Some bq" "bb_ok bq h" using ok q by (auto simp: bufs_ok_def)
    have "ch_blocks h' (bb_szData bq) = ch_blocks h (bb_szData bq)"
      if "bb_bOwner bq" "bb_szData bq \<noteq> NULL"
      using blk [OF q, of "bb_szData bq"] bq(1) that by simp
    then show ?thesis using bq by (auto simp: bb_ok_def)
  qed
  then have "bufs_ok f h' (P - {p})" using ok h'(2) by (simp add: bufs_ok_def)
  with h' blk show ?thesis by blast
qed

section \<open>Properties\<close>


text \<open>
  \<open>append\<close> on a well-formed owning buffer whose contents stay below two gigabytes puts
  the new bytes behind the old ones, growing the block when they do not fit, and keeps the
  buffer well formed.
\<close>

theorem byte_buffer_append_extends:
  assumes "bb_ok b h" "cheap_ok h" "bb_bOwner b" "n \<noteq> 0"
    and "unat (bb_nCapacity b) + unat n < 2 ^ 31"
    and "unat (CByteBuffer_new_capacity (bb_nCapacity b) mult n) \<le> ch_avail h"
    and "fetch s (unat n) h = Inr new"
  shows "\<exists>b' h'. CByteBuffer_append s n mult b h = Inr (True, b', h') \<and>
           bb_bytes b' h' = bb_bytes b h @ new \<and> bb_nSize b' = bb_nSize b + n \<and>
           bb_bOwner b' \<and> bb_ok b' h' \<and> cheap_ok h'"
  using CByteBuffer_append_ok [OF assms] .

definition bb_demo_heap :: cheap where
  "bb_demo_heap = \<lparr>ch_blocks = [1 \<mapsto> [10, 20, 30], 2 \<mapsto> [1]], ch_brk = 3, ch_avail = 100, ch_fill = 0\<rparr>"

definition bb_demo :: CByteBuffer where
  "bb_demo = \<lparr>bb_nSize = 1, bb_nCapacity = 1, bb_bOwner = True, bb_szData = 2\<rparr>"


lemma byte_buffer_append_extends_witness:
  "\<exists>b' h'. CByteBuffer_append (Imm [7, 8]) 2 100 bb_demo bb_demo_heap = Inr (True, b', h') \<and>
     bb_bytes b' h' = bb_bytes bb_demo bb_demo_heap @ [7, 8] \<and> bb_nSize b' = bb_nSize bb_demo + 2 \<and>
     bb_bOwner b' \<and> bb_ok b' h' \<and> cheap_ok h'"
  by (rule byte_buffer_append_extends)
    (auto simp: bb_demo_def bb_demo_heap_def bb_ok_def cheap_ok_def CByteBuffer_new_capacity_def
      split: if_splits)

end
