(* ===== verification/SmallObjectPool.thy ===== *)
theory SmallObjectPool
  imports Prelude
begin

text \<open>
  \<open>CSmallObjectPool\<close> and \<open>CSmallObjectPoolEx\<close> of slext/SmallObjectPool.h: free lists of
  objects obtained with \<open>new\<close>. Objects live in an \<open>objheap\<close>, which maps the address of
  every live object to its value; addresses are not reused. Deleting an object runs its
  destructor, a function argument \<open>dtor\<close> on the rest of the state (for a queue node it
  frees the node's byte buffer). Each method runs under the pool's mutex from its first to
  its last statement, so it is one step here; the mutex itself is in theory Sync.

  The locale \<open>object_pool\<close> is the contract between a pool and its users: an object that
  has been popped is live, is in nobody else's hands and stays so until it is pushed back; a
  \<open>pop\<close> that fails returns NULL. Both classes are interpretations of it, and so is the pool
  of send buffers in theory SendPool.
\<close>

section \<open>The object heap\<close>

record ('o, 'w) objheap =
  oh_objs :: "addr \<Rightarrow> 'o option"
  oh_next :: addr
  oh_arrays :: "addr \<Rightarrow> nat option"
  oh_world :: 'w

definition objheap_ok :: "('o, 'w) objheap \<Rightarrow> bool" where
  "objheap_ok m \<longleftrightarrow> 0 < oh_next m \<and> (\<forall>p. oh_objs m p \<noteq> None \<longrightarrow> 0 < p \<and> p < oh_next m) \<and>
     (\<forall>p. oh_arrays m p \<noteq> None \<longrightarrow> p < oh_next m)"

definition new_obj :: "'o \<Rightarrow> ('o, 'w) objheap \<Rightarrow> addr \<times> ('o, 'w) objheap" where
  "new_obj mk m =
     (oh_next m, m\<lparr>oh_objs := (oh_objs m)(oh_next m \<mapsto> mk), oh_next := Suc (oh_next m)\<rparr>)"

definition delete_obj ::
    "('o \<Rightarrow> 'w \<Rightarrow> cerror + 'w) \<Rightarrow> addr \<Rightarrow> ('o, 'w) objheap \<Rightarrow> cerror + ('o, 'w) objheap" where
  "delete_obj dtor p m =
     (if p = NULL then Inr m
      else case oh_objs m p of
        None \<Rightarrow> Inl DoubleFree
      | Some ob \<Rightarrow> rbind (dtor ob (oh_world m))
                    (\<lambda>w. Inr (m\<lparr>oh_objs := (oh_objs m)(p := None), oh_world := w\<rparr>)))"

text \<open>\<open>new T[n]\<close>: \<open>n\<close> objects at consecutive addresses; the array's length is kept with it,
  as the run-time system does for \<open>delete[]\<close>.\<close>

definition new_array :: "'o \<Rightarrow> nat \<Rightarrow> ('o, 'w) objheap \<Rightarrow> addr \<times> ('o, 'w) objheap" where
  "new_array mk n m =
     (let a = oh_next m
      in (a, m\<lparr>oh_objs := (\<lambda>p. if a \<le> p \<and> p < a + n then Some mk else oh_objs m p),
               oh_next := a + max 1 n, oh_arrays := (oh_arrays m)(a \<mapsto> n)\<rparr>))"

fun delete_elems ::
    "('o \<Rightarrow> 'w \<Rightarrow> cerror + 'w) \<Rightarrow> addr list \<Rightarrow> ('o, 'w) objheap \<Rightarrow> cerror + ('o, 'w) objheap" where
  "delete_elems dtor [] m = Inr m"
| "delete_elems dtor (p # ps) m = rbind (delete_obj dtor p m) (delete_elems dtor ps)"

definition delete_array ::
    "('o \<Rightarrow> 'w \<Rightarrow> cerror + 'w) \<Rightarrow> addr \<Rightarrow> ('o, 'w) objheap \<Rightarrow> cerror + ('o, 'w) objheap" where
  "delete_array dtor a m =
     (case oh_arrays m a of
        None \<Rightarrow> Inl DoubleFree
      | Some n \<Rightarrow> rbind (delete_elems dtor (rev [a..<a + n]) m)
                   (\<lambda>m'. Inr (m'\<lparr>oh_arrays := (oh_arrays m')(a := None)\<rparr>)))"

text \<open>Reading and writing an object through a pointer.\<close>

definition get_obj :: "addr \<Rightarrow> ('o, 'w) objheap \<Rightarrow> cerror + 'o" where
  "get_obj p m =
     (if p = NULL then Inl NullDeref
      else case oh_objs m p of None \<Rightarrow> Inl UseAfterFree | Some ob \<Rightarrow> Inr ob)"

definition put_obj :: "addr \<Rightarrow> 'o \<Rightarrow> ('o, 'w) objheap \<Rightarrow> ('o, 'w) objheap" where
  "put_obj p ob m = m\<lparr>oh_objs := (oh_objs m)(p \<mapsto> ob)\<rparr>"

section \<open>CSmallObjectPool\<close>

record CSmallObjectPool =
  sp_nMaxCount :: u32
  sp_nGrowCount :: u32
  sp_lstFreeObj :: "addr list"

type_synonym ('o, 'w) pool_state = "CSmallObjectPool \<times> ('o, 'w) objheap"

definition CSmallObjectPool_new :: CSmallObjectPool where
  "CSmallObjectPool_new = \<lparr>sp_nMaxCount = 100, sp_nGrowCount = 1, sp_lstFreeObj = []\<rparr>"

definition CSmallObjectPool_clear ::
    "('o \<Rightarrow> 'w \<Rightarrow> cerror + 'w) \<Rightarrow> ('o, 'w) pool_state \<Rightarrow> cerror + ('o, 'w) pool_state" where
  "CSmallObjectPool_clear dtor s =
     (case s of (pl, m) \<Rightarrow>
        rbind (delete_elems dtor (sp_lstFreeObj pl) m)
          (\<lambda>m'. Inr (pl\<lparr>sp_lstFreeObj := []\<rparr>, m')))"

fun CSmallObjectPool_Alloc :: "'o \<Rightarrow> nat \<Rightarrow> ('o, 'w) pool_state \<Rightarrow> ('o, 'w) pool_state" where
  "CSmallObjectPool_Alloc mk 0 s = s"
| "CSmallObjectPool_Alloc mk (Suc n) (pl, m) =
     (let (pObj, m1) = new_obj mk m
      in CSmallObjectPool_Alloc mk n (pl\<lparr>sp_lstFreeObj := sp_lstFreeObj pl @ [pObj]\<rparr>, m1))"

definition CSmallObjectPool_init ::
    "'o \<Rightarrow> ('o \<Rightarrow> 'w \<Rightarrow> cerror + 'w) \<Rightarrow> u32 \<Rightarrow> u32 \<Rightarrow> u32 \<Rightarrow>
     ('o, 'w) pool_state \<Rightarrow> cerror + ('o, 'w) pool_state" where
  "CSmallObjectPool_init mk dtor nMaxCount nInitCount nGrowCount s =
     (let nGrowCount' = (if nGrowCount < 1 then 1 else nGrowCount)
      in rbind (CSmallObjectPool_clear dtor s)
           (\<lambda>(pl, m). Inr (CSmallObjectPool_Alloc mk (unat nInitCount)
              (pl\<lparr>sp_nMaxCount := nMaxCount, sp_nGrowCount := nGrowCount'\<rparr>, m))))"

definition CSmallObjectPool_pop ::
    "'o \<Rightarrow> ('o, 'w) pool_state \<Rightarrow> cerror + addr \<times> ('o, 'w) pool_state" where
  "CSmallObjectPool_pop mk s =
     (case s of (pl, m) \<Rightarrow>
        case sp_lstFreeObj pl of
          pObj # rest \<Rightarrow> Inr (pObj, pl\<lparr>sp_lstFreeObj := rest\<rparr>, m)
        | [] \<Rightarrow> let (pObj, m1) = new_obj mk m
                in Inr (pObj, CSmallObjectPool_Alloc mk (unat (sp_nGrowCount pl)) (pl, m1)))"

definition CSmallObjectPool_push ::
    "('o \<Rightarrow> 'w \<Rightarrow> cerror + 'w) \<Rightarrow> addr \<Rightarrow> ('o, 'w) pool_state \<Rightarrow> cerror + ('o, 'w) pool_state" where
  "CSmallObjectPool_push dtor pObj s =
     (case s of (pl, m) \<Rightarrow>
        if length (sp_lstFreeObj pl) < unat (sp_nMaxCount pl)
        then Inr (pl\<lparr>sp_lstFreeObj := sp_lstFreeObj pl @ [pObj]\<rparr>, m)
        else rbind (delete_obj dtor pObj m) (\<lambda>m'. Inr (pl, m')))"

section \<open>CSmallObjectPoolEx\<close>

record CSmallObjectPoolEx =
  spx_nMaxCount :: u32
  spx_nInitCount :: u32
  spx_nGrowCount :: u32
  spx_lstFreeObj :: "addr list"
  spx_lstAllObj :: "addr list"

type_synonym ('o, 'w) poolx_state = "CSmallObjectPoolEx \<times> ('o, 'w) objheap"

text \<open>The constructor leaves \<open>m_nInitCount\<close> uninitialised: its value is an argument.\<close>

definition CSmallObjectPoolEx_new :: "u32 \<Rightarrow> CSmallObjectPoolEx" where
  "CSmallObjectPoolEx_new garbage =
     \<lparr>spx_nMaxCount = 100, spx_nInitCount = garbage, spx_nGrowCount = 1,
      spx_lstFreeObj = [], spx_lstAllObj = []\<rparr>"

fun delete_arrays ::
    "('o \<Rightarrow> 'w \<Rightarrow> cerror + 'w) \<Rightarrow> addr list \<Rightarrow> ('o, 'w) objheap \<Rightarrow> cerror + ('o, 'w) objheap" where
  "delete_arrays dtor [] m = Inr m"
| "delete_arrays dtor (a # as) m = rbind (delete_array dtor a m) (delete_arrays dtor as)"

definition CSmallObjectPoolEx_clear ::
    "('o \<Rightarrow> 'w \<Rightarrow> cerror + 'w) \<Rightarrow> ('o, 'w) poolx_state \<Rightarrow> cerror + ('o, 'w) poolx_state" where
  "CSmallObjectPoolEx_clear dtor s =
     (case s of (pl, m) \<Rightarrow>
        rbind (delete_arrays dtor (spx_lstAllObj pl) m)
          (\<lambda>m'. Inr (pl\<lparr>spx_lstFreeObj := [], spx_lstAllObj := []\<rparr>, m')))"

definition CSmallObjectPoolEx_Alloc ::
    "'o \<Rightarrow> u32 \<Rightarrow> ('o, 'w) poolx_state \<Rightarrow> ('o, 'w) poolx_state" where
  "CSmallObjectPoolEx_Alloc mk nCount s =
     (case s of (pl, m) \<Rightarrow>
        let (pObj, m1) = new_array mk (unat nCount) m
        in (pl\<lparr>spx_lstFreeObj := spx_lstFreeObj pl @ [pObj..<pObj + unat nCount],
               spx_lstAllObj := spx_lstAllObj pl @ [pObj]\<rparr>, m1))"

definition CSmallObjectPoolEx_init ::
    "'o \<Rightarrow> ('o \<Rightarrow> 'w \<Rightarrow> cerror + 'w) \<Rightarrow> u32 \<Rightarrow> u32 \<Rightarrow> u32 \<Rightarrow>
     ('o, 'w) poolx_state \<Rightarrow> cerror + ('o, 'w) poolx_state" where
  "CSmallObjectPoolEx_init mk dtor nMaxCount nInitCount nGrowCount s =
     (let nGrowCount' = (if nGrowCount < 1 then 1 else nGrowCount)
      in rbind (CSmallObjectPoolEx_clear dtor s)
           (\<lambda>(pl, m). Inr (CSmallObjectPoolEx_Alloc mk nInitCount
              (pl\<lparr>spx_nMaxCount := nMaxCount, spx_nInitCount := nInitCount,
                  spx_nGrowCount := nGrowCount'\<rparr>, m))))"

text \<open>Taking the front of an empty list is undefined behaviour.\<close>

definition CSmallObjectPoolEx_pop ::
    "'o \<Rightarrow> ('o, 'w) poolx_state \<Rightarrow> cerror + addr \<times> ('o, 'w) poolx_state" where
  "CSmallObjectPoolEx_pop mk s =
     (case s of (pl, m) \<Rightarrow>
        case spx_lstFreeObj pl of
          pObj # rest \<Rightarrow> Inr (pObj, pl\<lparr>spx_lstFreeObj := rest\<rparr>, m)
        | [] \<Rightarrow> let (pl1, m1) = CSmallObjectPoolEx_Alloc mk (spx_nGrowCount pl) (pl, m)
                in case spx_lstFreeObj pl1 of
                     pObj # rest \<Rightarrow> Inr (pObj, pl1\<lparr>spx_lstFreeObj := rest\<rparr>, m1)
                   | [] \<Rightarrow> Inl OutOfBounds)"

definition CSmallObjectPoolEx_push ::
    "addr \<Rightarrow> ('o, 'w) poolx_state \<Rightarrow> cerror + ('o, 'w) poolx_state" where
  "CSmallObjectPoolEx_push pObj s =
     (case s of (pl, m) \<Rightarrow> Inr (pl\<lparr>spx_lstFreeObj := spx_lstFreeObj pl @ [pObj]\<rparr>, m))"

section \<open>The contract of an object pool\<close>

locale object_pool =
  fixes pop :: "'s \<Rightarrow> cerror + addr \<times> 's"
    and push :: "addr \<Rightarrow> 's \<Rightarrow> cerror + 's"
    and free_objs :: "'s \<Rightarrow> addr list"
    and live :: "'s \<Rightarrow> addr \<Rightarrow> bool"
    and pool_ok :: "'s \<Rightarrow> bool"
  assumes ok_distinct: "pool_ok s \<Longrightarrow> distinct (free_objs s)"
    and ok_live: "pool_ok s \<Longrightarrow> p \<in> set (free_objs s) \<Longrightarrow> live s p"
    and pop_total: "pool_ok s \<Longrightarrow> \<exists>p s'. pop s = Inr (p, s')"
    and pop_ok: "pool_ok s \<Longrightarrow> pop s = Inr (p, s') \<Longrightarrow> pool_ok s'"
    and pop_live: "pool_ok s \<Longrightarrow> pop s = Inr (p, s') \<Longrightarrow> p \<noteq> NULL \<Longrightarrow> live s' p"
    and pop_taken: "pool_ok s \<Longrightarrow> pop s = Inr (p, s') \<Longrightarrow> p \<noteq> NULL \<Longrightarrow> p \<notin> set (free_objs s')"
    and pop_source: "pool_ok s \<Longrightarrow> pop s = Inr (p, s') \<Longrightarrow> p \<noteq> NULL \<Longrightarrow>
                       p \<in> set (free_objs s) \<or> \<not> live s p"
    and pop_keeps: "pool_ok s \<Longrightarrow> pop s = Inr (p, s') \<Longrightarrow> q \<notin> set (free_objs s) \<Longrightarrow>
                      live s q \<Longrightarrow> live s' q"
    and pop_free: "pool_ok s \<Longrightarrow> pop s = Inr (p, s') \<Longrightarrow> q \<in> set (free_objs s') \<Longrightarrow>
                     q \<in> set (free_objs s) \<or> \<not> live s q"
    and push_ok: "pool_ok s \<Longrightarrow> live s p \<Longrightarrow> p \<notin> set (free_objs s) \<Longrightarrow> push p s = Inr s' \<Longrightarrow>
                    pool_ok s'"
    and push_keeps: "pool_ok s \<Longrightarrow> push p s = Inr s' \<Longrightarrow> q \<noteq> p \<Longrightarrow> live s q \<Longrightarrow> live s' q"
    and push_free: "pool_ok s \<Longrightarrow> push p s = Inr s' \<Longrightarrow> q \<in> set (free_objs s') \<Longrightarrow>
                      q = p \<or> q \<in> set (free_objs s)"

text \<open>
  A user of a pool: it pops objects and pushes back one of those it holds, by its position
  in the list of held objects.
\<close>

datatype pool_op = OpPop | OpPush nat

fun pool_step :: "('s \<Rightarrow> cerror + addr \<times> 's) \<Rightarrow> (addr \<Rightarrow> 's \<Rightarrow> cerror + 's) \<Rightarrow> pool_op \<Rightarrow>
    addr list \<times> 's \<Rightarrow> cerror + addr list \<times> 's" where
  "pool_step pop push OpPop (hs, s) =
     rbind (pop s) (\<lambda>(p, s'). Inr (if p = NULL then hs else p # hs, s'))"
| "pool_step pop push (OpPush i) (hs, s) =
     (if i < length hs
      then rbind (push (hs ! i) s) (\<lambda>s'. Inr (take i hs @ drop (Suc i) hs, s'))
      else Inr (hs, s))"

fun pool_run :: "('s \<Rightarrow> cerror + addr \<times> 's) \<Rightarrow> (addr \<Rightarrow> 's \<Rightarrow> cerror + 's) \<Rightarrow> pool_op list \<Rightarrow>
    addr list \<times> 's \<Rightarrow> cerror + addr list \<times> 's" where
  "pool_run pop push [] st = Inr st"
| "pool_run pop push (x # xs) st = rbind (pool_step pop push x st) (pool_run pop push xs)"

lemma remove_nth_facts:
  assumes "i < length hs" "distinct hs"
  shows "distinct (take i hs @ drop (Suc i) hs)"
    and "set (take i hs @ drop (Suc i) hs) = set hs - {hs ! i}"
proof -
  have eq: "hs = take i hs @ hs ! i # drop (Suc i) hs" using assms(1) by (rule id_take_nth_drop)
  show "distinct (take i hs @ drop (Suc i) hs)"
    using assms(2) by (subst (asm) eq) auto
  have "distinct (take i hs @ hs ! i # drop (Suc i) hs)" using assms(2) eq by metis
  then have "hs ! i \<notin> set (take i hs @ drop (Suc i) hs)" by simp
  moreover have "set hs = insert (hs ! i) (set (take i hs @ drop (Suc i) hs))"
    by (subst eq) auto
  ultimately show "set (take i hs @ drop (Suc i) hs) = set hs - {hs ! i}" by blast
qed

context object_pool
begin

definition exclusive :: "addr list \<Rightarrow> 's \<Rightarrow> bool" where
  "exclusive hs s \<longleftrightarrow> pool_ok s \<and> distinct hs \<and> (\<forall>p \<in> set hs. live s p \<and> p \<notin> set (free_objs s))"

lemma exclusive_step:
  assumes "exclusive hs s" "pool_step pop push x (hs, s) = Inr (hs', s')"
  shows "exclusive hs' s'"
proof (cases x)
  case OpPop
  with assms(2) obtain p where p: "pop s = Inr (p, s')" "hs' = (if p = NULL then hs else p # hs)"
    by (auto simp: res_simps)
  have ok: "pool_ok s" using assms(1) by (simp add: exclusive_def)
  have new: "p \<notin> set hs" if "p \<noteq> NULL"
    using assms(1) pop_source [OF ok p(1) that] by (auto simp: exclusive_def)
  have "q \<notin> set (free_objs s')" if "q \<in> set hs" for q
    using that assms(1) pop_free [OF ok p(1)] by (auto simp: exclusive_def)
  moreover have "live s' q" if "q \<in> set hs" for q
    using that assms(1) pop_keeps [OF ok p(1)] by (auto simp: exclusive_def)
  ultimately show ?thesis
    using assms(1) p new pop_ok [OF ok p(1)] pop_live [OF ok p(1)] pop_taken [OF ok p(1)]
    by (auto simp: exclusive_def)
next
  case (OpPush i)
  show ?thesis
  proof (cases "i < length hs")
    case True
    with assms(2) OpPush have p: "push (hs ! i) s = Inr s'" "hs' = take i hs @ drop (Suc i) hs"
      by (auto simp: res_simps)
    have ok: "pool_ok s" "distinct hs" "live s (hs ! i)" "hs ! i \<notin> set (free_objs s)"
      using assms(1) True by (auto simp: exclusive_def)
    note rm = remove_nth_facts [OF True ok(2)]
    show ?thesis
      unfolding exclusive_def p(2)
      using push_ok [OF ok(1,3,4) p(1)] rm assms(1) push_keeps [OF ok(1) p(1)]
        push_free [OF ok(1) p(1)]
      by (auto simp: exclusive_def simp del: set_append distinct_append)
  next
    case False
    with assms OpPush show ?thesis by simp
  qed
qed

lemma exclusive_run:
  "exclusive hs s \<Longrightarrow> pool_run pop push xs (hs, s) = Inr (hs', s') \<Longrightarrow> exclusive hs' s'"
proof (induction xs arbitrary: hs s)
  case (Cons x xs)
  then obtain h1 s1 where "pool_step pop push x (hs, s) = Inr (h1, s1)"
      "pool_run pop push xs (h1, s1) = Inr (hs', s')"
    by (auto simp: res_simps)
  with Cons show ?case using exclusive_step by blast
qed simp

end

section \<open>The two classes keep the contract\<close>

definition pool_live :: "('p \<times> ('o, 'w) objheap) \<Rightarrow> addr \<Rightarrow> bool" where
  "pool_live s p \<longleftrightarrow> oh_objs (snd s) p \<noteq> None"

definition sp_ok :: "('o, 'w) pool_state \<Rightarrow> bool" where
  "sp_ok s \<longleftrightarrow> objheap_ok (snd s) \<and> distinct (sp_lstFreeObj (fst s)) \<and>
     (\<forall>p \<in> set (sp_lstFreeObj (fst s)). pool_live s p)"

definition spx_ok :: "('o, 'w) poolx_state \<Rightarrow> bool" where
  "spx_ok s \<longleftrightarrow> objheap_ok (snd s) \<and> distinct (spx_lstFreeObj (fst s)) \<and>
     (\<forall>p \<in> set (spx_lstFreeObj (fst s)). pool_live s p) \<and> 0 < spx_nGrowCount (fst s)"

lemma objheap_ok_new_obj: "objheap_ok m \<Longrightarrow> new_obj mk m = (p, m') \<Longrightarrow> objheap_ok m'"
  by (auto simp: new_obj_def objheap_ok_def less_Suc_eq split: if_splits)

text \<open>\<open>Alloc\<close> appends fresh live objects to the free list.\<close>

lemma CSmallObjectPool_Alloc_spec:
  assumes "sp_ok (pl, m)"
  shows "sp_ok (CSmallObjectPool_Alloc mk n (pl, m)) \<and>
    sp_lstFreeObj (fst (CSmallObjectPool_Alloc mk n (pl, m))) =
      sp_lstFreeObj pl @ [oh_next m..<oh_next m + n] \<and>
    sp_nMaxCount (fst (CSmallObjectPool_Alloc mk n (pl, m))) = sp_nMaxCount pl \<and>
    sp_nGrowCount (fst (CSmallObjectPool_Alloc mk n (pl, m))) = sp_nGrowCount pl \<and>
    oh_world (snd (CSmallObjectPool_Alloc mk n (pl, m))) = oh_world m \<and>
    oh_objs (snd (CSmallObjectPool_Alloc mk n (pl, m))) =
      (\<lambda>p. if oh_next m \<le> p \<and> p < oh_next m + n then Some mk else oh_objs m p)"
  using assms
proof (induction n arbitrary: pl m)
  case (Suc n)
  let ?pl = "pl\<lparr>sp_lstFreeObj := sp_lstFreeObj pl @ [oh_next m]\<rparr>"
  let ?m = "m\<lparr>oh_objs := (oh_objs m)(oh_next m \<mapsto> mk), oh_next := Suc (oh_next m)\<rparr>"
  have "oh_next m \<notin> set (sp_lstFreeObj pl)"
    using Suc.prems by (fastforce simp: sp_ok_def objheap_ok_def pool_live_def)
  then have "sp_ok (?pl, ?m)"
    using Suc.prems by (auto simp: sp_ok_def objheap_ok_def pool_live_def less_Suc_eq)
  from Suc.IH [OF this] show ?case
    by (auto simp: new_obj_def upt_conv_Cons fun_eq_iff)
qed (auto simp: fun_eq_iff)

lemma delete_obj_spec:
  assumes "delete_obj dtor p m = Inr m'" "objheap_ok m"
  shows "objheap_ok m'" "p \<noteq> NULL \<Longrightarrow> oh_objs m' = (oh_objs m)(p := None)"
    "q \<noteq> p \<Longrightarrow> oh_objs m' q = oh_objs m q" "oh_next m' = oh_next m"
  using assms by (auto simp: delete_obj_def objheap_ok_def res_simps split: if_splits option.splits)

lemma sp_pop_cases:
  assumes "sp_ok s" "CSmallObjectPool_pop mk s = Inr (p, s')"
  obtains (recycled) "sp_lstFreeObj (fst s) = p # sp_lstFreeObj (fst s')" "snd s' = snd s"
  | (created) "sp_lstFreeObj (fst s) = []" "p = oh_next (snd s)"
      "sp_lstFreeObj (fst s') = [Suc p..<Suc p + unat (sp_nGrowCount (fst s))]"
      "oh_objs (snd s') = (\<lambda>q. if p \<le> q \<and> q < Suc p + unat (sp_nGrowCount (fst s))
                               then Some mk else oh_objs (snd s) q)"
      "objheap_ok (snd s')"
proof -
  obtain pl m where s: "s = (pl, m)" by (cases s)
  show ?thesis
  proof (cases "sp_lstFreeObj pl")
    case (Cons q rest)
    then show ?thesis using that(1) assms(2) s by (auto simp: CSmallObjectPool_pop_def)
  next
    case Nil
    obtain m1 where m1: "new_obj mk m = (oh_next m, m1)"
        "m1 = m\<lparr>oh_objs := (oh_objs m)(oh_next m \<mapsto> mk), oh_next := Suc (oh_next m)\<rparr>"
      by (simp add: new_obj_def)
    have "objheap_ok m1" using objheap_ok_new_obj [OF _ m1(1)] assms(1) s by (simp add: sp_ok_def)
    then have "sp_ok (pl, m1)" using Nil by (simp add: sp_ok_def)
    note al = CSmallObjectPool_Alloc_spec [OF this, of mk "unat (sp_nGrowCount pl)"]
    have "p = oh_next m" "s' = CSmallObjectPool_Alloc mk (unat (sp_nGrowCount pl)) (pl, m1)"
      using assms(2) s Nil m1(1) by (auto simp: CSmallObjectPool_pop_def)
    then show ?thesis using al m1(2) Nil s
      by (intro that(2)) (auto simp: sp_ok_def fun_eq_iff)
  qed
qed

lemma objheap_ok_next: "objheap_ok m \<Longrightarrow> oh_next m \<le> q \<Longrightarrow> oh_objs m q = None"
  unfolding objheap_ok_def by (metis leD)

lemma sp_pop_not_NULL:
  assumes "sp_ok s" "CSmallObjectPool_pop mk s = Inr (p, s')"
  shows "p \<noteq> NULL"
  using assms by (cases rule: sp_pop_cases)
    (use assms(1) in \<open>auto simp: sp_ok_def pool_live_def objheap_ok_def\<close>)

interpretation sp: object_pool "CSmallObjectPool_pop mk" "CSmallObjectPool_push dtor"
  "\<lambda>s. sp_lstFreeObj (fst s)" pool_live sp_ok
proof (unfold_locales, goal_cases)
  case (3 s)
  then show ?case
    by (auto simp: CSmallObjectPool_pop_def Let_def split: prod.splits list.splits)
next
  case (4 s p s')
  from 4 show ?case using 4(1)
    by (cases rule: sp_pop_cases) (auto simp: sp_ok_def pool_live_def)
next
  case (5 s p s')
  from 5 show ?case using 5(1)
    by (cases rule: sp_pop_cases) (auto simp: sp_ok_def pool_live_def)
next
  case (6 s p s')
  from 6 show ?case using 6(1)
    by (cases rule: sp_pop_cases) (auto simp: sp_ok_def)
next
  case (7 s p s')
  from 7 show ?case using 7(1)
    by (cases rule: sp_pop_cases) (auto simp: sp_ok_def pool_live_def objheap_ok_next)
next
  case (8 s p s' q)
  from 8(1,2) show ?case
    using 8(3,4) by (cases rule: sp_pop_cases) (auto simp: pool_live_def)
next
  case (9 s p s' q)
  from 9(1,2) show ?case
    using 9(1,3) by (cases rule: sp_pop_cases) (auto simp: sp_ok_def pool_live_def objheap_ok_next)
next
  case (10 s p s')
  then show ?case
    by (auto simp: sp_ok_def CSmallObjectPool_push_def pool_live_def res_simps delete_obj_def
        objheap_ok_def split: prod.splits if_splits option.splits)
next
  case (11 s p s' q)
  then show ?case
    by (auto simp: sp_ok_def CSmallObjectPool_push_def pool_live_def res_simps delete_obj_spec(3)
        split: prod.splits if_splits option.splits)
next
  case (12 s p s' q)
  then show ?case
    by (auto simp: CSmallObjectPool_push_def res_simps split: prod.splits if_splits)
qed (auto simp: sp_ok_def)

lemma Alloc_keeps:
  "oh_world (snd (CSmallObjectPool_Alloc mk n s)) = oh_world (snd s)"
  "sp_nMaxCount (fst (CSmallObjectPool_Alloc mk n s)) = sp_nMaxCount (fst s)"
  "sp_nGrowCount (fst (CSmallObjectPool_Alloc mk n s)) = sp_nGrowCount (fst s)"
  by (induction mk n s rule: CSmallObjectPool_Alloc.induct) (simp_all add: new_obj_def)

text \<open>What \<open>pop\<close> does to the values of objects: nothing, but for the new ones.\<close>

lemma sp_pop_values:
  assumes "sp_ok s" "CSmallObjectPool_pop mk s = Inr (p, s')"
  shows "oh_world (snd s') = oh_world (snd s)"
    and "oh_objs (snd s) q \<noteq> None \<Longrightarrow> oh_objs (snd s') q = oh_objs (snd s) q"
    and "oh_objs (snd s) q = None \<Longrightarrow> oh_objs (snd s') q \<noteq> None \<Longrightarrow> oh_objs (snd s') q = Some mk"
    and "sp_nMaxCount (fst s') = sp_nMaxCount (fst s)"
proof -
  obtain pl m where s: "s = (pl, m)" by (cases s)
  show "oh_world (snd s') = oh_world (snd s)" "sp_nMaxCount (fst s') = sp_nMaxCount (fst s)"
    using assms(2) s by (auto simp: CSmallObjectPool_pop_def new_obj_def Alloc_keeps split: list.splits)
  show "oh_objs (snd s) q \<noteq> None \<Longrightarrow> oh_objs (snd s') q = oh_objs (snd s) q"
    using assms by (cases rule: sp_pop_cases)
      (use assms(1) objheap_ok_next [of "snd s" q] in \<open>auto simp: sp_ok_def\<close>)
  show "oh_objs (snd s) q = None \<Longrightarrow> oh_objs (snd s') q \<noteq> None \<Longrightarrow> oh_objs (snd s') q = Some mk"
    using assms by (cases rule: sp_pop_cases) (auto split: if_splits)
qed

lemma spx_Alloc_spec:
  assumes "spx_ok s"
  shows "spx_ok (CSmallObjectPoolEx_Alloc mk n s)"
    and "spx_lstFreeObj (fst (CSmallObjectPoolEx_Alloc mk n s)) =
      spx_lstFreeObj (fst s) @ [oh_next (snd s)..<oh_next (snd s) + unat n]"
    and "oh_objs (snd (CSmallObjectPoolEx_Alloc mk n s)) =
      (\<lambda>p. if oh_next (snd s) \<le> p \<and> p < oh_next (snd s) + unat n then Some mk
           else oh_objs (snd s) p)"
proof -
  obtain pl m where s: "s = (pl, m)" by (cases s)
  have ok: "objheap_ok m" using assms s by (simp add: spx_ok_def)
  have "spx_lstFreeObj pl = xs \<Longrightarrow> p \<in> set xs \<Longrightarrow> p < oh_next m" for xs p
    using assms s by (auto simp: spx_ok_def pool_live_def objheap_ok_def)
  then show "spx_ok (CSmallObjectPoolEx_Alloc mk n s)"
    using assms s by (fastforce simp: CSmallObjectPoolEx_Alloc_def new_array_def Let_def spx_ok_def
        objheap_ok_def pool_live_def)
qed (auto simp: CSmallObjectPoolEx_Alloc_def new_array_def Let_def split: prod.splits)

lemma spx_pop_cases:
  assumes "spx_ok s" "CSmallObjectPoolEx_pop mk s = Inr (p, s')"
  obtains (recycled) "spx_lstFreeObj (fst s) = p # spx_lstFreeObj (fst s')" "snd s' = snd s"
      "spx_nGrowCount (fst s') = spx_nGrowCount (fst s)"
  | (created) "spx_lstFreeObj (fst s) = []" "p = oh_next (snd s)"
      "spx_lstFreeObj (fst s') = [Suc p..<p + unat (spx_nGrowCount (fst s))]"
      "oh_objs (snd s') = (\<lambda>q. if p \<le> q \<and> q < p + unat (spx_nGrowCount (fst s))
                               then Some mk else oh_objs (snd s) q)"
      "spx_ok s'" "0 < unat (spx_nGrowCount (fst s))"
proof -
  obtain pl m where s: "s = (pl, m)" by (cases s)
  show ?thesis
  proof (cases "spx_lstFreeObj pl")
    case (Cons q rest)
    then show ?thesis using that(1) assms(2) s by (auto simp: CSmallObjectPoolEx_pop_def)
  next
    case Nil
    obtain pl1 m1 where al: "CSmallObjectPoolEx_Alloc mk (spx_nGrowCount pl) (pl, m) = (pl1, m1)"
      by fastforce
    note sp = spx_Alloc_spec [OF assms(1), of mk "spx_nGrowCount pl", unfolded s al fst_conv snd_conv Nil]
    have g: "0 < unat (spx_nGrowCount pl)" using assms(1) s
      by (simp add: spx_ok_def word_less_nat_alt)
    have fr: "spx_lstFreeObj pl1 = oh_next m # [Suc (oh_next m)..<oh_next m + unat (spx_nGrowCount pl)]"
      using sp(2) g Nil by (simp add: upt_conv_Cons)
    have "p = oh_next m"
      "s' = (pl1\<lparr>spx_lstFreeObj := [Suc (oh_next m)..<oh_next m + unat (spx_nGrowCount pl)]\<rparr>, m1)"
      using assms(2) s Nil al fr by (auto simp: CSmallObjectPoolEx_pop_def)
    then show ?thesis using sp g fr s Nil
      by (intro that(2)) (auto simp: spx_ok_def pool_live_def)
  qed
qed

interpretation spx: object_pool "CSmallObjectPoolEx_pop mk" CSmallObjectPoolEx_push
  "\<lambda>s. spx_lstFreeObj (fst s)" pool_live spx_ok
proof (unfold_locales, goal_cases)
  case (3 s)
  obtain pl m where s: "s = (pl, m)" by (cases s)
  obtain pl1 m1 where al: "CSmallObjectPoolEx_Alloc mk (spx_nGrowCount pl) (pl, m) = (pl1, m1)"
    by fastforce
  have "0 < unat (spx_nGrowCount pl)" using 3 s by (simp add: spx_ok_def word_less_nat_alt)
  then have "spx_lstFreeObj pl1 \<noteq> []"
    using spx_Alloc_spec(2) [OF 3, of mk "spx_nGrowCount pl"] s al by simp
  then show ?case using s al
    by (auto simp: CSmallObjectPoolEx_pop_def split: list.splits)
next
  case (4 s p s')
  from 4 show ?case using 4(1)
    by (cases rule: spx_pop_cases) (auto simp: spx_ok_def pool_live_def)
next
  case (5 s p s')
  from 5 show ?case using 5(1)
    by (cases rule: spx_pop_cases) (auto simp: spx_ok_def pool_live_def)
next
  case (6 s p s')
  from 6 show ?case using 6(1)
    by (cases rule: spx_pop_cases) (auto simp: spx_ok_def)
next
  case (7 s p s')
  from 7 show ?case using 7(1)
    by (cases rule: spx_pop_cases) (auto simp: spx_ok_def pool_live_def objheap_ok_next)
next
  case (8 s p s' q)
  from 8(1,2) show ?case
    using 8(3,4) by (cases rule: spx_pop_cases) (auto simp: pool_live_def)
next
  case (9 s p s' q)
  from 9(1,2) show ?case
    using 9(1,3) by (cases rule: spx_pop_cases) (auto simp: spx_ok_def pool_live_def objheap_ok_next)
qed (auto simp: spx_ok_def CSmallObjectPoolEx_push_def pool_live_def split: prod.splits)

text \<open>A pool whose \<open>push\<close> never faults on an object that is held. A client of such a pool
  runs to the end, and holds each of its objects alone all the time.\<close>

locale total_pool = object_pool +
  assumes push_total: "pool_ok s \<Longrightarrow> live s p \<Longrightarrow> p \<notin> set (free_objs s) \<Longrightarrow> \<exists>s'. push p s = Inr s'"
begin

lemma step_total: "exclusive hs s \<Longrightarrow> \<exists>hs' s'. pool_step pop push x (hs, s) = Inr (hs', s')"
proof (cases x)
  case OpPop
  moreover assume "exclusive hs s"
  ultimately show ?thesis using pop_total [of s] by (auto simp: exclusive_def)
next
  case (OpPush i)
  moreover assume "exclusive hs s"
  ultimately show ?thesis using push_total [of s "hs ! i"] by (auto simp: exclusive_def)
qed

lemma run_total:
  "exclusive hs s \<Longrightarrow>
   \<exists>hs' s'. pool_run pop push xs (hs, s) = Inr (hs', s') \<and> exclusive hs' s'"
proof (induction xs arbitrary: hs s)
  case (Cons x xs)
  then obtain h1 s1 where "pool_step pop push x (hs, s) = Inr (h1, s1)"
    using step_total by blast
  with Cons show ?case using exclusive_step by fastforce
qed simp

end

text \<open>Destructors that do not fault, as functions on the rest of the state.\<close>

definition pure_dtor :: "('o \<Rightarrow> 'w \<Rightarrow> 'w) \<Rightarrow> 'o \<Rightarrow> 'w \<Rightarrow> cerror + 'w" where
  "pure_dtor f ob w = Inr (f ob w)"

interpretation spt: total_pool "CSmallObjectPool_pop mk" "CSmallObjectPool_push (pure_dtor f)"
  "\<lambda>s. sp_lstFreeObj (fst s)" pool_live sp_ok
  by unfold_locales
    (auto simp: CSmallObjectPool_push_def delete_obj_def pure_dtor_def pool_live_def
      split: prod.splits option.splits)

interpretation spxt: total_pool "CSmallObjectPoolEx_pop mk" CSmallObjectPoolEx_push
  "\<lambda>s. spx_lstFreeObj (fst s)" pool_live spx_ok
  by unfold_locales (auto simp: CSmallObjectPoolEx_push_def split: prod.splits)

lemma CSmallObjectPool_init_new:
  assumes "objheap_ok m"
  shows "\<exists>s. CSmallObjectPool_init mk dtor nMax nInit nGrow (CSmallObjectPool_new, m) = Inr s \<and>
           sp_ok s \<and> length (sp_lstFreeObj (fst s)) = unat nInit"
proof -
  let ?pl = "CSmallObjectPool_new\<lparr>sp_lstFreeObj := [], sp_nMaxCount := nMax,
                sp_nGrowCount := if nGrow < 1 then 1 else nGrow\<rparr>"
  have "sp_ok (?pl, m)" using assms by (simp add: sp_ok_def CSmallObjectPool_new_def)
  from CSmallObjectPool_Alloc_spec [OF this, of mk "unat nInit"] show ?thesis
    by (simp add: CSmallObjectPool_init_def CSmallObjectPool_clear_def CSmallObjectPool_new_def)
qed

lemma CSmallObjectPoolEx_init_new:
  assumes "objheap_ok m"
  shows "\<exists>s. CSmallObjectPoolEx_init mk dtor nMax nInit nGrow (CSmallObjectPoolEx_new g, m) = Inr s \<and>
           spx_ok s \<and> length (spx_lstFreeObj (fst s)) = unat nInit"
proof -
  let ?pl = "(CSmallObjectPoolEx_new g)\<lparr>spx_lstFreeObj := [], spx_lstAllObj := [],
                spx_nMaxCount := nMax, spx_nInitCount := nInit,
                spx_nGrowCount := if nGrow < 1 then 1 else nGrow\<rparr>"
  have "spx_ok (?pl, m)"
    using assms by (simp add: spx_ok_def CSmallObjectPoolEx_new_def word_gt_0)
  from spx_Alloc_spec [OF this, of mk nInit] show ?thesis
    by (simp add: CSmallObjectPoolEx_init_def CSmallObjectPoolEx_clear_def CSmallObjectPoolEx_new_def)
qed

text \<open>
  C3. A \<open>CSmallObjectPool\<close> that has been initialised serves any sequence of \<open>pop\<close> and
  \<open>push\<close> of its user without a fault, and at the end the objects the user holds are
  pairwise different, alive and in nobody else's free list: an object handed out is never
  handed out a second time before it comes back.
\<close>

theorem small_pool_exclusive:
  assumes "objheap_ok m"
  shows "\<exists>s hs s'. CSmallObjectPool_init mk (pure_dtor f) nMax nInit nGrow
             (CSmallObjectPool_new, m) = Inr s \<and>
           pool_run (CSmallObjectPool_pop mk) (CSmallObjectPool_push (pure_dtor f)) ops ([], s) =
             Inr (hs, s') \<and>
           distinct hs \<and> (\<forall>p \<in> set hs. pool_live s' p \<and> p \<notin> set (sp_lstFreeObj (fst s')))"
proof -
  obtain s where s: "CSmallObjectPool_init mk (pure_dtor f) nMax nInit nGrow
      (CSmallObjectPool_new, m) = Inr s" "sp_ok s"
    using CSmallObjectPool_init_new [OF assms] by blast
  then have "sp.exclusive [] s" by (simp add: sp.exclusive_def)
  from spt.run_total [OF this, of mk f ops] s(1) show ?thesis
    by (auto simp: sp.exclusive_def)
qed

text \<open>The same for \<open>CSmallObjectPoolEx\<close>, which allocates its objects in arrays.\<close>

text \<open>
  A \<open>CSmallObjectPoolEx\<close> that has been initialised serves any sequence of \<open>pop\<close> and
  \<open>push\<close> of its user without a fault, never takes the front of an empty list, and the
  objects the user holds are pairwise different, alive and not in the free list.
\<close>

theorem small_pool_ex_exclusive:
  assumes "objheap_ok m"
  shows "\<exists>s hs s'. CSmallObjectPoolEx_init mk dtor nMax nInit nGrow
             (CSmallObjectPoolEx_new g, m) = Inr s \<and>
           pool_run (CSmallObjectPoolEx_pop mk) CSmallObjectPoolEx_push ops ([], s) =
             Inr (hs, s') \<and>
           distinct hs \<and> (\<forall>p \<in> set hs. pool_live s' p \<and> p \<notin> set (spx_lstFreeObj (fst s')))"
proof -
  obtain s where s: "CSmallObjectPoolEx_init mk dtor nMax nInit nGrow
      (CSmallObjectPoolEx_new g, m) = Inr s" "spx_ok s"
    using CSmallObjectPoolEx_init_new [OF assms] by blast
  then have "spx.exclusive [] s" by (simp add: spx.exclusive_def)
  from spxt.run_total [OF this, of mk ops] s(1) show ?thesis
    by (auto simp: spx.exclusive_def)
qed

definition empty_objheap :: "('o, unit) objheap" where
  "empty_objheap = \<lparr>oh_objs = (\<lambda>p. None), oh_next = 1, oh_arrays = (\<lambda>p. None), oh_world = ()\<rparr>"

lemma small_pool_exclusive_witness:
  "\<exists>s hs s'. CSmallObjectPool_init (7::nat) (pure_dtor (\<lambda>ob w. w)) 2 1 1
       (CSmallObjectPool_new, empty_objheap) = Inr s \<and>
     pool_run (CSmallObjectPool_pop 7) (CSmallObjectPool_push (pure_dtor (\<lambda>ob w. w)))
       [OpPop, OpPop, OpPush 0, OpPop] ([], s) = Inr (hs, s') \<and>
     distinct hs \<and> (\<forall>p \<in> set hs. pool_live s' p \<and> p \<notin> set (sp_lstFreeObj (fst s')))"
  by (rule small_pool_exclusive) (simp add: objheap_ok_def empty_objheap_def)

lemma small_pool_ex_exclusive_witness:
  "\<exists>s hs s'. CSmallObjectPoolEx_init (7::nat) (pure_dtor (\<lambda>ob w. w)) 2 1 1
       (CSmallObjectPoolEx_new 0, empty_objheap) = Inr s \<and>
     pool_run (CSmallObjectPoolEx_pop 7) CSmallObjectPoolEx_push
       [OpPop, OpPop, OpPush 0, OpPop] ([], s) = Inr (hs, s') \<and>
     distinct hs \<and> (\<forall>p \<in> set hs. pool_live s' p \<and> p \<notin> set (spx_lstFreeObj (fst s')))"
  by (rule small_pool_ex_exclusive) (simp add: objheap_ok_def empty_objheap_def)

end
