(* ===== verification/MessageQueue.thy ===== *)
theory MessageQueue
  imports ByteBuffer SmallObjectPool
begin

text \<open>
  \<open>CSLMessageQueue\<close> of SLMessageQueue.h: a first-in first-out queue of messages, as a singly
  linked list of nodes that come from a \<open>CSmallObjectPool\<close> and return to it. The nodes live
  in an \<open>objheap\<close> whose \<open>oh_world\<close> is the C heap with the message bytes. \<open>mq_lock\<close> counts
  how often the queue's mutex is locked, so that every path is seen to unlock it.

  The theorems: \<open>Enqueue\<close> and \<open>Dequeue\<close> implement a bounded FIFO of byte strings (the
  locale \<open>msg_queue\<close> and its interpretation), the queue is the only owner of the bytes it
  holds, and \<open>Clear\<close> empties the queue if its last node has no stale successor. It may
  have one, because \<open>Enqueue\<close> does not reset \<open>next\<close>; the last section shows where that
  leads.
\<close>

section \<open>State and operations\<close>

record CSLMessageQueueNode =
  mqn_attachID :: int
  mqn_attachInfo :: addr
  mqn_next :: addr
  mqn_msg :: CByteBuffer

definition CSLMessageQueueNode_new :: CSLMessageQueueNode where
  "CSLMessageQueueNode_new =
     \<lparr>mqn_attachID = 0, mqn_attachInfo = NULL, mqn_next = NULL, mqn_msg = CByteBuffer_new\<rparr>"

text \<open>The destructor of a node runs that of its buffer.\<close>

definition CSLMessageQueueNode_delete :: "CSLMessageQueueNode \<Rightarrow> cheap \<Rightarrow> cerror + cheap" where
  "CSLMessageQueueNode_delete nd h = rbind (CByteBuffer_clear (mqn_msg nd) h) (\<lambda>(b, h'). Inr h')"

type_synonym mq_heap = "(CSLMessageQueueNode, cheap) objheap"

record CSLMessageQueue =
  mq_pHead :: addr
  mq_pTail :: addr
  mq_nSize :: u32
  mq_nMaxSize :: u32
  mq_lock :: int
  mq_nodePool :: CSmallObjectPool

type_synonym mq_state = "CSLMessageQueue \<times> mq_heap"

definition mq_Lock :: "CSLMessageQueue \<Rightarrow> CSLMessageQueue" where
  "mq_Lock q = q\<lparr>mq_lock := mq_lock q + 1\<rparr>"

definition mq_UnLock :: "CSLMessageQueue \<Rightarrow> CSLMessageQueue" where
  "mq_UnLock q = q\<lparr>mq_lock := mq_lock q - 1\<rparr>"

definition CSLMessageQueue_new :: CSLMessageQueue where
  "CSLMessageQueue_new =
     \<lparr>mq_pHead = NULL, mq_pTail = NULL, mq_nSize = 0, mq_nMaxSize = 0, mq_lock = 0,
      mq_nodePool = CSmallObjectPool_new\<rparr>"

definition CSLMessageQueue_Init :: "u32 \<Rightarrow> mq_state \<Rightarrow> cerror + mq_state" where
  "CSLMessageQueue_Init nQueueMaxSize s =
     (case s of (q, m) \<Rightarrow>
        rbind (CSmallObjectPool_init CSLMessageQueueNode_new CSLMessageQueueNode_delete
                 nQueueMaxSize nQueueMaxSize 4 (mq_nodePool q, m))
          (\<lambda>(pl, m'). Inr (q\<lparr>mq_nMaxSize := nQueueMaxSize, mq_nodePool := pl\<rparr>, m')))"

definition CSLMessageQueue_GetSize :: "mq_state \<Rightarrow> u32 \<times> mq_state" where
  "CSLMessageQueue_GetSize s =
     (case s of (q, m) \<Rightarrow> let q1 = mq_Lock q in (mq_nSize q1, mq_UnLock q1, m))"

definition CSLMessageQueue_IsEmpty :: "mq_state \<Rightarrow> bool \<times> mq_state" where
  "CSLMessageQueue_IsEmpty s =
     (case s of (q, m) \<Rightarrow> let q1 = mq_Lock q in (mq_nSize q1 = 0, mq_UnLock q1, m))"

text \<open>The loop of \<open>Clear\<close> follows \<open>next\<close> until it is NULL, so it may fault and nothing
  in the code bounds it.\<close>

partial_function (option) CSLMessageQueue_Clear_loop ::
    "addr \<Rightarrow> CSmallObjectPool \<times> mq_heap \<Rightarrow> (cerror + CSmallObjectPool \<times> mq_heap) option" where
  "CSLMessageQueue_Clear_loop pNode s =
     (if pNode = NULL then Some (Inr s)
      else case get_obj pNode (snd s) of
        Inl e \<Rightarrow> Some (Inl e)
      | Inr nd \<Rightarrow>
          (case CSmallObjectPool_push CSLMessageQueueNode_delete pNode s of
             Inl e \<Rightarrow> Some (Inl e)
           | Inr s' \<Rightarrow> CSLMessageQueue_Clear_loop (mqn_next nd) s'))"

declare CSLMessageQueue_Clear_loop.simps [code]

definition CSLMessageQueue_Clear :: "mq_state \<Rightarrow> (cerror + bool \<times> mq_state) option" where
  "CSLMessageQueue_Clear s =
     (case s of (q0, m) \<Rightarrow>
        let q = mq_Lock q0
        in if mq_pHead q = NULL then Some (Inr (False, mq_UnLock q, m))
           else map_option
             (\<lambda>r. rbind r (\<lambda>(pl, m'). Inr (True,
                    mq_UnLock (q\<lparr>mq_pHead := NULL, mq_pTail := NULL, mq_nSize := 0,
                                 mq_nodePool := pl\<rparr>), m')))
             (CSLMessageQueue_Clear_loop (mq_pHead q) (mq_nodePool q, m)))"

definition CSLMessageQueue_Enqueue ::
    "addr \<Rightarrow> int \<Rightarrow> int \<Rightarrow> addr \<Rightarrow> mq_state \<Rightarrow> cerror + int \<times> mq_state" where
  "CSLMessageQueue_Enqueue szMsg nLen nAttachID pAttachInfo s =
     (case s of (q0, m) \<Rightarrow>
        let q = mq_Lock q0
        in if 0 < mq_nMaxSize q \<and> mq_nMaxSize q \<le> mq_nSize q then Inr (-1, mq_UnLock q, m)
           else rbind (CSmallObjectPool_pop CSLMessageQueueNode_new (mq_nodePool q, m))
             (\<lambda>(pNode, pl, m1). let q1 = q\<lparr>mq_nodePool := pl\<rparr> in
                if pNode = NULL then Inr (-1, mq_UnLock q1, m1)
                else rbind (get_obj pNode m1)
                  (\<lambda>nd. rbind (CByteBuffer_data szMsg (to_u32 nLen) True (mqn_msg nd) (oh_world m1))
                  (\<lambda>(b, h). let m2 = put_obj pNode
                       (nd\<lparr>mqn_msg := b, mqn_attachID := nAttachID, mqn_attachInfo := pAttachInfo\<rparr>)
                       (m1\<lparr>oh_world := h\<rparr>)
                     in rbind
                       (if mq_pTail q1 \<noteq> NULL
                        then rbind (get_obj (mq_pTail q1) m2)
                          (\<lambda>t. Inr (q1\<lparr>mq_pTail := pNode\<rparr>,
                                    put_obj (mq_pTail q1) (t\<lparr>mqn_next := pNode\<rparr>) m2))
                        else Inr (q1\<lparr>mq_pHead := pNode, mq_pTail := pNode\<rparr>, m2))
                       (\<lambda>(q2, m3). Inr (0, mq_UnLock (q2\<lparr>mq_nSize := mq_nSize q2 + 1\<rparr>), m3))))))"

definition CSLMessageQueue_Dequeue ::
    "CSLMessageQueueNode \<Rightarrow> mq_state \<Rightarrow> cerror + int \<times> CSLMessageQueueNode \<times> mq_state" where
  "CSLMessageQueue_Dequeue oNode s =
     (case s of (q0, m) \<Rightarrow>
        let q = mq_Lock q0
        in if mq_pHead q = NULL then Inr (-1, oNode, mq_UnLock q, m)
           else rbind (get_obj (mq_pHead q) m)
             (\<lambda>hd_nd. rbind (CByteBuffer_data (bb_szData (mqn_msg hd_nd))
                               (CByteBuffer_size (mqn_msg hd_nd)) False (mqn_msg oNode) (oh_world m))
             (\<lambda>(b, h). let oNode' = \<lparr>mqn_attachID = mqn_attachID hd_nd,
                                     mqn_attachInfo = mqn_attachInfo hd_nd, mqn_next = NULL,
                                     mqn_msg = CByteBuffer_set_owner True b\<rparr>;
                           m1 = put_obj (mq_pHead q)
                                  (hd_nd\<lparr>mqn_msg := CByteBuffer_set_owner False (mqn_msg hd_nd)\<rparr>)
                                  (m\<lparr>oh_world := h\<rparr>);
                           q1 = q\<lparr>mq_pHead := mqn_next hd_nd\<rparr>
                in rbind (CSmallObjectPool_push CSLMessageQueueNode_delete (mq_pHead q)
                            (mq_nodePool q1, m1))
                  (\<lambda>(pl, m2). let q2 = q1\<lparr>mq_nodePool := pl, mq_nSize := mq_nSize q1 - 1\<rparr>;
                                 q3 = (if mq_nSize q2 = 0
                                       then q2\<lparr>mq_pHead := NULL, mq_pTail := NULL\<rparr> else q2)
                     in Inr (0, oNode', mq_UnLock q3, m2)))))"

section \<open>The invariant\<close>

text \<open>
  \<open>mq_inv ns ((q, m), o)\<close>: \<open>ns\<close> are the nodes of the queue from head to tail, and \<open>o\<close> is
  the node into which its user dequeues. The nodes in the queue and in the pool are
  different live objects, the buffers of all of them and of \<open>o\<close> have no block in common,
  and each node in the queue owns its message.
\<close>

definition mq_bufs :: "mq_heap \<Rightarrow> CSLMessageQueueNode \<Rightarrow> addr \<Rightarrow> CByteBuffer option" where
  "mq_bufs m o' = (\<lambda>p. map_option mqn_msg (oh_objs m p))(NULL \<mapsto> mqn_msg o')"

definition mq_nx :: "mq_heap \<Rightarrow> addr \<Rightarrow> addr" where
  "mq_nx m p = (case oh_objs m p of Some nd \<Rightarrow> mqn_next nd | None \<Rightarrow> NULL)"

definition mq_held :: "mq_heap \<Rightarrow> addr \<Rightarrow> bool" where
  "mq_held m p = (case oh_objs m p of None \<Rightarrow> False
     | Some nd \<Rightarrow> bb_bOwner (mqn_msg nd) \<and> bb_szData (mqn_msg nd) \<noteq> NULL \<and> bb_nSize (mqn_msg nd) \<noteq> 0)"

definition mq_free :: "CSLMessageQueue \<Rightarrow> addr list" where
  "mq_free q = sp_lstFreeObj (mq_nodePool q)"

definition mq_shape :: "addr list \<Rightarrow> CSLMessageQueue \<Rightarrow> mq_heap \<Rightarrow> bool" where
  "mq_shape ns q m \<longleftrightarrow>
     sp_ok (mq_nodePool q, m) \<and> distinct ns \<and> set ns \<inter> set (mq_free q) = {} \<and>
     linked (mq_nx m) ns \<and> (\<forall>p \<in> set ns. mq_held m p) \<and>
     mq_pHead q = (if ns = [] then NULL else hd ns) \<and>
     mq_pTail q = (if ns = [] then NULL else last ns) \<and>
     unat (mq_nSize q) = length ns \<and> (0 < mq_nMaxSize q \<longrightarrow> mq_nSize q \<le> mq_nMaxSize q)"

fun mq_inv :: "addr list \<Rightarrow> mq_state \<times> CSLMessageQueueNode \<Rightarrow> bool" where
  "mq_inv ns ((q, m), o') \<longleftrightarrow> mq_shape ns q m \<and> bb_bOwner (mqn_msg o') \<and>
     bufs_ok (mq_bufs m o') (oh_world m) (insert NULL (set ns \<union> set (mq_free q)))"

text \<open>A message: its bytes, the id and the pointer attached to it.\<close>

type_synonym mq_message = "byte list \<times> int \<times> addr"

definition mqn_view :: "CSLMessageQueueNode \<Rightarrow> cheap \<Rightarrow> mq_message" where
  "mqn_view nd h = (bb_bytes (mqn_msg nd) h, mqn_attachID nd, mqn_attachInfo nd)"

definition mq_view :: "mq_heap \<Rightarrow> addr \<Rightarrow> mq_message" where
  "mq_view m p = (case oh_objs m p of None \<Rightarrow> ([], 0, NULL) | Some nd \<Rightarrow> mqn_view nd (oh_world m))"

definition mq_full :: "CSLMessageQueue \<Rightarrow> bool" where
  "mq_full q \<longleftrightarrow> 0 < mq_nMaxSize q \<and> mq_nMaxSize q \<le> mq_nSize q"

text \<open>What a call of \<open>Enqueue\<close> needs of its caller: a readable, non-empty message that is
  not one of the buffers the pooled nodes still point to, and memory for its copy.\<close>

definition mq_ready :: "addr \<Rightarrow> int \<Rightarrow> mq_state \<Rightarrow> bool" where
  "mq_ready szMsg nLen s \<longleftrightarrow>
     0 < nLen \<and> nLen < 2 ^ 31 \<and> nat nLen \<le> ch_avail (oh_world (snd s)) \<and>
     \<not> isl (load szMsg 0 (nat nLen) (oh_world (snd s))) \<and>
     (\<forall>p \<in> set (mq_free (fst s)).
        (case oh_objs (snd s) p of None \<Rightarrow> True | Some nd \<Rightarrow> bb_szData (mqn_msg nd) \<noteq> szMsg)) \<and>
     mq_nSize (fst s) \<noteq> - 1"

lemma mq_live:
  assumes "mq_shape ns q m" "p \<in> set ns \<union> set (mq_free q)"
  shows "oh_objs m p \<noteq> None" "p \<noteq> NULL"
proof -
  show "oh_objs m p \<noteq> None"
    using assms by (auto simp: mq_shape_def mq_held_def sp_ok_def pool_live_def mq_free_def
        split: option.splits)
  then show "p \<noteq> NULL" using assms(1) by (auto simp: mq_shape_def sp_ok_def objheap_ok_def)
qed

section \<open>Enqueue\<close>

text \<open>A node taken from the pool joins neither the queue nor the free list, and it is new or
  was free before.\<close>

lemma mq_pop:
  assumes inv: "mq_inv ns ((q, m), o')"
    and pop: "CSmallObjectPool_pop CSLMessageQueueNode_new (mq_nodePool q, m) = Inr (p, pl, m1)"
  defines "q1 \<equiv> q\<lparr>mq_nodePool := pl\<rparr>"
  shows "mq_shape ns q1 m1" "p \<notin> set ns" "p \<notin> set (mq_free q1)" "p \<noteq> NULL"
    "bufs_ok (mq_bufs m1 o') (oh_world m1) (insert NULL (insert p (set ns \<union> set (mq_free q1))))"
    "oh_world m1 = oh_world m" "\<And>r. r \<in> set ns \<Longrightarrow> oh_objs m1 r = oh_objs m r"
    "oh_objs m1 p = Some CSLMessageQueueNode_new \<or> p \<in> set (mq_free q) \<and> oh_objs m1 p = oh_objs m p"
    "oh_objs m1 p \<noteq> None"
proof -
  have sh: "mq_shape ns q m" and ok: "sp_ok (mq_nodePool q, m)"
    using inv by (auto simp: mq_shape_def)
  note val = sp_pop_values [OF ok pop, unfolded fst_conv snd_conv]
  note live = mq_live(1) [OF sh]
  show w: "oh_world m1 = oh_world m" using val by simp
  show same: "oh_objs m1 r = oh_objs m r" if "r \<in> set ns" for r
    using val(2) live that by simp
  have ok1: "sp_ok (pl, m1)" using sp.pop_ok [OF ok pop] .
  have plive: "oh_objs m1 p \<noteq> None" using sp.pop_live [OF ok pop sp_pop_not_NULL [OF ok pop]] by (simp add: pool_live_def)
  then show "oh_objs m1 p \<noteq> None" .
  show p0: "p \<noteq> NULL" using plive ok1 by (auto simp: sp_ok_def objheap_ok_def)
  show taken: "p \<notin> set (mq_free q1)"
    using sp.pop_taken [OF ok pop p0] by (simp add: mq_free_def q1_def)
  have src: "p \<in> set (mq_free q) \<or> oh_objs m p = None"
    using sp.pop_source [OF ok pop p0] by (simp add: mq_free_def pool_live_def)
  have src': "r \<in> set (mq_free q) \<or> oh_objs m r = None" if "r \<in> set (mq_free q1)" for r
    using sp.pop_free [OF ok pop, of r] that by (simp add: mq_free_def q1_def pool_live_def)
  have dj: "set ns \<inter> set (mq_free q) = {}" using sh by (simp add: mq_shape_def)
  show pns: "p \<notin> set ns" using src dj live [of p] by auto
  have new: "oh_objs m1 r = Some CSLMessageQueueNode_new" if "oh_objs m r = None" "oh_objs m1 r \<noteq> None" for r
    using val(3) that by simp
  have old: "oh_objs m1 r = oh_objs m r" if "r \<in> set (mq_free q)" for r
    using val(2) live that by simp
  show "oh_objs m1 p = Some CSLMessageQueueNode_new \<or> p \<in> set (mq_free q) \<and> oh_objs m1 p = oh_objs m p"
    using src new [OF _ plive] old by blast
  have lk: "linked (mq_nx m1) ns = linked (mq_nx m) ns"
    using sh same by (intro linked_cong) (auto simp: mq_shape_def mq_nx_def dest: in_set_butlastD)
  have dj1: "set ns \<inter> set (mq_free q1) = {}"
    using src' dj live by blast
  show "mq_shape ns q1 m1"
    using sh ok1 lk same dj1
    by (auto simp: mq_shape_def q1_def mq_free_def mq_held_def)
  have fl: "oh_objs m1 r \<noteq> None" if "r \<in> set (mq_free q1)" for r
    using that ok1 by (auto simp: sp_ok_def pool_live_def mq_free_def q1_def)
  have "bufs_ok (mq_bufs m o') (oh_world m1) (insert NULL (set ns \<union> set (mq_free q)))"
    using inv w by simp
  then show "bufs_ok (mq_bufs m1 o') (oh_world m1) (insert NULL (insert p (set ns \<union> set (mq_free q1))))"
  proof (rule bufs_ok_join)
    fix r assume r: "r \<in> insert NULL (insert p (set ns \<union> set (mq_free q1)))"
    have n: "mqn_msg CSLMessageQueueNode_new = CByteBuffer_new" by (simp add: CSLMessageQueueNode_new_def)
    show "r \<in> insert NULL (set ns \<union> set (mq_free q)) \<and> mq_bufs m1 o' r = mq_bufs m o' r \<or>
          mq_bufs m1 o' r = Some CByteBuffer_new"
      using r src src' [of r] new [of r] old [of r] same [of r] fl [of r] plive p0 n
      by (auto simp: mq_bufs_def)
  qed
qed

lemma mq_view_frame:
  assumes "oh_objs m' r = oh_objs m r \<or> (\<exists>nd nd'. oh_objs m r = Some nd \<and> oh_objs m' r = Some nd' \<and>
             mqn_msg nd' = mqn_msg nd \<and> mqn_attachID nd' = mqn_attachID nd \<and>
             mqn_attachInfo nd' = mqn_attachInfo nd)"
    and "\<And>nd. oh_objs m r = Some nd \<Longrightarrow> bb_bytes (mqn_msg nd) (oh_world m') = bb_bytes (mqn_msg nd) (oh_world m)"
  shows "mq_view m' r = mq_view m r"
  using assms by (auto simp: mq_view_def mqn_view_def split: option.splits)

text \<open>The new node is filled and hung behind the tail.\<close>

lemma mq_append_node:
  assumes sh: "mq_shape ns q m" and oo: "bb_bOwner (mqn_msg o')" and p: "p \<notin> set ns" "p \<notin> set (mq_free q)" "p \<noteq> NULL"
      "oh_objs m p = Some nd"
    and bufs: "bufs_ok (mq_bufs m o') (oh_world m) (insert NULL (insert p (set ns \<union> set (mq_free q))))"
    and b: "bb_ok b h" "cheap_ok h" "bb_frame (mqn_msg nd) (oh_world m) b h"
      "bb_bOwner b" "bb_szData b \<noteq> NULL" "bb_nSize b \<noteq> 0"
    and room: "length ns + 1 < 2 ^ 32" "\<not> mq_full q"
    and nd': "mqn_msg nd' = b"
  defines "m2 \<equiv> put_obj p nd' (m\<lparr>oh_world := h\<rparr>)"
  shows "\<exists>q2 m3. (if mq_pTail q \<noteq> NULL
                  then rbind (get_obj (mq_pTail q) m2)
                    (\<lambda>t. Inr (q\<lparr>mq_pTail := p\<rparr>, put_obj (mq_pTail q) (t\<lparr>mqn_next := p\<rparr>) m2))
                  else Inr (q\<lparr>mq_pHead := p, mq_pTail := p\<rparr>, m2)) = Inr (q2, m3) \<and>
           mq_inv (ns @ [p]) ((q2\<lparr>mq_nSize := mq_nSize q2 + 1\<rparr>, m3), o') \<and>
           map (mq_view m3) (ns @ [p]) = map (mq_view m) ns @ [mqn_view nd' h] \<and>
           mq_lock q2 = mq_lock q \<and> oh_world m3 = h"
proof -
  define P where "P = insert NULL (insert p (set ns \<union> set (mq_free q)))"
  note bufs = bufs [folded P_def]
  have pP: "p \<in> P" by (simp add: P_def)
  have bp: "mq_bufs m o' p = Some (mqn_msg nd)" using p by (simp add: mq_bufs_def)
  note wr = bufs_ok_write [OF bufs pP bp b(1,2,3)]
  have m2p: "mq_bufs m2 o' = (mq_bufs m o')(p \<mapsto> b)"
    using p(3) nd' by (auto simp: m2_def put_obj_def mq_bufs_def fun_eq_iff)
  have keep: "bb_bytes (mqn_msg nr) h = bb_bytes (mqn_msg nr) (oh_world m)"
    if "r \<in> set ns" "oh_objs m r = Some nr" for r nr
  proof -
    have r: "r \<in> P" "r \<noteq> p" "r \<noteq> NULL" "mq_held m r"
      using that p sh mq_live(2) [OF sh, of r] by (auto simp: P_def mq_shape_def)
    then have "bb_block (mq_bufs m o' r) = Some (bb_szData (mqn_msg nr))"
      using that by (simp add: mq_bufs_def mq_held_def)
    then show ?thesis using wr(2) [OF r(1,2)] by (intro bb_bytes_frame) blast
  qed
  have n1: "unat (mq_nSize q + 1) = length ns + 1"
  proof -
    have "unat (mq_nSize q) = length ns" using sh by (simp add: mq_shape_def)
    with room(1) show ?thesis by (subst unat_add_lem [THEN iffD1]) auto
  qed
  have max: "0 < mq_nMaxSize q \<longrightarrow> mq_nSize q + 1 \<le> mq_nMaxSize q"
  proof
    assume "0 < mq_nMaxSize q"
    with room(2) have "unat (mq_nSize q) < unat (mq_nMaxSize q)"
      by (simp add: mq_full_def word_less_nat_alt word_le_nat_alt)
    with n1 sh show "mq_nSize q + 1 \<le> mq_nMaxSize q"
      by (simp add: word_le_nat_alt mq_shape_def)
  qed
  have ok: "sp_ok (mq_nodePool q, m)" using sh by (simp add: mq_shape_def)
  have hp: "\<And>r. oh_objs m r \<noteq> None \<Longrightarrow> 0 < r \<and> r < oh_next m" "objheap_ok m"
    using ok by (auto simp: sp_ok_def objheap_ok_def)
  have spok: "sp_ok (mq_nodePool q, m')"
    if "\<And>r. oh_objs m' r = None \<longleftrightarrow> oh_objs m r = None" "oh_next m' = oh_next m" "oh_arrays m' = oh_arrays m" for m'
    using ok that by (auto simp: sp_ok_def objheap_ok_def pool_live_def)
  show ?thesis
  proof (cases "ns = []")
    case True
    then have t: "mq_pTail q = NULL" using sh by (simp add: mq_shape_def)
    have sp2: "sp_ok (mq_nodePool q, m2)"
      using p(4) by (intro spok) (auto simp: m2_def put_obj_def)
    have inv: "mq_inv [p] ((q\<lparr>mq_pHead := p, mq_pTail := p, mq_nSize := mq_nSize q + 1\<rparr>, m2), o')"
      using oo wr(1) m2p sp2 True p n1 max b nd' sh
      by (simp add: mq_shape_def mq_free_def P_def) (auto simp: mq_held_def m2_def put_obj_def)
    have "mq_view m2 p = mqn_view nd' h" by (simp add: mq_view_def m2_def put_obj_def)
    moreover have "oh_world m2 = h" by (simp add: m2_def put_obj_def)
    ultimately show ?thesis using inv t True by auto
  next
    case False
    define t where "t = last ns"
    have t: "mq_pTail q = t" "t \<in> set ns" "t \<noteq> NULL" "t \<noteq> p"
      using False sh p mq_live(2) [OF sh, of "last ns"] by (auto simp: mq_shape_def t_def)
    obtain tn where tn: "oh_objs m t = Some tn" using mq_live(1) [OF sh, of t] t(2) by auto
    define m3 where "m3 = put_obj t (tn\<lparr>mqn_next := p\<rparr>) m2"
    have g: "get_obj t m2 = Inr tn" using tn t by (simp add: get_obj_def m2_def put_obj_def)
    have b3: "mq_bufs m3 o' = (mq_bufs m o')(p \<mapsto> b)"
      unfolding m2p [symmetric] using tn t
      by (auto simp: m3_def m2_def put_obj_def mq_bufs_def fun_eq_iff)
    have objs3: "oh_objs m3 = (oh_objs m)(p \<mapsto> nd', t \<mapsto> tn\<lparr>mqn_next := p\<rparr>)"
      by (simp add: m3_def m2_def put_obj_def)
    have w3: "oh_world m3 = h" "oh_next m3 = oh_next m" "oh_arrays m3 = oh_arrays m"
      by (simp_all add: m3_def m2_def put_obj_def)
    have sp3: "sp_ok (mq_nodePool q, m3)"
      using p(4) tn by (intro spok) (auto simp: objs3 w3)
    have "t \<notin> set (butlast ns)"
      using sh False by (simp add: t_def mq_shape_def distinct_last_notin_butlast)
    then have "linked (mq_nx m) ns = linked (mq_nx m3) ns"
      using sh p(1) by (intro linked_cong) (auto simp: mq_shape_def mq_nx_def objs3 dest: in_set_butlastD)
    then have lk: "linked (mq_nx m3) (ns @ [p])"
      using False sh by (simp add: linked_snoc mq_shape_def) (simp add: mq_nx_def objs3 t_def)
    have held: "mq_held m3 r" if "r \<in> set (ns @ [p])" for r
      using that sh tn t b nd' by (auto simp: mq_held_def objs3 mq_shape_def)
    have inv: "mq_inv (ns @ [p]) ((q\<lparr>mq_pTail := p, mq_nSize := mq_nSize q + 1\<rparr>, m3), o')"
      using oo wr(1) b3 sp3 lk held False p n1 max sh
      by (simp add: mq_shape_def mq_free_def P_def w3)
    have v: "mq_view m3 r = mq_view m r" if "r \<in> set ns" for r
      using that keep [OF that] tn p by (intro mq_view_frame) (auto simp: objs3 w3)
    have "mq_view m3 p = mqn_view nd' h" using t by (simp add: mq_view_def objs3 w3)
    with inv v g t w3(1) show ?thesis by (auto simp: m3_def)
  qed
qed

lemma mq_Lock_UnLock [simp]:
  "mq_UnLock (mq_Lock q) = q" "mq_pHead (mq_Lock q) = mq_pHead q" "mq_pTail (mq_Lock q) = mq_pTail q"
  "mq_nSize (mq_Lock q) = mq_nSize q" "mq_nMaxSize (mq_Lock q) = mq_nMaxSize q"
  "mq_nodePool (mq_Lock q) = mq_nodePool q" "mq_lock (mq_Lock q) = mq_lock q + 1"
  by (simp_all add: mq_Lock_def mq_UnLock_def)

text \<open>The lock is no part of the invariant.\<close>

lemma mq_inv_lock:
  "mq_inv ns ((q\<lparr>mq_lock := n\<rparr>, m), o') = mq_inv ns ((q, m), o')"
  by (simp add: mq_shape_def mq_free_def)

lemma mq_inv_Lock: "mq_inv ns ((mq_Lock q, m), o') = mq_inv ns ((q, m), o')"
  and mq_inv_UnLock: "mq_inv ns ((mq_UnLock q, m), o') = mq_inv ns ((q, m), o')"
  unfolding mq_Lock_def mq_UnLock_def by (rule mq_inv_lock)+

lemma mq_enqueue_full:
  assumes "mq_full q"
  shows "CSLMessageQueue_Enqueue szMsg nLen nAttachID pAttachInfo (q, m) = Inr (-1, q, m)"
  using assms by (simp add: CSLMessageQueue_Enqueue_def mq_full_def)

lemma mq_enqueue_ok:
  assumes inv: "mq_inv ns ((q, m), o')" and ready: "mq_ready szMsg nLen (q, m)" and nf: "\<not> mq_full q"
    and src: "load szMsg 0 (nat nLen) (oh_world m) = Inr bs"
  shows "\<exists>q' m' p. CSLMessageQueue_Enqueue szMsg nLen nAttachID pAttachInfo (q, m) = Inr (0, q', m') \<and>
           mq_inv (ns @ [p]) ((q', m'), o') \<and>
           map (mq_view m') (ns @ [p]) = map (mq_view m) ns @ [(bs, nAttachID, pAttachInfo)] \<and>
           mq_lock q' = mq_lock q \<and> mqn_view o' (oh_world m') = mqn_view o' (oh_world m)"
proof -
  let ?q = "mq_Lock q"
  have inv': "mq_inv ns ((?q, m), o')" using inv unfolding mq_inv_Lock .
  have shp: "mq_shape ns ?q m" using inv' by simp
  then have "sp_ok (mq_nodePool ?q, m)" by (simp add: mq_shape_def)
  then obtain p pl m1 where pop: "CSmallObjectPool_pop CSLMessageQueueNode_new (mq_nodePool ?q, m) = Inr (p, pl, m1)"
    using sp.pop_total by (metis prod.exhaust)
  let ?q1 = "?q\<lparr>mq_nodePool := pl\<rparr>"
  have oo: "bb_bOwner (mqn_msg o')" using inv by simp
  note mp = mq_pop [OF inv' pop]
  obtain nd where nd: "oh_objs m1 p = Some nd" using mp(9) by auto
  have okb: "bb_ok (mqn_msg nd) (oh_world m1)"
    using bufs_okD(2) [OF mp(5), of p "mqn_msg nd"] nd mp(4) by (simp add: mq_bufs_def)
  have ck: "cheap_ok (oh_world m1)" using bufs_okD(1) [OF mp(5)] .
  have len: "unat (to_u32 nLen) = nat nLen" "to_u32 nLen \<noteq> 0"
  proof -
    show l: "unat (to_u32 nLen) = nat nLen" using ready by (intro unat_to_u32) (auto simp: mq_ready_def)
    then show "to_u32 nLen \<noteq> 0" using ready by (auto simp: mq_ready_def)
  qed
  have "szMsg \<noteq> bb_szData (mqn_msg nd)"
    using mp(8)
  proof
    assume "oh_objs m1 p = Some CSLMessageQueueNode_new"
    then have "bb_szData (mqn_msg nd) = NULL"
      using nd by (simp add: CSLMessageQueueNode_new_def CByteBuffer_new_def)
    moreover have "szMsg \<noteq> NULL" using load_Some [OF src] ready by (auto simp: mq_ready_def)
    ultimately show ?thesis by simp
  next
    assume "p \<in> set (mq_free ?q) \<and> oh_objs m1 p = oh_objs m p"
    then have "p \<in> set (mq_free q)" "oh_objs m p = Some nd" using nd by (simp_all add: mq_free_def)
    then show ?thesis using ready by (fastforce simp: mq_ready_def)
  qed
  then obtain b h where d: "CByteBuffer_data szMsg (to_u32 nLen) True (mqn_msg nd) (oh_world m1) = Inr (b, h)"
    "bb_bytes b h = bs" "bb_nSize b = to_u32 nLen" "bb_bOwner b" "bb_szData b \<noteq> NULL" "bb_ok b h"
    "cheap_ok h" "bb_frame (mqn_msg nd) (oh_world m1) b h"
    using CByteBuffer_data_copy [OF okb ck len(2), of szMsg bs] ready src mp(6) len(1)
    by (auto simp: mq_ready_def)
  let ?nd = "nd\<lparr>mqn_msg := b, mqn_attachID := nAttachID, mqn_attachInfo := pAttachInfo\<rparr>"
  have "mq_nSize q < - 1" using ready by (simp add: mq_ready_def word_order.not_eq_extremum)
  then have "length ns + 1 < 2 ^ 32"
    using inv by (simp add: mq_shape_def word_less_nat_alt unsigned_minus_1_eq_mask mask_eq_exp_minus_1)
  moreover have "\<not> mq_full ?q1" using nf by (simp add: mq_full_def)
  ultimately obtain q2 m3 where ap: "(if mq_pTail ?q1 \<noteq> NULL
      then rbind (get_obj (mq_pTail ?q1) (put_obj p ?nd (m1\<lparr>oh_world := h\<rparr>)))
        (\<lambda>t. Inr (?q1\<lparr>mq_pTail := p\<rparr>,
            put_obj (mq_pTail ?q1) (t\<lparr>mqn_next := p\<rparr>) (put_obj p ?nd (m1\<lparr>oh_world := h\<rparr>))))
      else Inr (?q1\<lparr>mq_pHead := p, mq_pTail := p\<rparr>, put_obj p ?nd (m1\<lparr>oh_world := h\<rparr>))) = Inr (q2, m3)"
    "mq_inv (ns @ [p]) ((q2\<lparr>mq_nSize := mq_nSize q2 + 1\<rparr>, m3), o')"
    "map (mq_view m3) (ns @ [p]) = map (mq_view m1) ns @ [mqn_view ?nd h]" "mq_lock q2 = mq_lock ?q1"
    "oh_world m3 = h"
    using mq_append_node [OF mp(1) oo mp(2,3,4) nd mp(5) d(6,7,8,4,5), of ?nd] d(3) len(2) by auto
  have v: "map (mq_view m1) ns = map (mq_view m) ns"
    using mp(6,7) by (auto simp: mq_view_def split: option.splits)
  have "CSLMessageQueue_Enqueue szMsg nLen nAttachID pAttachInfo (q, m) =
      Inr (0, mq_UnLock (q2\<lparr>mq_nSize := mq_nSize q2 + 1\<rparr>), m3)"
  proof -
    have c: "(0 < mq_nMaxSize q \<and> mq_nMaxSize q \<le> mq_nSize q) = False"
      using nf by (simp add: mq_full_def)
    have g: "get_obj p m1 = Inr nd" using mp(4) nd by (simp add: get_obj_def)
    show ?thesis
      unfolding CSLMessageQueue_Enqueue_def prod.case Let_def mq_Lock_UnLock c if_False
        pop [unfolded mq_Lock_UnLock] rbind.simps
      using mp(4) g d(1) ap(1) by (simp split del: if_split)
  qed
  moreover have "mq_inv (ns @ [p]) ((mq_UnLock (q2\<lparr>mq_nSize := mq_nSize q2 + 1\<rparr>), m3), o')"
    using ap(2) unfolding mq_inv_UnLock .
  moreover have "map (mq_view m3) (ns @ [p]) = map (mq_view m) ns @ [(bs, nAttachID, pAttachInfo)]"
    using ap(3) v d(2) by (simp add: mqn_view_def)
  moreover have "mq_lock (mq_UnLock (q2\<lparr>mq_nSize := mq_nSize q2 + 1\<rparr>)) = mq_lock q"
    using ap(4) by (simp add: mq_UnLock_def)
  moreover have "mqn_view o' (oh_world m3) = mqn_view o' (oh_world m)"
  proof -
    have "ch_blocks h (bb_szData (mqn_msg o')) = ch_blocks (oh_world m1) (bb_szData (mqn_msg o'))"
    proof (cases "bb_szData (mqn_msg o') = NULL")
      case True
      have "ch_blocks h' NULL = None" if "cheap_ok h'" for h'
        using that by (cases "ch_blocks h' NULL") (auto simp: cheap_ok_def)
      then show ?thesis using ck d(7) True by simp
    next
      case False
      have "mq_bufs m1 o' p = Some (mqn_msg nd)" using nd mp(4) by (simp add: mq_bufs_def)
      from bufs_ok_write(2) [OF mp(5) _ this d(6,7,8), of NULL] False oo mp(4)
      show ?thesis by (simp add: mq_bufs_def)
    qed
    then have "bb_bytes (mqn_msg o') h = bb_bytes (mqn_msg o') (oh_world m1)" by (rule bb_bytes_frame)
    then show ?thesis using ap(5) mp(6) by (simp add: mqn_view_def)
  qed
  ultimately show ?thesis
    by (intro exI [of _ "mq_UnLock (q2\<lparr>mq_nSize := mq_nSize q2 + 1\<rparr>)"] exI [of _ m3] exI [of _ p] conjI)
qed

section \<open>Dequeue\<close>

lemma sp_push_cases:
  assumes "CSmallObjectPool_push dtor p (pl, m) = Inr (pl', m')"
  obtains (kept) "pl' = pl\<lparr>sp_lstFreeObj := sp_lstFreeObj pl @ [p]\<rparr>" "m' = m"
  | (deleted) "pl' = pl" "delete_obj dtor p m = Inr m'"
  using assms by (auto simp: CSmallObjectPool_push_def res_simps split: if_splits)

lemma mq_dequeue_empty:
  assumes "mq_inv [] ((q, m), o')"
  shows "CSLMessageQueue_Dequeue o' (q, m) = Inr (-1, o', q, m)"
  using assms by (simp add: CSLMessageQueue_Dequeue_def mq_shape_def)

text \<open>Returning a node whose message has been taken over never touches the C heap.\<close>

lemma mq_push_taken:
  assumes "oh_objs m p = Some nd" "\<not> bb_bOwner (mqn_msg nd)" "p \<noteq> NULL"
  shows "\<exists>pl' m'. CSmallObjectPool_push CSLMessageQueueNode_delete p (pl, m) = Inr (pl', m') \<and>
           oh_world m' = oh_world m \<and> (\<forall>r. r \<noteq> p \<longrightarrow> oh_objs m' r = oh_objs m r) \<and>
           (oh_objs m' p = oh_objs m p \<and> sp_lstFreeObj pl' = sp_lstFreeObj pl @ [p] \<or>
            sp_lstFreeObj pl' = sp_lstFreeObj pl)"
  using assms
  by (auto simp: CSmallObjectPool_push_def delete_obj_def CSLMessageQueueNode_delete_def
      CByteBuffer_clear_def)

lemma mq_dequeue_ok:
  assumes inv: "mq_inv (p # ns) ((q, m), o')"
  shows "\<exists>o2 q' m'. CSLMessageQueue_Dequeue o' (q, m) = Inr (0, o2, q', m') \<and>
           mq_inv ns ((q', m'), o2) \<and> mqn_view o2 (oh_world m') = mq_view m p \<and>
           map (mq_view m') ns = map (mq_view m) ns \<and> mq_lock q' = mq_lock q"
proof -
  let ?q = "mq_Lock q"
  have inv': "mq_inv (p # ns) ((?q, m), o')" using inv unfolding mq_inv_Lock .
  then have sh: "mq_shape (p # ns) ?q m" by simp
  define P where "P = insert NULL (set (p # ns) \<union> set (mq_free ?q))"
  have bufs: "bufs_ok (mq_bufs m o') (oh_world m) P" using inv' by (simp add: P_def)
  note live = mq_live [OF sh]
  have p: "p \<noteq> NULL" "p \<in> P" "NULL \<in> P" using live(2) by (auto simp: P_def)
  obtain nd where nd: "oh_objs m p = Some nd" using live(1) [of p] by auto
  have held: "bb_bOwner (mqn_msg nd)" "bb_szData (mqn_msg nd) \<noteq> NULL" "bb_nSize (mqn_msg nd) \<noteq> 0"
    using sh nd by (auto simp: mq_shape_def mq_held_def)
  define bj where "bj = mqn_msg nd"
  define bi where "bi = mqn_msg o'"
  have fi: "mq_bufs m o' NULL = Some bi" "mq_bufs m o' p = Some bj"
    using nd p by (simp_all add: mq_bufs_def bi_def bj_def)
  have oki: "bb_ok bi (oh_world m)" "cheap_ok (oh_world m)"
    using bufs_okD(1) [OF bufs] bufs_okD(2) [OF bufs p(3) fi(1)] by blast+
  have oo: "bb_bOwner bi" using inv by (simp add: bi_def)
  then have ne: "bb_szData bj \<noteq> bb_szData bi"
    using bufs_okD(3) [OF bufs p(2) p(3) p(1)] fi held by (auto simp: bj_def)
  let ?b = "\<lparr>bb_nSize = bb_nSize bj, bb_nCapacity = bb_nSize bj, bb_bOwner = False, bb_szData = bb_szData bj\<rparr>"
  obtain h where d: "CByteBuffer_data (bb_szData bj) (bb_nSize bj) False bi (oh_world m) = Inr (?b, h)"
      "cheap_ok h" "ch_blocks h = (if bb_bOwner bi then (ch_blocks (oh_world m))(bb_szData bi := None)
                                  else ch_blocks (oh_world m))"
    using CByteBuffer_data_take [OF oki _ ne] held by (auto simp: bj_def)
  note tk = bufs_ok_take [OF bufs p(3) p(2) p(1)[symmetric] fi held[folded bj_def] d(3,2)]
  let ?bo = "\<lparr>bb_nSize = bb_nSize bj, bb_nCapacity = bb_nSize bj, bb_bOwner = True, bb_szData = bb_szData bj\<rparr>"
  let ?o = "\<lparr>mqn_attachID = mqn_attachID nd, mqn_attachInfo = mqn_attachInfo nd, mqn_next = NULL, mqn_msg = ?bo\<rparr>"
  let ?nd = "nd\<lparr>mqn_msg := bj\<lparr>bb_bOwner := False\<rparr>\<rparr>"
  let ?m1 = "put_obj p ?nd (m\<lparr>oh_world := h\<rparr>)"
  have m1p: "oh_objs ?m1 p = Some ?nd" by (simp add: put_obj_def)
  obtain pl m2 where push: "CSmallObjectPool_push CSLMessageQueueNode_delete p (mq_nodePool q, ?m1) = Inr (pl, m2)"
      "oh_world m2 = h" "\<And>r. r \<noteq> p \<Longrightarrow> oh_objs m2 r = oh_objs m r"
      "oh_objs m2 p = Some ?nd \<and> sp_lstFreeObj pl = sp_lstFreeObj (mq_nodePool q) @ [p] \<or>
       sp_lstFreeObj pl = sp_lstFreeObj (mq_nodePool q)"
    using mq_push_taken [OF m1p _ p(1), of "mq_nodePool q"] by (auto simp: put_obj_def)
  have spok: "sp_ok (mq_nodePool q, m)" and dj: "p \<notin> set (mq_free q)" "set ns \<inter> set (mq_free q) = {}"
    and dis: "p \<notin> set ns" "distinct ns"
    using sh by (auto simp: mq_shape_def mq_free_def)
  have "sp_ok (mq_nodePool q, ?m1)"
    using spok nd by (auto simp: sp_ok_def objheap_ok_def pool_live_def put_obj_def)
  then have ok2: "sp_ok (pl, m2)"
    using sp.push_ok [OF _ _ _ push(1)] dj m1p by (simp add: pool_live_def mq_free_def)
  define q2 where "q2 = ?q\<lparr>mq_pHead := mqn_next nd, mq_nodePool := pl, mq_nSize := mq_nSize ?q - 1\<rparr>"
  define q3 where "q3 = (if mq_nSize q2 = 0 then q2\<lparr>mq_pHead := NULL, mq_pTail := NULL\<rparr> else q2)"
  have q3: "mq_nodePool q3 = pl" "mq_nSize q3 = mq_nSize q - 1" "mq_nMaxSize q3 = mq_nMaxSize q"
    "mq_lock q3 = mq_lock q + 1" by (simp_all add: q3_def q2_def)
  have sz: "unat (mq_nSize q - 1) = length ns"
  proof -
    have "unat (mq_nSize q) = Suc (length ns)" using sh by (simp add: mq_shape_def)
    moreover from this have "unat (mq_nSize q - 1) = unat (mq_nSize q) - unat (1 :: u32)"
      by (intro unat_sub) (simp add: word_le_nat_alt)
    ultimately show ?thesis by simp
  qed
  have z: "mq_nSize q - 1 = 0 \<longleftrightarrow> ns = []" using sz by (auto simp: unat_eq_0 [symmetric])
  have keep: "oh_objs m2 r = oh_objs m r" if "r \<in> set ns" for r
    using push(3) that dis by (cases "r = p") auto
  have lk: "linked (mq_nx m) (p # ns)" using sh by (simp add: mq_shape_def)
  have "linked (mq_nx m) ns = linked (mq_nx m2) ns"
    using dis keep by (intro linked_cong) (auto simp: mq_nx_def dest: in_set_butlastD)
  with lk have lk2: "linked (mq_nx m2) ns" using linked_tl by fastforce
  have hd2: "ns \<noteq> [] \<Longrightarrow> mqn_next nd = hd ns" using lk nd by (auto simp: linked_Cons mq_nx_def)
  have fr: "set (mq_free q3) \<subseteq> insert p (set (mq_free q))"
    "p \<in> set (mq_free q3) \<Longrightarrow> oh_objs m2 p = Some ?nd"
    using push(4) q3 dj(1) by (auto simp: mq_free_def)
  have max: "mq_nSize q - 1 \<le> mq_nMaxSize q" if "0 < mq_nMaxSize q"
    using sh that sz by (simp add: mq_shape_def word_le_nat_alt)
  have "mq_shape ns q3 m2"
    using sh ok2 dis dj lk2 hd2 fr(1) sz z max keep q3
    unfolding mq_shape_def by (auto simp: q3_def q2_def mq_held_def)
  moreover have "bufs_ok (mq_bufs m2 ?o) (oh_world m2) (insert NULL (set ns \<union> set (mq_free q3)))"
    unfolding push(2)
  proof (rule bufs_ok_cong [OF tk(1)])
    show "insert NULL (set ns \<union> set (mq_free q3)) \<subseteq> P" using fr by (auto simp: P_def mq_free_def)
    fix r assume r: "r \<in> insert NULL (set ns \<union> set (mq_free q3))"
    show "((mq_bufs m o')(NULL \<mapsto> ?bo, p \<mapsto> bj\<lparr>bb_bOwner := False\<rparr>)) r = mq_bufs m2 ?o r"
      using r fr(2) push(3) [of r] dis p(1) by (cases "r = p") (auto simp: mq_bufs_def)
  qed
  ultimately have inv3: "mq_inv ns ((mq_UnLock q3, m2), ?o)" unfolding mq_inv_UnLock by simp
  have "mqn_view ?o h = mq_view m p"
    using tk(2) nd by (simp add: mq_view_def mqn_view_def bb_bytes_def bj_def split: option.split)
  then have v1: "mqn_view ?o (oh_world m2) = mq_view m p" using push(2) by simp
  have v2: "mq_view m2 r = mq_view m r" if r: "r \<in> set ns" for r
  proof (rule mq_view_frame)
    show "oh_objs m2 r = oh_objs m r \<or> (\<exists>nd nd'. oh_objs m r = Some nd \<and> oh_objs m2 r = Some nd' \<and>
             mqn_msg nd' = mqn_msg nd \<and> mqn_attachID nd' = mqn_attachID nd \<and>
             mqn_attachInfo nd' = mqn_attachInfo nd)" using keep r by simp
    fix nr assume nr: "oh_objs m r = Some nr"
    have "r \<in> P" "r \<noteq> NULL" "mq_held m r"
      using r live(2) [of r] sh by (auto simp: P_def mq_shape_def)
    moreover from this nr have "bb_block (mq_bufs m o' r) = Some (bb_szData (mqn_msg nr))"
      by (simp add: mq_bufs_def mq_held_def)
    ultimately show "bb_bytes (mqn_msg nr) (oh_world m2) = bb_bytes (mqn_msg nr) (oh_world m)"
      using tk(3) push(2) by (intro bb_bytes_frame) simp
  qed
  have hdq: "mq_pHead q = p" using sh by (simp add: mq_shape_def)
  have g: "get_obj p m = Inr nd" using nd p(1) by (simp add: get_obj_def)
  have "CSLMessageQueue_Dequeue o' (q, m) = Inr (0, ?o, mq_UnLock q3, m2)"
    using g hdq p(1) d(1) push(1)
    by (simp add: CSLMessageQueue_Dequeue_def CByteBuffer_size_def CByteBuffer_set_owner_def
        bj_def [symmetric] bi_def [symmetric] Let_def q3_def q2_def)
  then show ?thesis using inv3 v1 v2 q3(4) by (auto simp: mq_UnLock_def simp del: mq_inv.simps)
qed

section \<open>The contract of a message queue\<close>

text \<open>
  What the library's threads rely on: messages come out in the order in which they were
  accepted, each once, and only a full queue refuses one. The state \<open>'s\<close> includes the
  node that the receiving thread passes to \<open>Dequeue\<close>.
\<close>

datatype 'a q_op = QEnq 'a | QDeq

fun q_run :: "('a \<Rightarrow> 's \<Rightarrow> cerror + int \<times> 's) \<Rightarrow> ('s \<Rightarrow> cerror + int \<times> 's) \<Rightarrow>
    ('a \<Rightarrow> 's \<Rightarrow> 'm) \<Rightarrow> ('s \<Rightarrow> 'm) \<Rightarrow> 'a q_op list \<Rightarrow> 's \<Rightarrow> cerror + 'm list \<times> 'm list \<times> 's" where
  "q_run enq deq payload delivered [] s = Inr ([], [], s)"
| "q_run enq deq payload delivered (QEnq x # ops) s =
     rbind (enq x s) (\<lambda>(r, s1). rbind (q_run enq deq payload delivered ops s1)
       (\<lambda>(acc, del, s2). Inr (if r = 0 then payload x s # acc else acc, del, s2)))"
| "q_run enq deq payload delivered (QDeq # ops) s =
     rbind (deq s) (\<lambda>(r, s1). rbind (q_run enq deq payload delivered ops s1)
       (\<lambda>(acc, del, s2). Inr (acc, if r = 0 then delivered s1 # del else del, s2)))"

text \<open>A run whose senders keep their side of the contract at every call.\<close>

fun q_ready :: "('a \<Rightarrow> 's \<Rightarrow> cerror + int \<times> 's) \<Rightarrow> ('s \<Rightarrow> cerror + int \<times> 's) \<Rightarrow>
    ('a \<Rightarrow> 's \<Rightarrow> bool) \<Rightarrow> ('s \<Rightarrow> bool) \<Rightarrow> 'a q_op list \<Rightarrow> 's \<Rightarrow> bool" where
  "q_ready enq deq ready full [] s = True"
| "q_ready enq deq ready full (QEnq x # ops) s =
     ((full s \<or> ready x s) \<and>
      (case enq x s of Inl e \<Rightarrow> True | Inr (r, s1) \<Rightarrow> q_ready enq deq ready full ops s1))"
| "q_ready enq deq ready full (QDeq # ops) s =
     (case deq s of Inl e \<Rightarrow> True | Inr (r, s1) \<Rightarrow> q_ready enq deq ready full ops s1)"

locale msg_queue =
  fixes enq :: "'a \<Rightarrow> 's \<Rightarrow> cerror + int \<times> 's"
    and deq :: "'s \<Rightarrow> cerror + int \<times> 's"
    and ready :: "'a \<Rightarrow> 's \<Rightarrow> bool"
    and full :: "'s \<Rightarrow> bool"
    and payload :: "'a \<Rightarrow> 's \<Rightarrow> 'm"
    and delivered :: "'s \<Rightarrow> 'm"
    and repr :: "'m list \<Rightarrow> 's \<Rightarrow> bool"
  assumes enq_full: "repr ms s \<Longrightarrow> full s \<Longrightarrow> enq x s = Inr (-1, s)"
    and enq_ok: "repr ms s \<Longrightarrow> \<not> full s \<Longrightarrow> ready x s \<Longrightarrow>
      \<exists>s'. enq x s = Inr (0, s') \<and> repr (ms @ [payload x s]) s'"
    and deq_empty: "repr [] s \<Longrightarrow> deq s = Inr (-1, s)"
    and deq_ok: "repr (y # ms) s \<Longrightarrow> \<exists>s'. deq s = Inr (0, s') \<and> repr ms s' \<and> delivered s' = y"
begin

lemma run_fifo:
  assumes "repr ms s" "q_ready enq deq ready full ops s"
  shows "\<exists>acc del ms' s'. q_run enq deq payload delivered ops s = Inr (acc, del, s') \<and>
           repr ms' s' \<and> ms @ acc = del @ ms'"
  using assms
proof (induction ops arbitrary: ms s)
  case (Cons x ops)
  show ?case
  proof (cases x)
    case (QEnq y)
    show ?thesis
    proof (cases "full s")
      case True
      then show ?thesis using Cons QEnq enq_full [OF Cons.prems(1) True] by fastforce
    next
      case False
      then obtain s1 where s1: "enq y s = Inr (0, s1)" "repr (ms @ [payload y s]) s1"
        using enq_ok [OF Cons.prems(1) False] Cons.prems(2) QEnq by auto
      then have "q_ready enq deq ready full ops s1" using Cons.prems(2) QEnq by simp
      from Cons.IH [OF s1(2) this] show ?thesis using s1(1) QEnq by auto
    qed
  next
    case QDeq
    show ?thesis
    proof (cases ms)
      case Nil
      then show ?thesis using Cons QDeq deq_empty [of s] by fastforce
    next
      case (Cons m ms1)
      then obtain s1 where s1: "deq s = Inr (0, s1)" "repr ms1 s1" "delivered s1 = m"
        using deq_ok Cons.prems(1) by blast
      then have "q_ready enq deq ready full ops s1" using Cons.prems(2) QDeq by simp
      from Cons.IH [OF s1(2) this] show ?thesis using s1(1,3) QDeq Cons by auto
    qed
  qed
qed simp

end

section \<open>The queue keeps the contract\<close>

type_synonym mq_call = "addr \<times> int \<times> int \<times> addr"

fun mq_enq :: "mq_call \<Rightarrow> mq_state \<times> CSLMessageQueueNode \<Rightarrow>
    cerror + int \<times> mq_state \<times> CSLMessageQueueNode" where
  "mq_enq (szMsg, nLen, nAttachID, pAttachInfo) (s, o') =
     rbind (CSLMessageQueue_Enqueue szMsg nLen nAttachID pAttachInfo s) (\<lambda>(r, s'). Inr (r, s', o'))"

fun mq_deq :: "mq_state \<times> CSLMessageQueueNode \<Rightarrow>
    cerror + int \<times> mq_state \<times> CSLMessageQueueNode" where
  "mq_deq (s, o') = rbind (CSLMessageQueue_Dequeue o' s) (\<lambda>(r, o2, s'). Inr (r, s', o2))"

fun mq_call_ready :: "mq_call \<Rightarrow> mq_state \<times> CSLMessageQueueNode \<Rightarrow> bool" where
  "mq_call_ready (szMsg, nLen, nAttachID, pAttachInfo) (s, o') = mq_ready szMsg nLen s"

fun mq_payload :: "mq_call \<Rightarrow> mq_state \<times> CSLMessageQueueNode \<Rightarrow> mq_message" where
  "mq_payload (szMsg, nLen, nAttachID, pAttachInfo) ((q, m), o') =
     (case load szMsg 0 (nat nLen) (oh_world m) of Inl e \<Rightarrow> [] | Inr bs \<Rightarrow> bs, nAttachID, pAttachInfo)"

fun mq_delivered :: "mq_state \<times> CSLMessageQueueNode \<Rightarrow> mq_message" where
  "mq_delivered ((q, m), o') = mqn_view o' (oh_world m)"

fun mq_is_full :: "mq_state \<times> CSLMessageQueueNode \<Rightarrow> bool" where
  "mq_is_full ((q, m), o') = mq_full q"

text \<open>The queue holds the messages \<open>ms\<close> and its mutex is free.\<close>

fun mq_repr :: "mq_message list \<Rightarrow> mq_state \<times> CSLMessageQueueNode \<Rightarrow> bool" where
  "mq_repr ms ((q, m), o') \<longleftrightarrow>
     mq_lock q = 0 \<and> (\<exists>ns. mq_inv ns ((q, m), o') \<and> map (mq_view m) ns = ms)"

interpretation mq: msg_queue mq_enq mq_deq mq_call_ready mq_is_full mq_payload mq_delivered mq_repr
proof (unfold_locales, goal_cases)
  case (1 ms s x)
  obtain q m o' where s: "s = ((q, m), o')" by (metis prod.exhaust)
  with 1 show ?case by (cases x) (simp add: mq_enqueue_full)
next
  case (2 ms s x)
  obtain q m o' where s: "s = ((q, m), o')" by (metis prod.exhaust)
  obtain sz n i a where x: "x = (sz, n, i, a)" by (metis prod.exhaust)
  obtain ns where ns: "mq_inv ns ((q, m), o')" "map (mq_view m) ns = ms" "mq_lock q = 0"
    using 2(1) s by auto
  obtain bs where bs: "load sz 0 (nat n) (oh_world m) = Inr bs"
    using 2(3) s x by (auto simp: mq_ready_def isl_def split: sum.splits) (metis sum.exhaust)
  obtain q' m' p where e: "CSLMessageQueue_Enqueue sz n i a (q, m) = Inr (0, q', m')"
      "mq_inv (ns @ [p]) ((q', m'), o')" "map (mq_view m') (ns @ [p]) = ms @ [(bs, i, a)]" "mq_lock q' = 0"
    using mq_enqueue_ok [OF ns(1) _ _ bs, of i a] 2 s x ns by auto
  have "mq_repr (ms @ [mq_payload x s]) ((q', m'), o')"
    using e bs s x unfolding mq_repr.simps by auto
  with e(1) s x show ?case by auto
next
  case (3 s)
  obtain q m o' where s: "s = ((q, m), o')" by (metis prod.exhaust)
  with 3 show ?case by (simp add: mq_dequeue_empty del: mq_inv.simps)
next
  case (4 y ms s)
  obtain q m o' where s: "s = ((q, m), o')" by (metis prod.exhaust)
  then obtain p ns where ns: "mq_inv (p # ns) ((q, m), o')" "mq_view m p = y" "map (mq_view m) ns = ms"
      "mq_lock q = 0"
    using 4 by (auto simp del: mq_inv.simps)
  obtain o2 q' m' where d: "CSLMessageQueue_Dequeue o' (q, m) = Inr (0, o2, q', m')"
     "mq_inv ns ((q', m'), o2)" "mqn_view o2 (oh_world m') = y" "map (mq_view m') ns = ms" "mq_lock q' = 0"
    using mq_dequeue_ok [OF ns(1)] ns by auto
  then have "mq_repr ms ((q', m'), o2)" unfolding mq_repr.simps by blast
  with d s show ?case by auto
qed

section \<open>Init and Clear\<close>

lemma mq_init_ok:
  assumes "objheap_ok m" "bb_bOwner (mqn_msg o')" "bb_ok (mqn_msg o') (oh_world m)" "cheap_ok (oh_world m)"
  shows "\<exists>q' m'. CSLMessageQueue_Init n (CSLMessageQueue_new, m) = Inr (q', m') \<and>
           mq_repr [] ((q', m'), o') \<and> mq_nMaxSize q' = n \<and> oh_world m' = oh_world m \<and>
           (\<forall>p nd. oh_objs m p = None \<longrightarrow> oh_objs m' p = Some nd \<longrightarrow> nd = CSLMessageQueueNode_new) \<and>
           (\<forall>p \<in> set (mq_free q'). oh_objs m p = None)"
proof -
  let ?pl = "CSmallObjectPool_new\<lparr>sp_nMaxCount := n, sp_nGrowCount := 4\<rparr>"
  define r where "r = CSmallObjectPool_Alloc CSLMessageQueueNode_new (unat n) (?pl, m)"
  have "sp_ok (?pl, m)" using assms(1) by (simp add: sp_ok_def CSmallObjectPool_new_def)
  note al = CSmallObjectPool_Alloc_spec [OF this, of CSLMessageQueueNode_new "unat n", folded r_def]
  let ?q = "CSLMessageQueue_new\<lparr>mq_nMaxSize := n, mq_nodePool := fst r\<rparr>"
  have init: "CSLMessageQueue_Init n (CSLMessageQueue_new, m) = Inr (?q, snd r)"
    by (simp add: CSLMessageQueue_Init_def CSmallObjectPool_init_def CSmallObjectPool_clear_def
        CSLMessageQueue_new_def CSmallObjectPool_new_def r_def case_prod_unfold)
  have fr: "sp_lstFreeObj (fst r) = [oh_next m..<oh_next m + unat n]"
    using al by (simp add: CSmallObjectPool_new_def)
  have shape: "mq_shape [] ?q (snd r)"
    using al by (simp add: mq_shape_def CSLMessageQueue_new_def)
  have "bufs_ok (mq_bufs m o') (oh_world m) {NULL}"
    using assms by (simp add: bufs_ok_def mq_bufs_def)
  then have "bufs_ok (mq_bufs (snd r) o') (oh_world m) (insert NULL (set (mq_free ?q)))"
    by (rule bufs_ok_join)
      (use al fr in \<open>auto simp: mq_bufs_def mq_free_def CSLMessageQueueNode_new_def\<close>)
  then have "mq_repr [] ((?q, snd r), o')"
    using shape al assms(2) by (simp add: CSLMessageQueue_new_def)
  moreover have "\<forall>p nd. oh_objs m p = None \<longrightarrow> oh_objs (snd r) p = Some nd \<longrightarrow> nd = CSLMessageQueueNode_new"
    using al by (auto split: if_splits)
  moreover have "\<forall>p \<in> set (mq_free ?q). oh_objs m p = None"
    using fr objheap_ok_next [OF assms(1)] by (auto simp: mq_free_def)
  ultimately show ?thesis using init al by auto
qed

text \<open>One turn of the loop: the node goes to the pool, or is deleted with its message.\<close>

lemma mq_push_node:
  assumes ok: "sp_ok (pl, m)" and p: "p \<notin> set (sp_lstFreeObj pl)" "p \<notin> set ps" "p \<noteq> NULL"
      "oh_objs m p = Some nd"
    and bufs: "bufs_ok (mq_bufs m o') (oh_world m) (insert NULL (set (p # ps) \<union> set (sp_lstFreeObj pl)))"
  shows "\<exists>pl' m'. CSmallObjectPool_push CSLMessageQueueNode_delete p (pl, m) = Inr (pl', m') \<and>
           sp_ok (pl', m') \<and> set (sp_lstFreeObj pl') \<subseteq> insert p (set (sp_lstFreeObj pl)) \<and>
           (\<forall>r. r \<noteq> p \<longrightarrow> oh_objs m' r = oh_objs m r) \<and>
           bufs_ok (mq_bufs m' o') (oh_world m') (insert NULL (set ps \<union> set (sp_lstFreeObj pl'))) \<and>
           (\<forall>a. bb_block (Some (mqn_msg o')) = Some a \<longrightarrow>
                ch_blocks (oh_world m') a = ch_blocks (oh_world m) a)"
proof (cases "length (sp_lstFreeObj pl) < unat (sp_nMaxCount pl)")
  case True
  let ?pl = "pl\<lparr>sp_lstFreeObj := sp_lstFreeObj pl @ [p]\<rparr>"
  have push: "CSmallObjectPool_push CSLMessageQueueNode_delete p (pl, m) = Inr (?pl, m)"
    using True by (simp add: CSmallObjectPool_push_def)
  have "sp_ok (?pl, m)" using sp.push_ok [OF ok _ _ push] p by (simp add: pool_live_def)
  with push bufs show ?thesis by (simp add: insert_commute Un_commute)
next
  case False
  define P where "P = insert NULL (set (p # ps) \<union> set (sp_lstFreeObj pl))"
  have bp: "p \<in> P" "mq_bufs m o' p = Some (mqn_msg nd)" using p by (simp_all add: P_def mq_bufs_def)
  obtain h where h: "CByteBuffer_clear (mqn_msg nd) (oh_world m) = Inr (CByteBuffer_new, h)"
    "bufs_ok (mq_bufs m o') h (P - {p})"
    "\<And>q a. q \<in> P - {p} \<Longrightarrow> bb_block (mq_bufs m o' q) = Some a \<Longrightarrow>
       ch_blocks h a = ch_blocks (oh_world m) a"
    using bufs_ok_clear [OF bufs [folded P_def] bp] by blast
  let ?m = "m\<lparr>oh_objs := (oh_objs m)(p := None), oh_world := h\<rparr>"
  have push: "CSmallObjectPool_push CSLMessageQueueNode_delete p (pl, m) = Inr (pl, ?m)"
    using False p h(1)
    by (simp add: CSmallObjectPool_push_def delete_obj_def CSLMessageQueueNode_delete_def)
  have ok2: "sp_ok (pl, ?m)" using sp.push_ok [OF ok _ _ push] p by (simp add: pool_live_def)
  have "P - {p} = insert NULL (set ps \<union> set (sp_lstFreeObj pl))" using p by (auto simp: P_def)
  moreover have "bufs_ok (mq_bufs ?m o') h (P - {p})"
    by (rule bufs_ok_cong [OF h(2)]) (auto simp: mq_bufs_def)
  moreover have "bb_block (Some (mqn_msg o')) = Some a \<Longrightarrow> ch_blocks h a = ch_blocks (oh_world m) a" for a
    using h(3) [of NULL a] p(3) by (simp add: P_def mq_bufs_def)
  ultimately show ?thesis using push ok2 by auto
qed

lemma mq_clear_loop_ok:
  assumes "sp_ok (pl, m)" "distinct ps" "set ps \<inter> set (sp_lstFreeObj pl) = {}"
    "\<forall>p \<in> set ps. oh_objs m p \<noteq> None" "linked (mq_nx m) ps"
    "ps \<noteq> [] \<longrightarrow> mq_nx m (last ps) = NULL"
    "bufs_ok (mq_bufs m o') (oh_world m) (insert NULL (set ps \<union> set (sp_lstFreeObj pl)))"
  shows "\<exists>pl' m'. CSLMessageQueue_Clear_loop (if ps = [] then NULL else hd ps) (pl, m) = Some (Inr (pl', m')) \<and>
           sp_ok (pl', m') \<and>
           bufs_ok (mq_bufs m' o') (oh_world m') (insert NULL (set (sp_lstFreeObj pl'))) \<and>
           (\<forall>a. bb_block (Some (mqn_msg o')) = Some a \<longrightarrow>
                ch_blocks (oh_world m') a = ch_blocks (oh_world m) a)"
  using assms
proof (induction ps arbitrary: pl m)
  case Nil
  then show ?case by (simp add: CSLMessageQueue_Clear_loop.simps)
next
  case (Cons p ps)
  have p: "p \<notin> set (sp_lstFreeObj pl)" "p \<notin> set ps" using Cons.prems by auto
  obtain nd where nd: "oh_objs m p = Some nd" using Cons.prems(4) by auto
  have p0: "p \<noteq> NULL" using Cons.prems(1) nd by (auto simp: sp_ok_def objheap_ok_def)
  obtain pl1 m1 where s1: "CSmallObjectPool_push CSLMessageQueueNode_delete p (pl, m) = Inr (pl1, m1)"
    "sp_ok (pl1, m1)" "set (sp_lstFreeObj pl1) \<subseteq> insert p (set (sp_lstFreeObj pl))"
    "\<forall>r. r \<noteq> p \<longrightarrow> oh_objs m1 r = oh_objs m r"
    "bufs_ok (mq_bufs m1 o') (oh_world m1) (insert NULL (set ps \<union> set (sp_lstFreeObj pl1)))"
    "\<forall>a. bb_block (Some (mqn_msg o')) = Some a \<longrightarrow> ch_blocks (oh_world m1) a = ch_blocks (oh_world m) a"
    using mq_push_node [OF Cons.prems(1) p p0 nd Cons.prems(7)] by blast
  have nx: "mq_nx m1 r = mq_nx m r" if "r \<in> set ps" for r
    using s1(4) that p by (cases "r = p") (auto simp: mq_nx_def)
  have "linked (mq_nx m) ps = linked (mq_nx m1) ps"
    using Cons.prems(2) nx by (intro linked_cong) (auto dest: in_set_butlastD)
  then have lk: "linked (mq_nx m1) ps" using Cons.prems(5) linked_tl by fastforce
  have lst: "ps \<noteq> [] \<longrightarrow> mq_nx m1 (last ps) = NULL" using Cons.prems(6) nx by auto
  have next': "mqn_next nd = (if ps = [] then NULL else hd ps)"
    using Cons.prems(5,6) nd by (auto simp: linked_Cons mq_nx_def)
  have "set ps \<inter> set (sp_lstFreeObj pl1) = {}" using s1(3) Cons.prems(3) p by auto
  moreover have "\<forall>r \<in> set ps. oh_objs m1 r \<noteq> None" using s1(4) Cons.prems(4) p by (metis list.set_intros(2))
  ultimately obtain pl' m' where s': "CSLMessageQueue_Clear_loop (mqn_next nd) (pl1, m1) = Some (Inr (pl', m'))"
    "sp_ok (pl', m')" "bufs_ok (mq_bufs m' o') (oh_world m') (insert NULL (set (sp_lstFreeObj pl')))"
    "\<forall>a. bb_block (Some (mqn_msg o')) = Some a \<longrightarrow> ch_blocks (oh_world m') a = ch_blocks (oh_world m1) a"
    using Cons.IH [OF s1(2) _ _ _ lk lst s1(5)] Cons.prems(2) unfolding next' by auto
  have "CSLMessageQueue_Clear_loop p (pl, m) = Some (Inr (pl', m'))"
    using p0 nd s1(1) s'(1) by (subst CSLMessageQueue_Clear_loop.simps) (simp add: get_obj_def)
  with s' s1(6) show ?case by auto
qed

section \<open>Properties\<close>

definition mq_boot :: "u32 \<Rightarrow> mq_heap \<Rightarrow> CSLMessageQueueNode \<Rightarrow> cerror + mq_state \<times> CSLMessageQueueNode" where
  "mq_boot n m o' = rbind (CSLMessageQueue_Init n (CSLMessageQueue_new, m)) (\<lambda>s. Inr (s, o'))"


text \<open>
  \<open>Enqueue\<close> on a queue with room takes a node from the pool, appends the caller's bytes,
  id and pointer behind the messages that are there, leaves those unchanged and returns 0.
\<close>

theorem message_enqueue_appends:
  assumes "mq_inv ns ((q, m), o')" "mq_ready szMsg nLen (q, m)" "\<not> mq_full q"
    and "load szMsg 0 (nat nLen) (oh_world m) = Inr bs"
  shows "\<exists>q' m' p. CSLMessageQueue_Enqueue szMsg nLen nAttachID pAttachInfo (q, m) = Inr (0, q', m') \<and>
           mq_inv (ns @ [p]) ((q', m'), o') \<and>
           map (mq_view m') (ns @ [p]) = map (mq_view m) ns @ [(bs, nAttachID, pAttachInfo)] \<and>
           mq_lock q' = mq_lock q"
  using mq_enqueue_ok [OF assms] by blast

text \<open>
  \<open>Dequeue\<close> on a non-empty queue hands the head's bytes over to the caller's node, which
  becomes their only owner, frees the caller's old block, returns the head node to the
  pool, and leaves the other messages as they are.
\<close>

theorem message_dequeue_takes_head:
  assumes "mq_inv (p # ns) ((q, m), o')"
  shows "\<exists>o2 q' m'. CSLMessageQueue_Dequeue o' (q, m) = Inr (0, o2, q', m') \<and>
           mq_inv ns ((q', m'), o2) \<and> mqn_view o2 (oh_world m') = mq_view m p \<and>
           map (mq_view m') ns = map (mq_view m) ns \<and> mq_lock q' = mq_lock q"
  using mq_dequeue_ok [OF assms] .

text \<open>
  \<open>Clear\<close> terminates and empties a queue whose last node has no successor: every node
  goes back to the pool or is deleted with its message, the invariant holds, the mutex is
  free again, and the caller's own buffer is untouched.
\<close>

theorem message_clear_empties:
  assumes "mq_inv ns ((q, m), o')" "ns \<noteq> []" "mq_nx m (last ns) = NULL"
  shows "\<exists>q' m'. CSLMessageQueue_Clear (q, m) = Some (Inr (True, q', m')) \<and>
           mq_inv [] ((q', m'), o') \<and> mq_lock q' = mq_lock q \<and>
           mqn_view o' (oh_world m') = mqn_view o' (oh_world m) \<and> mq_pHead q' = NULL \<and> mq_nSize q' = 0"
proof -
  let ?q = "mq_Lock q"
  have inv: "mq_inv ns ((?q, m), o')" using assms(1) unfolding mq_inv_Lock .
  then have sh: "mq_shape ns ?q m" by simp
  have hd0: "mq_pHead ?q = hd ns" "hd ns \<noteq> NULL"
    using sh assms(2) mq_live(2) [OF sh, of "hd ns"] by (auto simp: mq_shape_def)
  have "\<exists>pl' m'. CSLMessageQueue_Clear_loop (if ns = [] then NULL else hd ns) (mq_nodePool ?q, m) = Some (Inr (pl', m')) \<and>
      sp_ok (pl', m') \<and>
      bufs_ok (mq_bufs m' o') (oh_world m') (insert NULL (set (sp_lstFreeObj pl'))) \<and>
      (\<forall>a. bb_block (Some (mqn_msg o')) = Some a \<longrightarrow> ch_blocks (oh_world m') a = ch_blocks (oh_world m) a)"
    using sh inv assms(3) mq_live(1) [OF sh]
    by (intro mq_clear_loop_ok) (auto simp: mq_shape_def mq_free_def)
  then obtain pl m' where c: "CSLMessageQueue_Clear_loop (hd ns) (mq_nodePool ?q, m) = Some (Inr (pl, m'))"
      "sp_ok (pl, m')" "bufs_ok (mq_bufs m' o') (oh_world m') (insert NULL (set (sp_lstFreeObj pl)))"
      "\<forall>a. bb_block (Some (mqn_msg o')) = Some a \<longrightarrow> ch_blocks (oh_world m') a = ch_blocks (oh_world m) a"
    using assms(2) by auto
  let ?q' = "mq_UnLock (?q\<lparr>mq_pHead := NULL, mq_pTail := NULL, mq_nSize := 0, mq_nodePool := pl\<rparr>)"
  have "CSLMessageQueue_Clear (q, m) = Some (Inr (True, ?q', m'))"
    using hd0 c(1) by (simp add: CSLMessageQueue_Clear_def Let_def)
  moreover have "mq_inv [] ((?q', m'), o')"
    unfolding mq_inv_UnLock using c(2,3) inv by (simp add: mq_shape_def mq_free_def)
  moreover have "bb_bytes (mqn_msg o') (oh_world m') = bb_bytes (mqn_msg o') (oh_world m)"
  proof (cases "bb_szData (mqn_msg o') = NULL")
    case True
    have "cheap_ok (oh_world m)" "cheap_ok (oh_world m')"
      using inv c(3) by (auto dest: bufs_okD(1))
    then show ?thesis using True
      by (intro bb_bytes_frame) (metis cheap_ok_block not_None_eq)
  next
    case False
    then show ?thesis using c(4) inv by (intro bb_bytes_frame) auto
  qed
  ultimately show ?thesis
    by (intro exI [of _ ?q'] exI [of _ m'] conjI) (auto simp: mqn_view_def mq_UnLock_def)
qed

text \<open>A heap with two messages of a sender, at the addresses 1 and 2.\<close>

definition mq_demo_cheap :: cheap where
  "mq_demo_cheap = \<lparr>ch_blocks = [1 \<mapsto> [1, 2], 2 \<mapsto> [3]], ch_brk = 3, ch_avail = 1000, ch_fill = 0\<rparr>"

definition mq_demo_heap :: mq_heap where
  "mq_demo_heap = \<lparr>oh_objs = (\<lambda>p. None), oh_next = 1, oh_arrays = (\<lambda>p. None), oh_world = mq_demo_cheap\<rparr>"

definition mq_demo_stale :: "cerror + mq_state" where
  "mq_demo_stale =
     rbind (CSLMessageQueue_Init 2 (CSLMessageQueue_new, mq_demo_heap)) (\<lambda>s0.
     rbind (CSLMessageQueue_Enqueue 1 2 7 0 s0) (\<lambda>(r1, s1).
     rbind (CSLMessageQueue_Enqueue 2 1 8 0 s1) (\<lambda>(r2, s2).
     rbind (CSLMessageQueue_Dequeue CSLMessageQueueNode_new s2) (\<lambda>(r3, o1, s3).
     rbind (CSLMessageQueue_Dequeue CSLMessageQueueNode_new s3) (\<lambda>(r4, o2, s4).
     rbind (CSLMessageQueue_Enqueue 2 1 9 0 s4) (\<lambda>(r5, s5). Inr s5))))))"

definition mq_clear_then_enqueue :: "mq_state \<Rightarrow> cerror option" where
  "mq_clear_then_enqueue s =
     (case CSLMessageQueue_Clear s of
        None \<Rightarrow> None
      | Some (Inl e) \<Rightarrow> None
      | Some (Inr (b, s')) \<Rightarrow>
          (case CSLMessageQueue_Enqueue 2 1 10 0 s' of Inl e \<Rightarrow> Some e | Inr x \<Rightarrow> None))"


text \<open>The theorems at concrete states: a queue of two, with one message in it.\<close>

definition mq_demo_one :: "mq_state \<times> CSLMessageQueueNode" where
  "mq_demo_one = (case mq_boot 2 mq_demo_heap CSLMessageQueueNode_new of
     Inl e \<Rightarrow> ((CSLMessageQueue_new, mq_demo_heap), CSLMessageQueueNode_new)
   | Inr s \<Rightarrow> s)"

lemma mq_demo_start:
  "objheap_ok mq_demo_heap" "cheap_ok (oh_world mq_demo_heap)"
  "bb_ok (mqn_msg CSLMessageQueueNode_new) (oh_world mq_demo_heap)"
  "bb_bOwner (mqn_msg CSLMessageQueueNode_new)"
  "mq_boot 2 mq_demo_heap CSLMessageQueueNode_new = Inr mq_demo_one"
proof -
  have "\<not> isl (mq_boot 2 mq_demo_heap CSLMessageQueueNode_new)" by code_simp
  then show "mq_boot 2 mq_demo_heap CSLMessageQueueNode_new = Inr mq_demo_one"
    by (auto simp: mq_demo_one_def split: sum.splits)
  show "objheap_ok mq_demo_heap" by (simp add: objheap_ok_def mq_demo_heap_def)
  show "cheap_ok (oh_world mq_demo_heap)"
    by (auto simp: cheap_ok_def mq_demo_heap_def mq_demo_cheap_def split: if_splits)
qed (simp_all add: CSLMessageQueueNode_new_def bb_ok_def CByteBuffer_new_def)


lemma mq_demo_one_inv: "mq_inv [] mq_demo_one"
proof -
  obtain q m where b: "mq_boot 2 mq_demo_heap CSLMessageQueueNode_new = Inr ((q, m), CSLMessageQueueNode_new)"
      and r: "mq_repr [] ((q, m), CSLMessageQueueNode_new)"
    using mq_init_ok [OF mq_demo_start(1,4,3,2), of 2] by (auto simp: mq_boot_def simp del: mq_repr.simps)
  have one: "mq_demo_one = ((q, m), CSLMessageQueueNode_new)" using b mq_demo_start(5) by simp
  show ?thesis using r unfolding one by (auto simp del: mq_inv.simps)
qed

definition mq_demo_two :: "mq_state \<times> CSLMessageQueueNode" where
  "mq_demo_two = (case mq_enq (1, 2, 7, 0) mq_demo_one of Inl e \<Rightarrow> mq_demo_one | Inr (r, s) \<Rightarrow> s)"

lemma mq_demo_one_ready:
  "mq_ready 1 2 (fst mq_demo_one)" "\<not> mq_full (fst (fst mq_demo_one))"
  "load 1 0 (nat 2) (oh_world (snd (fst mq_demo_one))) = Inr [1, 2]"
proof -
  show "mq_ready 1 2 (fst mq_demo_one)" by code_simp
  show "\<not> mq_full (fst (fst mq_demo_one))" by code_simp
  have "(case load 1 0 (nat 2) (oh_world (snd (fst mq_demo_one))) of Inl e \<Rightarrow> False | Inr bs \<Rightarrow> bs = [1, 2])"
    by code_simp
  then show "load 1 0 (nat 2) (oh_world (snd (fst mq_demo_one))) = Inr [1, 2]"
    by (auto split: sum.splits)
qed

lemma mq_demo_two_inv: "mq_inv [1] mq_demo_two" "mq_nx (snd (fst mq_demo_two)) 1 = NULL"
proof -
  obtain q m o' where s: "mq_demo_one = ((q, m), o')" by (metis prod.exhaust)
  obtain q' m' p where e: "CSLMessageQueue_Enqueue 1 2 7 0 (q, m) = Inr (0, q', m')"
      "mq_inv [p] ((q', m'), o')"
    using mq_enqueue_ok [of "[]" q m o' 1 2 "[1, 2]" 7 0] mq_demo_one_inv [unfolded s]
      mq_demo_one_ready [unfolded s]
    by (auto simp del: mq_inv.simps)
  have two: "mq_demo_two = ((q', m'), o')" unfolding mq_demo_two_def s using e(1) by simp
  have "mq_pHead (fst (fst mq_demo_two)) = 1" by code_simp
  then have "mq_pHead q' = 1" unfolding two by simp
  then have "p = 1" using e(2) by (simp add: mq_shape_def)
  then show "mq_inv [1] mq_demo_two" using e(2) two by simp
  show "mq_nx (snd (fst mq_demo_two)) 1 = NULL" by code_simp
qed

lemma message_enqueue_appends_witness:
  "\<exists>q' m' p. CSLMessageQueue_Enqueue 1 2 7 0 (fst mq_demo_one) = Inr (0, q', m') \<and>
     mq_inv ([] @ [p]) ((q', m'), snd mq_demo_one) \<and>
     map (mq_view m') ([] @ [p]) = map (mq_view (snd (fst mq_demo_one))) [] @ [([1, 2], 7, 0)] \<and>
     mq_lock q' = mq_lock (fst (fst mq_demo_one))"
  using message_enqueue_appends [of "[]" "fst (fst mq_demo_one)" "snd (fst mq_demo_one)" "snd mq_demo_one"
      1 2 "[1, 2]" 7 0] mq_demo_one_inv mq_demo_one_ready
  by (simp del: mq_inv.simps)

lemma message_dequeue_takes_head_witness:
  "\<exists>o2 q' m'. CSLMessageQueue_Dequeue (snd mq_demo_two) (fst mq_demo_two) = Inr (0, o2, q', m') \<and>
     mq_inv [] ((q', m'), o2) \<and> mqn_view o2 (oh_world m') = mq_view (snd (fst mq_demo_two)) 1 \<and>
     mq_lock q' = mq_lock (fst (fst mq_demo_two))"
  using message_dequeue_takes_head [of 1 "[]" "fst (fst mq_demo_two)" "snd (fst mq_demo_two)" "snd mq_demo_two"]
    mq_demo_two_inv
  by (simp del: mq_inv.simps)

lemma message_clear_empties_witness:
  "\<exists>q' m'. CSLMessageQueue_Clear (fst mq_demo_two) = Some (Inr (True, q', m')) \<and>
     mq_inv [] ((q', m'), snd mq_demo_two) \<and> mq_pHead q' = NULL"
  using message_clear_empties [of "[1]" "fst (fst mq_demo_two)" "snd (fst mq_demo_two)" "snd mq_demo_two"]
    mq_demo_two_inv
  by (auto simp del: mq_inv.simps)

end
