(* ===== verification/TcpSession.thy ===== *)
theory TcpSession
  imports SmallObjectPool
begin

text \<open>
  \<open>CSLTcpSession\<close> (SLTcpSession.h, SLTcpSession.cpp): cutting a TCP byte stream into messages
  that begin with their own size, the message structures of SLCommonDef.h, and
  \<open>CSLTcpSessionEvent\<close> (SLTcpSessionEvent.h), which attaches a pooled session to each
  connection.

  A receive hands over a pointer and a length; the model has the bytes that lie behind the
  pointer as a list \<open>data\<close>, the offset \<open>p\<close> that the code advances and the remaining length
  \<open>nLen\<close>, an \<open>int\<close>. A read outside \<open>data\<close>, a write outside the session's buffer and a
  negative length are faults. The virtual \<open>ProcessMessage\<close> is seen through the list
  \<open>ts_log\<close> of the byte strings it was called with. \<open>malloc\<close> is the parameter \<open>mem\<close>: the
  fresh bytes, or None.
\<close>

section \<open>Message structures\<close>

text \<open>The heads differ in the number of their 32-bit parameters; all are packed.\<close>

datatype head_kind = HEAD | HEAD_8 | HEAD_12 | HEAD_16 | HEAD_20 | HEAD_24 | HEAD_28 | HEAD_32 | HEAD_36

definition MSG_MAXPARAMS :: nat where
  "MSG_MAXPARAMS = 8"

fun head_nparams :: "head_kind \<Rightarrow> nat" where
  "head_nparams HEAD = MSG_MAXPARAMS"
| "head_nparams HEAD_8 = 0"
| "head_nparams HEAD_12 = 1"
| "head_nparams HEAD_16 = 2"
| "head_nparams HEAD_20 = 3"
| "head_nparams HEAD_24 = 4"
| "head_nparams HEAD_28 = 5"
| "head_nparams HEAD_32 = 6"
| "head_nparams HEAD_36 = 7"

record SL_MSGHEAD =
  mh_nSize :: u32
  mh_nCommand :: u32
  mh_nParams :: "u32 list"

record SL_MSGHEAD_EX =
  mhx_nSize :: u32
  mhx_nCommand :: u32
  mhx_nParams :: "u32 list"
  mhx_nAttachID :: "64 word"

record SL_MSGHEAD_SMALL =
  mhs_nSize :: u16
  mhs_nCommand :: u16

definition SL_MSGHEAD_bytes :: "head_kind \<Rightarrow> SL_MSGHEAD \<Rightarrow> byte list" where
  "SL_MSGHEAD_bytes k h =
     le_bytes 4 (unat (mh_nSize h)) @ le_bytes 4 (unat (mh_nCommand h)) @
     concat (map (\<lambda>i. le_bytes 4 (unat (mh_nParams h ! i))) [0..<head_nparams k])"

definition SL_MSGHEAD_EX_bytes :: "SL_MSGHEAD_EX \<Rightarrow> byte list" where
  "SL_MSGHEAD_EX_bytes h =
     le_bytes 4 (unat (mhx_nSize h)) @ le_bytes 4 (unat (mhx_nCommand h)) @
     concat (map (\<lambda>i. le_bytes 4 (unat (mhx_nParams h ! i))) [0..<6]) @
     le_bytes 8 (unat (mhx_nAttachID h))"

definition SL_MSGHEAD_SMALL_bytes :: "SL_MSGHEAD_SMALL \<Rightarrow> byte list" where
  "SL_MSGHEAD_SMALL_bytes h =
     le_bytes 2 (unat (mhs_nSize h)) @ le_bytes 2 (unat (mhs_nCommand h))"

section \<open>The session\<close>

record CSLTcpSession =
  ts_pSocketSource :: addr
  ts_hSocket :: int
  ts_nNeedMsgSize :: u32
  ts_nLastMsgLeft :: u32
  ts_nMsgSizeByte :: byte
  ts_nBufferSize :: u32
  ts_szBuffer :: "byte list option"
  ts_log :: "byte list list"

definition CSLTcpSession_new :: CSLTcpSession where
  "CSLTcpSession_new =
     \<lparr>ts_pSocketSource = NULL, ts_hSocket = -1, ts_nNeedMsgSize = 0, ts_nLastMsgLeft = 0,
      ts_nMsgSizeByte = 4, ts_nBufferSize = 1024, ts_szBuffer = None, ts_log = []\<rparr>"

definition CSLTcpSession_Reset :: "CSLTcpSession \<Rightarrow> CSLTcpSession" where
  "CSLTcpSession_Reset s = s\<lparr>ts_nNeedMsgSize := 0, ts_nLastMsgLeft := 0\<rparr>"

definition CSLTcpSession_Init :: "addr \<Rightarrow> int \<Rightarrow> u32 \<Rightarrow> byte \<Rightarrow> CSLTcpSession \<Rightarrow> CSLTcpSession" where
  "CSLTcpSession_Init pSocketSource hSocket nBufferSize nMsgSizeByte s =
     (CSLTcpSession_Reset s)
       \<lparr>ts_pSocketSource := pSocketSource, ts_hSocket := hSocket,
        ts_nBufferSize := nBufferSize, ts_nMsgSizeByte := nMsgSizeByte\<rparr>"

definition CSLTcpSession_Uninit :: "CSLTcpSession \<Rightarrow> bool \<times> CSLTcpSession" where
  "CSLTcpSession_Uninit s = (True, s)"

definition CSLTcpSession_Clear :: "CSLTcpSession \<Rightarrow> CSLTcpSession" where
  "CSLTcpSession_Clear s = s\<lparr>ts_szBuffer := None\<rparr>"

definition CSLTcpSession_ProcessMessage :: "byte list \<Rightarrow> CSLTcpSession \<Rightarrow> CSLTcpSession" where
  "CSLTcpSession_ProcessMessage szMsg s = s\<lparr>ts_log := ts_log s @ [szMsg]\<rparr>"

text \<open>\<open>Send\<close> passes on to the socket source, a parameter here.\<close>

definition CSLTcpSession_Send ::
    "(addr \<Rightarrow> int \<Rightarrow> byte list \<Rightarrow> int \<Rightarrow> 'r) \<Rightarrow> byte list \<Rightarrow> int \<Rightarrow> CSLTcpSession \<Rightarrow> 'r" where
  "CSLTcpSession_Send source_send szData nLen s =
     source_send (ts_pSocketSource s) (ts_hSocket s) szData nLen"

definition CSLTcpSession_OnEvent :: "int \<Rightarrow> CSLTcpSession \<Rightarrow> int \<times> CSLTcpSession" where
  "CSLTcpSession_OnEvent nEventID ts = (0, ts)"

definition CSLTcpSession_GetEventID :: "CSLTcpSession \<Rightarrow> int" where
  "CSLTcpSession_GetEventID ts = 0"

definition rd :: "byte list \<Rightarrow> int \<Rightarrow> int \<Rightarrow> cerror + byte list" where
  "rd bs p n =
     (if n < 0 then Inl RangeError
      else if p < 0 \<or> int (length bs) < p + n then Inl OutOfBounds
      else Inr (take (nat n) (drop (nat p) bs)))"

text \<open>\<open>memcpy\<close> of \<open>n\<close> bytes at \<open>p\<close> into the session's buffer at an offset.\<close>

definition ts_memcpy :: "u32 \<Rightarrow> byte list \<Rightarrow> int \<Rightarrow> int \<Rightarrow> CSLTcpSession \<Rightarrow> cerror + CSLTcpSession" where
  "ts_memcpy off bs p n s =
     (case ts_szBuffer s of
        None \<Rightarrow> Inl NullDeref
      | Some buf \<Rightarrow> rbind (rd bs p n)
          (\<lambda>new. if length buf < unat off + length new then Inl OutOfBounds
                 else Inr (s\<lparr>ts_szBuffer :=
                        Some (take (unat off) buf @ new @ drop (unat off + length new) buf)\<rparr>)))"

definition CSLTcpSession_MakeBuffer ::
    "(u32 \<Rightarrow> byte list option) \<Rightarrow> CSLTcpSession \<Rightarrow> CSLTcpSession" where
  "CSLTcpSession_MakeBuffer mem s =
     (if ts_szBuffer s = None then s\<lparr>ts_szBuffer := mem (ts_nBufferSize s)\<rparr> else s)"

definition CSLTcpSession_GetMsgSize :: "byte \<Rightarrow> byte list \<Rightarrow> int \<Rightarrow> int \<Rightarrow> cerror + u32" where
  "CSLTcpSession_GetMsgSize nMsgSizeByte bs p nLen =
     (if nLen < uint nMsgSizeByte then Inr 0
      else if nMsgSizeByte = 1 \<or> nMsgSizeByte = 2 \<or> nMsgSizeByte = 4
      then rbind (rd bs p (uint nMsgSizeByte)) (\<lambda>h. Inr (of_nat (le_val h)))
      else Inr 0)"

text \<open>The buffer as the source of a read.\<close>

definition ts_buf :: "CSLTcpSession \<Rightarrow> byte list" where
  "ts_buf s = (case ts_szBuffer s of None \<Rightarrow> [] | Some b \<Rightarrow> b)"

definition ts_process :: "byte list \<Rightarrow> int \<Rightarrow> int \<Rightarrow> CSLTcpSession \<Rightarrow> cerror + CSLTcpSession" where
  "ts_process bs p n s = rbind (rd bs p n) (\<lambda>m. Inr (CSLTcpSession_ProcessMessage m s))"

lemma rd_Inr: "rd bs p n = Inr m \<longleftrightarrow> 0 \<le> n \<and> 0 \<le> p \<and> p + n \<le> int (length bs) \<and> m = take (nat n) (drop (nat p) bs)"
  by (auto simp: rd_def)

lemma ts_process_Inr:
  "ts_process bs p n s = Inr s' \<longleftrightarrow> 0 \<le> n \<and> 0 \<le> p \<and> p + n \<le> int (length bs) \<and>
     s' = s\<lparr>ts_log := ts_log s @ [take (nat n) (drop (nat p) bs)]\<rparr>"
  by (auto simp: ts_process_def res_simps rd_Inr CSLTcpSession_ProcessMessage_def)

lemma ts_memcpy_keeps:
  "ts_memcpy off bs p n s = Inr s' \<Longrightarrow>
   0 \<le> n \<and> ts_nNeedMsgSize s' = ts_nNeedMsgSize s \<and> ts_nLastMsgLeft s' = ts_nLastMsgLeft s"
  by (auto simp: ts_memcpy_def res_simps rd_Inr split: option.splits)

lemma MakeBuffer_keeps [simp]:
  "ts_nNeedMsgSize (CSLTcpSession_MakeBuffer mem s) = ts_nNeedMsgSize s"
  "ts_nLastMsgLeft (CSLTcpSession_MakeBuffer mem s) = ts_nLastMsgLeft s"
  "ts_nMsgSizeByte (CSLTcpSession_MakeBuffer mem s) = ts_nMsgSizeByte s"
  "ts_nBufferSize (CSLTcpSession_MakeBuffer mem s) = ts_nBufferSize s"
  "ts_log (CSLTcpSession_MakeBuffer mem s) = ts_log s"
  by (simp_all add: CSLTcpSession_MakeBuffer_def)

lemma sint_to_u32_le: "0 \<le> n \<Longrightarrow> sint (to_u32 n) \<le> n"
proof -
  assume n: "0 \<le> n"
  have e: "sint (to_u32 n) = signed_take_bit 31 n"
    by (simp add: to_u32_def signed_of_int)
  show ?thesis
  proof (cases "n < 2 ^ 31")
    case True
    then have "signed_take_bit 31 n = n" using n by (intro signed_take_bit_int_eq_self) auto
    then show ?thesis using e by simp
  next
    case False
    have "signed_take_bit 31 n < 2 ^ 31" by (rule signed_take_bit_int_less_exp)
    then show ?thesis using e False by linarith
  qed
qed

text \<open>
  \<open>SplitPacket\<close>, branch by branch. The code mixes \<open>int\<close> and \<open>uint32\<close>: a comparison with
  an unsigned operand is unsigned, a difference with one is computed modulo \<open>2 ^ 32\<close> and
  read as an \<open>int\<close> when it is stored in one. Line 91 passes on \<open>m_nNeedMsgSize\<close> after it
  has been set to 0, line 150 advances \<open>p\<close> but not \<open>nLen\<close>, and line 192 subtracts
  \<open>m_nLastMsgLeft\<close> after it has been set to 0, as written.
\<close>

function (sequential) CSLTcpSession_SplitPacket ::
    "(u32 \<Rightarrow> byte list option) \<Rightarrow> byte list \<Rightarrow> int \<Rightarrow> int \<Rightarrow> CSLTcpSession \<Rightarrow> cerror + CSLTcpSession" where
  "CSLTcpSession_SplitPacket mem bs p nLen s =
     (if nLen \<le> 0 then Inr s
      else if 0 < ts_nNeedMsgSize s then
        (if to_u32 nLen \<le> ts_nNeedMsgSize s
         then rbind (ts_process bs p nLen s)
           (\<lambda>s1. Inr (s1\<lparr>ts_nNeedMsgSize := ts_nNeedMsgSize s1 - to_u32 nLen\<rparr>))
         else rbind (ts_process bs p (sint (ts_nNeedMsgSize s)) s)
           (\<lambda>s1. let s2 = s1\<lparr>ts_nNeedMsgSize := 0\<rparr>
                 in CSLTcpSession_SplitPacket mem bs (p + uint (ts_nNeedMsgSize s2))
                      (sint (to_u32 nLen - ts_nNeedMsgSize s2)) s2))
      else if ts_nLastMsgLeft s = 0 then
        rbind (CSLTcpSession_GetMsgSize (ts_nMsgSizeByte s) bs p nLen)
          (\<lambda>size. let nMsgSize = sint size in
             if nMsgSize = 0 then
               rbind (ts_memcpy 0 bs p nLen (CSLTcpSession_MakeBuffer mem s))
                 (\<lambda>s1. Inr (s1\<lparr>ts_nLastMsgLeft := to_u32 nLen\<rparr>))
             else if nMsgSize = nLen then ts_process bs p nMsgSize s
             else if nMsgSize < nLen then
               rbind (ts_process bs p nMsgSize s)
                 (\<lambda>s1. CSLTcpSession_SplitPacket mem bs (p + nMsgSize) (nLen - nMsgSize) s1)
             else if ts_nBufferSize s < size then
               rbind (ts_process bs p nLen s)
                 (\<lambda>s1. Inr (s1\<lparr>ts_nNeedMsgSize := to_u32 (nMsgSize - nLen)\<rparr>))
             else rbind (ts_memcpy 0 bs p nLen (CSLTcpSession_MakeBuffer mem s))
                 (\<lambda>s1. Inr (s1\<lparr>ts_nLastMsgLeft := to_u32 nLen\<rparr>)))
      else if ts_nLastMsgLeft s < ucast (ts_nMsgSizeByte s) \<and>
              ts_nLastMsgLeft s + to_u32 nLen < ucast (ts_nMsgSizeByte s) then
        rbind (ts_memcpy (ts_nLastMsgLeft s) bs p nLen s)
          (\<lambda>s1. Inr (s1\<lparr>ts_nLastMsgLeft := ts_nLastMsgLeft s1 + to_u32 nLen\<rparr>))
      else rbind
        (if ts_nLastMsgLeft s < ucast (ts_nMsgSizeByte s)
         then let nOffset = sint (ucast (ts_nMsgSizeByte s) - ts_nLastMsgLeft s)
              in rbind (ts_memcpy (ts_nLastMsgLeft s) bs p nOffset s)
                   (\<lambda>s1. Inr (p + nOffset, s1\<lparr>ts_nLastMsgLeft := ts_nLastMsgLeft s1 + to_u32 nOffset\<rparr>))
         else Inr (p, s))
        (\<lambda>(p1, s1). rbind (CSLTcpSession_GetMsgSize (ts_nMsgSizeByte s1) (ts_buf s1) 0 (uint (ts_nMsgSizeByte s1)))
          (\<lambda>size. let nMsgSize = sint size in
             if nMsgSize = 0 then
               rbind (ts_memcpy (ts_nLastMsgLeft s1) bs p1 nLen (CSLTcpSession_MakeBuffer mem s1))
                 (\<lambda>s2. Inr (s2\<lparr>ts_nLastMsgLeft := ts_nLastMsgLeft s2 + to_u32 nLen\<rparr>))
             else if size \<le> ts_nBufferSize s1 then
               (if size = ts_nLastMsgLeft s1 + to_u32 nLen then
                  rbind (ts_memcpy (ts_nLastMsgLeft s1) bs p1 nLen (CSLTcpSession_MakeBuffer mem s1))
                    (\<lambda>s2. ts_process (ts_buf s2) 0 nMsgSize (s2\<lparr>ts_nLastMsgLeft := 0\<rparr>))
                else if ts_nLastMsgLeft s1 + to_u32 nLen < size then
                  rbind (ts_memcpy (ts_nLastMsgLeft s1) bs p1 nLen (CSLTcpSession_MakeBuffer mem s1))
                    (\<lambda>s2. Inr (s2\<lparr>ts_nLastMsgLeft := ts_nLastMsgLeft s2 + to_u32 nLen\<rparr>))
                else let nOffset = sint (size - ts_nLastMsgLeft s1) in
                  rbind (ts_memcpy (ts_nLastMsgLeft s1) bs p1 nOffset (CSLTcpSession_MakeBuffer mem s1))
                    (\<lambda>s2. rbind (ts_process (ts_buf s2) 0 nMsgSize (s2\<lparr>ts_nLastMsgLeft := 0\<rparr>))
                       (\<lambda>s3. CSLTcpSession_SplitPacket mem bs (p1 + nOffset) (nLen - nOffset) s3)))
             else rbind (ts_process (ts_buf s1) 0 (sint (ts_nLastMsgLeft s1)) s1)
               (\<lambda>s2. rbind (ts_process bs p1 nLen s2)
                 (\<lambda>s3. let s4 = s3\<lparr>ts_nLastMsgLeft := 0\<rparr>
                       in Inr (s4\<lparr>ts_nNeedMsgSize := size - ts_nLastMsgLeft s4 - to_u32 nLen\<rparr>))))))"
  by pat_completeness auto

definition ts_measure :: "(u32 \<Rightarrow> byte list option) \<times> byte list \<times> int \<times> int \<times> CSLTcpSession \<Rightarrow> nat" where
  "ts_measure = (\<lambda>(mem, bs, p, nLen, s).
     2 * nat nLen + (if 0 < ts_nNeedMsgSize s then 1 else 0) + (if ts_nLastMsgLeft s \<noteq> 0 then 1 else 0))"

termination CSLTcpSession_SplitPacket
proof (relation "measure ts_measure", goal_cases)
  case 1
  then show ?case by simp
next
  case (2 mem bs p nLen s s1 s2)
  then have "sint (to_u32 nLen) \<le> nLen" by (intro sint_to_u32_le) simp
  with 2 show ?case by (simp add: ts_measure_def ts_process_Inr)
next
  case (3 mem bs p nLen s size nMsgSize s1)
  then show ?case by (auto simp: ts_measure_def ts_process_Inr)
next
  case (4 mem bs p nLen s x p1 s1 size nMsgSize nOffset s2 s3)
  then have "ts_nNeedMsgSize s1 = 0"
    by (auto simp: res_simps Let_def word_gt_0 split: if_splits dest!: ts_memcpy_keeps)
  with 4 show ?case
    by (auto simp: ts_measure_def ts_process_Inr word_gt_0 dest!: ts_memcpy_keeps)
qed

declare CSLTcpSession_SplitPacket.simps [simp del]

text \<open>The entry points.\<close>

definition CSLTcpSession_OnRecv ::
    "(u32 \<Rightarrow> byte list option) \<Rightarrow> byte list \<Rightarrow> int \<Rightarrow> CSLTcpSession \<Rightarrow> cerror + CSLTcpSession" where
  "CSLTcpSession_OnRecv mem szData nLen s = CSLTcpSession_SplitPacket mem szData 0 nLen s"

section \<open>What a stream means\<close>

text \<open>\<open>frames k bs\<close>: the messages of a stream whose size field has \<open>k\<close> bytes, and the
  incomplete rest.\<close>

function frames :: "nat \<Rightarrow> byte list \<Rightarrow> byte list list \<times> byte list" where
  "frames k bs =
     (let n = le_val (take k bs)
      in if length bs < k \<or> n = 0 \<or> length bs < n then ([], bs)
         else let (ms, r) = frames k (drop n bs) in (take n bs # ms, r))"
  by pat_completeness auto
termination by (relation "measure (\<lambda>(k, bs). length bs)") auto

declare frames.simps [simp del]

text \<open>A stream in which every message fits the buffer, cut so that the last size field is
  complete.\<close>

function stream_ok :: "nat \<Rightarrow> nat \<Rightarrow> byte list \<Rightarrow> bool" where
  "stream_ok k B bs =
     (bs = [] \<or>
      (let n = le_val (take k bs)
       in k \<le> length bs \<and> 0 < n \<and> n \<le> B \<and>
          (if 0 < n \<and> n \<le> length bs then stream_ok k B (drop n bs) else True)))"
  by pat_completeness auto
termination by (relation "measure (\<lambda>(k, B, bs). length bs)") auto

declare stream_ok.simps [simp del]

text \<open>The session holds the incomplete message \<open>r\<close>.\<close>

definition ts_repr :: "byte list \<Rightarrow> CSLTcpSession \<Rightarrow> bool" where
  "ts_repr r s \<longleftrightarrow> ts_nNeedMsgSize s = 0 \<and> unat (ts_nLastMsgLeft s) = length r \<and>
     (case ts_szBuffer s of None \<Rightarrow> r = []
      | Some buf \<Rightarrow> length buf = unat (ts_nBufferSize s) \<and> take (length r) buf = r)"

definition ts_cfg :: "CSLTcpSession \<Rightarrow> bool" where
  "ts_cfg s \<longleftrightarrow> (ts_nMsgSizeByte s = 1 \<or> ts_nMsgSizeByte s = 2 \<or> ts_nMsgSizeByte s = 4) \<and>
     unat (ts_nBufferSize s) < 2 ^ 31"

definition mem_gives :: "(u32 \<Rightarrow> byte list option) \<Rightarrow> u32 \<Rightarrow> bool" where
  "mem_gives mem n = (case mem n of None \<Rightarrow> False | Some b \<Rightarrow> length b = unat n)"

definition ts_same_cfg :: "CSLTcpSession \<Rightarrow> CSLTcpSession \<Rightarrow> bool" where
  "ts_same_cfg s s' \<longleftrightarrow> ts_nMsgSizeByte s' = ts_nMsgSizeByte s \<and> ts_nBufferSize s' = ts_nBufferSize s"

lemma ts_repr_log [simp]: "ts_repr r (s\<lparr>ts_log := x\<rparr>) = ts_repr r s"
  by (simp add: ts_repr_def split: option.split)

lemma rd_mid: "n \<le> length c \<Longrightarrow> rd (pre @ c @ post) (int (length pre)) (int n) = Inr (take n c)"
  by (auto simp: rd_def)

lemma ts_process_mid:
  "n \<le> length c \<Longrightarrow> ts_process (pre @ c @ post) (int (length pre)) (int n) s =
     Inr (s\<lparr>ts_log := ts_log s @ [take n c]\<rparr>)"
  by (simp add: ts_process_def rd_mid CSLTcpSession_ProcessMessage_def)

lemma ts_memcpy_mid:
  "n \<le> length c \<Longrightarrow> ts_szBuffer s = Some buf \<Longrightarrow> unat off + n \<le> length buf \<Longrightarrow>
   ts_memcpy off (pre @ c @ post) (int (length pre)) (int n) s =
     Inr (s\<lparr>ts_szBuffer := Some (take (unat off) buf @ take n c @ drop (unat off + n) buf)\<rparr>)"
  by (simp add: ts_memcpy_def rd_mid)

lemma unat_size_byte: "kb = 1 \<or> kb = 2 \<or> kb = (4 :: byte) \<Longrightarrow> unat kb = 1 \<or> unat kb = 2 \<or> unat kb = 4"
  by auto

lemma unat_ucast_byte: "unat (ucast (b :: byte) :: u32) = unat b"
proof -
  have "unat b < 256" using unsigned_less [of b, where ?'a = nat] by simp
  then show ?thesis by (simp add: unsigned_ucast_eq take_bit_nat_eq_self)
qed

lemma le_val_take4: "k \<le> 4 \<Longrightarrow> le_val (take k bs) < 2 ^ 32"
proof -
  assume k: "k \<le> 4"
  have "le_val (take k bs) < 256 ^ length (take k bs)" by (rule le_val_less)
  also have "\<dots> \<le> 256 ^ 4" using k by (intro power_increasing) auto
  finally show ?thesis by simp
qed

lemma GetMsgSize_mid:
  assumes "kb = 1 \<or> kb = 2 \<or> kb = 4" "unat kb \<le> length c"
  shows "CSLTcpSession_GetMsgSize kb (pre @ c @ post) (int (length pre)) (int (length c)) =
           Inr (of_nat (le_val (take (unat kb) c)))"
proof -
  have u: "uint kb = int (unat kb)" by simp
  have "rd (pre @ c @ post) (int (length pre)) (uint kb) = Inr (take (unat kb) c)"
    using rd_mid [OF assms(2), of pre post] by simp
  moreover have "\<not> int (length c) < uint kb" using assms(2) u by linarith
  ultimately show ?thesis using assms(1) by (simp add: CSLTcpSession_GetMsgSize_def)
qed

lemma frames_stop:
  "length bs < k \<or> le_val (take k bs) = 0 \<or> length bs < le_val (take k bs) \<Longrightarrow> frames k bs = ([], bs)"
  by (subst frames.simps) (auto simp: Let_def)

lemma frames_step:
  "k \<le> length bs \<Longrightarrow> le_val (take k bs) = n \<Longrightarrow> 0 < n \<Longrightarrow> n \<le> length bs \<Longrightarrow>
   frames k bs = (take n bs # fst (frames k (drop n bs)), snd (frames k (drop n bs)))"
  by (subst frames.simps) (auto simp: Let_def split: prod.split)

lemma stream_okD:
  assumes "stream_ok k B bs" "bs \<noteq> []"
  shows "k \<le> length bs" "0 < le_val (take k bs)" "le_val (take k bs) \<le> B"
    "le_val (take k bs) \<le> length bs \<Longrightarrow> stream_ok k B (drop (le_val (take k bs)) bs)"
  using assms by (subst (asm) stream_ok.simps; auto simp: Let_def)+

section \<open>SplitPacket on a good stream\<close>

text \<open>Keeping the beginning of a message for later.\<close>

lemma ts_keep_rest:
  assumes "ts_repr [] s" "mem_gives mem (ts_nBufferSize s)" "length c \<le> unat (ts_nBufferSize s)"
  shows "\<exists>s1. ts_memcpy 0 (pre @ c @ post) (int (length pre)) (int (length c)) (CSLTcpSession_MakeBuffer mem s) = Inr s1 \<and>
           ts_repr c (s1\<lparr>ts_nLastMsgLeft := of_nat (length c)\<rparr>) \<and> ts_log s1 = ts_log s \<and> ts_same_cfg s s1"
proof -
  obtain buf where buf: "ts_szBuffer (CSLTcpSession_MakeBuffer mem s) = Some buf"
      "length buf = unat (ts_nBufferSize s)"
    using assms(1,2) by (auto simp: CSLTcpSession_MakeBuffer_def ts_repr_def mem_gives_def split: option.splits)
  have "length c < 2 ^ 32" using assms(3) u32_less [of "ts_nBufferSize s"] by simp
  then have "unat (of_nat (length c) :: u32) = length c" by (rule unat_of_nat_u32)
  then show ?thesis
    using ts_memcpy_mid [of "length c" c "CSLTcpSession_MakeBuffer mem s" buf 0 pre post] buf assms
    by (simp add: ts_repr_def ts_same_cfg_def)
qed

text \<open>Nothing kept from before: whole messages go out, the rest is kept.\<close>

lemma split_fresh:
  assumes "ts_repr [] s" "ts_cfg s" "mem_gives mem (ts_nBufferSize s)"
    and "stream_ok (unat (ts_nMsgSizeByte s)) (unat (ts_nBufferSize s)) c" "length c < 2 ^ 31"
  shows "\<exists>s'. CSLTcpSession_SplitPacket mem (pre @ c @ post) (int (length pre)) (int (length c)) s = Inr s' \<and>
           ts_log s' = ts_log s @ fst (frames (unat (ts_nMsgSizeByte s)) c) \<and>
           ts_repr (snd (frames (unat (ts_nMsgSizeByte s)) c)) s' \<and> ts_same_cfg s s'"
  using assms
proof (induction "length c" arbitrary: c pre s rule: less_induct)
  case less
  define k where "k = unat (ts_nMsgSizeByte s)"
  define B where "B = unat (ts_nBufferSize s)"
  define n where "n = le_val (take k c)"
  have k: "k = 1 \<or> k = 2 \<or> k = 4"
    using unat_size_byte less.prems(2) by (simp add: ts_cfg_def k_def)
  show ?case
  proof (cases "c = []")
    case True
    then show ?thesis using less.prems(1) k
      by (subst CSLTcpSession_SplitPacket.simps) (simp add: frames_stop k_def [symmetric] ts_same_cfg_def)
  next
    case False
    note so = less.prems(4) [folded k_def B_def]
    have n: "k \<le> length c" "0 < n" "n \<le> B" using stream_okD [OF so False] by (auto simp: n_def)
    have nB: "n < 2 ^ 31" using n(3) less.prems(2) by (simp add: ts_cfg_def B_def)
    have size: "CSLTcpSession_GetMsgSize (ts_nMsgSizeByte s) (pre @ c @ post) (int (length pre)) (int (length c)) =
        Inr (of_nat n)"
      using GetMsgSize_mid [of "ts_nMsgSizeByte s" c pre post] less.prems(2) n(1)
      by (simp add: ts_cfg_def k_def n_def)
    have sn: "sint (of_nat n :: u32) = int n" using nB by (rule sint_of_nat_u32)
    have st: "ts_nNeedMsgSize s = 0" "ts_nLastMsgLeft s = 0"
      using less.prems(1) by (auto simp: ts_repr_def unat_eq_0)
    consider (exact) "n = length c" | (more) "n < length c" | (part) "length c < n" by linarith
    then show ?thesis
    proof cases
      case exact
      have "frames k c = ([c], [])" using frames_step [of k c n] exact n k by (simp add: n_def frames_stop)
      then show ?thesis
        using exact st size sn False less.prems(1) ts_process_mid [of "length c" c pre post s]
        by (subst CSLTcpSession_SplitPacket.simps)
          (simp add: Let_def k_def [symmetric] ts_same_cfg_def)
    next
      case more
      let ?s1 = "s\<lparr>ts_log := ts_log s @ [take n c]\<rparr>"
      have spl: "pre @ c @ post = (pre @ take n c) @ drop n c @ post" by simp
      have p: "int (length pre) + int n = int (length (pre @ take n c))"
        "int (length c) - int n = int (length (drop n c))" using more by auto
      have pr: "ts_process (pre @ c @ post) (int (length pre)) (int n) s = Inr ?s1"
        using more by (intro ts_process_mid) simp
      have lt: "length (drop n c) < length c" using more n by simp
      with less.prems(5) have l31: "length c - n < 2 ^ 31" by simp
      have "stream_ok k B (drop n c)" using stream_okD(4) [OF so False] more by (simp add: n_def)
      then obtain s' where s': "CSLTcpSession_SplitPacket mem ((pre @ take n c) @ drop n c @ post)
          (int (length (pre @ take n c))) (int (length (drop n c))) ?s1 = Inr s'"
        "ts_log s' = ts_log ?s1 @ fst (frames k (drop n c))" "ts_repr (snd (frames k (drop n c))) s'"
        "ts_same_cfg ?s1 s'"
        using less.hyps [OF lt, of ?s1 "pre @ take n c"] less.prems l31
        by (auto simp: k_def [symmetric] B_def [symmetric] ts_cfg_def)
      have "frames k c = (take n c # fst (frames k (drop n c)), snd (frames k (drop n c)))"
        using frames_step [of k c n] more n by (simp add: n_def)
      moreover have "CSLTcpSession_SplitPacket mem (pre @ c @ post) (int (length pre)) (int (length c)) s = Inr s'"
        using more n(2) st size sn False pr s'(1) unfolding spl [symmetric] p [symmetric]
        by (subst CSLTcpSession_SplitPacket.simps) (simp add: Let_def)
      ultimately show ?thesis using s' by (auto simp: k_def [symmetric] ts_same_cfg_def)
    next
      case part
      obtain s1 where s1: "ts_memcpy 0 (pre @ c @ post) (int (length pre)) (int (length c)) (CSLTcpSession_MakeBuffer mem s) = Inr s1"
        "ts_repr c (s1\<lparr>ts_nLastMsgLeft := of_nat (length c)\<rparr>)" "ts_log s1 = ts_log s" "ts_same_cfg s s1"
        using ts_keep_rest [OF less.prems(1,3), of c pre post] part n(3) by (auto simp: B_def)
      have fr: "frames k c = ([], c)" using part by (intro frames_stop) (simp add: n_def)
      have "\<not> ts_nBufferSize s < of_nat n"
        using n(3) nB by (simp add: word_less_nat_alt unat_of_nat_u32 B_def)
      then have "CSLTcpSession_SplitPacket mem (pre @ c @ post) (int (length pre)) (int (length c)) s =
          Inr (s1\<lparr>ts_nLastMsgLeft := of_nat (length c)\<rparr>)"
        using part st size sn False s1(1) n by (subst CSLTcpSession_SplitPacket.simps) (simp add: Let_def)
      then show ?thesis using s1 fr by (auto simp: k_def [symmetric] ts_same_cfg_def)
    qed
  qed
qed

text \<open>A message kept from before is completed, or grows.\<close>

lemma split_pending:
  assumes repr: "ts_repr r s" "r \<noteq> []" and cfg: "ts_cfg s" and mem: "mem_gives mem (ts_nBufferSize s)"
    and ok: "unat (ts_nMsgSizeByte s) \<le> length r"
      "length r < le_val (take (unat (ts_nMsgSizeByte s)) r)"
      "stream_ok (unat (ts_nMsgSizeByte s)) (unat (ts_nBufferSize s)) (r @ c)"
    and c: "c \<noteq> []" "length c < 2 ^ 31"
  shows "\<exists>s'. CSLTcpSession_SplitPacket mem (pre @ c @ post) (int (length pre)) (int (length c)) s = Inr s' \<and>
           ts_log s' = ts_log s @ fst (frames (unat (ts_nMsgSizeByte s)) (r @ c)) \<and>
           ts_repr (snd (frames (unat (ts_nMsgSizeByte s)) (r @ c))) s' \<and> ts_same_cfg s s'"
proof -
  define kb where "kb = ts_nMsgSizeByte s"
  define k where "k = unat kb"
  define B where "B = unat (ts_nBufferSize s)"
  define n where "n = le_val (take k r)"
  have kb: "kb = 1 \<or> kb = 2 \<or> kb = 4" using cfg by (simp add: ts_cfg_def kb_def)
  have k: "k = 1 \<or> k = 2 \<or> k = 4" using unat_size_byte [OF kb] by (simp add: k_def)
  note ok = ok [folded kb_def, folded k_def B_def, folded n_def]
  have tk: "take k (r @ c) = take k r" using ok(1) by simp
  have n: "0 < n" "n \<le> B" using stream_okD(2,3) [OF ok(3)] repr(2) tk by (auto simp: n_def)
  have nB: "n < 2 ^ 31" using n(2) cfg by (simp add: ts_cfg_def B_def)
  have sn: "sint (of_nat n :: u32) = int n" using nB by (rule sint_of_nat_u32)
  obtain buf where buf: "ts_szBuffer s = Some buf" "length buf = B" "take (length r) buf = r"
    using repr by (auto simp: ts_repr_def B_def split: option.splits)
  have st: "ts_nNeedMsgSize s = 0" "unat (ts_nLastMsgLeft s) = length r"
    using repr by (auto simp: ts_repr_def)
  then have l0: "ts_nLastMsgLeft s \<noteq> 0" using repr(2) by auto
  have lk: "\<not> ts_nLastMsgLeft s < ucast kb"
    using st(2) ok(1) by (simp add: word_less_nat_alt unat_ucast_byte k_def)
  have rB: "length r < n" "length r \<le> B" using ok(2) n(2) by auto
  have mk: "CSLTcpSession_MakeBuffer mem s = s" using buf by (simp add: CSLTcpSession_MakeBuffer_def)
  have hdr: "take k buf = take k r" using buf(3) ok(1) by (metis min.absorb1 take_take)
  have size: "CSLTcpSession_GetMsgSize kb (ts_buf s) 0 (uint kb) = Inr (of_nat n)"
  proof -
    have l: "length (take k buf) = k" using ok(1) rB(2) buf(2) by simp
    have "CSLTcpSession_GetMsgSize kb (take k buf @ drop k buf) 0 (int k) = Inr (of_nat (le_val (take k buf)))"
      using GetMsgSize_mid [OF kb, of "take k buf" "[]" "drop k buf"] l
      by (simp add: k_def [symmetric] del: append_take_drop_id)
    then show ?thesis using buf hdr by (simp add: ts_buf_def k_def n_def)
  qed
  have sum: "unat (ts_nLastMsgLeft s + of_nat (length c)) = length r + length c"
  proof -
    have "unat (of_nat (length c) :: u32) = length c" using c(2) by (intro unat_of_nat_u32) simp
    moreover have "length r + length c < 2 ^ 32" using rB nB c(2) by simp
    ultimately show ?thesis using st(2) by (subst unat_add_lem [THEN iffD1]) auto
  qed
  have un: "unat (of_nat n :: u32) = n" using nB by (intro unat_of_nat_u32) simp
  have le: "of_nat n \<le> ts_nBufferSize s" using n(2) un by (simp add: word_le_nat_alt B_def)
  have n0: "(of_nat n :: u32) \<noteq> 0" using n(1) un by (metis unat_0 less_irrefl)
  have sum0: "\<not> ts_nLastMsgLeft s + of_nat (length c) < ucast kb"
    using sum ok(1) by (simp add: word_less_nat_alt unat_ucast_byte k_def)
  note split = CSLTcpSession_SplitPacket.simps [of mem "pre @ c @ post" "int (length pre)" "int (length c)" s]
  have red: "CSLTcpSession_SplitPacket mem (pre @ c @ post) (int (length pre)) (int (length c)) s =
     (if of_nat n = ts_nLastMsgLeft s + of_nat (length c) then
        rbind (ts_memcpy (ts_nLastMsgLeft s) (pre @ c @ post) (int (length pre)) (int (length c)) s)
          (\<lambda>s2. ts_process (ts_buf s2) 0 (int n) (s2\<lparr>ts_nLastMsgLeft := 0\<rparr>))
      else if ts_nLastMsgLeft s + of_nat (length c) < of_nat n then
        rbind (ts_memcpy (ts_nLastMsgLeft s) (pre @ c @ post) (int (length pre)) (int (length c)) s)
          (\<lambda>s2. Inr (s2\<lparr>ts_nLastMsgLeft := ts_nLastMsgLeft s2 + of_nat (length c)\<rparr>))
      else let nOffset = sint (of_nat n - ts_nLastMsgLeft s) in
        rbind (ts_memcpy (ts_nLastMsgLeft s) (pre @ c @ post) (int (length pre)) nOffset s)
          (\<lambda>s2. rbind (ts_process (ts_buf s2) 0 (int n) (s2\<lparr>ts_nLastMsgLeft := 0\<rparr>))
             (\<lambda>s3. CSLTcpSession_SplitPacket mem (pre @ c @ post) (int (length pre) + nOffset)
                      (int (length c) - nOffset) s3)))"
    using l0 lk st(1) c(1) size n0 sn le n(1) mk
    apply (subst split)
    apply (simp add: kb_def [symmetric] Let_def cong: if_cong split del: if_split)
    using sn by auto
  have mc: "ts_memcpy (ts_nLastMsgLeft s) (pre @ c @ post) (int (length pre)) (int d) s =
      Inr (s\<lparr>ts_szBuffer := Some (take (length r) buf @ take d c @ drop (length r + d) buf)\<rparr>)"
    if "d \<le> length c" "length r + d \<le> B" for d
    using ts_memcpy_mid [OF that(1) buf(1), of "ts_nLastMsgLeft s" pre post] that(2) st(2) buf(2) by simp
  consider (exact) "n = length r + length c" | (part) "length r + length c < n"
    | (more) "n < length r + length c" by linarith
  then show ?thesis
  proof cases
    case exact
    let ?buf = "r @ c @ drop n buf"
    have "rd ?buf 0 (int n) = Inr (r @ c)" using rd_mid [of n "r @ c" "[]" "drop n buf"] exact by simp
    moreover have "of_nat n = ts_nLastMsgLeft s + of_nat (length c)"
      using sum exact un by (simp add: word_unat_eq_iff)
    ultimately have "CSLTcpSession_SplitPacket mem (pre @ c @ post) (int (length pre)) (int (length c)) s =
        Inr (s\<lparr>ts_szBuffer := Some ?buf, ts_nLastMsgLeft := 0, ts_log := ts_log s @ [r @ c]\<rparr>)"
      using red mc [of "length c"] exact n(2) buf(3)
      by (simp add: ts_buf_def ts_process_def CSLTcpSession_ProcessMessage_def)
    moreover have "frames k (r @ c) = ([r @ c], [])"
      using frames_step [of k "r @ c" n] exact ok(1) n(1) tk k by (simp add: n_def frames_stop)
    moreover have "length ?buf = B" using buf(2) n(2) exact by simp
    ultimately show ?thesis using st(1)
      by (simp add: kb_def [symmetric] k_def [symmetric] ts_repr_def ts_same_cfg_def B_def)
  next
    case part
    let ?buf = "r @ c @ drop (length r + length c) buf"
    have lt: "ts_nLastMsgLeft s + of_nat (length c) < of_nat n" using sum part un by (simp add: word_less_nat_alt)
    then have "of_nat n \<noteq> ts_nLastMsgLeft s + of_nat (length c)" by auto
    with lt have "CSLTcpSession_SplitPacket mem (pre @ c @ post) (int (length pre)) (int (length c)) s =
        Inr (s\<lparr>ts_szBuffer := Some ?buf, ts_nLastMsgLeft := ts_nLastMsgLeft s + of_nat (length c)\<rparr>)"
      using red mc [of "length c"] part n(2) buf(3) by simp
    moreover have "frames k (r @ c) = ([], r @ c)"
      using part ok(1) by (intro frames_stop) (simp add: n_def)
    moreover have "length ?buf = B" using buf(2) n(2) part by simp
    ultimately show ?thesis using st(1) sum
      by (simp add: kb_def [symmetric] k_def [symmetric] ts_repr_def ts_same_cfg_def B_def)
  next
    case more
    define d where "d = n - length r"
    have d: "d < length c" "length r + d = n" "n - length r = d" using more rB by (auto simp: d_def)
    let ?buf = "r @ take d c @ drop n buf"
    let ?s3 = "s\<lparr>ts_szBuffer := Some ?buf, ts_nLastMsgLeft := 0, ts_log := ts_log s @ [r @ take d c]\<rparr>"
    have dd: "unat (of_nat d :: u32) = d" using nB d(2) by (intro unat_of_nat_u32) simp
    have "unat (of_nat n - ts_nLastMsgLeft s) = d"
      using un st(2) rB(1) by (subst unat_sub) (auto simp: word_le_nat_alt d_def)
    then have "of_nat n - ts_nLastMsgLeft s = of_nat d" using dd by (simp add: word_unat_eq_iff)
    then have off: "sint (of_nat n - ts_nLastMsgLeft s) = int d"
      using nB d(2) by (simp add: sint_of_nat_u32)
    have "rd ?buf 0 (int n) = Inr (r @ take d c)"
      using rd_mid [of n "r @ take d c" "[]" "drop n buf"] d by simp
    then have pr: "ts_process ?buf 0 (int n) (s\<lparr>ts_szBuffer := Some ?buf, ts_nLastMsgLeft := 0\<rparr>) = Inr ?s3"
      by (simp add: ts_process_def CSLTcpSession_ProcessMessage_def)
    have ne: "of_nat n \<noteq> ts_nLastMsgLeft s + of_nat (length c)"
      "\<not> ts_nLastMsgLeft s + of_nat (length c) < of_nat n"
      using sum more un by (auto simp: word_less_nat_alt word_unat_eq_iff)
    have p: "int (length pre) + int d = int (length (pre @ take d c))"
      "int (length c) - int d = int (length (drop d c))" using d by auto
    have spl: "pre @ c @ post = (pre @ take d c) @ drop d c @ post" by simp
    have go: "CSLTcpSession_SplitPacket mem (pre @ c @ post) (int (length pre)) (int (length c)) s =
        CSLTcpSession_SplitPacket mem ((pre @ take d c) @ drop d c @ post)
          (int (length (pre @ take d c))) (int (length (drop d c))) ?s3"
      unfolding p [symmetric] spl [symmetric]
      using red ne off mc [of d] d n(2) buf(3) pr by (simp add: ts_buf_def Let_def)
    have dr: "drop n (r @ c) = drop d c" "take n (r @ c) = r @ take d c" using d by auto
    have "stream_ok k B (drop d c)"
      using stream_okD(4) [OF ok(3), unfolded tk, folded n_def] repr(2) d dr by simp
    moreover have "ts_repr [] ?s3" using st(1) buf(2) d n(2) by (simp add: ts_repr_def B_def)
    moreover have "length c - d < 2 ^ 31" using c(2) by simp
    ultimately obtain s' where s': "CSLTcpSession_SplitPacket mem ((pre @ take d c) @ drop d c @ post)
          (int (length (pre @ take d c))) (int (length (drop d c))) ?s3 = Inr s'"
      "ts_log s' = ts_log ?s3 @ fst (frames k (drop d c))" "ts_repr (snd (frames k (drop d c))) s'"
      "ts_same_cfg ?s3 s'"
      using split_fresh [of ?s3 mem "drop d c" "pre @ take d c" post] cfg mem
      by (auto simp: kb_def [symmetric] k_def [symmetric] B_def [symmetric] ts_cfg_def)
    have "frames k (r @ c) = ((r @ take d c) # fst (frames k (drop d c)), snd (frames k (drop d c)))"
      using frames_step [of k "r @ c" n] d ok(1) n(1) tk dr by (simp add: n_def)
    with s' show ?thesis unfolding go
      by (auto simp: kb_def [symmetric] k_def [symmetric] ts_same_cfg_def)
  qed
qed

section \<open>A stream in any chunks\<close>

lemma frames_append:
  "frames k (bs @ c) =
     (fst (frames k bs) @ fst (frames k (snd (frames k bs) @ c)), snd (frames k (snd (frames k bs) @ c)))"
proof (induction k bs rule: frames.induct)
  case (1 k bs)
  define n where "n = le_val (take k bs)"
  show ?case
  proof (cases "length bs < k \<or> n = 0 \<or> length bs < n")
    case True
    then show ?thesis by (simp add: frames_stop n_def)
  next
    case False
    note IH = 1 [OF n_def]
    have "frames k (bs @ c) = (take n bs # fst (frames k (drop n bs @ c)), snd (frames k (drop n bs @ c)))"
      using False frames_step [of k "bs @ c" n] by (simp add: n_def)
    moreover have "frames k bs = (take n bs # fst (frames k (drop n bs)), snd (frames k (drop n bs)))"
      using False by (intro frames_step) (auto simp: n_def)
    moreover have "frames k (drop n bs @ c) =
        (fst (frames k (drop n bs)) @ fst (frames k (snd (frames k (drop n bs)) @ c)),
         snd (frames k (snd (frames k (drop n bs)) @ c)))"
      using IH False by (simp add: n_def)
    ultimately show ?thesis by simp
  qed
qed

lemma frames_rest:
  assumes "stream_ok k B bs" "snd (frames k bs) \<noteq> []"
  shows "k \<le> length (snd (frames k bs)) \<and>
         length (snd (frames k bs)) < le_val (take k (snd (frames k bs)))"
  using assms
proof (induction k bs rule: frames.induct)
  case (1 k bs)
  define n where "n = le_val (take k bs)"
  have "bs \<noteq> []" using 1(3) by (subst (asm) frames.simps) (auto simp: Let_def split: if_splits prod.splits)
  note so = stream_okD [OF 1(2) this, folded n_def]
  show ?case
  proof (cases "length bs < n")
    case True
    then show ?thesis using so(1) by (simp add: frames_stop n_def)
  next
    case False
    then have "frames k bs = (take n bs # fst (frames k (drop n bs)), snd (frames k (drop n bs)))"
      using so by (intro frames_step) (auto simp: n_def)
    then show ?thesis using 1(1) [OF n_def] 1(3) so False by (simp add: n_def)
  qed
qed

lemma stream_ok_rest: "stream_ok k B (bs @ c) \<Longrightarrow> stream_ok k B (snd (frames k bs) @ c)"
proof (induction k bs rule: frames.induct)
  case (1 k bs)
  define n where "n = le_val (take k bs)"
  show ?case
  proof (cases "length bs < k \<or> n = 0 \<or> length bs < n")
    case True
    then show ?thesis using 1(2) by (simp add: frames_stop n_def)
  next
    case False
    then have f: "frames k bs = (take n bs # fst (frames k (drop n bs)), snd (frames k (drop n bs)))"
      by (intro frames_step) (auto simp: n_def)
    have "bs @ c \<noteq> []" using False by auto
    from stream_okD(4) [OF 1(2) this] have "stream_ok k B (drop n bs @ c)"
      using False by (simp add: n_def)
    then show ?thesis using 1(1) [OF n_def] False f by (simp add: n_def)
  qed
qed

fun ts_recvs :: "(u32 \<Rightarrow> byte list option) \<Rightarrow> byte list list \<Rightarrow> CSLTcpSession \<Rightarrow> cerror + CSLTcpSession" where
  "ts_recvs mem [] s = Inr s"
| "ts_recvs mem (c # cs) s = rbind (CSLTcpSession_OnRecv mem c (int (length c)) s) (ts_recvs mem cs)"

text \<open>The chunks \<open>cs\<close>, after the bytes \<open>pre\<close>: none of them ends inside a size field, and
  every message fits the buffer.\<close>

fun cuts_ok :: "nat \<Rightarrow> nat \<Rightarrow> byte list \<Rightarrow> byte list list \<Rightarrow> bool" where
  "cuts_ok k B pre [] = True"
| "cuts_ok k B pre (c # cs) = (length c < 2 ^ 31 \<and> stream_ok k B (pre @ c) \<and> cuts_ok k B (pre @ c) cs)"

lemma recv_one:
  assumes "ts_repr (snd (frames (unat (ts_nMsgSizeByte s)) pre)) s" "ts_cfg s" "mem_gives mem (ts_nBufferSize s)"
    and "stream_ok (unat (ts_nMsgSizeByte s)) (unat (ts_nBufferSize s)) pre"
    and "stream_ok (unat (ts_nMsgSizeByte s)) (unat (ts_nBufferSize s)) (pre @ c)" "length c < 2 ^ 31"
  defines "k \<equiv> unat (ts_nMsgSizeByte s)"
  shows "\<exists>s'. CSLTcpSession_OnRecv mem c (int (length c)) s = Inr s' \<and>
           ts_log s' = ts_log s @ drop (length (fst (frames k pre))) (fst (frames k (pre @ c))) \<and>
           ts_repr (snd (frames k (pre @ c))) s' \<and> ts_same_cfg s s'"
proof -
  define r where "r = snd (frames k pre)"
  have app: "frames k (pre @ c) = (fst (frames k pre) @ fst (frames k (r @ c)), snd (frames k (r @ c)))"
    unfolding r_def by (rule frames_append)
  have ok: "stream_ok k (unat (ts_nBufferSize s)) (r @ c)"
    using stream_ok_rest [OF assms(5)] by (simp add: k_def r_def)
  have rest: "r \<noteq> [] \<Longrightarrow> k \<le> length r \<and> length r < le_val (take k r)"
    using frames_rest [OF assms(4)] by (simp add: k_def r_def)
  have "\<exists>s'. CSLTcpSession_SplitPacket mem ([] @ c @ []) (int (length [])) (int (length c)) s = Inr s' \<and>
           ts_log s' = ts_log s @ fst (frames k (r @ c)) \<and> ts_repr (snd (frames k (r @ c))) s' \<and> ts_same_cfg s s'"
  proof (cases "r = []")
    case True
    then show ?thesis
      using split_fresh [of s mem c "[]" "[]"] assms(1,2,3,6) ok by (simp add: k_def r_def [unfolded k_def])
  next
    case r: False
    show ?thesis
    proof (cases "c = []")
      case True
      then have "frames k (r @ c) = ([], r)" using rest [OF r] by (simp add: frames_stop)
      then show ?thesis using True assms(1)
        by (simp add: CSLTcpSession_SplitPacket.simps [of mem "[]" 0 0 s] ts_same_cfg_def k_def r_def)
    next
      case False
      show ?thesis
        using split_pending [OF _ r assms(2,3) _ _ _ False assms(6), where pre = "[]" and post = "[]"] rest [OF r] ok assms(1)
        by (simp add: k_def r_def)
    qed
  qed
  then show ?thesis by (simp add: app CSLTcpSession_OnRecv_def)
qed

lemma recv_all:
  assumes "ts_repr (snd (frames (unat (ts_nMsgSizeByte s)) pre)) s" "ts_cfg s" "mem_gives mem (ts_nBufferSize s)"
    and "stream_ok (unat (ts_nMsgSizeByte s)) (unat (ts_nBufferSize s)) pre"
    and "cuts_ok (unat (ts_nMsgSizeByte s)) (unat (ts_nBufferSize s)) pre cs"
  shows "\<exists>s'. ts_recvs mem cs s = Inr s' \<and>
           ts_log s' = ts_log s @ drop (length (fst (frames (unat (ts_nMsgSizeByte s)) pre)))
                                       (fst (frames (unat (ts_nMsgSizeByte s)) (pre @ concat cs))) \<and>
           ts_repr (snd (frames (unat (ts_nMsgSizeByte s)) (pre @ concat cs))) s'"
  using assms
proof (induction cs arbitrary: pre s)
  case (Cons c cs)
  define k where "k = unat (ts_nMsgSizeByte s)"
  obtain s1 where s1: "CSLTcpSession_OnRecv mem c (int (length c)) s = Inr s1"
      "ts_log s1 = ts_log s @ drop (length (fst (frames k pre))) (fst (frames k (pre @ c)))"
      "ts_repr (snd (frames k (pre @ c))) s1" "ts_same_cfg s s1"
    using recv_one [OF Cons.prems(1-4), of c] Cons.prems(5) by (auto simp: k_def)
  have cfg: "ts_nMsgSizeByte s1 = ts_nMsgSizeByte s" "ts_nBufferSize s1 = ts_nBufferSize s"
    using s1(4) by (auto simp: ts_same_cfg_def)
  obtain s2 where s2: "ts_recvs mem cs s1 = Inr s2"
    "ts_log s2 = ts_log s1 @ drop (length (fst (frames k (pre @ c)))) (fst (frames k ((pre @ c) @ concat cs)))"
    "ts_repr (snd (frames k ((pre @ c) @ concat cs))) s2"
    using Cons.IH [of s1 "pre @ c"] Cons.prems cfg s1(3) by (auto simp: k_def ts_cfg_def)
  obtain x y where "fst (frames k (pre @ c)) = fst (frames k pre) @ x"
    "fst (frames k ((pre @ c) @ concat cs)) = fst (frames k (pre @ c)) @ y"
    using frames_append [of k pre c] frames_append [of k "pre @ c" "concat cs"] by (metis fst_conv)
  then show ?case using s1 s2 by (auto simp: k_def [symmetric])
qed auto

section \<open>Messages larger than the buffer\<close>

lemma split_large_first:
  assumes "ts_repr [] s" "ts_cfg s" "unat (ts_nMsgSizeByte s) \<le> length c"
    and "le_val (take (unat (ts_nMsgSizeByte s)) c) = n" "unat (ts_nBufferSize s) < n" "n < 2 ^ 31"
    and "length c < n"
  shows "CSLTcpSession_OnRecv mem c (int (length c)) s =
           Inr (s\<lparr>ts_log := ts_log s @ [c], ts_nNeedMsgSize := of_nat (n - length c)\<rparr>)"
proof -
  define k where "k = unat (ts_nMsgSizeByte s)"
  have kb: "ts_nMsgSizeByte s = 1 \<or> ts_nMsgSizeByte s = 2 \<or> ts_nMsgSizeByte s = 4"
    using assms(2) by (simp add: ts_cfg_def)
  have size: "CSLTcpSession_GetMsgSize (ts_nMsgSizeByte s) c 0 (int (length c)) = Inr (of_nat n)"
    using GetMsgSize_mid [OF kb assms(3), of "[]" "[]"] assms(4) by simp
  have sn: "sint (of_nat n :: u32) = int n" using assms(6) by (rule sint_of_nat_u32)
  have "unat (of_nat n :: u32) = n" using assms(6) by (intro unat_of_nat_u32) simp
  then have "ts_nBufferSize s < of_nat n" using assms(5) by (simp add: word_less_nat_alt)
  moreover have "c \<noteq> []" using assms(3) unat_size_byte [OF kb] by auto
  moreover have "to_u32 (int n - int (length c)) = of_nat (n - length c)"
    using assms(7) by (metis of_nat_diff less_imp_le to_u32_of_nat)
  moreover have "ts_process c 0 (int (length c)) s = Inr (s\<lparr>ts_log := ts_log s @ [c]\<rparr>)"
    using ts_process_mid [of "length c" c "[]" "[]" s] by simp
  moreover have "ts_nNeedMsgSize s = 0" "ts_nLastMsgLeft s = 0"
    using assms(1) by (auto simp: ts_repr_def unat_eq_0)
  ultimately show ?thesis
    using size sn assms(7) unfolding CSLTcpSession_OnRecv_def
    by (subst CSLTcpSession_SplitPacket.simps) (simp add: Let_def)
qed

lemma split_large_more:
  assumes "ts_nNeedMsgSize s = of_nat m" "length c \<le> m" "0 < m" "m < 2 ^ 31" "c \<noteq> []"
  shows "CSLTcpSession_OnRecv mem c (int (length c)) s =
           Inr (s\<lparr>ts_log := ts_log s @ [c], ts_nNeedMsgSize := of_nat (m - length c)\<rparr>)"
proof -
  have u: "unat (of_nat m :: u32) = m" "unat (of_nat (length c) :: u32) = length c"
    using assms by (auto intro!: unat_of_nat_u32)
  have "ts_process c 0 (int (length c)) s = Inr (s\<lparr>ts_log := ts_log s @ [c]\<rparr>)"
    using ts_process_mid [of "length c" c "[]" "[]" s] by simp
  moreover have "0 < ts_nNeedMsgSize s" using assms(1,3) u(1) by (simp add: word_less_nat_alt)
  moreover have "of_nat (length c) \<le> ts_nNeedMsgSize s" using assms(1,2) u by (simp add: word_le_nat_alt)
  ultimately show ?thesis
    using assms unfolding CSLTcpSession_OnRecv_def
    by (subst CSLTcpSession_SplitPacket.simps) (simp add: of_nat_diff)
qed

lemma recv_large_rest:
  assumes "ts_nNeedMsgSize s = of_nat (length (concat cs))" "length (concat cs) < 2 ^ 31" "[] \<notin> set cs"
  shows "ts_recvs mem cs s = Inr (s\<lparr>ts_log := ts_log s @ cs, ts_nNeedMsgSize := 0\<rparr>)"
  using assms
proof (induction cs arbitrary: s)
  case (Cons c cs)
  have "CSLTcpSession_OnRecv mem c (int (length c)) s =
      Inr (s\<lparr>ts_log := ts_log s @ [c], ts_nNeedMsgSize := of_nat (length (concat (c # cs)) - length c)\<rparr>)"
    using Cons.prems by (intro split_large_more) auto
  then show ?case using Cons by simp
qed simp

section \<open>The buffer keeps its size\<close>

text \<open>Whatever is received, a call that does not fault keeps the session's configuration and
  the size of its buffer, which it allocates at most once.\<close>

definition ts_buf_ok :: "(u32 \<Rightarrow> byte list option) \<Rightarrow> CSLTcpSession \<Rightarrow> CSLTcpSession \<Rightarrow> bool" where
  "ts_buf_ok mem s s' \<longleftrightarrow> ts_nMsgSizeByte s' = ts_nMsgSizeByte s \<and> ts_nBufferSize s' = ts_nBufferSize s \<and>
     (case ts_szBuffer s' of None \<Rightarrow> ts_szBuffer s = None
      | Some b \<Rightarrow> (case ts_szBuffer s of Some b0 \<Rightarrow> length b = length b0
                   | None \<Rightarrow> (\<exists>b0. mem (ts_nBufferSize s) = Some b0 \<and> length b = length b0)))"

lemma ts_buf_ok_refl [intro]: "ts_buf_ok mem s s"
  by (simp add: ts_buf_ok_def split: option.split)

lemma ts_buf_ok_trans: "ts_buf_ok mem s s1 \<Longrightarrow> ts_buf_ok mem s1 s2 \<Longrightarrow> ts_buf_ok mem s s2"
  by (auto simp: ts_buf_ok_def split: option.splits)

lemma ts_buf_ok_MakeBuffer: "ts_buf_ok mem s (CSLTcpSession_MakeBuffer mem s)"
  by (auto simp: ts_buf_ok_def CSLTcpSession_MakeBuffer_def split: option.splits)

lemma ts_buf_ok_memcpy: "ts_memcpy off bs p n s = Inr s' \<Longrightarrow> ts_buf_ok mem s s'"
  by (auto simp: ts_buf_ok_def ts_memcpy_def res_simps split: option.splits if_splits)

lemma ts_buf_ok_process: "ts_process bs p n s = Inr s' \<Longrightarrow> ts_buf_ok mem s s'"
  by (auto simp: ts_buf_ok_def ts_process_Inr split: option.splits)

lemma ts_buf_ok_upd [simp]:
  "ts_buf_ok mem s (s'\<lparr>ts_nLastMsgLeft := x\<rparr>) = ts_buf_ok mem s s'"
  "ts_buf_ok mem s (s'\<lparr>ts_nNeedMsgSize := x\<rparr>) = ts_buf_ok mem s s'"
  "ts_buf_ok mem (s\<lparr>ts_nLastMsgLeft := x\<rparr>) s' = ts_buf_ok mem s s'"
  "ts_buf_ok mem (s\<lparr>ts_nNeedMsgSize := x\<rparr>) s' = ts_buf_ok mem s s'"
  by (simp_all add: ts_buf_ok_def split: option.split)

lemma ts_buf_ok_make_memcpy:
  "ts_memcpy off bs p n (CSLTcpSession_MakeBuffer mem s) = Inr s' \<Longrightarrow> ts_buf_ok mem s s'"
  using ts_buf_ok_trans ts_buf_ok_MakeBuffer ts_buf_ok_memcpy by blast

lemma ts_buf_ok_process':
  "ts_process bs p n (s\<lparr>ts_nLastMsgLeft := x\<rparr>) = Inr s' \<Longrightarrow> ts_buf_ok mem s s'"
  using ts_buf_ok_process [of bs p n "s\<lparr>ts_nLastMsgLeft := x\<rparr>" s' mem] by simp

lemma ts_buf_ok_steps:
  "ts_process bs p n s = Inr x \<Longrightarrow> ts_process bs' p' n' x = Inr s' \<Longrightarrow> ts_buf_ok mem s s'"
  "ts_memcpy off bs p n (CSLTcpSession_MakeBuffer mem s) = Inr x \<Longrightarrow>
   ts_process bs' p' n' (x\<lparr>ts_nLastMsgLeft := 0\<rparr>) = Inr y \<Longrightarrow> ts_buf_ok mem s y"
  using ts_buf_ok_trans [OF ts_buf_ok_process ts_buf_ok_process]
    ts_buf_ok_trans [OF ts_buf_ok_make_memcpy ts_buf_ok_process'] by metis+

lemma split_buf_ok:
  "CSLTcpSession_SplitPacket mem bs p nLen s = Inr s' \<Longrightarrow> ts_buf_ok mem s s'"
proof (induction mem bs p nLen s arbitrary: s' rule: CSLTcpSession_SplitPacket.induct)
  case (1 mem bs p nLen s)
  note b = ts_buf_ok_memcpy ts_buf_ok_process ts_buf_ok_make_memcpy ts_buf_ok_process'
  have head: "ts_buf_ok mem s s1" if "(if ts_nLastMsgLeft s < ucast (ts_nMsgSizeByte s)
         then let nOffset = sint (ucast (ts_nMsgSizeByte s) - ts_nLastMsgLeft s)
              in rbind (ts_memcpy (ts_nLastMsgLeft s) bs p nOffset s)
                   (\<lambda>s1. Inr (p + nOffset, s1\<lparr>ts_nLastMsgLeft := ts_nLastMsgLeft s1 + to_u32 nOffset\<rparr>))
         else Inr (p, s)) = Inr (p1, s1)" for p1 s1
    using that by (auto simp: res_simps Let_def intro: b split: if_splits)
  consider "nLen \<le> 0" | (need) "0 < nLen" "0 < ts_nNeedMsgSize s"
    | (fresh) "0 < nLen" "ts_nNeedMsgSize s = 0" "ts_nLastMsgLeft s = 0"
    | (pend) "0 < nLen" "ts_nNeedMsgSize s = 0" "ts_nLastMsgLeft s \<noteq> 0"
    by (auto simp: word_gt_0) linarith
  then show ?case
  proof cases
    case 1
    then show ?thesis using "1.prems" by (subst (asm) CSLTcpSession_SplitPacket.simps) auto
  next
    case need
    then show ?thesis using 1(1) "1.prems"
      apply (subst (asm) (2) CSLTcpSession_SplitPacket.simps)
      apply (auto simp: res_simps Let_def split: if_splits intro: b)
      by (metis ts_buf_ok_process ts_buf_ok_trans ts_buf_ok_upd)
  next
    case fresh
    then show ?thesis using 1(2) "1.prems"
      apply (subst (asm) (2) CSLTcpSession_SplitPacket.simps)
      apply (auto simp: res_simps Let_def split: if_splits intro: b)
      by (metis ts_buf_ok_process ts_buf_ok_trans ts_buf_ok_upd)
  next
    case pend
    then have n: "\<not> nLen \<le> 0" "\<not> 0 < ts_nNeedMsgSize s" by auto
    show ?thesis
    proof (cases "ts_nLastMsgLeft s < ucast (ts_nMsgSizeByte s) \<and>
              ts_nLastMsgLeft s + to_u32 nLen < ucast (ts_nMsgSizeByte s)")
      case True
      then show ?thesis using "1.prems" pend n
        by (subst (asm) CSLTcpSession_SplitPacket.simps) (auto simp: res_simps intro: b)
    next
      case False
      obtain p1 s1 size where s1: "(if ts_nLastMsgLeft s < ucast (ts_nMsgSizeByte s)
         then let nOffset = sint (ucast (ts_nMsgSizeByte s) - ts_nLastMsgLeft s)
              in rbind (ts_memcpy (ts_nLastMsgLeft s) bs p nOffset s)
                   (\<lambda>s1. Inr (p + nOffset, s1\<lparr>ts_nLastMsgLeft := ts_nLastMsgLeft s1 + to_u32 nOffset\<rparr>))
         else Inr (p, s)) = Inr (p1, s1)"
        "CSLTcpSession_GetMsgSize (ts_nMsgSizeByte s1) (ts_buf s1) 0 (uint (ts_nMsgSizeByte s1)) = Inr size"
        using "1.prems" pend n False
        by (subst (asm) CSLTcpSession_SplitPacket.simps) (auto simp: res_simps simp del: split_paired_Ex split: if_split_asm)
      have "ts_buf_ok mem s1 s'"
      proof -
        note pr = "1.prems" [unfolded CSLTcpSession_SplitPacket.simps [of mem bs p nLen s]]
        note IH = 1(3) [OF n _ False s1(1) refl s1(2) refl]
        have tl: "(let nMsgSize = sint size in
             if nMsgSize = 0 then
               rbind (ts_memcpy (ts_nLastMsgLeft s1) bs p1 nLen (CSLTcpSession_MakeBuffer mem s1))
                 (\<lambda>s2. Inr (s2\<lparr>ts_nLastMsgLeft := ts_nLastMsgLeft s2 + to_u32 nLen\<rparr>))
             else if size \<le> ts_nBufferSize s1 then
               (if size = ts_nLastMsgLeft s1 + to_u32 nLen then
                  rbind (ts_memcpy (ts_nLastMsgLeft s1) bs p1 nLen (CSLTcpSession_MakeBuffer mem s1))
                    (\<lambda>s2. ts_process (ts_buf s2) 0 nMsgSize (s2\<lparr>ts_nLastMsgLeft := 0\<rparr>))
                else if ts_nLastMsgLeft s1 + to_u32 nLen < size then
                  rbind (ts_memcpy (ts_nLastMsgLeft s1) bs p1 nLen (CSLTcpSession_MakeBuffer mem s1))
                    (\<lambda>s2. Inr (s2\<lparr>ts_nLastMsgLeft := ts_nLastMsgLeft s2 + to_u32 nLen\<rparr>))
                else let nOffset = sint (size - ts_nLastMsgLeft s1) in
                  rbind (ts_memcpy (ts_nLastMsgLeft s1) bs p1 nOffset (CSLTcpSession_MakeBuffer mem s1))
                    (\<lambda>s2. rbind (ts_process (ts_buf s2) 0 nMsgSize (s2\<lparr>ts_nLastMsgLeft := 0\<rparr>))
                       (\<lambda>s3. CSLTcpSession_SplitPacket mem bs (p1 + nOffset) (nLen - nOffset) s3)))
             else rbind (ts_process (ts_buf s1) 0 (sint (ts_nLastMsgLeft s1)) s1)
               (\<lambda>s2. rbind (ts_process bs p1 nLen s2)
                 (\<lambda>s3. let s4 = s3\<lparr>ts_nLastMsgLeft := 0\<rparr>
                       in Inr (s4\<lparr>ts_nNeedMsgSize := size - ts_nLastMsgLeft s4 - to_u32 nLen\<rparr>)))) = Inr s'"
          using pr pend n False s1 by simp
        show ?thesis
        proof (cases "sint size = 0 \<or> \<not> size \<le> ts_nBufferSize s1 \<or> size = ts_nLastMsgLeft s1 + to_u32 nLen \<or> ts_nLastMsgLeft s1 + to_u32 nLen < size")
          case True
          then show ?thesis using tl
            by (auto simp: res_simps Let_def intro: b ts_buf_ok_steps split: if_splits)
        next
          case False
          then obtain s2 s3 where st: "ts_memcpy (ts_nLastMsgLeft s1) bs p1 (sint (size - ts_nLastMsgLeft s1)) (CSLTcpSession_MakeBuffer mem s1) = Inr s2"
            "ts_process (ts_buf s2) 0 (sint size) (s2\<lparr>ts_nLastMsgLeft := 0\<rparr>) = Inr s3"
            "CSLTcpSession_SplitPacket mem bs (p1 + sint (size - ts_nLastMsgLeft s1)) (nLen - sint (size - ts_nLastMsgLeft s1)) s3 = Inr s'"
            using tl by (auto simp: res_simps Let_def)
          then have "ts_buf_ok mem s3 s'"
            using IH [of "sint (size - ts_nLastMsgLeft s1)" s2 s3] False pend by simp
          with ts_buf_ok_steps(2) [OF st(1,2)] show ?thesis by (rule ts_buf_ok_trans)
        qed
      qed
      with head [OF s1(1)] show ?thesis by (rule ts_buf_ok_trans)
    qed
  qed
qed

section \<open>CSLTcpSessionEvent\<close>

text \<open>The destructor of a pooled session frees its buffer.\<close>

type_synonym se_state = "(CSLTcpSession, unit) pool_state"

definition CSLTcpSession_delete :: "CSLTcpSession \<Rightarrow> unit \<Rightarrow> cerror + unit" where
  "CSLTcpSession_delete s w = Inr w"

definition CSLTcpSessionEvent_new :: "(CSLTcpSession, unit) objheap \<Rightarrow> cerror + se_state" where
  "CSLTcpSessionEvent_new m =
     CSmallObjectPool_init CSLTcpSession_new CSLTcpSession_delete 1000 0 1 (CSmallObjectPool_new, m)"

definition CSLTcpSessionEvent_delete :: "se_state \<Rightarrow> cerror + se_state" where
  "CSLTcpSessionEvent_delete s = CSmallObjectPool_clear CSLTcpSession_delete s"

definition CSLTcpSessionEvent_OnAccept :: "se_state \<Rightarrow> bool \<times> se_state" where
  "CSLTcpSessionEvent_OnAccept s = (True, s)"

text \<open>The result carries the attach info that \<open>Init\<close> stores in the socket's session.\<close>

definition CSLTcpSessionEvent_OnInitSocket ::
    "addr \<Rightarrow> int \<Rightarrow> se_state \<Rightarrow> cerror + bool \<times> addr \<times> se_state" where
  "CSLTcpSessionEvent_OnInitSocket pSocketSource hSocket s =
     rbind (CSmallObjectPool_pop CSLTcpSession_new s)
       (\<lambda>(p, pl, m). if p = NULL then Inr (False, NULL, pl, m)
          else rbind (get_obj p m)
            (\<lambda>ts. Inr (True, p, pl, put_obj p (CSLTcpSession_Init pSocketSource hSocket 1024 4 ts) m)))"

definition CSLTcpSessionEvent_OnUninitSocket :: "addr \<Rightarrow> se_state \<Rightarrow> cerror + bool \<times> se_state" where
  "CSLTcpSessionEvent_OnUninitSocket pAttachInfo s =
     (case s of (pl, m) \<Rightarrow>
        rbind (get_obj pAttachInfo m)
          (\<lambda>ts. let (b, ts') = CSLTcpSession_Uninit ts
                in rbind (CSmallObjectPool_push CSLTcpSession_delete pAttachInfo
                            (pl, put_obj pAttachInfo ts' m))
                     (\<lambda>s'. Inr (True, s'))))"

definition CSLTcpSessionEvent_OnDisconnect :: "addr \<Rightarrow> se_state \<Rightarrow> cerror + bool \<times> se_state" where
  "CSLTcpSessionEvent_OnDisconnect pAttachInfo s =
     rbind (CSLTcpSessionEvent_OnUninitSocket pAttachInfo s) (\<lambda>(b, s'). Inr (True, s'))"

definition CSLTcpSessionEvent_OnRecv ::
    "(u32 \<Rightarrow> byte list option) \<Rightarrow> addr \<Rightarrow> byte list \<Rightarrow> int \<Rightarrow> se_state \<Rightarrow> cerror + int \<times> se_state" where
  "CSLTcpSessionEvent_OnRecv mem pAttachInfo szData nLen s =
     (case s of (pl, m) \<Rightarrow>
        rbind (get_obj pAttachInfo m)
          (\<lambda>ts. rbind (CSLTcpSession_OnRecv mem szData nLen ts)
             (\<lambda>ts'. Inr (0, pl, put_obj pAttachInfo ts' m))))"

text \<open>Every session the event object ever made has a buffer of 1024 bytes or none.\<close>

definition se_ok :: "se_state \<Rightarrow> bool" where
  "se_ok s \<longleftrightarrow> sp_ok s \<and>
     (\<forall>p ts. oh_objs (snd s) p = Some ts \<longrightarrow>
        (case ts_szBuffer ts of None \<Rightarrow> True | Some buf \<Rightarrow> length buf = 1024))"

lemma se_init_fresh:
  assumes "se_ok s"
  shows "\<exists>p pl m ts. CSLTcpSessionEvent_OnInitSocket src h s = Inr (True, p, pl, m) \<and>
           oh_objs m p = Some ts \<and> ts_repr [] ts \<and> ts_cfg ts \<and> ts_hSocket ts = h \<and>
           p \<notin> set (sp_lstFreeObj pl) \<and> se_ok (pl, m)"
proof -
  have ok: "sp_ok s" using assms by (simp add: se_ok_def)
  obtain p pl m where pop: "CSmallObjectPool_pop CSLTcpSession_new s = Inr (p, pl, m)"
    using sp.pop_total [OF ok] by (metis prod.exhaust)
  note val = sp_pop_values [OF ok pop, unfolded snd_conv]
  have live: "oh_objs m p \<noteq> None" using sp.pop_live [OF ok pop sp_pop_not_NULL [OF ok pop]] by (simp add: pool_live_def)
  have ok1: "sp_ok (pl, m)" using sp.pop_ok [OF ok pop] .
  have p: "p \<noteq> NULL" "p \<notin> set (sp_lstFreeObj pl)"
    using sp_pop_not_NULL [OF ok pop] sp.pop_taken [OF ok pop] by auto
  have buf: "case ts_szBuffer ts of None \<Rightarrow> True | Some buf \<Rightarrow> length buf = 1024"
    if "oh_objs m q = Some ts" for q ts
  proof (cases "oh_objs (snd s) q = None")
    case True
    then have "ts = CSLTcpSession_new" using val(3) [OF True] that by simp
    then show ?thesis by (simp add: CSLTcpSession_new_def)
  next
    case False
    then show ?thesis using val(2) [OF False] that assms by (auto simp: se_ok_def)
  qed
  obtain ts0 where ts0: "oh_objs m p = Some ts0" using live by auto
  let ?ts = "CSLTcpSession_Init src h 1024 4 ts0"
  have "ts_repr [] ?ts"
    using buf [OF ts0] by (simp add: ts_repr_def CSLTcpSession_Init_def CSLTcpSession_Reset_def split: option.splits)
  moreover have "ts_cfg ?ts" "ts_hSocket ?ts = h"
    by (simp_all add: ts_cfg_def CSLTcpSession_Init_def)
  moreover have "se_ok (pl, put_obj p ?ts m)"
    using ok1 buf ts0
    by (auto simp: se_ok_def sp_ok_def objheap_ok_def pool_live_def put_obj_def
        CSLTcpSession_Init_def CSLTcpSession_Reset_def)
  moreover have "CSLTcpSessionEvent_OnInitSocket src h s = Inr (True, p, pl, put_obj p ?ts m)"
    using pop p(1) ts0 by (simp add: CSLTcpSessionEvent_OnInitSocket_def get_obj_def)
  ultimately show ?thesis using p(2) by (auto simp: put_obj_def)
qed

section \<open>Properties\<close>


text \<open>
  A message larger than the buffer passes through in the pieces in which it arrives, if no
  receive contains bytes of another message: the pieces together are the message, and the
  session is ready for the next one.
\<close>

theorem tcp_session_large_message:
  assumes "ts_repr [] s" "ts_cfg s" "[] \<notin> set (c # cs)" "cs \<noteq> []"
    and "unat (ts_nMsgSizeByte s) \<le> length c" "length (concat (c # cs)) < 2 ^ 31"
    and "le_val (take (unat (ts_nMsgSizeByte s)) c) = length (concat (c # cs))"
    and "unat (ts_nBufferSize s) < length (concat (c # cs))"
  shows "\<exists>s'. ts_recvs mem (c # cs) s = Inr s' \<and> ts_log s' = ts_log s @ c # cs \<and> ts_repr [] s'"
proof -
  have "concat cs \<noteq> []" using assms(3,4) by (cases cs) auto
  then have "length c < length (concat (c # cs))" by simp
  note first = split_large_first [OF assms(1,2,5,7,8,6) this, of mem]
  let ?s1 = "s\<lparr>ts_log := ts_log s @ [c], ts_nNeedMsgSize := of_nat (length (concat (c # cs)) - length c)\<rparr>"
  have "ts_recvs mem cs ?s1 = Inr (?s1\<lparr>ts_log := ts_log ?s1 @ cs, ts_nNeedMsgSize := 0\<rparr>)"
    using assms(3,6) by (intro recv_large_rest) auto
  then show ?thesis
    using first assms(1) by (simp add: ts_repr_def split: option.splits)
qed

text \<open>
  C6. The size field that a session reads with its default of four bytes is \<open>nSize\<close> of every
  message head of SLCommonDef.h, and with two bytes it is that of the small head.
\<close>

theorem tcp_session_reads_head:
  "CSLTcpSession_GetMsgSize 4 (SL_MSGHEAD_bytes k h @ body) 0 (int (length (SL_MSGHEAD_bytes k h @ body))) =
     Inr (mh_nSize h) \<and>
   CSLTcpSession_GetMsgSize 4 (SL_MSGHEAD_EX_bytes hx @ body) 0 (int (length (SL_MSGHEAD_EX_bytes hx @ body))) =
     Inr (mhx_nSize hx) \<and>
   CSLTcpSession_GetMsgSize 2 (SL_MSGHEAD_SMALL_bytes hs @ body) 0 (int (length (SL_MSGHEAD_SMALL_bytes hs @ body))) =
     Inr (ucast (mhs_nSize hs))"
proof -
  have four: "CSLTcpSession_GetMsgSize 4 (le_bytes 4 (unat n) @ r) 0 (int (length (le_bytes 4 (unat n) @ r))) = Inr n"
    for n :: u32 and r
    using GetMsgSize_mid [of 4 "le_bytes 4 (unat n) @ r" "[]" "[]"] u32_less [of n]
    by (simp add: le_val_le_bytes)
  have two: "CSLTcpSession_GetMsgSize 2 (le_bytes 2 (unat n) @ r) 0 (int (length (le_bytes 2 (unat n) @ r))) = Inr (ucast n)"
    for n :: u16 and r
  proof -
    have "unat n < 65536" using unsigned_less [of n, where ?'a = nat] by simp
    then show ?thesis using GetMsgSize_mid [of 2 "le_bytes 2 (unat n) @ r" "[]" "[]"]
      by (simp add: le_val_le_bytes)
  qed
  show ?thesis
    using four [of "mh_nSize h"] four [of "mhx_nSize hx"] two [of "mhs_nSize hs"]
    by (simp add: SL_MSGHEAD_bytes_def SL_MSGHEAD_EX_bytes_def SL_MSGHEAD_SMALL_bytes_def del: length_append)
qed

text \<open>The users of an event object: connections come, receive and go. The attach infos that
  are out are the list \<open>hs\<close>; \<open>n\<close> picks one of them.\<close>

datatype se_op = SeInit addr int | SeRecv nat "byte list" int | SeUninit nat

fun se_step :: "(u32 \<Rightarrow> byte list option) \<Rightarrow> se_op \<Rightarrow> addr list \<times> se_state \<Rightarrow> cerror + addr list \<times> se_state" where
  "se_step mem (SeInit src h) (hs, s) =
     rbind (CSLTcpSessionEvent_OnInitSocket src h s)
       (\<lambda>(b, p, s'). Inr (if b then p # hs else hs, s'))"
| "se_step mem (SeRecv n szData nLen) (hs, s) =
     (if n < length hs
      then rbind (CSLTcpSessionEvent_OnRecv mem (hs ! n) szData nLen s) (\<lambda>(r, s'). Inr (hs, s'))
      else Inr (hs, s))"
| "se_step mem (SeUninit n) (hs, s) =
     (if n < length hs
      then rbind (CSLTcpSessionEvent_OnDisconnect (hs ! n) s)
             (\<lambda>(b, s'). Inr (take n hs @ drop (Suc n) hs, s'))
      else Inr (hs, s))"

fun se_run :: "(u32 \<Rightarrow> byte list option) \<Rightarrow> se_op list \<Rightarrow> addr list \<times> se_state \<Rightarrow> cerror + addr list \<times> se_state" where
  "se_run mem [] st = Inr st"
| "se_run mem (x # xs) st = rbind (se_step mem x st) (se_run mem xs)"

definition se_inv :: "addr list \<times> se_state \<Rightarrow> bool" where
  "se_inv st \<longleftrightarrow> (case st of (hs, s) \<Rightarrow> sp.exclusive hs s \<and>
     (\<forall>p ts. oh_objs (snd s) p = Some ts \<longrightarrow> ts_nBufferSize ts = 1024 \<and>
        (case ts_szBuffer ts of None \<Rightarrow> True | Some buf \<Rightarrow> length buf = 1024)))"

lemma se_inv_put:
  assumes "se_inv (hs, (pl, m))" "oh_objs m p \<noteq> None" "ts_nBufferSize ts = 1024"
    "case ts_szBuffer ts of None \<Rightarrow> True | Some buf \<Rightarrow> length buf = 1024"
  shows "se_inv (hs, (pl, put_obj p ts m))"
  using assms
  by (auto simp: se_inv_def sp.exclusive_def sp_ok_def objheap_ok_def pool_live_def put_obj_def)

lemma get_obj_Inr: "get_obj p m = Inr ob \<longleftrightarrow> p \<noteq> NULL \<and> oh_objs m p = Some ob"
  by (auto simp: get_obj_def split: option.splits)

lemma se_pop_inv:
  assumes "se_inv (hs, s)" "CSmallObjectPool_pop CSLTcpSession_new s = Inr (p, s')"
  shows "se_inv (p # hs, s')"
proof -
  have ex: "sp.exclusive hs s" and ok: "sp_ok s" using assms(1) by (auto simp: se_inv_def sp.exclusive_def)
  have "p \<noteq> NULL" using sp_pop_not_NULL [OF ok assms(2)] .
  then have "sp.exclusive (p # hs) s'"
    using sp.exclusive_step [OF ex, of CSLTcpSession_new CSLTcpSession_delete OpPop] assms(2) by simp
  moreover have "ts_nBufferSize ts = 1024 \<and> (case ts_szBuffer ts of None \<Rightarrow> True | Some buf \<Rightarrow> length buf = 1024)"
    if "oh_objs (snd s') q = Some ts" for q ts
  proof (cases "oh_objs (snd s) q = None")
    case True
    then have "ts = CSLTcpSession_new" using sp_pop_values(3) [OF ok assms(2) True] that by simp
    then show ?thesis by (simp add: CSLTcpSession_new_def)
  next
    case False
    then show ?thesis using sp_pop_values(2) [OF ok assms(2) False] that assms(1)
      by (auto simp: se_inv_def)
  qed
  ultimately show ?thesis by (simp add: se_inv_def)
qed

lemma se_push_inv:
  assumes "se_inv (hs, s)" "n < length hs" "CSmallObjectPool_push CSLTcpSession_delete (hs ! n) s = Inr s'"
  shows "se_inv (take n hs @ drop (Suc n) hs, s')"
proof -
  have ex: "sp.exclusive hs s" using assms(1) by (simp add: se_inv_def)
  have "sp.exclusive (take n hs @ drop (Suc n) hs) s'"
    using sp.exclusive_step [OF ex, of CSLTcpSession_new CSLTcpSession_delete "OpPush n"] assms(2,3) by simp
  moreover have "oh_objs (snd s') q = Some ts \<Longrightarrow> oh_objs (snd s) q = Some ts" for q ts
    using assms(3) by (cases s) (auto simp: CSmallObjectPool_push_def delete_obj_def CSLTcpSession_delete_def
        split: if_splits option.splits)
  ultimately show ?thesis using assms(1) by (auto simp: se_inv_def)
qed

lemma se_step_inv:
  assumes "se_inv st" "se_step mem x st = Inr st'" "mem_gives mem 1024"
  shows "se_inv st'"
proof -
  obtain hs pl m where st: "st = (hs, pl, m)" by (metis prod.exhaust)
  show ?thesis
  proof (cases x)
    case (SeInit src h)
    obtain p s1 where pop: "CSmallObjectPool_pop CSLTcpSession_new (pl, m) = Inr (p, s1)"
      using assms(2) st SeInit by (auto simp: CSLTcpSessionEvent_OnInitSocket_def res_simps)
    obtain pl1 m1 where s1: "s1 = (pl1, m1)" by (cases s1)
    note inv1 = se_pop_inv [OF assms(1) [unfolded st] pop, unfolded s1]
    then have "oh_objs m1 p \<noteq> None" "p \<noteq> NULL"
      by (auto simp: se_inv_def sp.exclusive_def pool_live_def sp_ok_def objheap_ok_def)
    then obtain ts where ts: "oh_objs m1 p = Some ts" "p \<noteq> NULL" by auto
    then have "st' = (p # hs, pl1, put_obj p (CSLTcpSession_Init src h 1024 4 ts) m1)"
      using assms(2) st SeInit pop s1
      by (auto simp: CSLTcpSessionEvent_OnInitSocket_def res_simps get_obj_Inr)
    moreover have "case ts_szBuffer ts of None \<Rightarrow> True | Some buf \<Rightarrow> length buf = 1024"
      using inv1 ts by (auto simp: se_inv_def)
    ultimately show ?thesis using se_inv_put [OF inv1, of p] ts
      by (auto simp: CSLTcpSession_Init_def CSLTcpSession_Reset_def)
  next
    case (SeRecv n d len)
    show ?thesis
    proof (cases "n < length hs")
      case True
      then obtain ts ts' where ts: "oh_objs m (hs ! n) = Some ts"
          "CSLTcpSession_OnRecv mem d len ts = Inr ts'" "st' = (hs, pl, put_obj (hs ! n) ts' m)"
        using assms(2) st SeRecv by (auto simp: CSLTcpSessionEvent_OnRecv_def res_simps get_obj_Inr)
      have "ts_buf_ok mem ts ts'"
        using split_buf_ok ts(2) by (auto simp: CSLTcpSession_OnRecv_def)
      moreover have "ts_nBufferSize ts = 1024" "case ts_szBuffer ts of None \<Rightarrow> True | Some buf \<Rightarrow> length buf = 1024"
        using assms(1) ts(1) st by (auto simp: se_inv_def)
      ultimately show ?thesis using se_inv_put [of hs pl m "hs ! n" ts'] assms(1,3) st ts
        by (auto simp: ts_buf_ok_def mem_gives_def split: option.splits)
    qed (use assms st SeRecv in simp)
  next
    case (SeUninit n)
    show ?thesis
    proof (cases "n < length hs")
      case True
      then obtain ts s1 where ts: "oh_objs m (hs ! n) = Some ts"
          "CSmallObjectPool_push CSLTcpSession_delete (hs ! n) (pl, put_obj (hs ! n) ts m) = Inr s1"
          "st' = (take n hs @ drop (Suc n) hs, s1)"
        using assms(2) st SeUninit
        by (auto simp: CSLTcpSessionEvent_OnDisconnect_def CSLTcpSessionEvent_OnUninitSocket_def
            CSLTcpSession_Uninit_def res_simps get_obj_Inr)
      have "put_obj (hs ! n) ts m = m" using ts(1) by (simp add: put_obj_def fun_upd_idem)
      then show ?thesis using se_push_inv [of hs "(pl, m)" n s1] assms(1) st ts True by simp
    qed (use assms st SeUninit in simp)
  qed
qed

lemma se_run_inv:
  "se_inv st \<Longrightarrow> se_run mem xs st = Inr st' \<Longrightarrow> mem_gives mem 1024 \<Longrightarrow> se_inv st'"
  by (induction xs arbitrary: st) (auto simp: res_simps dest: se_step_inv)

lemma se_new_inv:
  assumes "CSLTcpSessionEvent_new m = Inr s" "\<forall>p. oh_objs m p = None" "objheap_ok m"
  shows "se_inv ([], s)"
proof -
  have "s = (CSmallObjectPool_new\<lparr>sp_lstFreeObj := [], sp_nMaxCount := 1000, sp_nGrowCount := 1\<rparr>, m)"
    using assms(1) by (simp add: CSLTcpSessionEvent_new_def CSmallObjectPool_init_def CSmallObjectPool_clear_def
        CSmallObjectPool_new_def)
  then show ?thesis using assms(2,3)
    by (simp add: se_inv_def sp.exclusive_def sp_ok_def)
qed

text \<open>
  C7. Whatever connections came, sent and went before, the event object gives a new
  connection a session of its own that no other connection holds, with no byte of an
  earlier connection in it and ready to take a stream.
\<close>

theorem session_event_fresh:
  assumes "\<forall>p. oh_objs m p = None" "objheap_ok m" "CSLTcpSessionEvent_new m = Inr s0"
    and "mem_gives mem 1024" "se_run mem ops ([], s0) = Inr (hs, s)"
  shows "\<exists>p pl m' ts. CSLTcpSessionEvent_OnInitSocket src h s = Inr (True, p, pl, m') \<and>
           p \<notin> set hs \<and> oh_objs m' p = Some ts \<and> ts_repr [] ts \<and> ts_cfg ts \<and> ts_hSocket ts = h"
proof -
  have inv: "se_inv (hs, s)" using se_run_inv [OF se_new_inv [OF assms(3,1,2)] assms(5,4)] .
  then have "se_ok s" by (auto simp: se_inv_def sp.exclusive_def se_ok_def)
  from se_init_fresh [OF this, of src h] obtain p pl m' ts where
    i: "CSLTcpSessionEvent_OnInitSocket src h s = Inr (True, p, pl, m')"
      "oh_objs m' p = Some ts" "ts_repr [] ts" "ts_cfg ts" "ts_hSocket ts = h" by blast
  have "se_inv (p # hs, pl, m')"
    using se_step_inv [OF inv _ assms(4), of "SeInit src h"] i(1) by simp
  then have "p \<notin> set hs" by (simp add: se_inv_def sp.exclusive_def)
  with i show ?thesis by blast
qed

definition ts_demo_mem :: "u32 \<Rightarrow> byte list option" where
  "ts_demo_mem n = Some (replicate (unat n) 0)"

definition ts_demo :: CSLTcpSession where
  "ts_demo = CSLTcpSession_Init 1 5 16 4 CSLTcpSession_new"


lemma ts_demo_ok: "ts_repr [] ts_demo" "ts_cfg ts_demo" "mem_gives ts_demo_mem (ts_nBufferSize ts_demo)"
  by (simp_all add: ts_repr_def ts_cfg_def mem_gives_def ts_demo_def ts_demo_mem_def
      CSLTcpSession_Init_def CSLTcpSession_Reset_def CSLTcpSession_new_def)


lemma tcp_session_large_message_witness:
  "\<exists>s'. ts_recvs ts_demo_mem [[20, 0, 0, 0, 1, 1, 1, 1, 1, 1], [1, 1, 1, 1, 1, 1, 1, 1, 1, 1]] ts_demo = Inr s' \<and>
     ts_log s' = ts_log ts_demo @ [[20, 0, 0, 0, 1, 1, 1, 1, 1, 1], [1, 1, 1, 1, 1, 1, 1, 1, 1, 1]] \<and> ts_repr [] s'"
  using tcp_session_large_message [OF ts_demo_ok(1,2),
      of "[20, 0, 0, 0, 1, 1, 1, 1, 1, 1]" "[[1, 1, 1, 1, 1, 1, 1, 1, 1, 1]]" ts_demo_mem]
  by (simp add: ts_demo_def CSLTcpSession_Init_def)

definition se_demo_heap :: "(CSLTcpSession, unit) objheap" where
  "se_demo_heap = \<lparr>oh_objs = (\<lambda>p. None), oh_next = 1, oh_arrays = (\<lambda>p. None), oh_world = ()\<rparr>"

definition se_demo_state :: "addr list \<times> se_state" where
  "se_demo_state =
     (case rbind (CSLTcpSessionEvent_new se_demo_heap)
        (\<lambda>s. se_run ts_demo_mem [SeInit 1 5, SeRecv 0 [7, 0, 0, 0, 1] 5, SeUninit 0] ([], s)) of
        Inl e \<Rightarrow> ([], CSmallObjectPool_new, se_demo_heap) | Inr s \<Rightarrow> s)"

lemma se_demo_runs:
  "\<exists>s0. CSLTcpSessionEvent_new se_demo_heap = Inr s0 \<and>
     se_run ts_demo_mem [SeInit 1 5, SeRecv 0 [7, 0, 0, 0, 1] 5, SeUninit 0] ([], s0) = Inr se_demo_state"
proof -
  have "\<not> isl (rbind (CSLTcpSessionEvent_new se_demo_heap)
        (\<lambda>s. se_run ts_demo_mem [SeInit 1 5, SeRecv 0 [7, 0, 0, 0, 1] 5, SeUninit 0] ([], s)))"
    by code_simp
  then show ?thesis unfolding se_demo_state_def
    by (cases "CSLTcpSessionEvent_new se_demo_heap") (auto simp: isl_def split: sum.splits)
qed

lemma session_event_fresh_witness:
  "\<exists>p pl m' ts. CSLTcpSessionEvent_OnInitSocket 1 6 (snd se_demo_state) = Inr (True, p, pl, m') \<and>
     p \<notin> set (fst se_demo_state) \<and> oh_objs m' p = Some ts \<and> ts_repr [] ts \<and> ts_cfg ts \<and> ts_hSocket ts = 6"
proof -
  obtain s0 where "CSLTcpSessionEvent_new se_demo_heap = Inr s0"
    "se_run ts_demo_mem [SeInit 1 5, SeRecv 0 [7, 0, 0, 0, 1] 5, SeUninit 0] ([], s0) =
      Inr (fst se_demo_state, snd se_demo_state)"
    using se_demo_runs by auto
  then show ?thesis
    using session_event_fresh [of se_demo_heap s0 ts_demo_mem "[SeInit 1 5, SeRecv 0 [7, 0, 0, 0, 1] 5, SeUninit 0]"]
    by (simp add: se_demo_heap_def objheap_ok_def mem_gives_def ts_demo_mem_def)
qed

end
