(* ===== verification/Winsock.thy ===== *)
theory Winsock
  imports Prelude
begin

text \<open>
  The operating system as the library sees it. Win32 and Winsock are not code of this
  repository: their answers come from an environment \<open>env\<close>, a parameter of every definition
  that calls them, which answers a call from the history of calls and answers so far (the
  trace). \<open>Ok v\<close> is a success with value \<open>v\<close> (a handle, an address, a number of bytes), and
  \<open>Err e\<close> a failure with last error \<open>e\<close>. Callbacks into the application (class
  \<open>CSocketEvent\<close>) are calls of the environment as well.

  What the theorems need of the environment are hypotheses on \<open>env\<close>: \<open>heap_env_ok\<close> says that
  the process heap hands out memory that is not in use.

  The structures of SocketLib.h that live in heap memory are records at the address of their
  first byte; \<open>n_bytes\<close> is the flat memory in which their data buffers and the buffers of
  the application lie.
\<close>

section \<open>Calls and answers\<close>

text \<open>Kernel objects and what is done with them. The security attributes and names that a
  program passes on are left out of the calls.\<close>

datatype kobj = KEvent | KSemaphore | KMutex | KThread | KTimerQueue | KTimer

datatype kop = SetEvent | ResetEvent | PulseEvent | ReleaseSemaphore | ReleaseMutex | ResumeThread
  | SuspendThread | TerminateThread | SetThreadPriority | GetThreadPriority | DeleteTimerQueueEx
  | DeleteTimerQueueTimer | ChangeTimerQueueTimer

datatype csop = InitializeCS | DeleteCS | EnterCS | LeaveCS | TryEnterCS

datatype api_call =
    HeapAlloc nat
  | HeapReAlloc addr nat
  | HeapFree addr
  | WSASocketTcp
  | WSASocketUdp
  | Bind int "byte list" int
  | Listen int int
  | WSAAccept int
  | WSAConnect int "byte list" int
  | Shutdown int
  | Closesocket int
  | WSARecv int addr int
  | WSARecvFrom int addr int
  | WSASend int "byte list" addr
  | WSASendTo int "byte list" addr "byte list" int
  | AssociateSocket int addr
  | GetPeerName int
  | GetHostByName "byte list"
  | Select int
  | OnAccept int
  | OnInitSocket addr
  | OnUninitSocket addr
  | OnDisconnect int addr
  | OnRecv int addr "byte list"
  | OnRecvFrom "byte list" "byte list"
  | Sleep int
  | CreateIoCompletionPort int int addr int
  | PostQueuedCompletionStatus int int int
  | CloseHandle int
  | StartThread
  | StopThread int
  | KillThread
  | IsStop
  | InetAddr "byte list"
  | CreateEvent
  | SignalEvent
  | WaitEvent int
  | WSAStartup nat
  | WSACleanup
  | GetSockOpt int int int
  | SetSockOpt int int int "byte list"
  | WSAIoctl int int "byte list"
  | IoctlSocket int int "byte list"
  | CreateObject kobj "int list"
  | OpenObject kobj "int list"
  | WaitObject int int
  | ObjectOp kop int "int list"
  | CriticalSection csop addr
  | GetSystemInfo

datatype api_ret = Ok int | Err int

type_synonym trace = "(api_call \<times> api_ret) list"
type_synonym env = "trace \<Rightarrow> api_call \<Rightarrow> api_ret"

definition WSA_IO_PENDING :: int where
  "WSA_IO_PENDING = 997"

definition INVALID_SOCKET :: int where
  "INVALID_SOCKET = -1"

section \<open>The process heap\<close>

text \<open>The blocks that are allocated after a trace, with their sizes.\<close>

fun upd_blocks :: "api_call \<times> api_ret \<Rightarrow> (addr \<Rightarrow> nat option) \<Rightarrow> addr \<Rightarrow> nat option" where
  "upd_blocks (HeapAlloc n, Ok p) B = (if 0 < p then B(nat p \<mapsto> n) else B)"
| "upd_blocks (HeapReAlloc p n, Ok q) B = (if 0 < q then (B(p := None))(nat q \<mapsto> n) else B)"
| "upd_blocks (HeapFree p, r) B = B(p := None)"
| "upd_blocks _ B = B"

definition blocks :: "trace \<Rightarrow> addr \<Rightarrow> nat option" where
  "blocks t = fold upd_blocks t (\<lambda>p. None)"

lemma blocks_Nil [simp]: "blocks [] p = None"
  by (simp add: blocks_def)

lemma blocks_snoc: "blocks (t @ [x]) = upd_blocks x (blocks t)"
  by (simp add: blocks_def)

definition disjoint_from :: "addr \<Rightarrow> nat \<Rightarrow> (addr \<Rightarrow> nat option) \<Rightarrow> bool" where
  "disjoint_from p n B \<longleftrightarrow>
     (\<forall>q m. B q = Some m \<longrightarrow> q \<noteq> p \<and> {p..<p + n} \<inter> {q..<q + m} = {})"

lemma disjoint_fromD: "disjoint_from p n B \<Longrightarrow> B p = None"
  by (cases "B p") (auto simp: disjoint_from_def)

definition heap_env_ok :: "env \<Rightarrow> bool" where
  "heap_env_ok env \<longleftrightarrow>
     (\<forall>t n p. env t (HeapAlloc n) = Ok p \<longrightarrow> 0 < p \<longrightarrow> disjoint_from (nat p) n (blocks t)) \<and>
     (\<forall>t o' n p. env t (HeapReAlloc o' n) = Ok p \<longrightarrow> 0 < p \<longrightarrow>
        disjoint_from (nat p) n ((blocks t)(o' := None)))"

section \<open>Socket structures\<close>

definition RECV_POSTED :: nat where "RECV_POSTED = 1"
definition SEND_POSTED :: nat where "SEND_POSTED = 2"
definition ACCEPT_POSTED :: nat where "ACCEPT_POSTED = 3"

definition SEND_OPTION_BLOCK :: int where "SEND_OPTION_BLOCK = 1"
definition SEND_OPTION_SEGMENT :: int where "SEND_OPTION_SEGMENT = 2"
definition SEND_OPTION_USERBUFFER :: int where "SEND_OPTION_USERBUFFER = 4"

definition RECV_BUFFER_SIZE :: int where "RECV_BUFFER_SIZE = 8192"
definition MAX_SOCKET_CONNECTNUM :: int where "MAX_SOCKET_CONNECTNUM = 500000"
definition MAX_SOCKET_FREENUM :: int where "MAX_SOCKET_FREENUM = 500000"

text \<open>\<open>PER_IO_OPERATION_DATA\<close>; the \<open>OVERLAPPED\<close> part belongs to the system and the library only
  zeroes it, so it is left out.\<close>

record PER_IO_OPERATION_DATA =
  io_OperType :: nat
  io_nLen :: int
  io_szBuffer :: addr

record PER_HANDLE_DATA =
  ph_hSocket :: int
  ph_pSocketSource :: addr
  ph_pAttachInfo :: addr

record SOCKET_SESSION =
  ss_PerHandle :: PER_HANDLE_DATA
  ss_PerIoRecv :: PER_IO_OPERATION_DATA

definition sizeof_PER_IO :: nat where "sizeof_PER_IO = 32"
definition sizeof_SESSION :: nat where "sizeof_SESSION = 44"

definition zero_io :: PER_IO_OPERATION_DATA where
  "zero_io = \<lparr>io_OperType = 0, io_nLen = 0, io_szBuffer = NULL\<rparr>"

definition zero_session :: SOCKET_SESSION where
  "zero_session = \<lparr>ss_PerHandle = \<lparr>ph_hSocket = 0, ph_pSocketSource = NULL, ph_pAttachInfo = NULL\<rparr>,
                    ss_PerIoRecv = zero_io\<rparr>"

record net =
  n_trace :: trace
  n_bytes :: "addr \<Rightarrow> byte"
  n_io :: "addr \<Rightarrow> PER_IO_OPERATION_DATA option"
  n_sess :: "addr \<Rightarrow> SOCKET_SESSION option"

text \<open>A call: the answer, and the trace grown by it.\<close>

definition sys :: "env \<Rightarrow> api_call \<Rightarrow> net \<Rightarrow> api_ret \<times> net" where
  "sys env c n = (env (n_trace n) c, n\<lparr>n_trace := n_trace n @ [(c, env (n_trace n) c)]\<rparr>)"

fun ret_ptr :: "api_ret \<Rightarrow> addr" where
  "ret_ptr (Ok p) = nat p"
| "ret_ptr (Err e) = NULL"

fun is_ok :: "api_ret \<Rightarrow> bool" where
  "is_ok (Ok v) = True"
| "is_ok (Err e) = False"

text \<open>A boolean answer of a callback: non-zero is TRUE.\<close>

fun is_true :: "api_ret \<Rightarrow> bool" where
  "is_true (Ok v) = (v \<noteq> 0)"
| "is_true (Err e) = False"

section \<open>Flat memory\<close>

definition mem_read :: "(addr \<Rightarrow> byte) \<Rightarrow> addr \<Rightarrow> nat \<Rightarrow> byte list" where
  "mem_read b p n = map b [p..<p + n]"

definition mem_write :: "(addr \<Rightarrow> byte) \<Rightarrow> addr \<Rightarrow> byte list \<Rightarrow> addr \<Rightarrow> byte" where
  "mem_write b p bs = (\<lambda>a. if p \<le> a \<and> a < p + length bs then bs ! (a - p) else b a)"

lemma length_mem_read [simp]: "length (mem_read b p n) = n"
  by (simp add: mem_read_def)

lemma mem_read_write_same: "mem_read (mem_write b p bs) p (length bs) = bs"
  by (auto simp: mem_read_def mem_write_def intro: nth_equalityI)

lemma mem_read_cong: "(\<And>a. p \<le> a \<Longrightarrow> a < p + n \<Longrightarrow> b a = b' a) \<Longrightarrow> mem_read b p n = mem_read b' p n"
  by (simp add: mem_read_def)

lemma mem_read_write_other:
  assumes "{q..<q + n} \<inter> {p..<p + length bs} = {}"
  shows "mem_read (mem_write b p bs) q n = mem_read b q n"
proof (rule mem_read_cong)
  fix a assume "q \<le> a" "a < q + n"
  then have "a \<in> {q..<q + n}" by simp
  with assms have "a \<notin> {p..<p + length bs}" by blast
  then show "mem_write b p bs a = b a" by (auto simp: mem_write_def)
qed

lemma mem_read_append: "mem_read b p (m + n) = mem_read b p m @ mem_read b (p + m) n"
  using upt_add_eq_append [of p "p + m" n] by (simp add: mem_read_def add.assoc)

end
