(* ===== verification/SendPool.thy ===== *)
theory SendPool
  imports Winsock SmallObjectPool
begin

text \<open>
  \<open>CSocketSendPool\<close> of SocketSendPool.h: a free list of I/O operation structures, each with an
  optional data buffer behind it, on the process heap. The fields \<open>snd_objFreeList\<close>,
  \<open>snd_nMaxCount\<close> and \<open>snd_nGrowCount\<close> are the class's own. \<open>pop\<close> unlocks the mutex before
  it touches the structure it took off the list, so the step is atomic for the list.

  The pool keeps the contract \<open>object_pool\<close> if the process heap keeps its own
  (\<open>heap_env_ok\<close>); a structure served with a buffer has it in its own block, unless it was
  used without one before (\<open>send_pool_alias\<close>).
\<close>

record CSocketSendPool =
  snd_objFreeList :: "addr list"
  snd_nMaxCount :: u32
  snd_nGrowCount :: u32

type_synonym snd_state = "CSocketSendPool \<times> net"

definition get_io :: "addr \<Rightarrow> net \<Rightarrow> cerror + PER_IO_OPERATION_DATA" where
  "get_io p n =
     (if p = NULL then Inl NullDeref
      else case n_io n p of None \<Rightarrow> Inl UseAfterFree | Some io \<Rightarrow> Inr io)"

definition put_io :: "addr \<Rightarrow> PER_IO_OPERATION_DATA \<Rightarrow> net \<Rightarrow> net" where
  "put_io p io n = n\<lparr>n_io := (n_io n)(p \<mapsto> io)\<rparr>"

definition io_free :: "env \<Rightarrow> addr \<Rightarrow> net \<Rightarrow> cerror + net" where
  "io_free env p n =
     (case n_io n p of
        None \<Rightarrow> Inl DoubleFree
      | Some io \<Rightarrow> Inr ((snd (sys env (HeapFree p) n))\<lparr>n_io := (n_io n)(p := None)\<rparr>))"

text \<open>\<open>HeapAlloc\<close> with \<open>HEAP_ZERO_MEMORY\<close>: the structure and \<open>k\<close> bytes behind it.\<close>

definition io_alloc :: "env \<Rightarrow> nat \<Rightarrow> net \<Rightarrow> addr \<times> net" where
  "io_alloc env k n =
     (let (r, n1) = sys env (HeapAlloc (sizeof_PER_IO + k)) n; p = ret_ptr r
      in if p = NULL then (NULL, n1)
         else (p, n1\<lparr>n_io := (n_io n1)(p \<mapsto> zero_io),
                     n_bytes := mem_write (n_bytes n1) p (replicate (sizeof_PER_IO + k) 0)\<rparr>))"

text \<open>\<open>HeapReAlloc\<close>: the contents move along, the new part is zero; NULL keeps the old block.\<close>

definition io_realloc :: "env \<Rightarrow> addr \<Rightarrow> PER_IO_OPERATION_DATA \<Rightarrow> nat \<Rightarrow> net \<Rightarrow> addr \<times> net" where
  "io_realloc env p io k n =
     (let (r, n1) = sys env (HeapReAlloc p (sizeof_PER_IO + k)) n; q = ret_ptr r;
          old = mem_read (n_bytes n1) p (sizeof_PER_IO + nat (io_nLen io))
      in if q = NULL then (NULL, n1)
         else (q, n1\<lparr>n_io := ((n_io n1)(p := None))(q \<mapsto> io),
                     n_bytes := mem_write (n_bytes n1) q
                       (take (sizeof_PER_IO + k) (old @ replicate (sizeof_PER_IO + k) 0))\<rparr>))"

fun snd_free_all :: "env \<Rightarrow> addr list \<Rightarrow> net \<Rightarrow> cerror + net" where
  "snd_free_all env [] n = Inr n"
| "snd_free_all env (p # ps) n = rbind (io_free env p n) (snd_free_all env ps)"

definition CSocketSendPool_clear :: "env \<Rightarrow> snd_state \<Rightarrow> cerror + snd_state" where
  "CSocketSendPool_clear env s =
     (case s of (pl, n) \<Rightarrow>
        rbind (snd_free_all env (snd_objFreeList pl) n)
          (\<lambda>n'. Inr (pl\<lparr>snd_objFreeList := []\<rparr>, n')))"

definition CSocketSendPool_init :: "env \<Rightarrow> u32 \<Rightarrow> u32 \<Rightarrow> u32 \<Rightarrow> snd_state \<Rightarrow> cerror + snd_state" where
  "CSocketSendPool_init env nMaxCount nInitCount nGrowCount s =
     rbind (CSocketSendPool_clear env s)
       (\<lambda>(pl, n). Inr (pl\<lparr>snd_nMaxCount := nMaxCount, snd_nGrowCount := nGrowCount\<rparr>, n))"

text \<open>The constructor calls \<open>init()\<close> with the default arguments on an empty list.\<close>

definition CSocketSendPool_new :: CSocketSendPool where
  "CSocketSendPool_new = \<lparr>snd_objFreeList = [], snd_nMaxCount = 100, snd_nGrowCount = 4\<rparr>"

text \<open>\<open>nBufferSize = 0\<close> asks for a structure without a buffer. In the comparison of \<open>nLen\<close>
  with the unsigned \<open>nBufferSize\<close> the \<open>int\<close> becomes unsigned.\<close>

definition CSocketSendPool_pop :: "env \<Rightarrow> u32 \<Rightarrow> snd_state \<Rightarrow> cerror + addr \<times> snd_state" where
  "CSocketSendPool_pop env nBufferSize s =
     (case s of (pl, n) \<Rightarrow>
        case snd_objFreeList pl of
          pObj # rest \<Rightarrow>
            let pl1 = pl\<lparr>snd_objFreeList := rest\<rparr>
            in if 0 < nBufferSize
               then rbind (get_io pObj n)
                 (\<lambda>io. if to_u32 (io_nLen io) < nBufferSize
                   then let (p, n1) = io_realloc env pObj io (unat nBufferSize) n
                        in if p = NULL then Inr (NULL, pl1, n1)
                           else Inr (p, pl1, put_io p
                                  (io\<lparr>io_OperType := SEND_POSTED, io_szBuffer := p + sizeof_PER_IO,
                                      io_nLen := sint nBufferSize\<rparr>) n1)
                   else Inr (pObj, pl1, n))
               else Inr (pObj, pl1, n)
        | [] \<Rightarrow>
            let (p, n1) = io_alloc env (unat nBufferSize) n
            in if p = NULL then Inr (NULL, pl, n1)
               else Inr (p, pl, put_io p
                      (if 0 < nBufferSize
                       then zero_io\<lparr>io_OperType := SEND_POSTED, io_szBuffer := p + sizeof_PER_IO,
                                    io_nLen := sint nBufferSize\<rparr>
                       else zero_io\<lparr>io_OperType := SEND_POSTED, io_szBuffer := NULL\<rparr>) n1))"

definition CSocketSendPool_push :: "env \<Rightarrow> addr \<Rightarrow> snd_state \<Rightarrow> cerror + snd_state" where
  "CSocketSendPool_push env pObj s =
     (case s of (pl, n) \<Rightarrow>
        if length (snd_objFreeList pl) < unat (snd_nMaxCount pl)
        then Inr (pl\<lparr>snd_objFreeList := snd_objFreeList pl @ [pObj]\<rparr>, n)
        else rbind (io_free env pObj n) (\<lambda>n'. Inr (pl, n')))"

section \<open>The pool keeps the contract\<close>

text \<open>The structures that the model knows lie in allocated blocks.\<close>

definition net_ok :: "env \<Rightarrow> net \<Rightarrow> bool" where
  "net_ok env n \<longleftrightarrow> heap_env_ok env \<and>
     (\<forall>p. n_io n p \<noteq> None \<or> n_sess n p \<noteq> None \<longrightarrow> p \<noteq> NULL \<and> blocks (n_trace n) p \<noteq> None) \<and>
     (\<forall>p. n_io n p = None \<or> n_sess n p = None)"

definition io_live :: "CSocketSendPool \<times> net \<Rightarrow> addr \<Rightarrow> bool" where
  "io_live s p \<longleftrightarrow> n_io (snd s) p \<noteq> None"

definition snd_ok :: "env \<Rightarrow> snd_state \<Rightarrow> bool" where
  "snd_ok env s \<longleftrightarrow> net_ok env (snd s) \<and> distinct (snd_objFreeList (fst s)) \<and>
     (\<forall>p \<in> set (snd_objFreeList (fst s)). io_live s p)"

lemma sys_fields [simp]:
  "n_bytes (snd (sys env c n)) = n_bytes n" "n_io (snd (sys env c n)) = n_io n"
  "n_sess (snd (sys env c n)) = n_sess n"
  "n_trace (snd (sys env c n)) = n_trace n @ [(c, env (n_trace n) c)]"
  "fst (sys env c n) = env (n_trace n) c"
  by (simp_all add: sys_def)

lemma net_ok_excl: "net_ok env n \<Longrightarrow> n_io n p \<noteq> None \<Longrightarrow> n_sess n p = None"
  "net_ok env n \<Longrightarrow> n_sess n p \<noteq> None \<Longrightarrow> n_io n p = None"
  by (metis net_ok_def)+

text \<open>Fresh memory is not in use.\<close>

lemma heap_alloc_fresh:
  assumes "net_ok env n" "env (n_trace n) (HeapAlloc k) = r" "ret_ptr r \<noteq> NULL"
  shows "blocks (n_trace n) (ret_ptr r) = None" "n_io n (ret_ptr r) = None" "n_sess n (ret_ptr r) = None"
    "blocks (n_trace n @ [(HeapAlloc k, r)]) = (blocks (n_trace n))(ret_ptr r \<mapsto> k)"
proof -
  obtain p where r: "r = Ok p" "0 < p" using assms(3) by (cases r) auto
  have "disjoint_from (nat p) k (blocks (n_trace n))"
    using assms(1,2) r by (auto simp: net_ok_def heap_env_ok_def)
  then show b: "blocks (n_trace n) (ret_ptr r) = None"
    using r by (auto dest: disjoint_fromD)
  then show "n_io n (ret_ptr r) = None" "n_sess n (ret_ptr r) = None"
    using assms(1) by (auto simp: net_ok_def)
  show "blocks (n_trace n @ [(HeapAlloc k, r)]) = (blocks (n_trace n))(ret_ptr r \<mapsto> k)"
    using r by (simp add: blocks_snoc)
qed

lemma heap_realloc_fresh:
  assumes "net_ok env n" "env (n_trace n) (HeapReAlloc p k) = r" "ret_ptr r \<noteq> NULL" "n_io n p \<noteq> None"
  shows "ret_ptr r \<noteq> p \<Longrightarrow> n_io n (ret_ptr r) = None" "n_sess n (ret_ptr r) = None"
    "blocks (n_trace n @ [(HeapReAlloc p k, r)]) = ((blocks (n_trace n))(p := None))(ret_ptr r \<mapsto> k)"
proof -
  obtain q where r: "r = Ok q" "0 < q" using assms(3) by (cases r) auto
  have "disjoint_from (nat q) k ((blocks (n_trace n))(p := None))"
    using assms(1,2) r by (auto simp: net_ok_def heap_env_ok_def)
  then have b: "((blocks (n_trace n))(p := None)) (nat q) = None"
    by (rule disjoint_fromD)
  then show "ret_ptr r \<noteq> p \<Longrightarrow> n_io n (ret_ptr r) = None"
    using assms(1) r by (auto simp: net_ok_def)
  have "n_sess n p = None" using net_ok_excl(1) [OF assms(1,4)] .
  with b show "n_sess n (ret_ptr r) = None"
    using assms(1) r by (cases "nat q = p") (auto simp: net_ok_def)
  show "blocks (n_trace n @ [(HeapReAlloc p k, r)]) = ((blocks (n_trace n))(p := None))(ret_ptr r \<mapsto> k)"
    using r by (simp add: blocks_snoc)
qed

lemma net_ok_trace:
  assumes "net_ok env n" "\<And>p. blocks (n_trace n) p \<noteq> None \<Longrightarrow> blocks t p \<noteq> None"
  shows "net_ok env (n\<lparr>n_trace := t\<rparr>)"
  using assms by (auto simp: net_ok_def)

lemma blocks_alloc_null:
  "ret_ptr r = NULL \<Longrightarrow> blocks (t @ [(HeapAlloc k, r)]) = blocks t"
  "ret_ptr r = NULL \<Longrightarrow> blocks (t @ [(HeapReAlloc p k, r)]) = blocks t"
  by (cases r; simp add: blocks_snoc)+

lemma io_alloc_spec:
  assumes "net_ok env n" "io_alloc env k n = (p, n1)"
  shows "net_ok env n1" "n_sess n1 = n_sess n"
    "p = NULL \<Longrightarrow> n_io n1 = n_io n"
    "p \<noteq> NULL \<Longrightarrow> n_io n p = None \<and> n_io n1 = (n_io n)(p \<mapsto> zero_io)"
proof -
  define r where "r = env (n_trace n) (HeapAlloc (sizeof_PER_IO + k))"
  have p: "p = ret_ptr r" using assms(2) by (auto simp: io_alloc_def sys_def r_def Let_def split: if_splits)
  show "n_sess n1 = n_sess n" "p = NULL \<Longrightarrow> n_io n1 = n_io n"
    using assms(2) by (auto simp: io_alloc_def sys_def Let_def split: if_splits)
  show "p \<noteq> NULL \<Longrightarrow> n_io n p = None \<and> n_io n1 = (n_io n)(p \<mapsto> zero_io)"
    using assms(2) heap_alloc_fresh(2) [OF assms(1) r_def [symmetric]] p
    by (auto simp: io_alloc_def sys_def Let_def split: if_splits)
  show "net_ok env n1"
  proof (cases "p = NULL")
    case True
    then have "n1 = n\<lparr>n_trace := n_trace n @ [(HeapAlloc (sizeof_PER_IO + k), r)]\<rparr>"
      using assms(2) by (auto simp: io_alloc_def sys_def r_def Let_def split: if_splits)
    then show ?thesis using True p blocks_alloc_null(1) [of r] net_ok_trace [OF assms(1)] by simp
  next
    case False
    note fr = heap_alloc_fresh [OF assms(1) r_def [symmetric], folded p, OF False]
    have "n_trace n1 = n_trace n @ [(HeapAlloc (sizeof_PER_IO + k), r)]"
      "n_io n1 = (n_io n)(p \<mapsto> zero_io)" "n_sess n1 = n_sess n"
      using assms(2) False by (auto simp: io_alloc_def sys_def r_def Let_def split: if_splits)
    then show ?thesis using assms(1) fr False by (auto simp: net_ok_def)
  qed
qed

lemma io_realloc_spec:
  assumes "net_ok env n" "io_realloc env p io k n = (q, n1)" "n_io n p \<noteq> None"
  shows "net_ok env n1" "n_sess n1 = n_sess n"
    "q = NULL \<Longrightarrow> n_io n1 = n_io n"
    "q \<noteq> NULL \<Longrightarrow> (q = p \<or> n_io n q = None) \<and> n_io n1 = ((n_io n)(p := None))(q \<mapsto> io)"
proof -
  define r where "r = env (n_trace n) (HeapReAlloc p (sizeof_PER_IO + k))"
  have q: "q = ret_ptr r" using assms(2) by (auto simp: io_realloc_def sys_def r_def Let_def split: if_splits)
  show "n_sess n1 = n_sess n" "q = NULL \<Longrightarrow> n_io n1 = n_io n"
    using assms(2) by (auto simp: io_realloc_def sys_def Let_def split: if_splits)
  show "q \<noteq> NULL \<Longrightarrow> (q = p \<or> n_io n q = None) \<and> n_io n1 = ((n_io n)(p := None))(q \<mapsto> io)"
    using assms(2,3) heap_realloc_fresh(1) [OF assms(1) r_def [symmetric]] q
    by (cases "q = p") (auto simp: io_realloc_def sys_def Let_def split: if_splits)
  show "net_ok env n1"
  proof (cases "q = NULL")
    case True
    then have "n1 = n\<lparr>n_trace := n_trace n @ [(HeapReAlloc p (sizeof_PER_IO + k), r)]\<rparr>"
      using assms(2) by (auto simp: io_realloc_def sys_def r_def Let_def split: if_splits)
    then show ?thesis using True q blocks_alloc_null(2) [of r] net_ok_trace [OF assms(1)] by simp
  next
    case False
    note fr = heap_realloc_fresh [OF assms(1) r_def [symmetric], folded q, OF False assms(3)]
    have n1: "n_trace n1 = n_trace n @ [(HeapReAlloc p (sizeof_PER_IO + k), r)]"
      "n_io n1 = ((n_io n)(p := None))(q \<mapsto> io)" "n_sess n1 = n_sess n"
      using assms(2) False by (auto simp: io_realloc_def sys_def r_def Let_def split: if_splits)
    have "n_sess n p = None" using net_ok_excl(1) [OF assms(1,3)] .
    then show ?thesis using assms(1) fr False unfolding net_ok_def n1 fr(3) by (auto split: if_splits)
  qed
qed

lemma io_free_spec:
  assumes "net_ok env n" "io_free env p n = Inr n'"
  shows "net_ok env n'" "n_io n' = (n_io n)(p := None)" "n_sess n' = n_sess n"
proof -
  have x: "n_sess n p = None"
    using net_ok_excl(1) [OF assms(1), of p] assms(2) by (auto simp: io_free_def split: option.splits)
  have n': "n_trace n' = n_trace n @ [(HeapFree p, env (n_trace n) (HeapFree p))]"
    "n_io n' = (n_io n)(p := None)" "n_sess n' = n_sess n" "n_io n p \<noteq> None"
    using assms(2) by (auto simp: io_free_def sys_def split: option.splits)
  then show "n_io n' = (n_io n)(p := None)" "n_sess n' = n_sess n" by blast+
  show "net_ok env n'"
    using assms(1) n'(4) x unfolding net_ok_def n' blocks_snoc by (auto split: if_splits)
qed

lemma put_io_spec [simp]:
  "n_io (put_io p io n) = (n_io n)(p \<mapsto> io)" "n_sess (put_io p io n) = n_sess n"
  "n_trace (put_io p io n) = n_trace n" "n_bytes (put_io p io n) = n_bytes n"
  by (simp_all add: put_io_def)

lemma net_ok_put_io: "net_ok env n \<Longrightarrow> n_io n p \<noteq> None \<Longrightarrow> net_ok env (put_io p io n)"
  using net_ok_excl(1) [of env n p] by (auto simp: net_ok_def)

text \<open>What a \<open>pop\<close> did.\<close>

lemma snd_pop_cases:
  assumes "snd_ok env s" "CSocketSendPool_pop env k s = Inr (p, s')"
  obtains (reused) rest where "snd_objFreeList (fst s) = p # rest" "p \<noteq> NULL"
      "snd_objFreeList (fst s') = rest" "snd s' = snd s"
  | (moved) q rest io where "snd_objFreeList (fst s) = q # rest" "snd_objFreeList (fst s') = rest" "p \<noteq> NULL"
      "p = q \<or> n_io (snd s) p = None" "n_io (snd s') = ((n_io (snd s))(q := None))(p \<mapsto> io)"
      "net_ok env (snd s')"
  | (lost) q rest where "snd_objFreeList (fst s) = q # rest" "snd_objFreeList (fst s') = rest" "p = NULL"
      "n_io (snd s') = n_io (snd s)" "net_ok env (snd s')"
  | (created) io where "snd_objFreeList (fst s) = []" "snd_objFreeList (fst s') = []" "p \<noteq> NULL"
      "n_io (snd s) p = None" "n_io (snd s') = (n_io (snd s))(p \<mapsto> io)" "net_ok env (snd s')"
  | (failed) "snd_objFreeList (fst s) = []" "snd_objFreeList (fst s') = []" "p = NULL"
      "n_io (snd s') = n_io (snd s)" "net_ok env (snd s')"
proof -
  obtain pl n where s: "s = (pl, n)" by (cases s)
  have ok: "net_ok env n" using assms(1) s by (simp add: snd_ok_def)
  show thesis
  proof (cases "snd_objFreeList pl")
    case Nil
    obtain q n1 where a: "io_alloc env (unat k) n = (q, n1)" by fastforce
    note sp = io_alloc_spec [OF ok a]
    show thesis
    proof (cases "q = NULL")
      case True
      then show thesis using failed assms(2) s Nil a sp by (auto simp: CSocketSendPool_pop_def)
    next
      case False
      then have "p = q" "\<exists>io. s' = (pl, put_io q io n1)"
        using assms(2) s Nil a by (auto simp: CSocketSendPool_pop_def)
      then show thesis using created False s Nil sp(4) [OF False] net_ok_put_io [OF sp(1), of q] by auto
    qed
  next
    case (Cons q rest)
    then have live: "n_io n q \<noteq> None" using assms(1) s by (auto simp: snd_ok_def io_live_def)
    then obtain io where io: "n_io n q = Some io" by auto
    have q0: "q \<noteq> NULL" using ok live by (auto simp: net_ok_def)
    show thesis
    proof (cases "0 < k \<and> to_u32 (io_nLen io) < k")
      case True
      obtain r n1 where a: "io_realloc env q io (unat k) n = (r, n1)" by fastforce
      note sp = io_realloc_spec [OF ok a live]
      show thesis
      proof (cases "r = NULL")
        case True
        then show thesis using lost assms(2) s Cons a sp \<open>0 < k \<and> _\<close> io q0
          by (auto simp: CSocketSendPool_pop_def get_io_def)
      next
        case False
        then have "p = r" "\<exists>io. s' = (pl\<lparr>snd_objFreeList := rest\<rparr>, put_io r io n1)"
          using assms(2) s Cons a \<open>0 < k \<and> _\<close> io q0 by (auto simp: CSocketSendPool_pop_def get_io_def)
        then show thesis using moved False s Cons sp(4) [OF False] net_ok_put_io [OF sp(1), of r] by auto
      qed
    next
      case False
      then show thesis using reused assms(2) s Cons io q0
        by (auto simp: CSocketSendPool_pop_def get_io_def Let_def split: if_splits)
    qed
  qed
qed

lemma snd_push_cases:
  assumes "CSocketSendPool_push env p s = Inr s'"
  obtains (kept) "snd_objFreeList (fst s') = snd_objFreeList (fst s) @ [p]" "snd s' = snd s"
  | (freed) "snd_objFreeList (fst s') = snd_objFreeList (fst s)" "io_free env p (snd s) = Inr (snd s')"
  using assms by (cases s) (auto simp: CSocketSendPool_push_def res_simps split: if_splits)

interpretation sndp: object_pool "CSocketSendPool_pop env k" "CSocketSendPool_push env"
  "\<lambda>s. snd_objFreeList (fst s)" io_live "snd_ok env"
proof (unfold_locales, goal_cases)
  case (3 s)
  obtain pl n where s: "s = (pl, n)" by (cases s)
  show ?case
  proof (cases "snd_objFreeList pl")
    case Nil
    then show ?thesis using s by (simp add: CSocketSendPool_pop_def Let_def split: prod.split)
  next
    case (Cons q rest)
    then have "n_io n q \<noteq> None" using 3 s by (auto simp: snd_ok_def io_live_def)
    moreover have "q \<noteq> NULL" using 3 s calculation by (auto simp: snd_ok_def net_ok_def)
    ultimately obtain io where "get_io q n = Inr io" by (auto simp: get_io_def)
    then show ?thesis using s Cons by (simp add: CSocketSendPool_pop_def Let_def split: prod.split)
  qed
next
  case (4 s p s')
  from 4 show ?case using 4(1)
    by (cases rule: snd_pop_cases) (auto simp: snd_ok_def io_live_def)
next
  case (5 s p s')
  from 5(1,2) show ?case using 5(1,3)
    by (cases rule: snd_pop_cases) (auto simp: snd_ok_def io_live_def)
next
  case (6 s p s')
  from 6(1,2) show ?case using 6(1,3)
    by (cases rule: snd_pop_cases) (auto simp: snd_ok_def io_live_def)
next
  case (7 s p s')
  from 7(1,2) show ?case using 7(1,3)
    by (cases rule: snd_pop_cases) (auto simp: io_live_def)
next
  case (8 s p s' q)
  from 8(1,2) show ?case using 8(3,4)
    by (cases rule: snd_pop_cases) (auto simp: io_live_def)
next
  case (9 s p s' q)
  from 9(1,2) show ?case using 9(3)
    by (cases rule: snd_pop_cases) auto
next
  case (10 s p s')
  from 10(4) show ?case
  proof (cases rule: snd_push_cases)
    case kept
    then show ?thesis using 10 by (auto simp: snd_ok_def io_live_def)
  next
    case freed
    have "net_ok env (snd s)" using 10(1) by (simp add: snd_ok_def)
    note fr = io_free_spec [OF this freed(2)]
    show ?thesis using 10 freed(1) fr by (auto simp: snd_ok_def io_live_def)
  qed
next
  case (11 s p s' q)
  from 11(2) show ?case
  proof (cases rule: snd_push_cases)
    case freed
    have "net_ok env (snd s)" using 11(1) by (simp add: snd_ok_def)
    from io_free_spec(2) [OF this freed(2)] show ?thesis using 11 by (simp add: io_live_def)
  qed (use 11 in \<open>simp add: io_live_def\<close>)
next
  case (12 s p s' q)
  from 12(2) show ?case using 12(3) by (cases rule: snd_push_cases) auto
qed (auto simp: snd_ok_def)

text \<open>The pool never faults: what is pushed can be freed.\<close>

interpretation sndpt: total_pool "CSocketSendPool_pop env k" "CSocketSendPool_push env"
  "\<lambda>s. snd_objFreeList (fst s)" io_live "snd_ok env"
  by unfold_locales
    (auto simp: CSocketSendPool_push_def io_free_def io_live_def split: prod.splits option.splits)

section \<open>Where the data buffers lie\<close>

text \<open>A structure whose buffer is the memory behind it, as long as its \<open>nLen\<close> says.\<close>

definition own_buffer :: "net \<Rightarrow> addr \<Rightarrow> bool" where
  "own_buffer n p \<longleftrightarrow>
     (\<exists>io sz. n_io n p = Some io \<and> io_szBuffer io = p + sizeof_PER_IO \<and> 0 \<le> io_nLen io \<and>
        io_nLen io < 2 ^ 31 \<and> blocks (n_trace n) p = Some sz \<and> sizeof_PER_IO + nat (io_nLen io) \<le> sz)"

definition snd_bufs_ok :: "env \<Rightarrow> snd_state \<Rightarrow> bool" where
  "snd_bufs_ok env s \<longleftrightarrow> snd_ok env s \<and> (\<forall>p \<in> set (snd_objFreeList (fst s)). own_buffer (snd s) p)"

lemma own_buffer_cong:
  "own_buffer n q \<Longrightarrow> n_io n' q = n_io n q \<Longrightarrow> blocks (n_trace n') q = blocks (n_trace n) q \<Longrightarrow>
   own_buffer n' q"
  by (auto simp: own_buffer_def)

lemma io_alloc_blocks:
  assumes "net_ok env n" "io_alloc env k n = (p, n1)" "p \<noteq> NULL"
  shows "blocks (n_trace n1) = (blocks (n_trace n))(p \<mapsto> sizeof_PER_IO + k)" "blocks (n_trace n) p = None"
proof -
  define r where "r = env (n_trace n) (HeapAlloc (sizeof_PER_IO + k))"
  have p: "p = ret_ptr r" "n_trace n1 = n_trace n @ [(HeapAlloc (sizeof_PER_IO + k), r)]"
    using assms(2) by (auto simp: io_alloc_def sys_def r_def Let_def split: if_splits)
  show "blocks (n_trace n1) = (blocks (n_trace n))(p \<mapsto> sizeof_PER_IO + k)" "blocks (n_trace n) p = None"
    using heap_alloc_fresh [OF assms(1) r_def [symmetric], folded p(1), OF assms(3)] p(2) by auto
qed

lemma io_realloc_blocks:
  assumes "net_ok env n" "io_realloc env p io k n = (q, n1)" "q \<noteq> NULL" "n_io n p \<noteq> None"
  shows "blocks (n_trace n1) = ((blocks (n_trace n))(p := None))(q \<mapsto> sizeof_PER_IO + k)"
    "q \<noteq> p \<Longrightarrow> blocks (n_trace n) q = None"
proof -
  define r where "r = env (n_trace n) (HeapReAlloc p (sizeof_PER_IO + k))"
  have q: "q = ret_ptr r" "n_trace n1 = n_trace n @ [(HeapReAlloc p (sizeof_PER_IO + k), r)]"
    using assms(2) by (auto simp: io_realloc_def sys_def r_def Let_def split: if_splits)
  show "blocks (n_trace n1) = ((blocks (n_trace n))(p := None))(q \<mapsto> sizeof_PER_IO + k)"
    using heap_realloc_fresh(3) [OF assms(1) r_def [symmetric], folded q(1), OF assms(3,4)] q(2) by simp
  obtain v where v: "r = Ok v" "0 < v" using assms(3) q by (cases r) auto
  have "disjoint_from (nat v) (sizeof_PER_IO + k) ((blocks (n_trace n))(p := None))"
    using assms(1) v r_def by (auto simp: net_ok_def heap_env_ok_def)
  then have "((blocks (n_trace n))(p := None)) q = None" using v q by (auto dest: disjoint_fromD)
  then show "q \<noteq> p \<Longrightarrow> blocks (n_trace n) q = None" by simp
qed

lemma own_buffer_new:
  assumes "blocks (n_trace n) p = Some (sizeof_PER_IO + unat (k :: u32))" "unat k < 2 ^ 31"
  shows "own_buffer (put_io p (io\<lparr>io_OperType := t, io_szBuffer := p + sizeof_PER_IO, io_nLen := sint k\<rparr>) n) p"
proof -
  have "sint k = int (unat k)" by (rule sint_unat_u32 [OF assms(2)])
  moreover have "int (unat k) < 2 ^ 31" using assms(2) by (simp del: of_nat_unat)
  ultimately show ?thesis using assms by (simp add: own_buffer_def del: of_nat_unat)
qed

lemma snd_pop_buffer:
  assumes ok: "snd_bufs_ok env s" and pop: "CSocketSendPool_pop env k s = Inr (p, s')"
    and k: "0 < unat k" "unat k < 2 ^ 31"
  shows "snd_bufs_ok env s'"
    and "p \<noteq> NULL \<Longrightarrow> own_buffer (snd s') p \<and> (\<exists>io. n_io (snd s') p = Some io \<and> int (unat k) \<le> io_nLen io)"
    and "q \<notin> set (snd_objFreeList (fst s)) \<Longrightarrow> own_buffer (snd s) q \<Longrightarrow> own_buffer (snd s') q"
proof -
  obtain pl n where s: "s = (pl, n)" by (cases s)
  have sok: "snd_ok env s" and nok: "net_ok env n" and dis: "distinct (snd_objFreeList pl)"
    and bufs: "\<And>q. q \<in> set (snd_objFreeList pl) \<Longrightarrow> own_buffer n q"
    using ok s by (auto simp: snd_bufs_ok_def snd_ok_def)
  have sok': "snd_ok env s'" by (rule sndp.pop_ok [OF sok pop])
  have k0: "0 < k" using k(1) by (simp add: word_less_nat_alt)
  have own: "own_buffer n q \<Longrightarrow> q \<noteq> NULL \<and> n_io n q \<noteq> None" for q
    using nok by (auto simp: own_buffer_def net_ok_def)
  have "(p \<noteq> NULL \<longrightarrow> own_buffer (snd s') p \<and> (\<exists>io. n_io (snd s') p = Some io \<and> int (unat k) \<le> io_nLen io)) \<and>
        (\<forall>q. own_buffer n q \<longrightarrow> (case snd_objFreeList pl of [] \<Rightarrow> True | h # t \<Rightarrow> q \<noteq> h) \<longrightarrow> own_buffer (snd s') q) \<and>
        set (snd_objFreeList (fst s')) = set (tl (snd_objFreeList pl))"
  proof (cases "snd_objFreeList pl")
    case Nil
    obtain a n1 where al: "io_alloc env (unat k) n = (a, n1)" by fastforce
    note sp = io_alloc_spec [OF nok al]
    show ?thesis
    proof (cases "a = NULL")
      case True
      then have "p = NULL" "s' = (pl, n1)" using pop s Nil al by (auto simp: CSocketSendPool_pop_def)
      moreover have "blocks (n_trace n1) = blocks (n_trace n)"
        using al True blocks_alloc_null(1) by (auto simp: io_alloc_def sys_def Let_def split: if_splits)
      ultimately show ?thesis using sp(3) [OF True] Nil by (auto intro: own_buffer_cong)
    next
      case False
      note bl = io_alloc_blocks [OF nok al False]
      let ?n = "put_io a (zero_io\<lparr>io_OperType := SEND_POSTED, io_szBuffer := a + sizeof_PER_IO, io_nLen := sint k\<rparr>) n1"
      have s': "p = a" "s' = (pl, ?n)" using pop s Nil al False k0 by (auto simp: CSocketSendPool_pop_def)
      have "own_buffer ?n a" using bl k by (intro own_buffer_new) auto
      moreover have "own_buffer n q \<Longrightarrow> own_buffer ?n q" for q
        using sp(4) [OF False] bl own by (cases "q = a") (auto intro: own_buffer_cong)
      ultimately show ?thesis using s' Nil sint_unat_u32 [OF k(2)] by simp
    qed
  next
    case (Cons h rest)
    obtain io where io: "n_io n h = Some io" "0 \<le> io_nLen io" "io_nLen io < 2 ^ 31"
      using bufs [of h] Cons by (auto simp: own_buffer_def)
    have h0: "h \<noteq> NULL" "n_io n h \<noteq> None" using own [OF bufs [of h]] Cons by auto
    have g: "get_io h n = Inr io" using io h0 by (simp add: get_io_def)
    have len: "to_u32 (io_nLen io) < k \<longleftrightarrow> io_nLen io < int (unat k)"
    proof -
      have "unat (to_u32 (io_nLen io)) = nat (io_nLen io)" using io(2,3) by (intro unat_to_u32) auto
      then show ?thesis using io(2) by (simp add: word_less_nat_alt nat_less_iff del: of_nat_unat)
    qed
    show ?thesis
    proof (cases "to_u32 (io_nLen io) < k")
      case False
      then have "p = h" "s' = (pl\<lparr>snd_objFreeList := rest\<rparr>, n)"
        using pop s Cons g k0 by (auto simp: CSocketSendPool_pop_def)
      then show ?thesis using bufs [of h] Cons io len False by auto
    next
      case True
      obtain a n1 where al: "io_realloc env h io (unat k) n = (a, n1)" by fastforce
      note sp = io_realloc_spec [OF nok al h0(2)]
      show ?thesis
      proof (cases "a = NULL")
        case a: True
        then have "p = NULL" "s' = (pl\<lparr>snd_objFreeList := rest\<rparr>, n1)"
          using pop s Cons g k0 al True by (auto simp: CSocketSendPool_pop_def)
        moreover have "blocks (n_trace n1) = blocks (n_trace n)"
          using al a blocks_alloc_null(2) by (auto simp: io_realloc_def sys_def Let_def split: if_splits)
        ultimately show ?thesis using sp(3) [OF a] Cons by (auto intro: own_buffer_cong)
      next
        case a: False
        note bl = io_realloc_blocks [OF nok al a h0(2)]
        let ?n = "put_io a (io\<lparr>io_OperType := SEND_POSTED, io_szBuffer := a + sizeof_PER_IO, io_nLen := sint k\<rparr>) n1"
        have s': "p = a" "s' = (pl\<lparr>snd_objFreeList := rest\<rparr>, ?n)"
          using pop s Cons g k0 al a True by (auto simp: CSocketSendPool_pop_def)
        have "own_buffer ?n a" using bl k by (intro own_buffer_new) auto
        moreover have "own_buffer n q \<Longrightarrow> q \<noteq> h \<Longrightarrow> own_buffer ?n q" for q
          using sp(4) [OF a] bl own [of q] by (cases "q = a") (auto intro: own_buffer_cong)
        ultimately show ?thesis using s' Cons sint_unat_u32 [OF k(2)] by simp
      qed
    qed
  qed
  note all = this
  show "p \<noteq> NULL \<Longrightarrow> own_buffer (snd s') p \<and> (\<exists>io. n_io (snd s') p = Some io \<and> int (unat k) \<le> io_nLen io)"
    using all by blast
  show "q \<notin> set (snd_objFreeList (fst s)) \<Longrightarrow> own_buffer (snd s) q \<Longrightarrow> own_buffer (snd s') q"
    using all s by (cases "snd_objFreeList pl") auto
  show "snd_bufs_ok env s'"
    using sok' all dis bufs by (cases "snd_objFreeList pl") (auto simp: snd_bufs_ok_def)
qed


text \<open>
  When all structures in use have buffers, a \<open>pop\<close> of \<open>k\<close> bytes returns NULL or a
  structure whose data pointer points behind it, into its own heap block, with room for \<open>k\<close>
  bytes; the structures in the list and the one that another sender holds keep their buffers.
\<close>

theorem send_pool_buffer:
  assumes "snd_bufs_ok env s" "0 < unat k" "unat k < 2 ^ 31"
    and "q \<notin> set (snd_objFreeList (fst s))" "own_buffer (snd s) q"
  shows "\<exists>p s'. CSocketSendPool_pop env k s = Inr (p, s') \<and> snd_bufs_ok env s' \<and>
           (p = NULL \<or> own_buffer (snd s') p \<and>
              (\<exists>io. n_io (snd s') p = Some io \<and> int (unat k) \<le> io_nLen io)) \<and>
           own_buffer (snd s') q"
proof -
  have "snd_ok env s" using assms(1) by (simp add: snd_bufs_ok_def)
  from sndp.pop_total [OF this, of k] obtain p s' where p: "CSocketSendPool_pop env k s = Inr (p, s')"
    by auto
  note b = snd_pop_buffer [OF assms(1) p assms(2,3)]
  show ?thesis using p b(1) b(2) b(3) [OF assms(4,5)] by (intro exI [of _ p] exI [of _ s']) auto
qed

section \<open>Concrete runs\<close>

text \<open>A process heap that puts every block behind all earlier ones; every other call succeeds
  with 0.\<close>

fun heap_top :: "trace \<Rightarrow> nat" where
  "heap_top [] = 1"
| "heap_top ((HeapAlloc n, r) # t) = Suc (ret_ptr r + n) + heap_top t"
| "heap_top ((HeapReAlloc p n, r) # t) = Suc (ret_ptr r + n) + heap_top t"
| "heap_top (x # t) = heap_top t"

definition bump_env :: env where
  "bump_env t c = (case c of HeapAlloc n \<Rightarrow> Ok (int (heap_top t))
     | HeapReAlloc p n \<Rightarrow> Ok (int (heap_top t)) | _ \<Rightarrow> Ok 0)"

lemma heap_top_append: "heap_top (t @ t') + 1 = heap_top t + heap_top t'"
  by (induction t rule: heap_top.induct) auto

lemma heap_top_pos: "0 < heap_top t"
  by (induction t rule: heap_top.induct) auto

lemma blocks_below_top: "blocks t p = Some n \<Longrightarrow> p + n < heap_top t"
proof (induction t arbitrary: p n rule: rev_induct)
  case (snoc x t)
  have mono: "heap_top t \<le> heap_top (t @ [x])"
    using heap_top_append [of t "[x]"] heap_top_pos [of "[x]"] by linarith
  show ?case
  proof (cases "blocks t p = Some n")
    case True
    then show ?thesis using snoc.IH mono by fastforce
  next
    case False
    obtain c r where x: "x = (c, r)" by (cases x)
    from False snoc.prems have "(\<exists>m. c = HeapAlloc m \<or> (\<exists>q. c = HeapReAlloc q m)) \<and> p = ret_ptr r"
      "c = HeapAlloc n \<or> (\<exists>q. c = HeapReAlloc q n)"
      unfolding x blocks_snoc by (cases c; cases r; auto split: if_splits)+
    then have "heap_top [x] = Suc (p + n) + 1" using x by auto
    with heap_top_append [of t "[x]"] heap_top_pos [of t] show ?thesis by linarith
  qed
qed simp

lemma bump_env_ok: "heap_env_ok bump_env"
proof -
  have "disjoint_from (heap_top t) n B" if "\<And>q m. B q = Some m \<Longrightarrow> blocks t q = Some m" for t n B
    unfolding disjoint_from_def
  proof (intro allI impI)
    fix q m assume "B q = Some m"
    then have "q + m < heap_top t" using that blocks_below_top by blast
    then show "q \<noteq> heap_top t \<and> {heap_top t..<heap_top t + n} \<inter> {q..<q + m} = {}" by auto
  qed
  note dis = this
  have upd: "((blocks t)(p := None)) q = Some m \<Longrightarrow> blocks t q = Some m" for t p q m
    by (cases "q = p") simp_all
  show ?thesis
    unfolding heap_env_ok_def bump_env_def api_call.case api_ret.inject
    by (safe; simp only: nat_int; rule dis; (assumption | erule upd))
qed

definition net0 :: net where
  "net0 = \<lparr>n_trace = [], n_bytes = (\<lambda>a. 0), n_io = (\<lambda>p. None), n_sess = (\<lambda>p. None)\<rparr>"

lemma net0_ok: "net_ok bump_env net0"
  by (simp add: net_ok_def net0_def bump_env_ok)


text \<open>A structure with a buffer is out; the list is empty.\<close>

lemma send_pool_buffer_witness:
  "\<exists>q s. CSocketSendPool_pop bump_env 8 (CSocketSendPool_new, net0) = Inr (q, s) \<and> q \<noteq> NULL \<and>
    (\<exists>p s'. CSocketSendPool_pop bump_env 16 s = Inr (p, s') \<and> snd_bufs_ok bump_env s' \<and>
           (p = NULL \<or> own_buffer (snd s') p \<and>
              (\<exists>io. n_io (snd s') p = Some io \<and> int (unat (16 :: u32)) \<le> io_nLen io)) \<and>
           own_buffer (snd s') q)"
proof -
  have 0: "snd_bufs_ok bump_env (CSocketSendPool_new, net0)"
    by (simp add: snd_bufs_ok_def snd_ok_def net0_ok CSocketSendPool_new_def)
  obtain q s where p: "CSocketSendPool_pop bump_env 8 (CSocketSendPool_new, net0) = Inr (q, s)"
    "q \<noteq> NULL" "snd_objFreeList (fst s) = []"
    by (simp add: CSocketSendPool_pop_def CSocketSendPool_new_def io_alloc_def sys_def bump_env_def
        net0_def put_io_def)
  note b = snd_pop_buffer [OF 0 p(1)]
  have "snd_bufs_ok bump_env s" "own_buffer (snd s) q" using b(1,2) p(2) by simp_all
  from send_pool_buffer [OF this(1) _ _ _ this(2), of 16] p show ?thesis by auto
qed

text \<open>
  A structure that was used without a buffer keeps its old data pointer and \<open>nLen\<close>: after
  it was sent with a pointer into the application's memory and came back, \<open>pop\<close> hands it out
  for a buffered message no longer than its \<open>nLen\<close> with the stale pointer, so that copying
  the message overwrites the application's memory at \<open>1000\<close>.
\<close>

theorem send_pool_alias:
  "\<exists>p s1 s2 s3 io.
     CSocketSendPool_pop bump_env 8 (CSocketSendPool_new, net0) = Inr (p, s1) \<and>
     CSocketSendPool_push bump_env p s1 = Inr s2 \<and>
     CSocketSendPool_pop bump_env 0 s2 = Inr (p, s3) \<and>
     n_io (snd s3) p = Some io \<and>
     (\<exists>s4 s5. CSocketSendPool_push bump_env p
          (fst s3, put_io p (io\<lparr>io_szBuffer := 1000\<rparr>) (snd s3)) = Inr s4 \<and>
        CSocketSendPool_pop bump_env 8 s4 = Inr (p, s5) \<and>
        map_option io_szBuffer (n_io (snd s5) p) = Some 1000)"
  by (simp add: CSocketSendPool_pop_def CSocketSendPool_push_def CSocketSendPool_new_def io_alloc_def
      sys_def bump_env_def net0_def put_io_def get_io_def to_u32_def)

end
