(* ===== verification/SocketSource.thy ===== *)
theory SocketSource
  imports SendPool
begin

text \<open>
  \<open>CSocketSource\<close> of SocketSource.h, the base of the server, the client and the UDP source, and
  the two sending loops that the three \<open>Send\<close> functions share word by word: the blocking one
  (\<open>send_block\<close>) and the one over the completion port (\<open>send_iocp\<close>). What differs between the
  three, the system call, is the parameter \<open>call\<close>; a failed call ends the loop with the flag
  \<open>True\<close>, and the \<open>Send\<close> function disconnects after it where the source does.

  A loop that never ends is \<open>None\<close>. The locale \<open>send_call\<close> holds what is proved of the loops
  once for \<open>WSASend\<close> and \<open>WSASendTo\<close>: with a system that accepts at least one byte of every
  packet the loops end, and the bytes that were accepted are a prefix of the message, as long
  as the returned number says.
\<close>

section \<open>The base class\<close>

record CSocketSource =
  src_pAppLog :: addr
  src_pSocketEvent :: addr
  src_pSocketRunner :: addr
  src_nRecvBufferSize :: int
  src_nSendBufferSize :: int

text \<open>The constructor leaves \<open>m_nSendBufferSize\<close> as it is in memory, \<open>junk\<close>.\<close>

definition CSocketSource_new :: "int \<Rightarrow> CSocketSource" where
  "CSocketSource_new junk =
     \<lparr>src_pAppLog = NULL, src_pSocketEvent = NULL, src_pSocketRunner = NULL,
      src_nRecvBufferSize = RECV_BUFFER_SIZE, src_nSendBufferSize = junk\<rparr>"

text \<open>The virtual functions that the classes do not override do nothing.\<close>

definition CSocketSource_PostSend :: "addr \<Rightarrow> 's \<Rightarrow> bool \<times> 's" where
  "CSocketSource_PostSend p s = (True, s)"

definition CSocketSource_PostRecv :: "int \<Rightarrow> addr \<Rightarrow> 's \<Rightarrow> bool \<times> 's" where
  "CSocketSource_PostRecv h p s = (True, s)"

definition CSocketSource_Disconnect :: "int \<Rightarrow> bool \<Rightarrow> 's \<Rightarrow> bool \<times> 's" where
  "CSocketSource_Disconnect h f s = (True, s)"

definition CSocketSource_SetAttachInfo :: "int \<Rightarrow> addr \<Rightarrow> 's \<Rightarrow> bool \<times> 's" where
  "CSocketSource_SetAttachInfo h p s = (True, s)"

definition CSocketSource_Send :: "int \<Rightarrow> addr \<Rightarrow> int \<Rightarrow> int \<Rightarrow> 's \<Rightarrow> int \<times> 's" where
  "CSocketSource_Send h szData nLen nOptval s = (0, s)"

text \<open>\<open>SetInterface\<close> and \<open>SetBufferSize\<close>, the same code in the three subclasses.\<close>

definition source_SetInterface :: "addr \<Rightarrow> addr \<Rightarrow> addr \<Rightarrow> 'a CSocketSource_scheme \<Rightarrow> 'a CSocketSource_scheme" where
  "source_SetInterface pAppLog pSocketEvent pSocketRunner s =
     s\<lparr>src_pAppLog := pAppLog, src_pSocketEvent := pSocketEvent, src_pSocketRunner := pSocketRunner\<rparr>"

definition source_SetBufferSize :: "int \<Rightarrow> int \<Rightarrow> 'a CSocketSource_scheme \<Rightarrow> 'a CSocketSource_scheme" where
  "source_SetBufferSize nRecvBufferSize nSendBufferSize s =
     (let s1 = if nRecvBufferSize > 0 then s\<lparr>src_nRecvBufferSize := nRecvBufferSize\<rparr> else s
      in if nSendBufferSize > 0 then s1\<lparr>src_nSendBufferSize := nSendBufferSize\<rparr> else s1)"

section \<open>The sending loops\<close>

text \<open>The option bits of \<open>nOptval\<close>.\<close>

definition has_option :: "int \<Rightarrow> int \<Rightarrow> bool" where
  "has_option nOptval opt \<longleftrightarrow> nOptval AND opt \<noteq> 0"

definition nSegmentSize :: "int \<Rightarrow> int \<Rightarrow> 'a CSocketSource_scheme \<Rightarrow> int" where
  "nSegmentSize nOptval nLen s =
     (if has_option nOptval SEND_OPTION_SEGMENT then src_nSendBufferSize s else nLen)"

definition nPacketSize :: "int \<Rightarrow> int \<Rightarrow> int \<Rightarrow> int" where
  "nPacketSize nLen nSendByteSum nSeg =
     (if nLen - nSendByteSum > nSeg then nSeg else nLen - nSendByteSum)"

text \<open>The result: did a call fail, how many bytes were sent, the state.\<close>

partial_function (option) send_block ::
    "env \<Rightarrow> (byte list \<Rightarrow> addr \<Rightarrow> api_call) \<Rightarrow> addr \<Rightarrow> int \<Rightarrow> int \<Rightarrow> int \<Rightarrow> net \<Rightarrow> (bool \<times> int \<times> net) option" where
  "send_block env call szData nLen nSeg nSendByteSum n =
     (if nSendByteSum < nLen
      then let k = nPacketSize nLen nSendByteSum nSeg;
               buf = mem_read (n_bytes n) (szData + nat nSendByteSum) (unat (to_u32 k));
               n1 = snd (sys env (call buf NULL) n)
           in (case fst (sys env (call buf NULL) n) of
                 Ok v \<Rightarrow> send_block env call szData nLen nSeg (nSendByteSum + v) n1
               | Err e \<Rightarrow>
                   if e \<noteq> WSA_IO_PENDING then Some (True, nSendByteSum, n1)
                   else send_block env call szData nLen nSeg (nSendByteSum + k) n1)
      else Some (False, nSendByteSum, n))"

text \<open>One packet over the completion port: a structure from the pool, the data behind it or in
  place, and the call. \<open>None\<close> is no structure.\<close>

definition iocp_prepare ::
    "env \<Rightarrow> bool \<Rightarrow> addr \<Rightarrow> int \<Rightarrow> int \<Rightarrow> snd_state \<Rightarrow> cerror + (addr \<times> addr) option \<times> snd_state" where
  "iocp_prepare env bNeedBuffer szData nSendByteSum k s =
     rbind (CSocketSendPool_pop env (if bNeedBuffer then to_u32 k else 0) s)
       (\<lambda>(pPerIoData, pl, n).
          if pPerIoData = NULL then Inr (None, pl, n)
          else rbind (get_io pPerIoData n) (\<lambda>io.
            let src = szData + nat nSendByteSum
            in if bNeedBuffer
               then if io_szBuffer io = NULL then Inl NullDeref
                    else Inr (Some (pPerIoData, io_szBuffer io), pl,
                           put_io pPerIoData (io\<lparr>io_OperType := SEND_POSTED\<rparr>)
                             (n\<lparr>n_bytes := mem_write (n_bytes n) (io_szBuffer io)
                                  (mem_read (n_bytes n) src (unat (to_u32 k)))\<rparr>))
               else Inr (Some (pPerIoData, src), pl,
                      put_io pPerIoData (io\<lparr>io_szBuffer := src, io_OperType := SEND_POSTED\<rparr>) n)))"

partial_function (option) send_iocp ::
    "env \<Rightarrow> (byte list \<Rightarrow> addr \<Rightarrow> api_call) \<Rightarrow> bool \<Rightarrow> addr \<Rightarrow> int \<Rightarrow> int \<Rightarrow> int \<Rightarrow> snd_state \<Rightarrow>
     (cerror + bool \<times> int \<times> snd_state) option" where
  "send_iocp env call bNeedBuffer szData nLen nSeg nSendByteSum s =
     (if nSendByteSum < nLen
      then let k = nPacketSize nLen nSendByteSum nSeg
           in (case iocp_prepare env bNeedBuffer szData nSendByteSum k s of
                 Inl e \<Rightarrow> Some (Inl e)
               | Inr (None, s1) \<Rightarrow> Some (Inr (False, nSendByteSum, s1))
               | Inr (Some (p, wbuf), pl, n) \<Rightarrow>
                   let buf = mem_read (n_bytes n) wbuf (unat (to_u32 k));
                       n1 = snd (sys env (call buf p) n)
                   in (case fst (sys env (call buf p) n) of
                         Ok v \<Rightarrow> send_iocp env call bNeedBuffer szData nLen nSeg (nSendByteSum + v) (pl, n1)
                       | Err e \<Rightarrow>
                           if e \<noteq> WSA_IO_PENDING
                           then (case CSocketSendPool_push env p (pl, n1) of
                                   Inl e \<Rightarrow> Some (Inl e)
                                 | Inr s2 \<Rightarrow> Some (Inr (True, nSendByteSum, s2)))
                           else send_iocp env call bNeedBuffer szData nLen nSeg (nSendByteSum + k) (pl, n1)))
      else Some (Inr (False, nSendByteSum, s)))"

section \<open>What was sent\<close>

fun call_bytes :: "api_call \<Rightarrow> byte list option" where
  "call_bytes (WSASend h bs ov) = Some bs"
| "call_bytes (WSASendTo h bs ov to len) = Some bs"
| "call_bytes c = None"

fun call_ov :: "api_call \<Rightarrow> addr" where
  "call_ov (WSASend h bs ov) = ov"
| "call_ov (WSASendTo h bs ov to len) = ov"
| "call_ov c = NULL"

text \<open>The packets that are on their way after a trace, with their structures.\<close>

definition posted :: "api_call \<times> api_ret \<Rightarrow> (addr \<times> byte list) list" where
  "posted x =
     (case call_bytes (fst x) of
        None \<Rightarrow> []
      | Some bs \<Rightarrow> (case snd x of Ok v \<Rightarrow> [(call_ov (fst x), bs)]
          | Err e \<Rightarrow> if e = WSA_IO_PENDING then [(call_ov (fst x), bs)] else []))"

definition posted_packets :: "trace \<Rightarrow> (addr \<times> byte list) list" where
  "posted_packets t = concat (map posted t)"

lemma posted_packets_simps [simp]:
  "posted_packets [] = []" "posted_packets (x # t) = posted x @ posted_packets t"
  "posted_packets (t @ t') = posted_packets t @ posted_packets t'"
  by (simp_all add: posted_packets_def)

text \<open>The bytes that the system accepted with a call: all of them when the send is pending.\<close>

definition accepted :: "api_call \<times> api_ret \<Rightarrow> byte list" where
  "accepted x =
     (case call_bytes (fst x) of
        None \<Rightarrow> []
      | Some bs \<Rightarrow> (case snd x of Ok v \<Rightarrow> take (nat v) bs | Err e \<Rightarrow> if e = WSA_IO_PENDING then bs else []))"

definition sent_bytes :: "trace \<Rightarrow> byte list" where
  "sent_bytes t = concat (map accepted t)"

lemma sent_bytes_simps [simp]:
  "sent_bytes [] = []" "sent_bytes (x # t) = accepted x @ sent_bytes t"
  "sent_bytes (t @ t') = sent_bytes t @ sent_bytes t'"
  by (simp_all add: sent_bytes_def)

text \<open>A successful send reports between one byte and the packet's length.\<close>

definition send_env_ok :: "env \<Rightarrow> bool" where
  "send_env_ok env \<longleftrightarrow>
     (\<forall>t c bs v. call_bytes c = Some bs \<longrightarrow> env t c = Ok v \<longrightarrow>
        0 \<le> v \<and> v \<le> int (length bs) \<and> (bs \<noteq> [] \<longrightarrow> 0 < v))"

definition packets_le :: "int \<Rightarrow> trace \<Rightarrow> bool" where
  "packets_le k t \<longleftrightarrow> (\<forall>x \<in> set t. \<forall>bs. call_bytes (fst x) = Some bs \<longrightarrow> int (length bs) \<le> k)"

lemma packets_le_simps [simp]:
  "packets_le k []" "packets_le k (t @ t') \<longleftrightarrow> packets_le k t \<and> packets_le k t'"
  by (auto simp: packets_le_def)

lemma packets_le_Cons: "packets_le k (x # t) \<longleftrightarrow> packets_le k [x] \<and> packets_le k t"
  by (auto simp: packets_le_def)

lemma nPacketSize_bounds:
  assumes "0 < nSeg" "nSendByteSum < nLen" "0 \<le> nSendByteSum" "nLen < 2 ^ 31"
  defines "k \<equiv> nPacketSize nLen nSendByteSum nSeg"
  shows "0 < k" "k \<le> nSeg" "nSendByteSum + k \<le> nLen" "unat (to_u32 k) = nat k" "k < 2 ^ 31"
proof -
  show k: "0 < k" "k \<le> nSeg" "nSendByteSum + k \<le> nLen" "k < 2 ^ 31"
    using assms by (auto simp: nPacketSize_def)
  show "unat (to_u32 k) = nat k" using k by (intro unat_to_u32) auto
qed

lemma take_mem_read: "m \<le> n \<Longrightarrow> take m (mem_read b p n) = mem_read b p m"
  using mem_read_append [of b p m "n - m"] by simp

lemma mem_read_split:
  assumes "0 \<le> a" "a \<le> b" "b \<le> c"
  shows "mem_read m (p + nat a) (nat (b - a)) @ mem_read m (p + nat b) (nat (c - b)) =
         mem_read m (p + nat a) (nat (c - a))"
proof -
  have "nat (c - a) = nat (b - a) + nat (c - b)" "p + nat b = p + nat a + nat (b - a)"
    using assms by auto
  then show ?thesis by (simp only: mem_read_append)
qed

text \<open>A call that failed for good.\<close>

fun call_failed :: "api_call \<times> api_ret \<Rightarrow> bool" where
  "call_failed (HeapAlloc n, r) = (ret_ptr r = NULL)"
| "call_failed (HeapReAlloc p n, r) = (ret_ptr r = NULL)"
| "call_failed (c, Ok v) = False"
| "call_failed (c, Err e) = (e \<noteq> WSA_IO_PENDING)"

lemma call_failed_Err: "call_bytes c = Some bs \<Longrightarrow> e \<noteq> WSA_IO_PENDING \<Longrightarrow> call_failed (c, Err e)"
  by (cases c) auto

locale send_call =
  fixes call :: "byte list \<Rightarrow> addr \<Rightarrow> api_call"
  assumes call_bytes: "call_bytes (call bs ov) = Some bs"
    and call_ov: "call_ov (call bs ov) = ov"
begin

text \<open>One packet of \<open>k\<close> bytes from \<open>a\<close> on: what the answer \<open>r\<close> accepted.\<close>

lemma accepted_packet:
  assumes "send_env_ok env" "env t (call (mem_read b (p + nat a) (nat k)) ov) = Ok v" "0 < k"
  shows "accepted (call (mem_read b (p + nat a) (nat k)) ov, Ok v) = mem_read b (p + nat a) (nat v)"
    "0 < v" "v \<le> k"
proof -
  let ?bs = "mem_read b (p + nat a) (nat k)"
  have ne: "?bs \<noteq> []" using assms(3) length_mem_read [of b "p + nat a" "nat k"] by (metis list.size(3) less_irrefl zero_less_nat_eq)
  have v: "0 < v \<and> v \<le> int (length ?bs)"
    using assms(1,2) call_bytes [of ?bs ov] ne unfolding send_env_ok_def by blast
  then show "0 < v" "v \<le> k" using assms(3) by simp_all
  then show "accepted (call ?bs ov, Ok v) = mem_read b (p + nat a) (nat v)"
    by (simp add: accepted_def call_bytes take_mem_read)
qed

lemma send_block_total:
  assumes env: "send_env_ok env" and seg: "0 < nSeg" and len: "nLen < 2 ^ 31"
  shows "0 \<le> a \<Longrightarrow> a \<le> nLen \<Longrightarrow>
    \<exists>f r n' t. send_block env call p nLen nSeg a n = Some (f, r, n') \<and> a \<le> r \<and> r \<le> nLen \<and>
      (if f then \<exists>y \<in> set t. call_failed y else r = nLen) \<and> n' = n\<lparr>n_trace := n_trace n @ t\<rparr> \<and>
      sent_bytes t = mem_read (n_bytes n) (p + nat a) (nat (r - a)) \<and> packets_le nSeg t \<and>
      (\<forall>y \<in> set t. call_bytes (fst y) \<noteq> None)"
proof (induction "nat (nLen - a)" arbitrary: a n rule: less_induct)
  case less
  show ?case
  proof (cases "a < nLen")
    case False
    then have "send_block env call p nLen nSeg a n = Some (False, a, n)" by (subst send_block.simps) simp
    moreover have "n = n\<lparr>n_trace := n_trace n @ []\<rparr>" by simp
    ultimately show ?thesis using False less.prems
      by (intro exI [of _ False] exI [of _ a] exI [of _ n] exI [of _ "[]"]) (simp add: mem_read_def)
  next
    case True
    define k where "k = nPacketSize nLen a nSeg"
    note kb = nPacketSize_bounds [OF seg True less.prems(1) len, folded k_def]
    define c where "c = call (mem_read (n_bytes n) (p + nat a) (nat k)) NULL"
    define r where "r = env (n_trace n) c"
    define n1 where "n1 = n\<lparr>n_trace := n_trace n @ [(c, r)]\<rparr>"
    have unf: "send_block env call p nLen nSeg a n =
        (case r of Ok v \<Rightarrow> send_block env call p nLen nSeg (a + v) n1
         | Err e \<Rightarrow> if e \<noteq> WSA_IO_PENDING then Some (True, a, n1)
                    else send_block env call p nLen nSeg (a + k) n1)"
      using True kb(4) by (subst send_block.simps)
        (simp add: k_def [symmetric] Let_def c_def [symmetric] sys_def r_def n1_def cong: if_cong api_ret.case_cong)
    have le: "packets_le nSeg [(c, r)]" using kb(1,2) by (auto simp: packets_le_def c_def call_bytes)
    have step: ?thesis
      if "0 < d" "d \<le> k" "accepted (c, r) = mem_read (n_bytes n) (p + nat a) (nat d)"
        "send_block env call p nLen nSeg a n = send_block env call p nLen nSeg (a + d) n1" for d
    proof -
      have "nat (nLen - (a + d)) < nat (nLen - a)" "0 \<le> a + d" "a + d \<le> nLen"
        using that(1,2) True less.prems kb(3) by auto
      from less.hyps [OF this, of n1] obtain f s n' t where
        ih: "send_block env call p nLen nSeg (a + d) n1 = Some (f, s, n')" "a + d \<le> s" "s \<le> nLen"
          "if f then \<exists>y \<in> set t. call_failed y else s = nLen" "n' = n1\<lparr>n_trace := n_trace n1 @ t\<rparr>" "packets_le nSeg t"
          "sent_bytes t = mem_read (n_bytes n1) (p + nat (a + d)) (nat (s - (a + d)))"
          "\<forall>y \<in> set t. call_bytes (fst y) \<noteq> None"
        by blast
      have "\<forall>y \<in> set ((c, r) # t). call_bytes (fst y) \<noteq> None" using ih(8) by (simp add: c_def call_bytes)
      then have cb: "\<forall>y \<in> set ((c, r) # t). call_bytes (fst y) \<noteq> None" .
      have nb: "n_bytes n1 = n_bytes n" "n' = n\<lparr>n_trace := n_trace n @ (c, r) # t\<rparr>"
        using ih(5) by (simp_all add: n1_def)
      have "sent_bytes ((c, r) # t) = mem_read (n_bytes n) (p + nat a) (nat (s - a))"
        using that(1,3) ih(2,7) nb(1) less.prems(1) mem_read_split [of a "a + d" s "n_bytes n" p] by simp
      moreover have "packets_le nSeg ((c, r) # t)" using le ih(6) packets_le_Cons by blast
      moreover have "if f then \<exists>y \<in> set ((c, r) # t). call_failed y else s = nLen" using ih(4) by auto
      ultimately show ?thesis using that(1,4) ih(1-3) nb(2) cb
        by (intro exI [of _ f] exI [of _ s] exI [of _ n'] exI [of _ "(c, r) # t"]) simp
    qed
    show ?thesis
    proof (cases r)
      case (Ok v)
      note v = accepted_packet [OF env Ok [unfolded r_def c_def] kb(1), folded c_def]
      show ?thesis using step [of v] v Ok unf by simp
    next
      case (Err e)
      show ?thesis
      proof (cases "e = WSA_IO_PENDING")
        case True
        then show ?thesis using step [of k] kb(1) Err unf
          by (simp add: accepted_def c_def call_bytes)
      next
        case False
        then have "accepted (c, r) = []" "call_failed (c, r)"
          using Err call_failed_Err [OF call_bytes] by (auto simp: accepted_def c_def call_bytes)
        then show ?thesis using False Err unf le less.prems
          by (intro exI [of _ True] exI [of _ a] exI [of _ n1] exI [of _ "[(c, r)]"])
            (simp add: n1_def mem_read_def c_def call_bytes)
      qed
    qed
  qed
qed

end

section \<open>The memory of the structures in flight\<close>

text \<open>Heap blocks do not overlap, and none of them touches \<open>[lo, hi)\<close>, where the application
  keeps the message; the heap never hands out memory there.\<close>

definition blocks_apart :: "trace \<Rightarrow> bool" where
  "blocks_apart t \<longleftrightarrow>
     (\<forall>p q a b. blocks t p = Some a \<longrightarrow> blocks t q = Some b \<longrightarrow> p \<noteq> q \<longrightarrow> {p..<p + a} \<inter> {q..<q + b} = {})"

definition blocks_off :: "trace \<Rightarrow> addr \<Rightarrow> addr \<Rightarrow> bool" where
  "blocks_off t lo hi \<longleftrightarrow> (\<forall>p a. blocks t p = Some a \<longrightarrow> {p..<p + a} \<inter> {lo..<hi} = {})"

definition heap_keeps_off :: "env \<Rightarrow> addr \<Rightarrow> addr \<Rightarrow> bool" where
  "heap_keeps_off env lo hi \<longleftrightarrow>
     (\<forall>t n p. env t (HeapAlloc n) = Ok p \<longrightarrow> 0 < p \<longrightarrow> {nat p..<nat p + n} \<inter> {lo..<hi} = {}) \<and>
     (\<forall>t o' n p. env t (HeapReAlloc o' n) = Ok p \<longrightarrow> 0 < p \<longrightarrow> {nat p..<nat p + n} \<inter> {lo..<hi} = {})"

lemma heap_keeps_offD:
  "heap_keeps_off env lo hi \<Longrightarrow> env t (HeapAlloc n) = Ok v \<Longrightarrow> 0 < v \<Longrightarrow> {nat v..<nat v + n} \<inter> {lo..<hi} = {}"
  "heap_keeps_off env lo hi \<Longrightarrow> env t (HeapReAlloc q n) = Ok v \<Longrightarrow> 0 < v \<Longrightarrow>
   {nat v..<nat v + n} \<inter> {lo..<hi} = {}"
  unfolding heap_keeps_off_def by blast+

lemma disjoint_fromD2: "disjoint_from p n B \<Longrightarrow> B q = Some m \<Longrightarrow> {p..<p + n} \<inter> {q..<q + m} = {}"
  unfolding disjoint_from_def by blast

definition mem_ok :: "addr \<Rightarrow> addr \<Rightarrow> trace \<Rightarrow> bool" where
  "mem_ok lo hi t \<longleftrightarrow> blocks_apart t \<and> blocks_off t lo hi"

lemma mem_ok_block:
  assumes "mem_ok lo hi t" "disjoint_from p n ((blocks t)(q := None))" "{p..<p + n} \<inter> {lo..<hi} = {}"
    and "blocks t' = ((blocks t)(q := None))(p \<mapsto> n)"
  shows "mem_ok lo hi t'"
proof -
  have d: "blocks t r = Some b \<Longrightarrow> r \<noteq> q \<Longrightarrow> {p..<p + n} \<inter> {r..<r + b} = {}" for r b
    using disjoint_fromD2 [OF assms(2), of r b] by simp
  have B: "blocks t' r = Some b \<Longrightarrow> r \<noteq> p \<Longrightarrow> blocks t r = Some b \<and> r \<noteq> q" for r b
    using assms(4) by (auto split: if_splits)
  have P: "blocks t' p = Some n" using assms(4) by simp
  show ?thesis unfolding mem_ok_def blocks_apart_def blocks_off_def
  proof (intro conjI allI impI)
    fix r u a b assume h: "blocks t' r = Some a" "blocks t' u = Some b" "r \<noteq> u"
    consider "r = p" | "u = p" | "r \<noteq> p" "u \<noteq> p" by blast
    then show "{r..<r + a} \<inter> {u..<u + b} = {}"
    proof cases
      case 1
      then have "a = n" "blocks t u = Some b" "u \<noteq> q" using h P B by auto
      then show ?thesis using d 1 by blast
    next
      case 2
      then have "b = n" "blocks t r = Some a" "r \<noteq> q" using h P B by auto
      then show ?thesis using d 2 by blast
    next
      case 3
      then show ?thesis using h B assms(1) unfolding mem_ok_def blocks_apart_def by blast
    qed
  next
    fix r a assume h: "blocks t' r = Some a"
    show "{r..<r + a} \<inter> {lo..<hi} = {}"
    proof (cases "r = p")
      case True
      then show ?thesis using h P assms(3) by simp
    next
      case False
      then show ?thesis using B [OF h] assms(1) unfolding mem_ok_def blocks_off_def by blast
    qed
  qed
qed

lemma mem_ok_sub:
  assumes "mem_ok lo hi t" "\<And>r a. blocks t' r = Some a \<Longrightarrow> blocks t r = Some a"
  shows "mem_ok lo hi t'"
  unfolding mem_ok_def blocks_apart_def blocks_off_def
  using assms unfolding mem_ok_def blocks_apart_def blocks_off_def by blast

lemma mem_write_outside: "a \<notin> {p..<p + length bs} \<Longrightarrow> mem_write b p bs a = b a"
  by (auto simp: mem_write_def)

text \<open>What an allocation does to the memory.\<close>

definition mem_step :: "env \<Rightarrow> addr \<Rightarrow> net \<Rightarrow> net \<Rightarrow> bool" where
  "mem_step env p n n1 \<longleftrightarrow>
     (\<forall>lo hi. heap_keeps_off env lo hi \<longrightarrow> mem_ok lo hi (n_trace n) \<longrightarrow> mem_ok lo hi (n_trace n1)) \<and>
     (\<exists>t. n_trace n1 = n_trace n @ t \<and> (\<forall>x \<in> set t. call_bytes (fst x) = None) \<and>
        (p = NULL \<longrightarrow> (\<exists>x \<in> set t. call_failed x))) \<and>
     (p = NULL \<longrightarrow> n_bytes n1 = n_bytes n \<and> blocks (n_trace n1) = blocks (n_trace n)) \<and>
     (p \<noteq> NULL \<longrightarrow> (\<exists>sz. blocks (n_trace n1) p = Some sz \<and>
        (\<forall>a. a \<notin> {p..<p + sz} \<longrightarrow> n_bytes n1 a = n_bytes n a)))"

lemma io_alloc_mem:
  assumes "net_ok env n" "io_alloc env k n = (p, n1)"
  shows "mem_step env p n n1"
proof -
  define r where "r = env (n_trace n) (HeapAlloc (sizeof_PER_IO + k))"
  have p: "p = ret_ptr r" and t: "n_trace n1 = n_trace n @ [(HeapAlloc (sizeof_PER_IO + k), r)]"
    and b: "p = NULL \<Longrightarrow> n_bytes n1 = n_bytes n"
      "p \<noteq> NULL \<Longrightarrow> n_bytes n1 = mem_write (n_bytes n) p (replicate (sizeof_PER_IO + k) 0)"
    using assms(2) by (auto simp: io_alloc_def sys_def r_def Let_def split: if_splits)
  have h: "net_ok env n \<Longrightarrow> heap_env_ok env" by (simp add: net_ok_def)
  show ?thesis
  proof (cases "p = NULL")
    case True
    have "blocks (n_trace n1) = blocks (n_trace n)"
      using True p t blocks_alloc_null(1) by simp
    moreover have "call_failed (HeapAlloc (sizeof_PER_IO + k), r)" using True p by simp
    ultimately show ?thesis using True b(1) t mem_ok_sub [of _ _ "n_trace n" "n_trace n1"]
      by (auto simp: mem_step_def)
  next
    case False
    note bl = io_alloc_blocks [OF assms False]
    obtain v where v: "r = Ok v" "0 < v" "p = nat v" using False p by (cases r) auto
    have d: "disjoint_from p (sizeof_PER_IO + k) (blocks (n_trace n))"
      using h [OF assms(1)] v r_def by (auto simp: heap_env_ok_def)
    have u: "(blocks (n_trace n))(p := None) = blocks (n_trace n)" using bl(2) by auto
    have "mem_ok lo hi (n_trace n1)" if "heap_keeps_off env lo hi" "mem_ok lo hi (n_trace n)" for lo hi
    proof (rule mem_ok_block [OF that(2), of p _ p])
      show "disjoint_from p (sizeof_PER_IO + k) ((blocks (n_trace n))(p := None))" using d u by simp
      show "{p..<p + (sizeof_PER_IO + k)} \<inter> {lo..<hi} = {}"
        using heap_keeps_offD(1) [OF that(1) r_def [symmetric, unfolded v(1)] v(2)] v(3) by simp
      show "blocks (n_trace n1) = ((blocks (n_trace n))(p := None))(p \<mapsto> sizeof_PER_IO + k)"
        using bl(1) by simp
    qed
    then show ?thesis using False t bl(1) b(2) [OF False]
      by (auto simp: mem_step_def mem_write_def)
  qed
qed

lemma io_realloc_mem:
  assumes "net_ok env n" "io_realloc env q io k n = (p, n1)" "n_io n q \<noteq> None"
  shows "mem_step env p n n1"
proof -
  define r where "r = env (n_trace n) (HeapReAlloc q (sizeof_PER_IO + k))"
  define old where "old = take (sizeof_PER_IO + k) (mem_read (n_bytes n) q (sizeof_PER_IO + nat (io_nLen io)) @
      replicate (sizeof_PER_IO + k) 0)"
  have l: "length old = sizeof_PER_IO + k" by (simp add: old_def)
  have p: "p = ret_ptr r" and t: "n_trace n1 = n_trace n @ [(HeapReAlloc q (sizeof_PER_IO + k), r)]"
    and b: "p = NULL \<Longrightarrow> n_bytes n1 = n_bytes n" "p \<noteq> NULL \<Longrightarrow> n_bytes n1 = mem_write (n_bytes n) p old"
    using assms(2) by (auto simp: io_realloc_def sys_def r_def old_def Let_def split: if_splits)
  show ?thesis
  proof (cases "p = NULL")
    case True
    have "blocks (n_trace n1) = blocks (n_trace n)"
      using True p t blocks_alloc_null(2) by simp
    moreover have "call_failed (HeapReAlloc q (sizeof_PER_IO + k), r)" using True p by simp
    ultimately show ?thesis using True b(1) t mem_ok_sub [of _ _ "n_trace n" "n_trace n1"]
      by (auto simp: mem_step_def)
  next
    case False
    note bl = io_realloc_blocks(1) [OF assms(1,2) False assms(3)]
    obtain v where v: "r = Ok v" "0 < v" "p = nat v" using False p by (cases r) auto
    have d: "disjoint_from p (sizeof_PER_IO + k) ((blocks (n_trace n))(q := None))"
      using assms(1) v r_def by (auto simp: net_ok_def heap_env_ok_def)
    have "mem_ok lo hi (n_trace n1)" if "heap_keeps_off env lo hi" "mem_ok lo hi (n_trace n)" for lo hi
    proof (rule mem_ok_block [OF that(2) d _ bl])
      show "{p..<p + (sizeof_PER_IO + k)} \<inter> {lo..<hi} = {}"
        using heap_keeps_offD(2) [OF that(1) r_def [symmetric, unfolded v(1)] v(2)] v(3) by simp
    qed
    then show ?thesis using False t bl b(2) [OF False] l
      by (auto simp: mem_step_def mem_write_def)
  qed
qed

lemma mem_step_put_io [simp]: "mem_step env p n (put_io q io n1) = mem_step env p n n1"
  by (simp add: mem_step_def)

lemma snd_pop_mem:
  assumes "snd_ok env s" "CSocketSendPool_pop env k s = Inr (p, s')"
  shows "mem_step env p (snd s) (snd s')"
proof -
  obtain pl n where s: "s = (pl, n)" by (cases s)
  have nok: "net_ok env n" using assms(1) s by (simp add: snd_ok_def)
  show ?thesis
  proof (cases "snd_objFreeList pl")
    case Nil
    obtain a n1 where al: "io_alloc env (unat k) n = (a, n1)" by fastforce
    have "p = a" "\<exists>io. snd s' = n1 \<or> snd s' = put_io a io n1"
      using assms(2) s Nil al by (auto simp: CSocketSendPool_pop_def split: if_splits)
    then show ?thesis using io_alloc_mem [OF nok al] s by auto
  next
    case (Cons h rest)
    have live: "n_io n h \<noteq> None" using assms(1) s Cons by (auto simp: snd_ok_def io_live_def)
    then obtain io where io: "n_io n h = Some io" by auto
    have h0: "h \<noteq> NULL" "blocks (n_trace n) h \<noteq> None" using nok live by (auto simp: net_ok_def)
    have g: "get_io h n = Inr io" using io h0 by (simp add: get_io_def)
    show ?thesis
    proof (cases "0 < k \<and> to_u32 (io_nLen io) < k")
      case True
      obtain a n1 where al: "io_realloc env h io (unat k) n = (a, n1)" by fastforce
      have "p = a" "\<exists>io. snd s' = n1 \<or> snd s' = put_io a io n1"
        using assms(2) s Cons al g True by (auto simp: CSocketSendPool_pop_def Let_def split: if_splits)
      then show ?thesis using io_realloc_mem [OF nok al live] s by auto
    next
      case False
      then have "p = h" "snd s' = n"
        using assms(2) s Cons g by (auto simp: CSocketSendPool_pop_def Let_def split: if_splits)
      then show ?thesis using h0 s by (auto simp: mem_step_def)
    qed
  qed
qed

lemma snd_pop_io:
  assumes "snd_ok env s" "CSocketSendPool_pop env k s = Inr (p, s')"
    and "q \<notin> set (snd_objFreeList (fst s))" "n_io (snd s) q \<noteq> None"
  shows "q \<noteq> p \<and> n_io (snd s') q = n_io (snd s) q \<and> q \<notin> set (snd_objFreeList (fst s'))"
  using assms(1,2) by (cases rule: snd_pop_cases) (use assms(1,3,4) in \<open>auto simp: snd_ok_def net_ok_def\<close>)

lemma snd_pop_taken:
  assumes "snd_ok env s" "CSocketSendPool_pop env k s = Inr (p, s')" "p \<noteq> NULL"
  shows "p \<notin> set (snd_objFreeList (fst s')) \<and> n_io (snd s') p \<noteq> None"
  using sndp.pop_taken [OF assms] sndp.pop_live [OF assms] by (simp add: io_live_def)

text \<open>A packet in flight: the structure owns its buffer, and the buffer still holds it.\<close>

definition in_flight :: "net \<Rightarrow> addr \<times> byte list \<Rightarrow> bool" where
  "in_flight n x \<longleftrightarrow> own_buffer n (fst x) \<and>
     (\<exists>io. n_io n (fst x) = Some io \<and> int (length (snd x)) \<le> io_nLen io \<and>
        mem_read (n_bytes n) (io_szBuffer io) (length (snd x)) = snd x)"

lemma in_flight_step:
  assumes fl: "in_flight n x" and own: "own_buffer n' (fst x)" and io: "n_io n' (fst x) = n_io n (fst x)"
    and apart: "blocks_apart (n_trace n')" and p: "blocks (n_trace n') p = Some sz" "fst x \<noteq> p"
    and bytes: "\<And>a. a \<notin> {p..<p + sz} \<Longrightarrow> n_bytes n' a = n_bytes n a"
  shows "in_flight n' x"
proof -
  obtain q bs where x: "x = (q, bs)" by (cases x)
  obtain i where i: "n_io n q = Some i" "int (length bs) \<le> io_nLen i"
      "mem_read (n_bytes n) (io_szBuffer i) (length bs) = bs"
    using fl x by (auto simp: in_flight_def)
  obtain sq where b: "blocks (n_trace n') q = Some sq" "sizeof_PER_IO + nat (io_nLen i) \<le> sq"
      "io_szBuffer i = q + sizeof_PER_IO"
    using own io i(1) x by (auto simp: own_buffer_def)
  have "{q..<q + sq} \<inter> {p..<p + sz} = {}" using apart b(1) p x unfolding blocks_apart_def by fastforce
  then have "mem_read (n_bytes n') (io_szBuffer i) (length bs) = mem_read (n_bytes n) (io_szBuffer i) (length bs)"
    using b i(2) by (intro mem_read_cong bytes) (auto simp: disjoint_iff)
  then show ?thesis using own io i x by (simp add: in_flight_def)
qed

definition io_inv :: "bool \<Rightarrow> env \<Rightarrow> addr \<Rightarrow> addr \<Rightarrow> (addr \<times> byte list) list \<Rightarrow> snd_state \<Rightarrow> bool" where
  "io_inv need env lo hi F s \<longleftrightarrow>
     snd_ok env s \<and> mem_ok lo hi (n_trace (snd s)) \<and> distinct (map fst F) \<and>
     (\<forall>x \<in> set F. fst x \<notin> set (snd_objFreeList (fst s)) \<and> n_io (snd s) (fst x) \<noteq> None) \<and>
     (need \<longrightarrow> snd_bufs_ok env s \<and> (\<forall>x \<in> set F. in_flight (snd s) x))"

lemma io_inv_pop:
  assumes inv: "io_inv need env lo hi F s" and keep: "heap_keeps_off env lo hi"
    and pop: "CSocketSendPool_pop env k s = Inr (p, s')" and k: "need \<Longrightarrow> 0 < unat k \<and> unat k < 2 ^ 31"
  shows "io_inv need env lo hi F s'" "p \<notin> fst ` set F"
    "\<And>a. a \<in> {lo..<hi} \<Longrightarrow> n_bytes (snd s') a = n_bytes (snd s) a"
proof -
  have ok: "snd_ok env s" and m: "mem_ok lo hi (n_trace (snd s))" using inv by (auto simp: io_inv_def)
  note ms = snd_pop_mem [OF ok pop]
  have m': "mem_ok lo hi (n_trace (snd s'))" using ms m keep unfolding mem_step_def by blast
  have F: "fst x \<noteq> p \<and> n_io (snd s') (fst x) = n_io (snd s) (fst x) \<and>
      fst x \<notin> set (snd_objFreeList (fst s'))" if "x \<in> set F" for x
    using snd_pop_io [OF ok pop] inv that by (auto simp: io_inv_def)
  show "p \<notin> fst ` set F" using F by auto
  have fl: "in_flight (snd s') x" if "x \<in> set F" need for x
  proof -
    have fx: "in_flight (snd s) x" "snd_bufs_ok env s" "fst x \<notin> set (snd_objFreeList (fst s))"
      using inv that by (auto simp: io_inv_def)
    have "own_buffer (snd s') (fst x)"
      using snd_pop_buffer(3) [OF fx(2) pop] k [OF that(2)] fx(1,3) by (simp add: in_flight_def)
    note st = in_flight_step [OF fx(1) this]
    show ?thesis
    proof (cases "p = NULL")
      case True
      then have "n_bytes (snd s') = n_bytes (snd s)" using ms by (simp add: mem_step_def)
      then show ?thesis using fx(1) \<open>own_buffer (snd s') (fst x)\<close> F [OF that(1)] by (simp add: in_flight_def)
    next
      case False
      then obtain sz where "blocks (n_trace (snd s')) p = Some sz"
          "\<And>a. a \<notin> {p..<p + sz} \<Longrightarrow> n_bytes (snd s') a = n_bytes (snd s) a"
        using ms by (auto simp: mem_step_def)
      with F [OF that(1)] m' show ?thesis by (intro st) (auto simp: mem_ok_def)
    qed
  qed
  have "snd_ok env s'" by (rule sndp.pop_ok [OF ok pop])
  moreover have "need \<Longrightarrow> snd_bufs_ok env s'"
    using snd_pop_buffer(1) [OF _ pop] k inv by (simp add: io_inv_def)
  ultimately show "io_inv need env lo hi F s'"
    using m' F fl inv by (auto simp: io_inv_def)
  fix a assume a: "a \<in> {lo..<hi}"
  show "n_bytes (snd s') a = n_bytes (snd s) a"
  proof (cases "p = NULL")
    case True
    then show ?thesis using ms by (simp add: mem_step_def)
  next
    case False
    then obtain sz where b: "blocks (n_trace (snd s')) p = Some sz"
        "\<And>a. a \<notin> {p..<p + sz} \<Longrightarrow> n_bytes (snd s') a = n_bytes (snd s) a"
      using ms by (auto simp: mem_step_def)
    have "{p..<p + sz} \<inter> {lo..<hi} = {}" using m' b(1) unfolding mem_ok_def blocks_off_def by blast
    then show ?thesis using b(2) a by blast
  qed
qed

lemma snd_pop_sess:
  assumes "snd_ok env s" "CSocketSendPool_pop env k s = Inr (p, s')"
  shows "n_sess (snd s') = n_sess (snd s)"
proof -
  obtain pl n where s: "s = (pl, n)" by (cases s)
  have nok: "net_ok env n" using assms(1) s by (simp add: snd_ok_def)
  show ?thesis
  proof (cases "snd_objFreeList pl")
    case Nil
    obtain a n1 where al: "io_alloc env (unat k) n = (a, n1)" by fastforce
    have "n_sess n1 = n_sess n" by (rule io_alloc_spec(2) [OF nok al])
    then show ?thesis using assms(2) s Nil al
      by (auto simp: CSocketSendPool_pop_def split: if_splits)
  next
    case (Cons h rest)
    then have live: "n_io n h \<noteq> None" using assms(1) s by (auto simp: snd_ok_def io_live_def)
    obtain io where io: "get_io h n = Inr io" using live nok by (auto simp: get_io_def net_ok_def)
    obtain a n1 where al: "io_realloc env h io (unat k) n = (a, n1)" by fastforce
    have "n_sess n1 = n_sess n" by (rule io_realloc_spec(2) [OF nok al live])
    then show ?thesis using assms(2) s Cons al io
      by (auto simp: CSocketSendPool_pop_def Let_def split: if_splits)
  qed
qed

lemma snd_push_sess:
  assumes "snd_ok env s" "CSocketSendPool_push env p s = Inr s'"
  shows "n_sess (snd s') = n_sess (snd s)"
  using assms(2)
proof (cases rule: snd_push_cases)
  case freed
  then show ?thesis using io_free_spec(3) [of env "snd s"] assms(1) by (simp add: snd_ok_def)
qed simp

text \<open>A packet is prepared: its bytes are in the buffer that the call is given.\<close>

lemma iocp_prepare_spec:
  assumes inv: "io_inv need env lo hi F s" and keep: "heap_keeps_off env lo hi"
    and k: "0 < k" "k < 2 ^ 31" and src: "lo \<le> p + nat a" "p + nat a + nat k \<le> hi"
  shows "\<exists>x s' t. iocp_prepare env need p a k s = Inr (x, s') \<and>
      n_trace (snd s') = n_trace (snd s) @ t \<and> (\<forall>y \<in> set t. call_bytes (fst y) = None) \<and>
      n_sess (snd s') = n_sess (snd s) \<and>
      (\<forall>b \<in> {lo..<hi}. n_bytes (snd s') b = n_bytes (snd s) b) \<and>
      (case x of None \<Rightarrow> io_inv need env lo hi F s' \<and> (\<exists>y \<in> set t. call_failed y)
       | Some (q, wbuf) \<Rightarrow>
           io_inv need env lo hi (F @ [(q, mem_read (n_bytes (snd s)) (p + nat a) (nat k))]) s' \<and>
           mem_read (n_bytes (snd s')) wbuf (nat k) = mem_read (n_bytes (snd s)) (p + nat a) (nat k))"
proof -
  define kk where "kk = (if need then to_u32 k else 0)"
  have uk: "unat (to_u32 k) = nat k" using k by (intro unat_to_u32) auto
  have ok: "snd_ok env s" using inv by (simp add: io_inv_def)
  obtain q s1 where pop: "CSocketSendPool_pop env kk s = Inr (q, s1)"
    using sndp.pop_total [OF ok, of kk] by auto
  have kn: "need \<Longrightarrow> 0 < unat kk \<and> unat kk < 2 ^ 31" using uk k by (simp add: kk_def nat_less_iff)
  note ip = io_inv_pop [OF inv keep pop kn] and ss = snd_pop_sess [OF ok pop]
  obtain t where t: "n_trace (snd s1) = n_trace (snd s) @ t" "\<forall>y \<in> set t. call_bytes (fst y) = None"
      "q = NULL \<longrightarrow> (\<exists>y \<in> set t. call_failed y)"
    using snd_pop_mem [OF ok pop] unfolding mem_step_def by blast
  have rd: "mem_read (n_bytes (snd s1)) (p + nat a) (nat k) = mem_read (n_bytes (snd s)) (p + nat a) (nat k)"
    using src by (intro mem_read_cong ip(3)) auto
  show ?thesis
  proof (cases "q = NULL")
    case True
    then have "iocp_prepare env need p a k s = Inr (None, s1)"
      using pop by (cases s1) (simp add: iocp_prepare_def kk_def)
    then show ?thesis using t ip ss True by (intro exI [of _ None] exI [of _ s1] exI [of _ t]) simp
  next
    case q: False
    note tk = snd_pop_taken [OF ok pop q]
    obtain io where io: "n_io (snd s1) q = Some io" using tk by auto
    have g: "get_io q (snd s1) = Inr io" using io q by (simp add: get_io_def)
    obtain sz where sz: "blocks (n_trace (snd s1)) q = Some sz"
      using snd_pop_mem [OF ok pop] q by (auto simp: mem_step_def)
    have m1: "mem_ok lo hi (n_trace (snd s1))" using ip(1) by (simp add: io_inv_def)
    have F1: "\<forall>x \<in> set F. fst x \<noteq> q \<and> fst x \<notin> set (snd_objFreeList (fst s1)) \<and> n_io (snd s1) (fst x) \<noteq> None"
      using ip(1,2) by (auto simp: io_inv_def)
    show ?thesis
    proof (cases need)
      case False
      define s2 where "s2 = (fst s1, put_io q (io\<lparr>io_szBuffer := p + nat a, io_OperType := SEND_POSTED\<rparr>) (snd s1))"
      have e: "iocp_prepare env need p a k s = Inr (Some (q, p + nat a), s2)"
        using pop q g False by (cases s1) (simp add: iocp_prepare_def kk_def s2_def Let_def)
      have "snd_ok env s2" using ip(1) tk io
        by (auto simp: io_inv_def snd_ok_def s2_def io_live_def intro: net_ok_put_io)
      then have "io_inv need env lo hi (F @ [(q, mem_read (n_bytes (snd s)) (p + nat a) (nat k))]) s2"
        using F1 ip(1,2) tk False by (auto simp: io_inv_def s2_def)
      then show ?thesis using e t(1,2) ip(3) rd ss
        by (intro exI [of _ "Some (q, p + nat a)"] exI [of _ s2] exI [of _ t]) (simp add: s2_def)
    next
      case True
      have sb: "snd_bufs_ok env s" using inv True by (simp add: io_inv_def)
      have ob: "own_buffer (snd s1) q" "int (unat kk) \<le> io_nLen io"
        using snd_pop_buffer(2) [OF sb pop _ _ q] kn [OF True] io by auto
      have kio: "k \<le> io_nLen io" using ob(2) uk True k by (simp add: kk_def del: of_nat_unat)
      have buf: "io_szBuffer io = q + sizeof_PER_IO" "sizeof_PER_IO + nat (io_nLen io) \<le> sz"
        using ob(1) io sz by (auto simp: own_buffer_def)
      define bs where "bs = mem_read (n_bytes (snd s1)) (p + nat a) (nat k)"
      define n2 where "n2 = (snd s1)\<lparr>n_bytes := mem_write (n_bytes (snd s1)) (io_szBuffer io) bs\<rparr>"
      define s2 where "s2 = (fst s1, put_io q (io\<lparr>io_OperType := SEND_POSTED\<rparr>) n2)"
      have lb: "length bs = nat k" by (simp add: bs_def)
      have e: "iocp_prepare env need p a k s = Inr (Some (q, io_szBuffer io), s2)"
        using pop q g True buf(1) uk
        by (cases s1) (simp add: iocp_prepare_def kk_def s2_def n2_def bs_def Let_def sizeof_PER_IO_def)
      have out: "n_bytes (snd s2) b = n_bytes (snd s1) b" if "b \<notin> {q..<q + sz}" for b
        using that lb buf kio k by (auto simp: s2_def n2_def mem_write_def)
      have fields: "n_trace (snd s2) = n_trace (snd s1)" "n_sess (snd s2) = n_sess (snd s1)"
        "n_io (snd s2) = (n_io (snd s1))(q \<mapsto> io\<lparr>io_OperType := SEND_POSTED\<rparr>)" "fst s2 = fst s1"
        by (simp_all add: s2_def n2_def)
      have own: "own_buffer (snd s2) r" if "own_buffer (snd s1) r" for r
        using that io fields by (cases "r = q") (auto simp: own_buffer_def)
      have "net_ok env (snd s1)" using ip(1) by (simp add: io_inv_def snd_ok_def)
      then have "net_ok env (snd s2)" using io net_ok_excl(1) [of env "snd s1" q]
        by (auto simp: net_ok_def fields)
      then have sb2: "snd_bufs_ok env s2" using ip(1) True own fields
        by (auto simp: io_inv_def snd_bufs_ok_def snd_ok_def io_live_def)
      have fl: "in_flight (snd s2) x" if "x \<in> set F" for x
      proof (rule in_flight_step [of "snd s1" x _ q sz])
        show "in_flight (snd s1) x" using ip(1) that True by (simp add: io_inv_def)
        then show "own_buffer (snd s2) (fst x)" using own by (simp add: in_flight_def)
        show "n_io (snd s2) (fst x) = n_io (snd s1) (fst x)" "fst x \<noteq> q" using F1 that fields by auto
        show "blocks_apart (n_trace (snd s2))" "blocks (n_trace (snd s2)) q = Some sz"
          using m1 fields sz by (simp_all add: mem_ok_def)
      qed (rule out)
      have new: "mem_read (n_bytes (snd s2)) (io_szBuffer io) (nat k) = bs"
        using mem_read_write_same [of "n_bytes (snd s1)" "io_szBuffer io" bs] lb by (simp add: s2_def n2_def)
      then have "in_flight (snd s2) (q, bs)"
        using own [OF ob(1)] kio k lb fields by (simp add: in_flight_def)
      then have "io_inv need env lo hi (F @ [(q, bs)]) s2"
        using F1 ip(1,2) tk sb2 fl m1 fields by (auto simp: io_inv_def snd_bufs_ok_def)
      moreover have "\<forall>b \<in> {lo..<hi}. n_bytes (snd s2) b = n_bytes (snd s) b"
      proof
        fix b assume b: "b \<in> {lo..<hi}"
        have "{q..<q + sz} \<inter> {lo..<hi} = {}" using m1 sz unfolding mem_ok_def blocks_off_def by blast
        then show "n_bytes (snd s2) b = n_bytes (snd s) b" using out ip(3) b by (metis disjoint_iff)
      qed
      ultimately show ?thesis using e t(1,2) new rd fields(1,2) ss
        by (intro exI [of _ "Some (q, io_szBuffer io)"] exI [of _ s2] exI [of _ t]) (simp add: bs_def)
    qed
  qed
qed

text \<open>The structure of a failed call goes back.\<close>

lemma io_inv_push:
  assumes inv: "io_inv need env lo hi (F @ [(q, bs)]) s"
  shows "\<exists>s' t. CSocketSendPool_push env q s = Inr s' \<and> io_inv need env lo hi F s' \<and>
    n_bytes (snd s') = n_bytes (snd s) \<and> n_sess (snd s') = n_sess (snd s) \<and>
    n_trace (snd s') = n_trace (snd s) @ t \<and> (\<forall>y \<in> set t. call_bytes (fst y) = None)"
proof -
  have q: "n_io (snd s) q \<noteq> None" "q \<notin> set (snd_objFreeList (fst s))" "q \<notin> fst ` set F"
    and ok: "snd_ok env s" and m: "mem_ok lo hi (n_trace (snd s))"
    using inv by (auto simp: io_inv_def)
  obtain pl n where s: "s = (pl, n)" by (cases s)
  show ?thesis
  proof (cases "length (snd_objFreeList pl) < unat (snd_nMaxCount pl)")
    case True
    define s' where "s' = (pl\<lparr>snd_objFreeList := snd_objFreeList pl @ [q]\<rparr>, n)"
    have "CSocketSendPool_push env q s = Inr s'" using True s by (simp add: CSocketSendPool_push_def s'_def)
    moreover have "io_inv need env lo hi F s'"
      using inv q s by (auto simp: io_inv_def s'_def snd_ok_def io_live_def snd_bufs_ok_def in_flight_def)
    ultimately show ?thesis using s by (intro exI [of _ s'] exI [of _ "[]"]) (simp add: s'_def)
  next
    case False
    obtain n' where n': "io_free env q n = Inr n'" using q(1) s by (auto simp: io_free_def split: option.splits)
    define s' where "s' = (pl, n')"
    have e: "CSocketSendPool_push env q s = Inr s'" using False s n' by (simp add: CSocketSendPool_push_def s'_def)
    have nok: "net_ok env n" using ok s by (simp add: snd_ok_def)
    note fr = io_free_spec [OF nok n']
    have f: "n_bytes n' = n_bytes n" "n_trace n' = n_trace n @ [(HeapFree q, env (n_trace n) (HeapFree q))]"
      using n' by (auto simp: io_free_def sys_def split: option.splits)
    have B: "blocks (n_trace n') = (blocks (n_trace n))(q := None)" using f(2) by (simp add: blocks_snoc)
    have m': "mem_ok lo hi (n_trace n')"
    proof (rule mem_ok_sub)
      show "mem_ok lo hi (n_trace n)" using m s by simp
      show "blocks (n_trace n') r = Some a \<Longrightarrow> blocks (n_trace n) r = Some a" for r a
        unfolding B by (cases "r = q") simp_all
    qed
    have own: "own_buffer n r \<Longrightarrow> r \<noteq> q \<Longrightarrow> own_buffer n' r" for r
      using fr(2) B by (auto intro: own_buffer_cong)
    have ok': "snd_ok env s'"
      using ok q s fr by (auto simp: snd_ok_def io_live_def s'_def)
    have fl: "in_flight n' x" if "in_flight n x" "fst x \<noteq> q" for x
      using that own [of "fst x"] fr(2) f(1) by (auto simp: in_flight_def)
    have ne: "x \<in> set F \<Longrightarrow> fst x \<noteq> q" for x using q(3) by auto
    have F: "\<forall>x \<in> set F. fst x \<notin> set (snd_objFreeList (fst s')) \<and> n_io (snd s') (fst x) \<noteq> None"
      using inv s fr(2) ne by (simp add: io_inv_def s'_def)
    have "snd_bufs_ok env s' \<and> (\<forall>x \<in> set F. in_flight (snd s') x)" if need
    proof
      have *: "snd_bufs_ok env s" "\<forall>x \<in> set F. in_flight n x" using inv that s by (simp_all add: io_inv_def)
      have "\<forall>p \<in> set (snd_objFreeList pl). own_buffer n' p"
        using *(1) q(2) s own unfolding snd_bufs_ok_def by (metis fst_conv snd_conv)
      then show "snd_bufs_ok env s'" using ok' by (simp add: snd_bufs_ok_def s'_def)
      show "\<forall>x \<in> set F. in_flight (snd s') x" using *(2) fl ne by (simp add: s'_def)
    qed
    then have "io_inv need env lo hi F s'"
      using ok' m' F inv by (simp add: io_inv_def s'_def)
    then show ?thesis using e f s fr(3)
      by (intro exI [of _ s'] exI [of _ "[(HeapFree q, env (n_trace n) (HeapFree q))]"]) (simp add: s'_def)
  qed
qed

lemma no_sends:
  "\<forall>y \<in> set t. call_bytes (fst y) = None \<Longrightarrow>
   sent_bytes t = [] \<and> posted_packets t = [] \<and> packets_le k t"
  by (induction t) (auto simp: accepted_def posted_def packets_le_def)

lemma blocks_send_call: "call_bytes c = Some bs \<Longrightarrow> blocks (t @ [(c, r)]) = blocks t"
  by (cases c) (simp_all add: blocks_snoc)

lemma io_inv_call:
  assumes "call_bytes c = Some bs" "io_inv need env lo hi F (pl, n)"
  shows "io_inv need env lo hi F (pl, n\<lparr>n_trace := n_trace n @ [(c, r)]\<rparr>)"
proof -
  let ?n = "n\<lparr>n_trace := n_trace n @ [(c, r)]\<rparr>"
  have B: "blocks (n_trace ?n) = blocks (n_trace n)" using blocks_send_call [OF assms(1)] by simp
  have own: "own_buffer n q \<Longrightarrow> own_buffer ?n q" for q using B by (auto intro: own_buffer_cong)
  have "net_ok env n \<Longrightarrow> net_ok env ?n" using B by (auto intro: net_ok_trace)
  then have ok: "snd_ok env (pl, n) \<Longrightarrow> snd_ok env (pl, ?n)" by (auto simp: snd_ok_def io_live_def)
  then have "snd_bufs_ok env (pl, n) \<Longrightarrow> snd_bufs_ok env (pl, ?n)" using own by (auto simp: snd_bufs_ok_def)
  moreover have "in_flight n x \<Longrightarrow> in_flight ?n x" for x using own by (auto simp: in_flight_def)
  moreover have "mem_ok lo hi (n_trace n) \<Longrightarrow> mem_ok lo hi (n_trace ?n)"
    using B by (auto simp: mem_ok_def blocks_apart_def blocks_off_def)
  ultimately show ?thesis using ok assms(2) unfolding io_inv_def by simp
qed

context send_call
begin

lemma accepted_posted:
  "posted (call bs ov, Ok v) = [(ov, bs)]"
  "posted (call bs ov, Err e) = (if e = WSA_IO_PENDING then [(ov, bs)] else [])"
  by (simp_all add: posted_def call_bytes call_ov)

text \<open>The completion port loop ends; what was accepted is a prefix, and every packet that was
  posted is in a structure of its own whose buffer still holds it.\<close>

lemma send_iocp_total:
  assumes env: "send_env_ok env" and keep: "heap_keeps_off env lo hi" and seg: "0 < nSeg"
    and len: "nLen < 2 ^ 31" and reg: "lo \<le> p" "p + nat nLen \<le> hi"
  shows "0 \<le> a \<Longrightarrow> a \<le> nLen \<Longrightarrow> io_inv need env lo hi F s \<Longrightarrow>
    \<exists>f r s' t. send_iocp env call need p nLen nSeg a s = Some (Inr (f, r, s')) \<and> a \<le> r \<and> r \<le> nLen \<and>
      (f \<or> r < nLen \<longrightarrow> (\<exists>y \<in> set t. call_failed y)) \<and> n_sess (snd s') = n_sess (snd s) \<and>
      n_trace (snd s') = n_trace (snd s) @ t \<and>
      sent_bytes t = mem_read (n_bytes (snd s)) (p + nat a) (nat (r - a)) \<and> packets_le nSeg t \<and>
      (\<forall>b \<in> {lo..<hi}. n_bytes (snd s') b = n_bytes (snd s) b) \<and>
      io_inv need env lo hi (F @ posted_packets t) s'"
proof (induction "nat (nLen - a)" arbitrary: a s F rule: less_induct)
  case less
  show ?case
  proof (cases "a < nLen")
    case False
    then have "send_iocp env call need p nLen nSeg a s = Some (Inr (False, a, s))"
      by (subst send_iocp.simps) simp
    then show ?thesis using False less.prems
      by (intro exI [of _ False] exI [of _ a] exI [of _ s] exI [of _ "[]"]) (simp add: mem_read_def)
  next
    case True
    define k where "k = nPacketSize nLen a nSeg"
    note kb = nPacketSize_bounds [OF seg True less.prems(1) len, folded k_def]
    have "p + nat a + nat k \<le> hi" using kb(1,3) less.prems(1) reg(2) by linarith
    from iocp_prepare_spec [OF less.prems(3) keep kb(1,5) _ this] reg(1)
    obtain x s1 t0 where prep: "iocp_prepare env need p a k s = Inr (x, s1)"
        "n_trace (snd s1) = n_trace (snd s) @ t0" "\<forall>y \<in> set t0. call_bytes (fst y) = None"
        "\<forall>b \<in> {lo..<hi}. n_bytes (snd s1) b = n_bytes (snd s) b"
        "case x of None \<Rightarrow> io_inv need env lo hi F s1 \<and> (\<exists>y \<in> set t0. call_failed y)
         | Some (q, wbuf) \<Rightarrow>
           io_inv need env lo hi (F @ [(q, mem_read (n_bytes (snd s)) (p + nat a) (nat k))]) s1 \<and>
           mem_read (n_bytes (snd s1)) wbuf (nat k) = mem_read (n_bytes (snd s)) (p + nat a) (nat k)"
        "n_sess (snd s1) = n_sess (snd s)"
      by auto
    note t0 = no_sends [OF prep(3)]
    show ?thesis
    proof (cases x)
      case None
      then have "send_iocp env call need p nLen nSeg a s = Some (Inr (False, a, s1))"
        using True prep(1) by (subst send_iocp.simps) (simp add: k_def [symmetric])
      then show ?thesis using None prep t0 less.prems
        by (intro exI [of _ False] exI [of _ a] exI [of _ s1] exI [of _ t0]) (simp add: mem_read_def)
    next
      case (Some y)
      obtain q wbuf where y: "y = (q, wbuf)" by (cases y)
      obtain pl n where s1: "s1 = (pl, n)" by (cases s1)
      define bs where "bs = mem_read (n_bytes (snd s)) (p + nat a) (nat k)"
      have wb: "mem_read (n_bytes n) wbuf (nat k) = bs" using prep(5) Some y s1 by (simp add: bs_def)
      have inv1: "io_inv need env lo hi (F @ [(q, bs)]) (pl, n)" using prep(5) Some y s1 by (simp add: bs_def)
      define c where "c = call bs q"
      define r where "r = env (n_trace n) c"
      define n1 where "n1 = n\<lparr>n_trace := n_trace n @ [(c, r)]\<rparr>"
      have cb: "call_bytes c = Some bs" by (simp add: c_def call_bytes)
      note inv2 = io_inv_call [OF cb inv1, of r, folded n1_def]
      have unf: "send_iocp env call need p nLen nSeg a s =
          (case r of Ok v \<Rightarrow> send_iocp env call need p nLen nSeg (a + v) (pl, n1)
           | Err e \<Rightarrow> if e \<noteq> WSA_IO_PENDING
               then (case CSocketSendPool_push env q (pl, n1) of Inl e \<Rightarrow> Some (Inl e)
                     | Inr s2 \<Rightarrow> Some (Inr (True, a, s2)))
               else send_iocp env call need p nLen nSeg (a + k) (pl, n1))"
        using True prep(1) Some y s1 kb(4) wb
        by (subst send_iocp.simps)
          (simp add: k_def [symmetric] Let_def c_def [symmetric] sys_def r_def n1_def
            cong: if_cong api_ret.case_cong)
      have tr: "n_trace n1 = n_trace (snd s) @ t0 @ [(c, r)]" using prep(2) s1 by (simp add: n1_def)
      have byt: "\<forall>b \<in> {lo..<hi}. n_bytes n1 b = n_bytes (snd s) b" using prep(4) s1 by (simp add: n1_def)
      have le: "packets_le nSeg (t0 @ [(c, r)])"
        using kb(1,2) t0 by (auto simp: packets_le_def cb bs_def)
      have step: ?thesis
        if d: "0 < d" "d \<le> k" "accepted (c, r) = mem_read (n_bytes (snd s)) (p + nat a) (nat d)"
          "posted (c, r) = [(q, bs)]"
          "send_iocp env call need p nLen nSeg a s = send_iocp env call need p nLen nSeg (a + d) (pl, n1)" for d
      proof -
        have "nat (nLen - (a + d)) < nat (nLen - a)" "0 \<le> a + d" "a + d \<le> nLen"
          using d(1,2) True less.prems kb(3) by auto
        from less.hyps [OF this, OF inv2] obtain f u s' t where
          ih: "send_iocp env call need p nLen nSeg (a + d) (pl, n1) = Some (Inr (f, u, s'))" "a + d \<le> u"
            "u \<le> nLen" "f \<or> u < nLen \<longrightarrow> (\<exists>y \<in> set t. call_failed y)"
            "n_sess (snd s') = n_sess n1" "n_trace (snd s') = n_trace n1 @ t"
            "sent_bytes t = mem_read (n_bytes n1) (p + nat (a + d)) (nat (u - (a + d)))" "packets_le nSeg t"
            "\<forall>b \<in> {lo..<hi}. n_bytes (snd s') b = n_bytes n1 b"
            "io_inv need env lo hi ((F @ [(q, bs)]) @ posted_packets t) s'"
          unfolding snd_conv by blast
        have "p + nat (a + d) + nat (u - (a + d)) \<le> hi" using ih(2,3) less.prems(1) d(1) reg(2) by linarith
        then have "sent_bytes t = mem_read (n_bytes (snd s)) (p + nat (a + d)) (nat (u - (a + d)))"
          unfolding ih(7) using byt reg(1) by (intro mem_read_cong) auto
        then have sb: "sent_bytes (t0 @ (c, r) # t) = mem_read (n_bytes (snd s)) (p + nat a) (nat (u - a))"
          using t0 d(1,3) ih(2) less.prems(1) mem_read_split [of a "a + d" u "n_bytes (snd s)" p] by simp
        have pp: "posted_packets (t0 @ (c, r) # t) = (q, bs) # posted_packets t"
          using t0 d(4) by simp
        have pl: "packets_le nSeg (t0 @ (c, r) # t)" using le ih(8) packets_le_Cons [of _ "(c, r)" t] by simp
        have byt': "\<forall>b \<in> {lo..<hi}. n_bytes (snd s') b = n_bytes (snd s) b" using ih(9) byt by simp
        have tr': "n_trace (snd s') = n_trace (snd s) @ t0 @ (c, r) # t" using ih(6) tr by simp
        have fin: "f \<or> u < nLen \<longrightarrow> (\<exists>y \<in> set (t0 @ (c, r) # t). call_failed y)" using ih(4) by auto
        have sess: "n_sess (snd s') = n_sess (snd s)" using ih(5) prep(6) s1 by (simp add: n1_def)
        have "a \<le> u" using ih(2) d(1) by simp
        moreover have "io_inv need env lo hi (F @ posted_packets (t0 @ (c, r) # t)) s'"
          using ih(10) unfolding pp by simp
        ultimately show ?thesis using d(5) ih(1,3) sb pl byt' tr' fin sess by metis
      qed
      show ?thesis
      proof (cases r)
        case (Ok v)
        have "env (n_trace n) (call (mem_read (n_bytes (snd s)) (p + nat a) (nat k)) q) = Ok v"
          using Ok by (simp add: r_def c_def bs_def)
        note v = accepted_packet [OF env this kb(1), folded bs_def, folded c_def]
        show ?thesis using step [of v] v Ok unf accepted_posted(1) by (simp add: c_def)
      next
        case (Err e)
        show ?thesis
        proof (cases "e = WSA_IO_PENDING")
          case True
          then show ?thesis using step [of k] kb(1) Err unf cb accepted_posted(2)
            by (simp add: accepted_def c_def) (simp add: bs_def)
        next
          case False
          then have no: "accepted (c, r) = []" "posted (c, r) = []" "call_failed (c, r)"
            using Err cb call_failed_Err by (auto simp: accepted_def posted_def)
          from io_inv_push [OF inv2] obtain s2 t2 where
            s2: "CSocketSendPool_push env q (pl, n1) = Inr s2" "io_inv need env lo hi F s2"
              "n_bytes (snd s2) = n_bytes n1" "n_sess (snd s2) = n_sess n1" "n_trace (snd s2) = n_trace n1 @ t2"
              "\<forall>y \<in> set t2. call_bytes (fst y) = None"
            by auto
          have r': "send_iocp env call need p nLen nSeg a s = Some (Inr (True, a, s2))"
            using False Err unf s2(1) by simp
          have "packets_le nSeg (t0 @ (c, r) # t2)"
            using le no_sends [OF s2(6)] packets_le_Cons [of _ "(c, r)" t2] by simp
          then show ?thesis using r' s2 tr byt no t0 prep(6) s1 no_sends [OF s2(6)] less.prems(2)
            by (intro exI [of _ True] exI [of _ a] exI [of _ s2] exI [of _ "t0 @ (c, r) # t2"])
              (simp add: mem_read_def n1_def)
        qed
      qed
    qed
  qed
qed

end

interpretation ws: send_call "WSASend h"
  by unfold_locales simp_all

interpretation wst: send_call "\<lambda>bs ov. WSASendTo h bs ov to len"
  by unfold_locales simp_all

end
