(* ===== verification/NetFacts.thy ===== *)
theory NetFacts
  imports SocketSource
begin

text \<open>
  Facts on calls of the system that the server, the client and the UDP source share: which
  calls leave the heap alone, the sockets that a trace closes and the blocks it frees, what
  carries the invariant \<open>io_inv\<close> of the sends over other calls, and a concrete system for the
  witnesses.
\<close>

section \<open>Resolving a host name\<close>

text \<open>An address is tried with \<open>inet_addr\<close> first, whose failure is \<open>INADDR_NONE\<close>, then with
  \<open>gethostbyname\<close>, whose answer is the first IPv4 address of the host. The result is the
  four bytes of \<open>sin_addr\<close>, or \<open>None\<close>. The same code is in the client and in the UDP source.\<close>

definition INADDR_NONE :: int where "INADDR_NONE = 4294967295"

definition resolve_host :: "env \<Rightarrow> byte list \<Rightarrow> net \<Rightarrow> byte list option \<times> net" where
  "resolve_host env name n =
     (let (ra, n1) = sys env (InetAddr name) n;
          nAddr = (case ra of Ok v \<Rightarrow> v | Err e \<Rightarrow> INADDR_NONE)
      in if nAddr = INADDR_NONE
         then let (rh, n2) = sys env (GetHostByName name) n1
              in (case rh of Ok v \<Rightarrow> (Some (le_bytes 4 (nat v)), n2) | Err e \<Rightarrow> (None, n2))
         else (Some (le_bytes 4 (nat nAddr)), n1))"

section \<open>Calls and the heap\<close>

text \<open>A call that is not of the heap leaves the blocks alone.\<close>

fun heap_call :: "api_call \<Rightarrow> bool" where
  "heap_call (HeapAlloc n) = True"
| "heap_call (HeapReAlloc p n) = True"
| "heap_call (HeapFree p) = True"
| "heap_call c = False"

lemma blocks_sys: "\<not> heap_call c \<Longrightarrow> blocks (t @ [(c, r)]) = blocks t"
  by (cases c) (simp_all add: blocks_snoc)

lemma net_ok_sys [simp]: "\<not> heap_call c \<Longrightarrow> net_ok env (snd (sys env c n)) = net_ok env n"
  by (simp add: net_ok_def blocks_sys)

section \<open>Closed sockets and freed blocks\<close>

fun closed_sockets :: "trace \<Rightarrow> int list" where
  "closed_sockets [] = []"
| "closed_sockets ((Closesocket h, r) # t) = h # closed_sockets t"
| "closed_sockets (x # t) = closed_sockets t"

fun freed_blocks :: "trace \<Rightarrow> addr list" where
  "freed_blocks [] = []"
| "freed_blocks ((HeapFree p, r) # t) = p # freed_blocks t"
| "freed_blocks (x # t) = freed_blocks t"

lemma closed_append [simp]: "closed_sockets (t @ t') = closed_sockets t @ closed_sockets t'"
  by (induction t rule: closed_sockets.induct) auto

lemma freed_append [simp]: "freed_blocks (t @ t') = freed_blocks t @ freed_blocks t'"
  by (induction t rule: freed_blocks.induct) auto

lemma snd_free_all_spec:
  "net_ok env n \<Longrightarrow> distinct ps \<Longrightarrow> \<forall>p \<in> set ps. n_io n p \<noteq> None \<Longrightarrow>
   \<exists>n' t. snd_free_all env ps n = Inr n' \<and> net_ok env n' \<and> n_sess n' = n_sess n \<and>
     n_trace n' = n_trace n @ t \<and> closed_sockets t = [] \<and> freed_blocks t = ps"
proof (induction ps arbitrary: n)
  case (Cons p ps)
  then obtain n3 where n3: "io_free env p n = Inr n3" by (auto simp: io_free_def)
  note fr = io_free_spec [OF Cons.prems(1) n3]
  have t: "n_trace n3 = n_trace n @ [(HeapFree p, env (n_trace n) (HeapFree p))]"
    using n3 by (auto simp: io_free_def split: option.splits)
  have "\<forall>q \<in> set ps. n_io n3 q \<noteq> None" using Cons.prems(2,3) fr(2) by auto
  then obtain n' t' where "snd_free_all env ps n3 = Inr n'" "net_ok env n'" "n_sess n' = n_sess n3"
      "n_trace n' = n_trace n3 @ t'" "closed_sockets t' = []" "freed_blocks t' = ps"
    using Cons.IH [OF fr(1)] Cons.prems(2) by auto
  then show ?case using n3 fr(3) t by auto
qed simp

lemma snd_free_all_io:
  "snd_free_all env ps n = Inr n' \<Longrightarrow> net_ok env n \<Longrightarrow> n_io n' q = (if q \<in> set ps then None else n_io n q)"
proof (induction ps arbitrary: n)
  case (Cons p ps)
  then obtain n3 where n3: "io_free env p n = Inr n3" "snd_free_all env ps n3 = Inr n'" by (auto simp: res_simps)
  note fr = io_free_spec [OF Cons.prems(2) n3(1)]
  show ?case using Cons.IH [OF n3(2) fr(1)] fr(2) by simp
qed simp

section \<open>Sends\<close>

lemma io_inv_frame:
  assumes "io_inv need env lo hi F (pl, n)" "net_ok env n'"
    and "n_bytes n' = n_bytes n" "n_io n' = n_io n"
    and "\<And>q. n_io n q \<noteq> None \<Longrightarrow> blocks (n_trace n') q = blocks (n_trace n) q"
    and "\<And>q a. blocks (n_trace n') q = Some a \<Longrightarrow> blocks (n_trace n) q = Some a"
  shows "io_inv need env lo hi F (pl, n')"
proof -
  have own: "own_buffer n q \<Longrightarrow> own_buffer n' q" for q
    using assms(4,5) [of] by (auto simp: own_buffer_def)
  have "mem_ok lo hi (n_trace n) \<Longrightarrow> mem_ok lo hi (n_trace n')"
    by (erule mem_ok_sub) (rule assms(6))
  moreover have "snd_ok env (pl, n) \<Longrightarrow> snd_ok env (pl, n')" using assms(2,4) by (auto simp: snd_ok_def io_live_def)
  moreover have "snd_bufs_ok env (pl, n) \<Longrightarrow> snd_bufs_ok env (pl, n')"
    using calculation(2) own by (auto simp: snd_bufs_ok_def)
  moreover have "in_flight n x \<Longrightarrow> in_flight n' x" for x
    using own assms(3,4) by (auto simp: in_flight_def)
  ultimately show ?thesis using assms(1,4) unfolding io_inv_def by simp
qed

lemma io_inv_exclusive: "io_inv need env lo hi F s \<Longrightarrow> sndp.exclusive env (map fst F) s"
  by (auto simp: io_inv_def sndp.exclusive_def io_live_def)

text \<open>The bytes that the calls of a \<open>Send\<close> have passed on.\<close>

lemma sent_bytes_no_sends: "\<forall>y \<in> set t. call_bytes (fst y) = None \<Longrightarrow> sent_bytes t = [] \<and> posted_packets t = []"
  using no_sends by blast

lemma mem_read_0 [simp]: "mem_read b p 0 = []"
  by (simp add: mem_read_def)

section \<open>Blocks of other users\<close>

text \<open>A block of the heap that is neither an I/O structure nor a session.\<close>

definition foreign :: "net \<Rightarrow> addr \<Rightarrow> nat \<Rightarrow> bool" where
  "foreign n p m \<longleftrightarrow> blocks (n_trace n) p = Some m \<and> n_io n p = None \<and> n_sess n p = None"

lemma io_alloc_foreign:
  assumes "net_ok env n" "io_alloc env k n = (q, n1)" "foreign n p m"
  shows "foreign n1 p m"
proof (cases "q = NULL")
  case True
  then have "blocks (n_trace n1) = blocks (n_trace n)"
    using io_alloc_mem [OF assms(1,2)] by (simp add: mem_step_def)
  then show ?thesis using assms(3) io_alloc_spec(2,3) [OF assms(1,2)] True by (simp add: foreign_def)
next
  case False
  note b = io_alloc_blocks [OF assms(1,2) False] and s = io_alloc_spec [OF assms(1,2)]
  have "q \<noteq> p" using b(2) assms(3) by (auto simp: foreign_def)
  then show ?thesis using assms(3) b(1) s(2) s(4) [OF False] by (simp add: foreign_def)
qed

lemma io_realloc_foreign:
  assumes "net_ok env n" "io_realloc env h io k n = (q, n1)" "n_io n h \<noteq> None" "foreign n p m"
  shows "foreign n1 p m"
proof (cases "q = NULL")
  case True
  then have "blocks (n_trace n1) = blocks (n_trace n)"
    using io_realloc_mem [OF assms(1-3)] by (simp add: mem_step_def)
  then show ?thesis using assms(4) io_realloc_spec(2,3) [OF assms(1-3)] True by (simp add: foreign_def)
next
  case False
  note b = io_realloc_blocks [OF assms(1,2) False assms(3)] and s = io_realloc_spec [OF assms(1-3)]
  have "p \<noteq> h" using assms(3,4) by (auto simp: foreign_def)
  moreover have "p \<noteq> q" using b(2) calculation assms(4) by (cases "q = h") (auto simp: foreign_def)
  ultimately show ?thesis using assms(4) b(1) s(2) s(4) [OF False] by (simp add: foreign_def)
qed

lemma foreign_put_io [simp]: "p \<noteq> q \<Longrightarrow> foreign (put_io q io n) p m = foreign n p m"
  by (simp add: foreign_def)

lemma snd_pop_foreign:
  assumes "snd_ok env s" "CSocketSendPool_pop env k s = Inr (q, s')" "foreign (snd s) p m"
  shows "foreign (snd s') p m"
proof -
  obtain pl n where s: "s = (pl, n)" by (cases s)
  have nok: "net_ok env n" using assms(1) s by (simp add: snd_ok_def)
  have put: "foreign (put_io a io n1) p m" if "foreign n1 p m" "n_io n1 a \<noteq> None" for a io n1
    using that by (cases "p = a") (auto simp: foreign_def)
  show ?thesis
  proof (cases "snd_objFreeList pl")
    case Nil
    obtain a n1 where al: "io_alloc env (unat k) n = (a, n1)" by fastforce
    have "foreign n1 p m" using io_alloc_foreign [OF nok al] assms(3) s by simp
    moreover have "a \<noteq> NULL \<Longrightarrow> n_io n1 a \<noteq> None" using io_alloc_spec(4) [OF nok al] by simp
    moreover have "snd s' = n1 \<or> a \<noteq> NULL \<and> (\<exists>io. snd s' = put_io a io n1)"
      using assms(2) s Nil al by (auto simp: CSocketSendPool_pop_def split: if_splits)
    ultimately show ?thesis using put by auto
  next
    case (Cons h rest)
    have live: "n_io n h \<noteq> None" using assms(1) s Cons by (auto simp: snd_ok_def io_live_def)
    obtain io where io: "get_io h n = Inr io" using live nok by (auto simp: get_io_def net_ok_def)
    obtain a n1 where al: "io_realloc env h io (unat k) n = (a, n1)" by fastforce
    have "foreign n1 p m" using io_realloc_foreign [OF nok al live] assms(3) s by simp
    moreover have "a \<noteq> NULL \<Longrightarrow> n_io n1 a \<noteq> None" using io_realloc_spec(4) [OF nok al live] by simp
    moreover have "snd s' = n1 \<or> snd s' = n \<or> a \<noteq> NULL \<and> (\<exists>io. snd s' = put_io a io n1)"
      using assms(2) s Cons al io by (auto simp: CSocketSendPool_pop_def Let_def split: if_splits)
    ultimately show ?thesis using put assms(3) s by auto
  qed
qed

lemma snd_push_foreign:
  assumes "snd_ok env s" "CSocketSendPool_push env q s = Inr s'" "foreign (snd s) p m"
  shows "foreign (snd s') p m"
  using assms(2)
proof (cases rule: snd_push_cases)
  case freed
  have nok: "net_ok env (snd s)" using assms(1) by (simp add: snd_ok_def)
  note fr = io_free_spec [OF nok freed(2)]
  have "n_io (snd s) q \<noteq> None" "n_trace (snd s') = n_trace (snd s) @ [(HeapFree q, env (n_trace (snd s)) (HeapFree q))]"
    using freed(2) by (auto simp: io_free_def split: option.splits dest!: sym [of _ "snd s'"])
  then show ?thesis using fr(2,3) assms(3) by (auto simp: foreign_def blocks_snoc)
qed (use assms(3) in simp)

lemma foreign_sys [simp]: "\<not> heap_call c \<Longrightarrow> foreign (snd (sys env c n)) p m = foreign n p m"
  by (simp add: foreign_def blocks_sys)

section \<open>Holding send structures\<close>

lemma snd_push_held:
  assumes "sndp.exclusive env H s" "i < length H"
  shows "\<exists>s'. CSocketSendPool_push env (H ! i) s = Inr s' \<and> sndp.exclusive env (take i H @ drop (Suc i) H) s'"
proof -
  obtain H' t where st: "pool_step (CSocketSendPool_pop env 0) (CSocketSendPool_push env) (OpPush i) (H, s) = Inr (H', t)"
    using sndpt.step_total [OF assms(1), of 0 "OpPush i"] by blast
  then have "CSocketSendPool_push env (H ! i) s = Inr t" "H' = take i H @ drop (Suc i) H"
    using assms(2) by (auto simp: res_simps)
  then show ?thesis using sndp.exclusive_step [OF assms(1) st] by blast
qed

lemma snd_pop_held:
  assumes "sndp.exclusive env H s" "CSocketSendPool_pop env k s = Inr (p, s')"
  shows "sndp.exclusive env (if p = NULL then H else p # H) s'"
proof -
  have "pool_step (CSocketSendPool_pop env k) (CSocketSendPool_push env) OpPop (H, s) =
      Inr (if p = NULL then H else p # H, s')"
    using assms(2) by simp
  from sndp.exclusive_step [OF assms(1) this] show ?thesis .
qed

lemma excl_net:
  assumes "sndp.exclusive env H (pl, n)" "net_ok env n'" "n_io n' = n_io n"
  shows "sndp.exclusive env H (pl, n')"
  using assms by (auto simp: sndp.exclusive_def snd_ok_def io_live_def)

lemma heap_new_block:
  fixes b :: "addr \<Rightarrow> byte"
  assumes "net_ok env n" "c = HeapAlloc k \<or> (\<exists>p m. c = HeapReAlloc p k \<and> foreign n p m)"
    and "env (n_trace n) c = r" "ret_ptr r \<noteq> NULL"
  defines "n' \<equiv> n\<lparr>n_trace := n_trace n @ [(c, r)], n_bytes := b\<rparr>"
  shows "net_ok env n' \<and> foreign n' (ret_ptr r) k"
  using assms(2)
proof
  assume c: "c = HeapAlloc k"
  note fr = heap_alloc_fresh [OF assms(1) assms(3) [unfolded c] assms(4)]
  show ?thesis using assms(1) fr unfolding n'_def c net_ok_def foreign_def by auto
next
  assume "\<exists>p m. c = HeapReAlloc p k \<and> foreign n p m"
  then obtain p m where c: "c = HeapReAlloc p k" and p: "n_io n p = None" "n_sess n p = None"
    by (auto simp: foreign_def)
  obtain v where r: "r = Ok v" "0 < v" using assms(4) by (cases r) auto
  have "disjoint_from (nat v) k ((blocks (n_trace n))(p := None))"
    using assms(1,3) r c by (auto simp: net_ok_def heap_env_ok_def)
  then have "((blocks (n_trace n))(p := None)) (nat v) = None" by (rule disjoint_fromD)
  then have q: "n_io n (nat v) = None" "n_sess n (nat v) = None"
    using assms(1) p by (cases "nat v = p"; auto simp: net_ok_def)+
  have B: "blocks (n_trace n @ [(c, r)]) = ((blocks (n_trace n))(p := None))(nat v \<mapsto> k)"
    using c r by (simp add: blocks_snoc)
  show ?thesis using assms(1) p q r B unfolding n'_def net_ok_def foreign_def by auto
qed

section \<open>Sequences of calls\<close>

text \<open>Calls that make or close no socket and leave the heap alone.\<close>

fun plain :: "api_call \<Rightarrow> bool" where
  "plain WSASocketTcp = False"
| "plain WSASocketUdp = False"
| "plain (Closesocket h) = False"
| "plain c = (\<not> heap_call c)"

lemma plain_heap: "plain c \<Longrightarrow> \<not> heap_call c"
  by (cases c) simp_all

definition calls :: "(api_call \<Rightarrow> bool) \<Rightarrow> net \<Rightarrow> net \<Rightarrow> bool" where
  "calls P n n' \<longleftrightarrow> (\<exists>t. n' = n\<lparr>n_trace := n_trace n @ t\<rparr> \<and> (\<forall>y \<in> set t. P (fst y)))"

lemma calls_refl [simp, intro]: "calls P n n"
  by (auto simp: calls_def intro: exI [of _ "[]"])

lemma calls_sys [intro]: "P c \<Longrightarrow> calls P n (snd (sys env c n))"
  by (auto simp: calls_def sys_def)

lemma calls_trans [trans]:
  assumes "calls P n n1" "calls P n1 n2"
  shows "calls P n n2"
proof -
  obtain t t' where "n1 = n\<lparr>n_trace := n_trace n @ t\<rparr>" "\<forall>y \<in> set t. P (fst y)"
    "n2 = n1\<lparr>n_trace := n_trace n1 @ t'\<rparr>" "\<forall>y \<in> set t'. P (fst y)"
    using assms by (auto simp: calls_def)
  then show ?thesis unfolding calls_def by (intro exI [of _ "t @ t'"]) auto
qed

lemma calls_sys_trans [intro!]: "calls P n n1 \<Longrightarrow> P c \<Longrightarrow> calls P n (snd (sys env c n1))"
  using calls_trans calls_sys by blast

lemma calls_blocks:
  assumes "calls plain n n'"
  shows "blocks (n_trace n') = blocks (n_trace n)" "n_io n' = n_io n" "n_sess n' = n_sess n"
    "n_bytes n' = n_bytes n"
proof -
  obtain t where t: "n' = n\<lparr>n_trace := n_trace n @ t\<rparr>" "\<forall>y \<in> set t. plain (fst y)"
    using assms by (auto simp: calls_def)
  from t(2) have "blocks (n_trace n @ t) = blocks (n_trace n)"
  proof (induction t rule: rev_induct)
    case (snoc y t)
    have "\<not> heap_call (fst y)" using snoc.prems plain_heap by simp
    then show ?case using snoc blocks_sys [of "fst y" "n_trace n @ t" "snd y"] by simp
  qed simp
  then show "blocks (n_trace n') = blocks (n_trace n)" "n_io n' = n_io n" "n_sess n' = n_sess n"
    "n_bytes n' = n_bytes n" using t(1) by simp_all
qed

lemma calls_net:
  assumes "calls plain n n'"
  shows "net_ok env n \<Longrightarrow> net_ok env n'" "foreign n p m \<Longrightarrow> foreign n' p m"
  using calls_blocks [OF assms] by (simp_all add: net_ok_def foreign_def)

fun opened_sockets :: "trace \<Rightarrow> int list" where
  "opened_sockets [] = []"
| "opened_sockets ((WSASocketTcp, Ok h) # t) = h # opened_sockets t"
| "opened_sockets ((WSASocketUdp, Ok h) # t) = h # opened_sockets t"
| "opened_sockets (x # t) = opened_sockets t"

lemma opened_append [simp]: "opened_sockets (t @ t') = opened_sockets t @ opened_sockets t'"
  by (induction t rule: opened_sockets.induct) auto

lemma plain_sockets:
  "\<forall>y \<in> set t. plain (fst y) \<Longrightarrow> closed_sockets t = [] \<and> opened_sockets t = []"
proof (induction t)
  case (Cons y t)
  obtain c r where "y = (c, r)" by (cases y)
  with Cons show ?case by (cases c) (auto split: api_ret.splits)
qed simp

lemma resolve_host_calls: "resolve_host env name n = (a, n') \<Longrightarrow> calls plain n n'"
  by (auto simp: resolve_host_def Let_def case_prod_unfold split: if_splits api_ret.splits)

section \<open>A whole send\<close>

lemma iocp_prepare_foreign:
  assumes "snd_ok env s" "iocp_prepare env need p a k s = Inr (x, s')" "foreign (snd s) q m"
  shows "snd_ok env s' \<and> foreign (snd s') q m"
proof -
  obtain h pl n where pop: "CSocketSendPool_pop env (if need then to_u32 k else 0) s = Inr (h, pl, n)"
    using assms(2) by (auto simp: iocp_prepare_def res_simps)
  have ok: "snd_ok env (pl, n)" by (rule sndp.pop_ok [OF assms(1) pop])
  have fo: "foreign n q m" using snd_pop_foreign [OF assms(1) pop assms(3)] by simp
  have nok: "net_ok env n" using ok by (simp add: snd_ok_def)
  have c: "s' = (pl, n) \<or> (\<exists>io b. n_io n h \<noteq> None \<and> s' = (pl, put_io h io (n\<lparr>n_bytes := b\<rparr>)))
      \<or> (\<exists>io. n_io n h \<noteq> None \<and> s' = (pl, put_io h io n))"
    using assms(2) pop by (auto simp: iocp_prepare_def res_simps Let_def get_io_def split: if_splits option.splits)
  have nb: "net_ok env (n\<lparr>n_bytes := b\<rparr>)" for b using nok by (simp add: net_ok_def)
  have "net_ok env (snd s')" using c nok nb net_ok_put_io by fastforce
  moreover have "fst s' = pl" "n_io n z \<noteq> None \<Longrightarrow> n_io (snd s') z \<noteq> None" for z using c by auto
  moreover have "foreign (snd s') q m" using c fo by (auto simp: foreign_def)
  ultimately show ?thesis using ok by (auto simp: snd_ok_def io_live_def)
qed

lemma send_call_foreign:
  assumes "call_bytes c = Some bs" "snd_ok env (pl, n)" "foreign n q m"
  defines "n' \<equiv> snd (sys env c n)"
  shows "snd_ok env (pl, n') \<and> foreign n' q m"
proof -
  have h: "\<not> heap_call c" using assms(1) by (cases c) simp_all
  have "net_ok env n" using assms(2) by (simp add: snd_ok_def)
  then show ?thesis using assms(2,3) h by (simp add: n'_def snd_ok_def io_live_def)
qed

lemma send_iocp_foreign:
  assumes "send_iocp env call need p nLen sg a s = Some y"
  shows "(\<And>bs ov. call_bytes (call bs ov) = Some bs) \<Longrightarrow> snd_ok env s \<Longrightarrow> foreign (snd s) q m \<Longrightarrow>
    y = Inr (f, r, s') \<Longrightarrow> foreign (snd s') q m"
  using assms
proof (induction env call need p nLen sg a s y rule: send_iocp.raw_induct [rotated, consumes 1, case_names step])
  case (step g env call need p nLen sg a s y)
  note cb = step(3) and ok = step(4) and fo = step(5) and y = step(6)
  define k where "k = nPacketSize nLen a sg"
  show ?case
  proof (cases "a < nLen")
    case False
    then show ?thesis using step(2) fo y by simp
  next
    case True
    show ?thesis
    proof (cases "iocp_prepare env need p a k s")
      case (Inl e)
      then show ?thesis using True step(2) y by (simp add: k_def [symmetric])
    next
      case (Inr x)
      obtain o1 s1 where x: "x = (o1, s1)" by (cases x)
      note pr = iocp_prepare_foreign [OF ok Inr [unfolded x] fo]
      show ?thesis
      proof (cases o1)
        case None
        then show ?thesis using True step(2) y Inr x pr by (simp add: k_def [symmetric])
      next
        case (Some z)
        obtain h wbuf where z: "z = (h, wbuf)" by (cases z)
        obtain pl n where s1: "s1 = (pl, n)" by (cases s1)
        define c where "c = call (mem_read (n_bytes n) wbuf (unat (to_u32 k))) h"
        define n1 where "n1 = snd (sys env c n)"
        have c1: "snd_ok env (pl, n1) \<and> foreign n1 q m"
          unfolding n1_def c_def using pr s1 by (intro send_call_foreign [OF cb]) auto
        have e: "(case env (n_trace n) c of
            Ok v \<Rightarrow> g env call need p nLen sg (a + v) (pl, n1)
          | Err e \<Rightarrow> if e \<noteq> WSA_IO_PENDING
              then (case CSocketSendPool_push env h (pl, n1) of Inl e \<Rightarrow> Some (Inl e)
                    | Inr s2 \<Rightarrow> Some (Inr (True, a, s2)))
              else g env call need p nLen sg (a + k) (pl, n1)) = Some y"
          using True step(2) Inr x Some z s1
          by (simp add: k_def [symmetric] Let_def c_def [symmetric] n1_def cong: if_cong api_ret.case_cong)
        have rec: "g env call need p nLen sg b (pl, n1) = Some y \<Longrightarrow> ?thesis" for b
          using step(1) [of env call need p nLen sg b "(pl, n1)" y] cb c1 y by simp
        show ?thesis
        proof (cases "env (n_trace n) c")
          case (Ok v)
          then show ?thesis using e rec by simp
        next
          case (Err e')
          then show ?thesis using e rec y c1 snd_push_foreign [of env "(pl, n1)" h _ q m]
            by (auto split: if_splits sum.splits)
        qed
      qed
    qed
  qed
qed

lemma send_trace_blocks:
  "\<forall>y \<in> set t. call_bytes (fst y) \<noteq> None \<Longrightarrow> blocks (tr @ t) = blocks tr"
proof (induction t rule: rev_induct)
  case (snoc y t)
  obtain c x where "y = (c, x)" by (cases y)
  then show ?case using snoc blocks_send_call [of c _ "tr @ t" x] by auto
qed simp

lemma io_inv_trace:
  assumes "io_inv need env lo hi F (pl, n)" "blocks (n_trace n @ t) = blocks (n_trace n)"
  shows "io_inv need env lo hi F (pl, n\<lparr>n_trace := n_trace n @ t\<rparr>)"
proof (rule io_inv_frame [OF assms(1)])
  have "net_ok env n" using assms(1) by (simp add: io_inv_def snd_ok_def)
  then show "net_ok env (n\<lparr>n_trace := n_trace n @ t\<rparr>)" using assms(2) by (simp add: net_ok_def)
qed (use assms(2) in simp_all)

section \<open>A concrete system\<close>

text \<open>A system in which everything succeeds: the heap grows upwards from \<open>1000\<close>, sockets are 3
  (listening) and 5 (accepted), and every send accepts the whole packet.\<close>

definition srv_env :: env where
  "srv_env t c = (case c of HeapAlloc n \<Rightarrow> Ok (int (heap_top t + 1000))
     | HeapReAlloc p n \<Rightarrow> Ok (int (heap_top t + 1000))
     | WSASocketTcp \<Rightarrow> Ok 3 | WSAAccept h \<Rightarrow> Ok 5 | OnAccept h \<Rightarrow> Ok 1
     | WSASend h bs ov \<Rightarrow> Ok (int (length bs)) | WSASendTo h bs ov to len \<Rightarrow> Ok (int (length bs))
     | _ \<Rightarrow> Ok 0)"

lemma bump_disjoint:
  assumes "\<And>q m. B q = Some m \<Longrightarrow> blocks t q = Some m"
  shows "disjoint_from (heap_top t + b) n B"
  unfolding disjoint_from_def
proof (intro allI impI)
  fix q m assume "B q = Some m"
  then have "q + m < heap_top t" using assms blocks_below_top by blast
  then show "q \<noteq> heap_top t + b \<and> {heap_top t + b..<heap_top t + b + n} \<inter> {q..<q + m} = {}" by auto
qed

lemma srv_env_heap: "heap_env_ok srv_env" "heap_keeps_off srv_env lo 1000"
proof -
  have upd: "((blocks t)(p := None)) q = Some m \<Longrightarrow> blocks t q = Some m" for t p q m
    by (cases "q = p") simp_all
  show "heap_env_ok srv_env"
    unfolding heap_env_ok_def srv_env_def api_call.case api_ret.inject
    by (safe; simp only: nat_int; rule bump_disjoint; (assumption | erule upd))
  show "heap_keeps_off srv_env lo 1000"
    unfolding heap_keeps_off_def srv_env_def api_call.case api_ret.inject
    by (safe; simp only: nat_int; auto)
qed

lemma srv_env_send: "send_env_ok srv_env"
proof -
  have "0 \<le> v \<and> v \<le> int (length bs) \<and> (bs \<noteq> [] \<longrightarrow> 0 < v)"
    if "call_bytes c = Some bs" "srv_env t c = Ok v" for t c bs v
    using that by (cases c) (auto simp: srv_env_def)
  then show ?thesis by (auto simp: send_env_ok_def)
qed

lemma srv_net0: "net_ok srv_env net0"
  by (simp add: net_ok_def net0_def srv_env_heap)

end
