(* ===== verification/TcpServer.thy ===== *)
theory TcpServer
  imports NetFacts
begin

text \<open>
  \<open>CTcpServer\<close> of TcpServer.h and TcpServer.cpp. The map from sockets to sessions is an
  association list in the order of \<open>std::map\<close>, whose \<open>insert\<close> keeps an existing entry. A pointer
  to \<open>PerHandle\<close> or to \<open>PerIoRecv\<close> of a session is the address of the session. Lines that only
  log or print are left out.

  The listening thread is a step function over its program counter, cut where it takes or
  releases \<open>m_lock\<close>, so that other threads can run between its steps; what runs under the
  lock is one step. \<open>sv_step\<close> is the system of the listening thread, the threads that
  disconnect, attach, receive and send, and \<open>sv_inv\<close> its invariant: the sessions in the map, in the
  free pool and in the hands of the listening thread are different, live heap blocks.
\<close>

section \<open>Sessions on the process heap\<close>

definition get_sess :: "addr \<Rightarrow> net \<Rightarrow> cerror + SOCKET_SESSION" where
  "get_sess p n =
     (if p = NULL then Inl NullDeref
      else case n_sess n p of None \<Rightarrow> Inl UseAfterFree | Some ss \<Rightarrow> Inr ss)"

definition put_sess :: "addr \<Rightarrow> SOCKET_SESSION \<Rightarrow> net \<Rightarrow> net" where
  "put_sess p ss n = n\<lparr>n_sess := (n_sess n)(p \<mapsto> ss)\<rparr>"

definition sess_free :: "env \<Rightarrow> addr \<Rightarrow> net \<Rightarrow> cerror + net" where
  "sess_free env p n =
     (case n_sess n p of
        None \<Rightarrow> Inl DoubleFree
      | Some ss \<Rightarrow> Inr ((snd (sys env (HeapFree p) n))\<lparr>n_sess := (n_sess n)(p := None)\<rparr>))"

definition sess_alloc :: "env \<Rightarrow> nat \<Rightarrow> net \<Rightarrow> addr \<times> net" where
  "sess_alloc env k n =
     (let (r, n1) = sys env (HeapAlloc (sizeof_SESSION + k)) n; p = ret_ptr r
      in if p = NULL then (NULL, n1)
         else (p, n1\<lparr>n_sess := (n_sess n1)(p \<mapsto> zero_session),
                     n_bytes := mem_write (n_bytes n1) p (replicate (sizeof_SESSION + k) 0)\<rparr>))"

section \<open>The map of sockets\<close>

type_synonym socket_map = "(int \<times> addr) list"

fun smap_insert :: "int \<Rightarrow> addr \<Rightarrow> socket_map \<Rightarrow> socket_map" where
  "smap_insert k v [] = [(k, v)]"
| "smap_insert k v ((a, b) # m) =
     (if k < a then (k, v) # (a, b) # m else if k = a then (a, b) # m else (a, b) # smap_insert k v m)"

definition smap_erase :: "int \<Rightarrow> socket_map \<Rightarrow> socket_map" where
  "smap_erase k m = filter (\<lambda>x. fst x \<noteq> k) m"

section \<open>The class\<close>

record CTcpServer = CSocketSource +
  sv_this :: addr
  sv_hListenSocket :: int
  sv_lstFreePool :: "addr list"
  sv_sendPool :: CSocketSendPool
  sv_nMaxSocketNum :: int
  sv_nMaxFreePoolNum :: int
  sv_nDefaultFreePoolNum :: int
  sv_mapSocketSession :: socket_map

type_synonym sv_state = "CTcpServer \<times> net"

definition CTcpServer_new :: "int \<Rightarrow> addr \<Rightarrow> CTcpServer" where
  "CTcpServer_new junk this =
     CSocketSource.extend (CSocketSource_new junk)
       (CTcpServer.fields this 0 [] CSocketSendPool_new MAX_SOCKET_CONNECTNUM MAX_SOCKET_FREENUM 10 [])"

definition CTcpServer_SetConfig :: "int \<Rightarrow> int \<Rightarrow> int \<Rightarrow> CTcpServer \<Rightarrow> CTcpServer" where
  "CTcpServer_SetConfig nMaxSocketNum nMaxFreePoolNum nDefaultFreePoolNum sv =
     sv\<lparr>sv_nMaxSocketNum := nMaxSocketNum, sv_nMaxFreePoolNum := nMaxFreePoolNum,
        sv_nDefaultFreePoolNum := nDefaultFreePoolNum\<rparr>"

definition CTcpServer_SetInterface :: "addr \<Rightarrow> addr \<Rightarrow> addr \<Rightarrow> CTcpServer \<Rightarrow> CTcpServer" where
  "CTcpServer_SetInterface = source_SetInterface"

definition CTcpServer_SetBufferSize :: "int \<Rightarrow> int \<Rightarrow> CTcpServer \<Rightarrow> CTcpServer" where
  "CTcpServer_SetBufferSize = source_SetBufferSize"

text \<open>\<open>Disconnect\<close>. The size of the list, a \<open>size_t\<close>, is compared with an \<open>int\<close>, which becomes
  unsigned.\<close>

definition CTcpServer_Disconnect :: "env \<Rightarrow> int \<Rightarrow> bool \<Rightarrow> sv_state \<Rightarrow> cerror + bool \<times> sv_state" where
  "CTcpServer_Disconnect env hClientSocket bForce s =
     (case s of (sv, n) \<Rightarrow>
        case map_of (sv_mapSocketSession sv) hClientSocket of
          None \<Rightarrow> Inr (False, sv, n)
        | Some pSocketSession \<Rightarrow>
            rbind (get_sess pSocketSession n) (\<lambda>ss.
              let pAttachInfo = ph_pAttachInfo (ss_PerHandle ss);
                  n1 = snd (sys env (GetPeerName hClientSocket) n);
                  n2 = snd (sys env (Shutdown hClientSocket) n1);
                  n3 = snd (sys env (Closesocket hClientSocket) n2)
              in rbind (if unat (to_u32 (sv_nMaxFreePoolNum sv)) \<le> length (sv_lstFreePool sv)
                        then rbind (sess_free env pSocketSession n3) (\<lambda>n4. Inr (sv, n4))
                        else Inr (sv\<lparr>sv_lstFreePool := sv_lstFreePool sv @ [pSocketSession]\<rparr>, n3))
                   (\<lambda>(sv1, n4).
                      let sv2 = sv1\<lparr>sv_mapSocketSession := smap_erase hClientSocket (sv_mapSocketSession sv1)\<rparr>
                      in Inr (True, sv2,
                           if bForce then n4 else snd (sys env (OnDisconnect hClientSocket pAttachInfo) n4)))))"

text \<open>\<open>p\<close> is the session that holds the \<open>PerIoRecv\<close> structure.\<close>

definition CTcpServer_PostRecv :: "env \<Rightarrow> int \<Rightarrow> addr \<Rightarrow> sv_state \<Rightarrow> cerror + bool \<times> sv_state" where
  "CTcpServer_PostRecv env hClientSocket p s =
     (case s of (sv, n) \<Rightarrow>
        rbind (get_sess p n) (\<lambda>ss.
          let io = (ss_PerIoRecv ss)\<lparr>io_OperType := RECV_POSTED\<rparr>;
              n1 = put_sess p (ss\<lparr>ss_PerIoRecv := io\<rparr>) n;
              (r, n2) = sys env (WSARecv hClientSocket (io_szBuffer io) (src_nRecvBufferSize sv)) n1
          in case r of
               Ok v \<Rightarrow> Inr (True, sv, n2)
             | Err e \<Rightarrow>
                 if e \<noteq> WSA_IO_PENDING
                 then rbind (CTcpServer_Disconnect env hClientSocket False (sv, n2)) (\<lambda>(b, s'). Inr (False, s'))
                 else Inr (True, sv, n2)))"

definition CTcpServer_PostSend :: "env \<Rightarrow> addr \<Rightarrow> sv_state \<Rightarrow> cerror + bool \<times> sv_state" where
  "CTcpServer_PostSend env p s =
     (case s of (sv, n) \<Rightarrow>
        rbind (CSocketSendPool_push env p (sv_sendPool sv, n))
          (\<lambda>(pl, n'). Inr (True, sv\<lparr>sv_sendPool := pl\<rparr>, n')))"

definition CTcpServer_IsConnected :: "int \<Rightarrow> sv_state \<Rightarrow> bool" where
  "CTcpServer_IsConnected hClientSocket s = (map_of (sv_mapSocketSession (fst s)) hClientSocket \<noteq> None)"

definition CTcpServer_SetAttachInfo :: "int \<Rightarrow> addr \<Rightarrow> sv_state \<Rightarrow> cerror + bool \<times> sv_state" where
  "CTcpServer_SetAttachInfo hClientSocket pAttachInfo s =
     (case s of (sv, n) \<Rightarrow>
        case map_of (sv_mapSocketSession sv) hClientSocket of
          None \<Rightarrow> Inr (False, sv, n)
        | Some p \<Rightarrow> rbind (get_sess p n) (\<lambda>ss.
            Inr (False, sv, put_sess p
              (ss\<lparr>ss_PerHandle := (ss_PerHandle ss)\<lparr>ph_pAttachInfo := pAttachInfo\<rparr>\<rparr>) n)))"

definition CTcpServer_GetAttachInfo :: "int \<Rightarrow> sv_state \<Rightarrow> cerror + addr" where
  "CTcpServer_GetAttachInfo hClientSocket s =
     (case s of (sv, n) \<Rightarrow>
        case map_of (sv_mapSocketSession sv) hClientSocket of
          None \<Rightarrow> Inr NULL
        | Some p \<Rightarrow> rbind (get_sess p n) (\<lambda>ss. Inr (ph_pAttachInfo (ss_PerHandle ss))))"

definition sv_disconnect_if :: "env \<Rightarrow> bool \<Rightarrow> int \<Rightarrow> sv_state \<Rightarrow> cerror + sv_state" where
  "sv_disconnect_if env f h s =
     (if f then rbind (CTcpServer_Disconnect env h False s) (\<lambda>(b, s'). Inr s') else Inr s)"

definition CTcpServer_Send ::
    "env \<Rightarrow> int \<Rightarrow> addr \<Rightarrow> int \<Rightarrow> int \<Rightarrow> sv_state \<Rightarrow> (cerror + int \<times> sv_state) option" where
  "CTcpServer_Send env hClientSocket szData nLen nOptval s =
     (case s of (sv, n) \<Rightarrow>
        let nSeg = nSegmentSize nOptval nLen sv
        in if has_option nOptval SEND_OPTION_BLOCK
           then (case send_block env (WSASend hClientSocket) szData nLen nSeg 0 n of
                   None \<Rightarrow> None
                 | Some (f, nSum, n') \<Rightarrow>
                     Some (rbind (sv_disconnect_if env f hClientSocket (sv, n')) (\<lambda>s'. Inr (nSum, s'))))
           else (case send_iocp env (WSASend hClientSocket) (has_option nOptval SEND_OPTION_USERBUFFER)
                        szData nLen nSeg 0 (sv_sendPool sv, n) of
                   None \<Rightarrow> None
                 | Some (Inl e) \<Rightarrow> Some (Inl e)
                 | Some (Inr (f, nSum, pl, n')) \<Rightarrow>
                     Some (rbind (sv_disconnect_if env f hClientSocket (sv\<lparr>sv_sendPool := pl\<rparr>, n'))
                       (\<lambda>s'. Inr (nSum, s')))))"

section \<open>Opening and closing\<close>

text \<open>The pool of sessions is filled; \<open>False\<close> when an allocation fails.\<close>

fun open_pool :: "env \<Rightarrow> nat \<Rightarrow> sv_state \<Rightarrow> bool \<times> sv_state" where
  "open_pool env 0 s = (True, s)"
| "open_pool env (Suc i) s =
     (case s of (sv, n) \<Rightarrow>
        let (p, n1) = sess_alloc env (nat (src_nRecvBufferSize sv)) n
        in if p = NULL then (False, sv, n1)
           else let ss = zero_session\<lparr>ss_PerHandle := (ss_PerHandle zero_session)\<lparr>ph_hSocket := 0,
                             ph_pSocketSource := sv_this sv\<rparr>,
                           ss_PerIoRecv := (ss_PerIoRecv zero_session)\<lparr>io_szBuffer := p + sizeof_SESSION\<rparr>\<rparr>
                in open_pool env i (sv\<lparr>sv_lstFreePool := sv_lstFreePool sv @ [p]\<rparr>, put_sess p ss n1))"

definition CTcpServer_Open :: "env \<Rightarrow> u16 \<Rightarrow> int \<Rightarrow> sv_state \<Rightarrow> cerror + bool \<times> sv_state" where
  "CTcpServer_Open env nPort nBacklog s =
     (case s of (sv, n) \<Rightarrow>
        let (r, n1) = sys env WSASocketTcp n;
            h = (case r of Ok v \<Rightarrow> v | Err e \<Rightarrow> INVALID_SOCKET);
            sv1 = sv\<lparr>sv_hListenSocket := h\<rparr>
        in if h = INVALID_SOCKET then Inr (False, sv1, n1)
           else let (rb, n2) = sys env (Bind h [] (uint nPort)) n1
                in if \<not> is_ok rb then Inr (False, sv1, n2)
                   else let (rl, n3) = sys env (Listen h nBacklog) n2
                        in if \<not> is_ok rl then Inr (False, sv1, n3)
                           else let (b, sv2, n4) = open_pool env (nat (sv_nDefaultFreePoolNum sv1)) (sv1, n3)
                                in if \<not> b then Inr (False, sv2, n4)
                                   else let n5 = snd (sys env StartThread n4)
                                        in rbind (CSocketSendPool_init env (to_u32 (sv_nMaxSocketNum sv2)) 100 4
                                                   (sv_sendPool sv2, n5))
                                             (\<lambda>(pl, n6). Inr (True, sv2\<lparr>sv_sendPool := pl\<rparr>, n6)))"

fun close_clients :: "env \<Rightarrow> socket_map \<Rightarrow> net \<Rightarrow> cerror + net" where
  "close_clients env [] n = Inr n"
| "close_clients env ((h, p) # m) n =
     (let n1 = snd (sys env (Shutdown h) n);
          n2 = snd (sys env (Closesocket h) n1)
      in rbind (sess_free env p n2) (close_clients env m))"

fun free_sessions :: "env \<Rightarrow> addr list \<Rightarrow> net \<Rightarrow> cerror + net" where
  "free_sessions env [] n = Inr n"
| "free_sessions env (p # ps) n = rbind (sess_free env p n) (free_sessions env ps)"

definition CTcpServer_Close :: "env \<Rightarrow> sv_state \<Rightarrow> cerror + bool \<times> sv_state" where
  "CTcpServer_Close env s =
     (case s of (sv, n) \<Rightarrow>
        if sv_hListenSocket sv = 0 then Inr (False, sv, n)
        else let h = sv_hListenSocket sv;
                 n1 = snd (sys env (Shutdown h) n);
                 n2 = snd (sys env (Closesocket h) n1);
                 n3 = snd (sys env (StopThread 200) n2);
                 n4 = snd (sys env KillThread n3)
             in rbind (close_clients env (sv_mapSocketSession sv) n4) (\<lambda>n5.
                rbind (free_sessions env (sv_lstFreePool sv) n5) (\<lambda>n6.
                rbind (CSocketSendPool_clear env (sv_sendPool sv, n6)) (\<lambda>(pl, n7).
                  Inr (True, sv\<lparr>sv_hListenSocket := 0, sv_mapSocketSession := [], sv_lstFreePool := [],
                                sv_sendPool := pl\<rparr>, n7)))))"

definition CTcpServer_delete :: "env \<Rightarrow> sv_state \<Rightarrow> cerror + bool \<times> sv_state" where
  "CTcpServer_delete = CTcpServer_Close"

section \<open>The listening thread\<close>

text \<open>\<open>LpLoop\<close>: at the top of the loop; \<open>LpTake h\<close>: \<open>h\<close> accepted, before the pool is asked;
  \<open>LpAlloc h\<close>: the pool was empty; \<open>LpInsert h p\<close>: before \<open>h\<close> is entered in the map;
  \<open>LpPost h p\<close>: entered, before the first receive is posted.\<close>

datatype listen_pc = LpLoop | LpTake int | LpAlloc int | LpInsert int addr | LpPost int addr | LpExit

definition listen_accept :: "env \<Rightarrow> sv_state \<Rightarrow> listen_pc \<times> sv_state" where
  "listen_accept env s =
     (case s of (sv, n) \<Rightarrow>
        let (rs, n1) = sys env IsStop n
        in if is_true rs then (LpExit, sv, n1)
           else let (ra, n2) = sys env (WSAAccept (sv_hListenSocket sv)) n1
                in case ra of
                     Err e \<Rightarrow> (LpLoop, sv, n2)
                   | Ok h \<Rightarrow>
                       let (ro, n3) = sys env (OnAccept h) n2
                       in if \<not> is_true ro
                             \<or> unat (to_u32 (sv_nMaxSocketNum sv)) \<le> length (sv_mapSocketSession sv)
                          then (LpLoop, sv, snd (sys env (Closesocket h) n3))
                          else (LpTake h, sv, n3))"

definition listen_take :: "int \<Rightarrow> sv_state \<Rightarrow> cerror + listen_pc \<times> sv_state" where
  "listen_take h s =
     (case s of (sv, n) \<Rightarrow>
        case sv_lstFreePool sv of
          [] \<Rightarrow> Inr (LpAlloc h, sv, n)
        | p # rest \<Rightarrow> rbind (get_sess p n) (\<lambda>ss.
            Inr (LpInsert h p, sv\<lparr>sv_lstFreePool := rest\<rparr>, put_sess p
              (ss\<lparr>ss_PerHandle := (ss_PerHandle ss)\<lparr>ph_hSocket := h, ph_pSocketSource := sv_this sv\<rparr>\<rparr>) n)))"

definition listen_alloc :: "env \<Rightarrow> int \<Rightarrow> sv_state \<Rightarrow> listen_pc \<times> sv_state" where
  "listen_alloc env h s =
     (case s of (sv, n) \<Rightarrow>
        let (p, n1) = sess_alloc env (nat (src_nRecvBufferSize sv)) n
        in if p = NULL then (LpLoop, sv, snd (sys env (Closesocket h) n1))
           else (LpInsert h p, sv, put_sess p
                  \<lparr>ss_PerHandle = \<lparr>ph_hSocket = h, ph_pSocketSource = sv_this sv, ph_pAttachInfo = NULL\<rparr>,
                   ss_PerIoRecv = \<lparr>io_OperType = RECV_POSTED, io_nLen = src_nRecvBufferSize sv,
                                   io_szBuffer = p + sizeof_SESSION\<rparr>\<rparr> n1))"

definition listen_insert :: "env \<Rightarrow> int \<Rightarrow> addr \<Rightarrow> sv_state \<Rightarrow> listen_pc \<times> sv_state" where
  "listen_insert env h p s =
     (case s of (sv, n) \<Rightarrow>
        (LpPost h p, sv\<lparr>sv_mapSocketSession := smap_insert h p (sv_mapSocketSession sv)\<rparr>,
         snd (sys env (AssociateSocket h p) n)))"

text \<open>\<open>oninit\<close> is what the application's \<open>OnInitSocket\<close> leaves in the session it is given.\<close>

definition listen_post ::
    "env \<Rightarrow> (SOCKET_SESSION \<Rightarrow> addr) \<Rightarrow> int \<Rightarrow> addr \<Rightarrow> sv_state \<Rightarrow> cerror + listen_pc \<times> sv_state" where
  "listen_post env oninit h p s =
     (case s of (sv, n) \<Rightarrow>
        let n1 = snd (sys env (OnInitSocket p) n)
        in rbind (get_sess p n1) (\<lambda>ss.
          let io = (ss_PerIoRecv ss)\<lparr>io_OperType := RECV_POSTED\<rparr>;
              n2 = put_sess p (ss\<lparr>ss_PerHandle := (ss_PerHandle ss)\<lparr>ph_pAttachInfo := oninit ss\<rparr>,
                                  ss_PerIoRecv := io\<rparr>) n1
          in Inr (LpLoop, sv, snd (sys env (WSARecv h (io_szBuffer io) (src_nRecvBufferSize sv)) n2))))"

fun ListenProc_step ::
    "env \<Rightarrow> (SOCKET_SESSION \<Rightarrow> addr) \<Rightarrow> listen_pc \<Rightarrow> sv_state \<Rightarrow> cerror + listen_pc \<times> sv_state" where
  "ListenProc_step env oninit LpLoop s = Inr (listen_accept env s)"
| "ListenProc_step env oninit (LpTake h) s = listen_take h s"
| "ListenProc_step env oninit (LpAlloc h) s = Inr (listen_alloc env h s)"
| "ListenProc_step env oninit (LpInsert h p) s = Inr (listen_insert env h p s)"
| "ListenProc_step env oninit (LpPost h p) s = listen_post env oninit h p s"
| "ListenProc_step env oninit LpExit s = Inr (LpExit, s)"

section \<open>Facts about sessions and the map\<close>

lemma put_sess_fields [simp]:
  "n_sess (put_sess p ss n) = (n_sess n)(p \<mapsto> ss)" "n_io (put_sess p ss n) = n_io n"
  "n_trace (put_sess p ss n) = n_trace n" "n_bytes (put_sess p ss n) = n_bytes n"
  by (simp_all add: put_sess_def)

lemma net_ok_put_sess: "net_ok env n \<Longrightarrow> n_sess n p \<noteq> None \<Longrightarrow> net_ok env (put_sess p ss n)"
  using net_ok_excl(2) [of env n p] by (auto simp: net_ok_def)

lemma get_sess_live: "net_ok env n \<Longrightarrow> n_sess n p \<noteq> None \<Longrightarrow> \<exists>ss. n_sess n p = Some ss \<and> get_sess p n = Inr ss"
  by (auto simp: get_sess_def net_ok_def)

lemma get_sess_Inr: "get_sess p n = Inr ss \<longleftrightarrow> p \<noteq> NULL \<and> n_sess n p = Some ss"
  by (auto simp: get_sess_def split: option.splits)

lemma sess_alloc_spec:
  assumes "net_ok env n" "sess_alloc env k n = (p, n1)"
  shows "net_ok env n1" "n_io n1 = n_io n"
    "p = NULL \<Longrightarrow> n_sess n1 = n_sess n"
    "p \<noteq> NULL \<Longrightarrow> n_sess n p = None \<and> n_sess n1 = (n_sess n)(p \<mapsto> zero_session)"
proof -
  define r where "r = env (n_trace n) (HeapAlloc (sizeof_SESSION + k))"
  have p: "p = ret_ptr r" and t: "n_trace n1 = n_trace n @ [(HeapAlloc (sizeof_SESSION + k), r)]"
    and f: "n_io n1 = n_io n" "p = NULL \<Longrightarrow> n_sess n1 = n_sess n"
      "p \<noteq> NULL \<Longrightarrow> n_sess n1 = (n_sess n)(p \<mapsto> zero_session)"
    using assms(2) by (auto simp: sess_alloc_def sys_def r_def Let_def split: if_splits)
  show "n_io n1 = n_io n" "p = NULL \<Longrightarrow> n_sess n1 = n_sess n" by (rule f, rule f)
  show "p \<noteq> NULL \<Longrightarrow> n_sess n p = None \<and> n_sess n1 = (n_sess n)(p \<mapsto> zero_session)"
    using heap_alloc_fresh(3) [OF assms(1) r_def [symmetric]] p f(3) by simp
  show "net_ok env n1"
  proof (cases "p = NULL")
    case True
    then show ?thesis using assms(1) f t p blocks_alloc_null(1) [of r] by (simp add: net_ok_def)
  next
    case False
    note fr = heap_alloc_fresh [OF assms(1) r_def [symmetric], folded p, OF False]
    show ?thesis using assms(1) fr f(1) f(3) [OF False] False unfolding net_ok_def t fr(4) by auto
  qed
qed

lemma sess_free_spec:
  assumes "net_ok env n" "n_sess n p \<noteq> None"
  shows "\<exists>n'. sess_free env p n = Inr n' \<and> net_ok env n' \<and> n_io n' = n_io n \<and>
    n_sess n' = (n_sess n)(p := None) \<and> n_trace n' = n_trace n @ [(HeapFree p, env (n_trace n) (HeapFree p))]"
proof -
  have x: "n_io n p = None" using net_ok_excl(2) [OF assms] .
  let ?n = "(snd (sys env (HeapFree p) n))\<lparr>n_sess := (n_sess n)(p := None)\<rparr>"
  have "net_ok env ?n" using assms(1) x by (auto simp: net_ok_def blocks_snoc)
  then show ?thesis using assms(2) by (auto simp: sess_free_def)
qed

text \<open>The keys are in strict order. A new key goes in its place; an old one changes nothing.\<close>

definition smap_ok :: "socket_map \<Rightarrow> bool" where
  "smap_ok m \<longleftrightarrow> sorted_wrt (<) (map fst m)"

lemma smap_insert_old: "smap_ok m \<Longrightarrow> k \<in> fst ` set m \<Longrightarrow> smap_insert k v m = m"
proof (induction m)
  case (Cons x m)
  obtain a b where x: "x = (a, b)" by (cases x)
  have lt: "\<And>y. y \<in> fst ` set m \<Longrightarrow> a < y" and "smap_ok m"
    using Cons.prems(1) x by (auto simp: smap_ok_def)
  show ?case
  proof (cases "k = a")
    case False
    then have "k \<in> fst ` set m" using Cons.prems(2) x by auto
    then show ?thesis using Cons.IH \<open>smap_ok m\<close> lt [of k] x by simp
  qed (simp add: x)
qed simp

lemma smap_insert_new:
  "smap_ok m \<Longrightarrow> k \<notin> fst ` set m \<Longrightarrow>
   \<exists>m1 m2. m = m1 @ m2 \<and> smap_insert k v m = m1 @ (k, v) # m2 \<and>
     (\<forall>x \<in> set m1. fst x < k) \<and> (\<forall>x \<in> set m2. k < fst x)"
proof (induction m)
  case (Cons x m)
  obtain a b where x: "x = (a, b)" by (cases x)
  have ok: "smap_ok m" "k \<notin> fst ` set m" "k \<noteq> a" and lt: "\<forall>y \<in> set m. a < fst y"
    using Cons.prems x by (auto simp: smap_ok_def)
  show ?case
  proof (cases "k < a")
    case True
    then have "\<forall>y \<in> set (x # m). k < fst y" using lt x by auto
    then show ?thesis using True x by (intro exI [of _ "[]"] exI [of _ "x # m"]) simp
  next
    case False
    obtain m1 m2 where "m = m1 @ m2" "smap_insert k v m = m1 @ (k, v) # m2"
        "\<forall>x \<in> set m1. fst x < k" "\<forall>x \<in> set m2. k < fst x"
      using Cons.IH ok by blast
    then show ?thesis using False ok(3) x by (intro exI [of _ "x # m1"] exI [of _ m2]) simp
  qed
qed simp

lemma smap_insert_ok: "smap_ok m \<Longrightarrow> smap_ok (smap_insert k v m)"
proof (cases "k \<in> fst ` set m")
  case False
  moreover assume ok: "smap_ok m"
  ultimately obtain m1 m2 where m: "m = m1 @ m2" "smap_insert k v m = m1 @ (k, v) # m2"
      "\<forall>x \<in> set m1. fst x < k" "\<forall>x \<in> set m2. k < fst x"
    using smap_insert_new [of m k v] by blast
  have "smap_ok (m1 @ m2)" using ok m(1) by simp
  then show ?thesis using m(3,4) unfolding m(2) smap_ok_def by (auto simp: sorted_wrt_append)
qed (simp add: smap_insert_old)

lemma smap_ok_distinct: "smap_ok m \<Longrightarrow> distinct (map fst m)"
  by (auto simp: smap_ok_def strict_sorted_iff)

lemma smap_erase_ok: "smap_ok m \<Longrightarrow> smap_ok (smap_erase k m)"
  by (induction m) (auto simp: smap_ok_def smap_erase_def)

lemma smap_erase_split:
  assumes "smap_ok m" "map_of m k = Some p"
  shows "\<exists>m1 m2. m = m1 @ (k, p) # m2 \<and> smap_erase k m = m1 @ m2"
proof -
  obtain m1 m2 where m: "m = m1 @ (k, p) # m2" using map_of_SomeD [OF assms(2)] by (meson split_list)
  have "k \<notin> fst ` set m1" "k \<notin> fst ` set m2" using smap_ok_distinct [OF assms(1)] m by auto
  then have "filter (\<lambda>x. fst x \<noteq> k) m1 = m1" "filter (\<lambda>x. fst x \<noteq> k) m2 = m2" by (auto simp: filter_id_conv)
  then show ?thesis using m by (auto simp: smap_erase_def)
qed

section \<open>The invariant\<close>

fun lp_transit :: "listen_pc \<Rightarrow> addr list" where
  "lp_transit (LpInsert h p) = [p]"
| "lp_transit pc = []"

fun lp_pending :: "listen_pc \<Rightarrow> bool" where
  "lp_pending (LpTake h) = True"
| "lp_pending (LpAlloc h) = True"
| "lp_pending (LpInsert h p) = True"
| "lp_pending pc = False"

definition sv_sessions :: "listen_pc \<Rightarrow> CTcpServer \<Rightarrow> addr list" where
  "sv_sessions pc sv = map snd (sv_mapSocketSession sv) @ sv_lstFreePool sv @ lp_transit pc"

definition sv_max :: "CTcpServer \<Rightarrow> nat" where
  "sv_max sv = unat (to_u32 (sv_nMaxSocketNum sv))"

text \<open>\<open>H\<close> are the send structures that are out of the pool.\<close>

definition sv_inv :: "env \<Rightarrow> listen_pc \<Rightarrow> addr list \<Rightarrow> sv_state \<Rightarrow> bool" where
  "sv_inv env pc H s \<longleftrightarrow>
     net_ok env (snd s) \<and> sndp.exclusive env H (sv_sendPool (fst s), snd s) \<and>
     smap_ok (sv_mapSocketSession (fst s)) \<and> distinct (sv_sessions pc (fst s)) \<and>
     (\<forall>p \<in> set (sv_sessions pc (fst s)). n_sess (snd s) p \<noteq> None) \<and>
     length (sv_mapSocketSession (fst s)) + (if lp_pending pc then 1 else 0) \<le> sv_max (fst s)"

lemma excl_cong:
  "sndp.exclusive env H (pl, n) \<Longrightarrow> net_ok env n' \<Longrightarrow> n_io n' = n_io n \<Longrightarrow> sndp.exclusive env H (pl, n')"
  by (auto simp: sndp.exclusive_def snd_ok_def io_live_def)

lemma sv_invI:
  assumes "sv_inv env pc H s" "net_ok env n'" "n_io n' = n_io (snd s)"
    and "sv_sendPool sv' = sv_sendPool (fst s)" "smap_ok (sv_mapSocketSession sv')"
    and "distinct (sv_sessions pc' sv')" "\<And>p. p \<in> set (sv_sessions pc' sv') \<Longrightarrow> n_sess n' p \<noteq> None"
    and "length (sv_mapSocketSession sv') + (if lp_pending pc' then 1 else 0) \<le> sv_max sv'"
  shows "sv_inv env pc' H (sv', n')"
  using assms excl_cong [of env H _ "snd s" n'] by (cases s) (auto simp: sv_inv_def)

text \<open>A step that leaves the server alone and the sessions alive.\<close>

lemma sv_inv_net:
  assumes "sv_inv env pc H (sv, n)" "net_ok env n'" "n_io n' = n_io n"
    and "\<And>p. n_sess n p \<noteq> None \<Longrightarrow> n_sess n' p \<noteq> None"
  shows "sv_inv env pc H (sv, n')"
  using assms by (intro sv_invI [OF assms(1)]) (auto simp: sv_inv_def)

lemma sv_inv_sys: "sv_inv env pc H (sv, n) \<Longrightarrow> \<not> heap_call c \<Longrightarrow> sv_inv env pc H (sv, snd (sys env c n))"
  by (rule sv_inv_net) (auto simp: sv_inv_def)

lemma sv_inv_map:
  assumes "sv_inv env pc H (sv, n)" "map_of (sv_mapSocketSession sv) h = Some p"
  shows "\<exists>ss. n_sess n p = Some ss \<and> get_sess p n = Inr ss" "p \<in> set (sv_sessions pc sv)"
proof -
  show "p \<in> set (sv_sessions pc sv)"
    using map_of_SomeD [OF assms(2)] by (force simp: sv_sessions_def)
  then have "n_sess n p \<noteq> None" using assms(1) by (simp add: sv_inv_def)
  then show "\<exists>ss. n_sess n p = Some ss \<and> get_sess p n = Inr ss"
    using assms(1) get_sess_live [of env n p] by (simp add: sv_inv_def)
qed

lemma sv_inv_put:
  assumes "sv_inv env pc H (sv, n)" "n_sess n p = Some ss"
  shows "sv_inv env pc H (sv, put_sess p x n)"
proof (rule sv_inv_net [OF assms(1)])
  show "net_ok env (put_sess p x n)" using assms by (intro net_ok_put_sess) (auto simp: sv_inv_def)
qed auto

text \<open>\<open>Disconnect\<close> keeps the invariant and never faults.\<close>

lemma Disconnect_inv:
  assumes inv: "sv_inv env pc H s"
  shows "\<exists>s'. CTcpServer_Disconnect env h f s = Inr (CTcpServer_IsConnected h s, s') \<and> sv_inv env pc H s' \<and>
    sv_mapSocketSession (fst s') = smap_erase h (sv_mapSocketSession (fst s))"
proof -
  obtain sv n where s: "s = (sv, n)" by (cases s)
  show ?thesis
  proof (cases "map_of (sv_mapSocketSession sv) h")
    case None
    then have "smap_erase h (sv_mapSocketSession sv) = sv_mapSocketSession sv"
      by (auto simp: smap_erase_def map_of_eq_None_iff filter_id_conv)
    then show ?thesis using None inv s by (simp add: CTcpServer_Disconnect_def CTcpServer_IsConnected_def)
  next
    case (Some p)
    obtain ss where ss: "n_sess n p = Some ss" "get_sess p n = Inr ss"
      using sv_inv_map(1) [OF inv [unfolded s] Some] by blast
    define n3 where "n3 = snd (sys env (Closesocket h) (snd (sys env (Shutdown h) (snd (sys env (GetPeerName h) n)))))"
    have n3: "net_ok env n3" "n_io n3 = n_io n" "n_sess n3 = n_sess n"
      using inv s unfolding n3_def by (auto simp: sv_inv_def)
    obtain m1 m2 where m: "sv_mapSocketSession sv = m1 @ (h, p) # m2"
        "smap_erase h (sv_mapSocketSession sv) = m1 @ m2"
      using smap_erase_split [of "sv_mapSocketSession sv" h p] inv s Some by (auto simp: sv_inv_def)
    have dis: "distinct (sv_sessions pc sv)" "\<forall>q \<in> set (sv_sessions pc sv). n_sess n q \<noteq> None"
      "smap_ok (sv_mapSocketSession sv)"
      "length (sv_mapSocketSession sv) + (if lp_pending pc then 1 else 0) \<le> sv_max sv"
      using inv s by (auto simp: sv_inv_def)
    have ok': "smap_ok (m1 @ m2)" using smap_erase_ok [OF dis(3), of h] m(2) by simp
    have fin: "\<exists>n'. (if f then n4 else snd (sys env (OnDisconnect h a) n4)) = n' \<and> sv_inv env pc H (sv', n')"
      if "sv_inv env pc H (sv', n4)" for sv' n4 a
      using that sv_inv_sys [OF that, of "OnDisconnect h a"] by auto
    show ?thesis
    proof (cases "unat (to_u32 (sv_nMaxFreePoolNum sv)) \<le> length (sv_lstFreePool sv)")
      case True
      obtain n4 where n4: "sess_free env p n3 = Inr n4" "net_ok env n4" "n_io n4 = n_io n3"
          "n_sess n4 = (n_sess n3)(p := None)"
        using sess_free_spec [OF n3(1), of p] n3(3) ss by auto
      let ?sv = "sv\<lparr>sv_mapSocketSession := m1 @ m2\<rparr>"
      have "sv_inv env pc H (?sv, n4)"
      proof (rule sv_invI [OF inv])
        show "n_io n4 = n_io (snd s)" using n4 n3 s by simp
        show "distinct (sv_sessions pc ?sv)" using dis(1) m(1) by (auto simp: sv_sessions_def)
        show "q \<in> set (sv_sessions pc ?sv) \<Longrightarrow> n_sess n4 q \<noteq> None" for q
          using dis(1,2) m(1) n4(4) n3(3) by (auto simp: sv_sessions_def)
        show "length (sv_mapSocketSession ?sv) + (if lp_pending pc then 1 else 0) \<le> sv_max ?sv"
          using dis(4) m(1) by (simp add: sv_max_def)
      qed (use n4 s ok' in auto)
      from fin [OF this] show ?thesis using s Some ss True n4(1) m(2)
        by (simp add: CTcpServer_Disconnect_def CTcpServer_IsConnected_def Let_def n3_def)
    next
      case False
      let ?sv = "sv\<lparr>sv_lstFreePool := sv_lstFreePool sv @ [p], sv_mapSocketSession := m1 @ m2\<rparr>"
      have "sv_inv env pc H (?sv, n3)"
      proof (rule sv_invI [OF inv])
        show "distinct (sv_sessions pc ?sv)" using dis(1) m(1) by (auto simp: sv_sessions_def)
        show "q \<in> set (sv_sessions pc ?sv) \<Longrightarrow> n_sess n3 q \<noteq> None" for q
          using dis(1,2) m(1) n3(3) by (auto simp: sv_sessions_def)
        show "length (sv_mapSocketSession ?sv) + (if lp_pending pc then 1 else 0) \<le> sv_max ?sv"
          using dis(4) m(1) by (simp add: sv_max_def)
      qed (use n3 s ok' in auto)
      from fin [OF this, of "ph_pAttachInfo (ss_PerHandle ss)"] show ?thesis using s Some ss False m(2)
        by (simp add: CTcpServer_Disconnect_def CTcpServer_IsConnected_def Let_def n3_def [symmetric]
            split: if_splits)
    qed
  qed
qed

section \<open>All steps keep the invariant\<close>

lemma PostRecv_inv:
  assumes inv: "sv_inv env pc H s" and ret: "CTcpServer_PostRecv env h p s = Inr (b, s')"
  shows "sv_inv env pc H s'"
proof -
  obtain sv n where s: "s = (sv, n)" by (cases s)
  obtain ss where ss: "n_sess n p = Some ss" "get_sess p n = Inr ss"
    using ret s by (auto simp: CTcpServer_PostRecv_def res_simps get_sess_Inr)
  define n1 where "n1 = put_sess p (ss\<lparr>ss_PerIoRecv := (ss_PerIoRecv ss)\<lparr>io_OperType := RECV_POSTED\<rparr>\<rparr>) n"
  define c where "c = WSARecv h (io_szBuffer (ss_PerIoRecv ss)) (src_nRecvBufferSize sv)"
  have n1: "sv_inv env pc H (sv, n1)" unfolding n1_def using sv_inv_put [OF _ ss(1)] inv s by simp
  have n2: "sv_inv env pc H (sv, snd (sys env c n1))" by (rule sv_inv_sys [OF n1]) (simp add: c_def)
  have "s' = (sv, snd (sys env c n1)) \<or>
      (\<exists>b. CTcpServer_Disconnect env h False (sv, snd (sys env c n1)) = Inr (b, s'))"
    using ret s ss unfolding CTcpServer_PostRecv_def
    by (auto simp: n1_def [symmetric] c_def [symmetric] sys_def res_simps Let_def
        split: api_ret.splits if_splits)
  then show ?thesis using n2 Disconnect_inv [OF n2, of h False] by auto
qed

lemma SetAttachInfo_inv:
  assumes inv: "sv_inv env pc H s"
  shows "\<exists>s'. CTcpServer_SetAttachInfo h a s = Inr (False, s') \<and> sv_inv env pc H s'"
proof -
  obtain sv n where s: "s = (sv, n)" by (cases s)
  show ?thesis
  proof (cases "map_of (sv_mapSocketSession sv) h")
    case (Some p)
    obtain ss where ss: "n_sess n p = Some ss" "get_sess p n = Inr ss"
      using sv_inv_map(1) [OF inv [unfolded s] Some] by blast
    have "sv_inv env pc H (sv, put_sess p x n)" for x using sv_inv_put [OF _ ss(1)] inv s by simp
    then show ?thesis using s Some ss by (simp add: CTcpServer_SetAttachInfo_def)
  qed (use inv s in \<open>simp add: CTcpServer_SetAttachInfo_def\<close>)
qed

lemma pool_inv:
  assumes inv: "sv_inv env pc H (sv, n)" and ex: "sndp.exclusive env H' (pl, n')"
    and sess: "n_sess n' = n_sess n"
  shows "sv_inv env pc H' (sv\<lparr>sv_sendPool := pl\<rparr>, n')"
proof -
  have "net_ok env n'" using ex by (simp add: sndp.exclusive_def snd_ok_def)
  then show ?thesis using assms by (auto simp: sv_inv_def sv_sessions_def sv_max_def)
qed

text \<open>A sender takes a structure, and a completed send gives it back.\<close>

lemma PostSend_inv:
  assumes inv: "sv_inv env pc H s" and p: "i < length H"
  shows "\<exists>s'. CTcpServer_PostSend env (H ! i) s = Inr (True, s') \<and>
    sv_inv env pc (take i H @ drop (Suc i) H) s'"
proof -
  obtain sv n where s: "s = (sv, n)" by (cases s)
  have ex: "sndp.exclusive env H (sv_sendPool sv, n)" using inv s by (simp add: sv_inv_def)
  then have ok: "snd_ok env (sv_sendPool sv, n)" by (simp add: sndp.exclusive_def)
  obtain H' t where st: "pool_step (CSocketSendPool_pop env 0) (CSocketSendPool_push env) (OpPush i)
      (H, sv_sendPool sv, n) = Inr (H', t)"
    using sndpt.step_total [OF ex, of 0 "OpPush i"] by blast
  then have t: "CSocketSendPool_push env (H ! i) (sv_sendPool sv, n) = Inr t"
      "H' = take i H @ drop (Suc i) H"
    using p by (auto simp: res_simps)
  obtain pl n' where pl: "t = (pl, n')" by (cases t)
  have "sv_inv env pc H' (sv\<lparr>sv_sendPool := pl\<rparr>, n')"
    using pool_inv [OF inv [unfolded s], of H' pl n'] sndp.exclusive_step [OF ex st] snd_push_sess [OF ok t(1)] pl
    by simp
  then show ?thesis using t pl s by (simp add: CTcpServer_PostSend_def)
qed

lemma take_inv:
  assumes inv: "sv_inv env pc H (sv, n)" and pop: "CSocketSendPool_pop env k (sv_sendPool sv, n) = Inr (p, pl, n')"
  shows "sv_inv env pc (if p = NULL then H else p # H) (sv\<lparr>sv_sendPool := pl\<rparr>, n')"
proof -
  have ex: "sndp.exclusive env H (sv_sendPool sv, n)" using inv by (simp add: sv_inv_def)
  then have ok: "snd_ok env (sv_sendPool sv, n)" by (simp add: sndp.exclusive_def)
  have "pool_step (CSocketSendPool_pop env k) (CSocketSendPool_push env) OpPop (H, sv_sendPool sv, n) =
      Inr (if p = NULL then H else p # H, pl, n')"
    using pop by simp
  from sndp.exclusive_step [OF ex this] snd_pop_sess [OF ok pop] pool_inv [OF inv] show ?thesis by simp
qed

text \<open>The listening thread: only the step after the insertion can fault.\<close>

lemma listen_inv:
  assumes inv: "sv_inv env pc H s" and ret: "ListenProc_step env oninit pc s = Inr (pc', s')"
  shows "sv_inv env pc' H s'"
proof -
  obtain sv n where s: "s = (sv, n)" by (cases s)
  note inv' = inv [unfolded s]
  have base: "net_ok env n" "smap_ok (sv_mapSocketSession sv)" "distinct (sv_sessions pc sv)"
    "\<And>p. p \<in> set (sv_sessions pc sv) \<Longrightarrow> n_sess n p \<noteq> None"
    "length (sv_mapSocketSession sv) + (if lp_pending pc then 1 else 0) \<le> sv_max sv"
    using inv' by (auto simp: sv_inv_def)
  show ?thesis
  proof (cases pc)
    case LpLoop
    define n1 where "n1 = snd (sys env IsStop n)"
    define n2 where "n2 = snd (sys env (WSAAccept (sv_hListenSocket sv)) n1)"
    have i: "sv_inv env LpLoop H (sv, n1)" "sv_inv env LpLoop H (sv, n2)"
      unfolding n1_def n2_def using inv' LpLoop by (auto intro!: sv_inv_sys)
    have o: "sv_inv env LpLoop H (sv, snd (sys env (OnAccept h) n2))"
      "sv_inv env LpLoop H (sv, snd (sys env (Closesocket h) (snd (sys env (OnAccept h) n2))))" for h
      using i(2) by (auto intro!: sv_inv_sys)
    have "(pc' = LpExit \<and> s' = (sv, n1)) \<or> (pc' = LpLoop \<and> s' = (sv, n2)) \<or>
      (\<exists>h. pc' = LpLoop \<and> s' = (sv, snd (sys env (Closesocket h) (snd (sys env (OnAccept h) n2))))) \<or>
      (\<exists>h. pc' = LpTake h \<and> s' = (sv, snd (sys env (OnAccept h) n2)) \<and>
         length (sv_mapSocketSession sv) < sv_max sv)"
      using ret LpLoop s
      by (auto simp: listen_accept_def Let_def sv_max_def n1_def n2_def sys_def split: api_ret.splits if_splits)
    moreover have "sv_inv env LpLoop H (sv, m) \<Longrightarrow> sv_inv env LpExit H (sv, m)" for m
      by (simp add: sv_inv_def sv_sessions_def)
    moreover have "sv_inv env LpLoop H (sv, m) \<Longrightarrow> length (sv_mapSocketSession sv) < sv_max sv \<Longrightarrow>
        sv_inv env (LpTake h) H (sv, m)" for m h
      by (simp add: sv_inv_def sv_sessions_def)
    ultimately show ?thesis using i o by auto
  next
    case (LpTake h)
    show ?thesis
    proof (cases "sv_lstFreePool sv")
      case Nil
      then show ?thesis using ret LpTake s inv' by (auto simp: listen_take_def sv_inv_def sv_sessions_def)
    next
      case (Cons p rest)
      have live: "n_sess n p \<noteq> None" using base(4) Cons by (simp add: sv_sessions_def)
      obtain ss where ss: "get_sess p n = Inr ss" using get_sess_live [OF base(1) live] by blast
      obtain x where x: "s' = (sv\<lparr>sv_lstFreePool := rest\<rparr>, put_sess p x n)" "pc' = LpInsert h p"
        using ret LpTake s Cons ss by (auto simp: listen_take_def)
      show ?thesis unfolding x
      proof (rule sv_invI [OF inv])
        show "net_ok env (put_sess p x n)" by (rule net_ok_put_sess [OF base(1) live])
        show "distinct (sv_sessions (LpInsert h p) (sv\<lparr>sv_lstFreePool := rest\<rparr>))"
          using base(3) Cons LpTake by (auto simp: sv_sessions_def)
        show "q \<in> set (sv_sessions (LpInsert h p) (sv\<lparr>sv_lstFreePool := rest\<rparr>)) \<Longrightarrow> n_sess (put_sess p x n) q \<noteq> None" for q
          using base(4) Cons by (auto simp: sv_sessions_def)
      qed (use base LpTake s in \<open>auto simp: sv_max_def\<close>)
    qed
  next
    case (LpAlloc h)
    obtain p n1 where al: "sess_alloc env (nat (src_nRecvBufferSize sv)) n = (p, n1)" by fastforce
    note sp = sess_alloc_spec [OF base(1) al]
    show ?thesis
    proof (cases "p = NULL")
      case True
      then have x: "pc' = LpLoop" "s' = (sv, snd (sys env (Closesocket h) n1))"
        using ret LpAlloc s al by (auto simp: listen_alloc_def)
      show ?thesis unfolding x
        using base LpAlloc sp(1-3) True s by (intro sv_invI [OF inv]) (auto simp: sv_sessions_def)
    next
      case False
      obtain x where x: "pc' = LpInsert h p" "s' = (sv, put_sess p x n1)"
        using ret LpAlloc s al False by (auto simp: listen_alloc_def)
      have new: "p \<notin> set (sv_sessions pc sv)" using sp(4) [OF False] base(4) [of p] by auto
      show ?thesis unfolding x
      proof (rule sv_invI [OF inv])
        show "net_ok env (put_sess p x n1)" using sp(1) sp(4) [OF False] by (intro net_ok_put_sess) auto
        show "distinct (sv_sessions (LpInsert h p) sv)"
          using base(3) new LpAlloc by (auto simp: sv_sessions_def)
        show "q \<in> set (sv_sessions (LpInsert h p) sv) \<Longrightarrow> n_sess (put_sess p x n1) q \<noteq> None" for q
          using base(4) sp(4) [OF False] LpAlloc by (auto simp: sv_sessions_def)
      qed (use base LpAlloc s sp(2) in auto)
    qed
  next
    case (LpInsert h p)
    let ?m = "sv_mapSocketSession sv" and ?m' = "smap_insert h p (sv_mapSocketSession sv)"
    have x: "pc' = LpPost h p" "s' = (sv\<lparr>sv_mapSocketSession := ?m'\<rparr>, snd (sys env (AssociateSocket h p) n))"
      using ret LpInsert s by (auto simp: listen_insert_def)
    have d: "distinct (map snd ?m @ sv_lstFreePool sv @ [p])" using base(3) LpInsert by (simp add: sv_sessions_def)
    have m': "length ?m' \<le> Suc (length ?m) \<and> distinct (map snd ?m' @ sv_lstFreePool sv) \<and>
        set (map snd ?m') \<subseteq> insert p (set (map snd ?m))"
    proof (cases "h \<in> fst ` set ?m")
      case True
      then show ?thesis using smap_insert_old [OF base(2) True] d by auto
    next
      case False
      obtain m1 m2 where "?m = m1 @ m2" "?m' = m1 @ (h, p) # m2"
        using smap_insert_new [OF base(2) False] by blast
      then show ?thesis using d by auto
    qed
    show ?thesis unfolding x
    proof (rule sv_invI [OF inv])
      show "q \<in> set (sv_sessions (LpPost h p) (sv\<lparr>sv_mapSocketSession := ?m'\<rparr>)) \<Longrightarrow>
          n_sess (snd (sys env (AssociateSocket h p) n)) q \<noteq> None" for q
      proof -
        assume "q \<in> set (sv_sessions (LpPost h p) (sv\<lparr>sv_mapSocketSession := ?m'\<rparr>))"
        then have "q \<in> set (map snd ?m') \<or> q \<in> set (sv_lstFreePool sv)" by (auto simp: sv_sessions_def)
        then have "q \<in> set (sv_sessions pc sv)" using m' LpInsert by (auto simp: sv_sessions_def)
        then show ?thesis using base(4) by simp
      qed
    qed (use base LpInsert s m' smap_insert_ok in \<open>auto simp: sv_sessions_def sv_max_def\<close>)
  next
    case (LpPost h p)
    obtain ss where ss: "n_sess n p = Some ss" "p \<noteq> NULL"
      using ret LpPost s by (auto simp: listen_post_def Let_def res_simps get_sess_Inr)
    obtain y b where y: "pc' = LpLoop"
        "s' = (sv, snd (sys env (WSARecv h b (src_nRecvBufferSize sv)) (put_sess p y (snd (sys env (OnInitSocket p) n)))))"
      using ret LpPost s by (auto simp: listen_post_def Let_def res_simps)
    define c where "c = WSARecv h b (src_nRecvBufferSize sv)"
    have x: "pc' = LpLoop" "\<not> heap_call c"
        "s' = (sv, snd (sys env c (put_sess p y (snd (sys env (OnInitSocket p) n)))))"
      using y by (simp_all add: c_def)
    have "net_ok env (put_sess p y (snd (sys env (OnInitSocket p) n)))"
      using base(1) ss by (intro net_ok_put_sess) auto
    then show ?thesis unfolding x
      using base LpPost x(2) s by (intro sv_invI [OF inv]) (auto simp: sv_sessions_def)
  next
    case LpExit
    then show ?thesis using ret inv by simp
  qed
qed

lemma listen_total:
  assumes inv: "sv_inv env pc H s" and pc: "\<And>h p. pc \<noteq> LpPost h p"
  shows "\<exists>pc' s'. ListenProc_step env oninit pc s = Inr (pc', s')"
proof (cases pc)
  case (LpTake h)
  obtain sv n where s: "s = (sv, n)" by (cases s)
  have "p \<in> set (sv_lstFreePool sv) \<Longrightarrow> \<exists>ss. get_sess p n = Inr ss" for p
    using inv s get_sess_live [of env n p] by (auto simp: sv_inv_def sv_sessions_def)
  then show ?thesis using LpTake s by (cases "sv_lstFreePool sv") (fastforce simp: listen_take_def)+
qed (use pc in \<open>simp_all add: prod_eq_iff\<close>)

section \<open>The server as a transition system\<close>

text \<open>The listening thread, and the threads of the application and of the runner: they
  disconnect, attach, post receives, take a send structure from the pool and give a completed
  one back; the application is called and makes calls of its own, and data arrive in memory.\<close>

type_synonym sv_sys = "listen_pc \<times> addr list \<times> sv_state"

inductive sv_step :: "env \<Rightarrow> (SOCKET_SESSION \<Rightarrow> addr) \<Rightarrow> sv_sys \<Rightarrow> sv_sys \<Rightarrow> bool" for env oninit where
  listen: "ListenProc_step env oninit pc s = Inr (pc', s') \<Longrightarrow> sv_step env oninit (pc, H, s) (pc', H, s')"
| disconnect: "CTcpServer_Disconnect env h f s = Inr (b, s') \<Longrightarrow> sv_step env oninit (pc, H, s) (pc, H, s')"
| attach: "CTcpServer_SetAttachInfo h a s = Inr (b, s') \<Longrightarrow> sv_step env oninit (pc, H, s) (pc, H, s')"
| recv: "CTcpServer_PostRecv env h p s = Inr (b, s') \<Longrightarrow> sv_step env oninit (pc, H, s) (pc, H, s')"
| take: "CSocketSendPool_pop env k (sv_sendPool sv, n) = Inr (p, pl, n') \<Longrightarrow>
    sv_step env oninit (pc, H, sv, n) (pc, if p = NULL then H else p # H, sv\<lparr>sv_sendPool := pl\<rparr>, n')"
| complete: "i < length H \<Longrightarrow> CTcpServer_PostSend env (H ! i) s = Inr (b, s') \<Longrightarrow>
    sv_step env oninit (pc, H, s) (pc, take i H @ drop (Suc i) H, s')"
| event: "\<not> heap_call c \<Longrightarrow> sv_step env oninit (pc, H, sv, n) (pc, H, sv, snd (sys env c n))"
| arrive: "sv_step env oninit (pc, H, sv, n) (pc, H, sv, n\<lparr>n_bytes := m\<rparr>)"

inductive_cases sv_stepE [consumes 1, case_names listen disconnect attach recv take complete event arrive]:
  "sv_step env oninit (pc, H, s) (pc', H', s')"

lemma sv_step_inv:
  assumes "sv_step env oninit (pc, H, s) (pc', H', s')" "sv_inv env pc H s"
  shows "sv_inv env pc' H' s'"
  using assms(1)
proof (cases rule: sv_stepE)
  case listen
  then show ?thesis using listen_inv assms(2) by blast
next
  case (disconnect h f b)
  then show ?thesis using Disconnect_inv [OF assms(2), of h f] by auto
next
  case (attach h a b)
  then show ?thesis using SetAttachInfo_inv [OF assms(2), of h a] by auto
next
  case (recv h p b)
  then show ?thesis using PostRecv_inv assms(2) by blast
next
  case (take k sv n p pl n')
  then show ?thesis using take_inv [of env pc H sv n k p pl n'] assms(2) by simp
next
  case (complete i b)
  then show ?thesis using PostSend_inv [OF assms(2), of i] by auto
next
  case (event c sv n)
  then show ?thesis using sv_inv_sys [of env pc H sv n c] assms(2) by simp
next
  case (arrive sv n m)
  then show ?thesis using sv_inv_net [of env pc H sv n "n\<lparr>n_bytes := m\<rparr>"] assms(2)
    by (simp add: sv_inv_def net_ok_def)
qed

lemma sv_reach_inv:
  "(sv_step env oninit)\<^sup>*\<^sup>* x y \<Longrightarrow> sv_inv env (fst x) (fst (snd x)) (snd (snd x)) \<Longrightarrow>
   sv_inv env (fst y) (fst (snd y)) (snd (snd y))"
proof (induction rule: rtranclp_induct)
  case (step y z)
  then show ?case using sv_step_inv [of env oninit "fst y" "fst (snd y)" "snd (snd y)"] by simp
qed

section \<open>Opening establishes the invariant\<close>

lemma open_pool_inv:
  "open_pool env i s = (b, s') \<Longrightarrow> sv_inv env LpLoop H s \<Longrightarrow>
   sv_inv env LpLoop H s' \<and> sv_sendPool (fst s') = sv_sendPool (fst s) \<and>
   (b \<longrightarrow> length (sv_lstFreePool (fst s')) = length (sv_lstFreePool (fst s)) + i)"
proof (induction i arbitrary: s)
  case (Suc i)
  obtain sv n where s: "s = (sv, n)" by (cases s)
  obtain p n1 where al: "sess_alloc env (nat (src_nRecvBufferSize sv)) n = (p, n1)" by fastforce
  have base: "net_ok env n" "smap_ok (sv_mapSocketSession sv)" "distinct (sv_sessions LpLoop sv)"
    "\<And>p. p \<in> set (sv_sessions LpLoop sv) \<Longrightarrow> n_sess n p \<noteq> None"
    "length (sv_mapSocketSession sv) \<le> sv_max sv"
    using Suc.prems(2) s by (auto simp: sv_inv_def)
  note sp = sess_alloc_spec [OF base(1) al]
  show ?case
  proof (cases "p = NULL")
    case True
    then have "b = False" "s' = (sv, n1)" using Suc.prems(1) s al by auto
    moreover have "sv_inv env LpLoop H (sv, n1)"
      using sp(1-3) True by (intro sv_inv_net [OF Suc.prems(2) [unfolded s]]) auto
    ultimately show ?thesis using s by simp
  next
    case False
    let ?sv = "sv\<lparr>sv_lstFreePool := sv_lstFreePool sv @ [p]\<rparr>"
    obtain x where x: "open_pool env i (?sv, put_sess p x n1) = (b, s')"
      using Suc.prems(1) s al False by (auto simp: Let_def)
    have new: "p \<notin> set (sv_sessions LpLoop sv)" using sp(4) [OF False] base(4) [of p] by auto
    have "sv_inv env LpLoop H (?sv, put_sess p x n1)"
    proof (rule sv_invI [OF Suc.prems(2)])
      show "net_ok env (put_sess p x n1)" using sp(1) sp(4) [OF False] by (intro net_ok_put_sess) auto
      show "distinct (sv_sessions LpLoop ?sv)"
        using base(3) new by (auto simp: sv_sessions_def)
      show "q \<in> set (sv_sessions LpLoop ?sv) \<Longrightarrow> n_sess (put_sess p x n1) q \<noteq> None" for q
        using base(4) [of q] sp(4) [OF False] by (auto simp: sv_sessions_def)
    qed (use base s sp(2) in \<open>auto simp: sv_max_def\<close>)
    with Suc.IH [OF x] s show ?thesis by simp
  qed
qed simp

definition sv_fresh :: "CTcpServer \<Rightarrow> bool" where
  "sv_fresh sv \<longleftrightarrow> sv_mapSocketSession sv = [] \<and> sv_lstFreePool sv = [] \<and> snd_objFreeList (sv_sendPool sv) = []"

lemma Open_inv:
  assumes "net_ok env n" "sv_fresh sv" "CTcpServer_Open env nPort nBacklog (sv, n) = Inr (True, s')"
  shows "sv_inv env LpLoop [] s' \<and>
    length (sv_lstFreePool (fst s')) = nat (sv_nDefaultFreePoolNum sv)"
proof -
  have inv: "sv_inv env LpLoop [] (sv, n)"
    using assms(1,2) by (auto simp: sv_inv_def sv_fresh_def sv_sessions_def sndp.exclusive_def snd_ok_def smap_ok_def)
  define h where "h = (case fst (sys env WSASocketTcp n) of Ok v \<Rightarrow> v | Err e \<Rightarrow> INVALID_SOCKET)"
  define sv1 where "sv1 = sv\<lparr>sv_hListenSocket := h\<rparr>"
  define n3 where "n3 = snd (sys env (Listen h nBacklog) (snd (sys env (Bind h [] (uint nPort)) (snd (sys env WSASocketTcp n)))))"
  obtain b sv2 n4 where op: "open_pool env (nat (sv_nDefaultFreePoolNum sv1)) (sv1, n3) = (b, sv2, n4)"
    by (metis prod.exhaust)
  define n5 where "n5 = snd (sys env StartThread n4)"
  have inv1: "sv_inv env LpLoop [] (sv1, n3)"
    using inv assms(1) by (intro sv_invI [OF inv]) (auto simp: sv1_def n3_def sv_inv_def sv_sessions_def sv_max_def)
  note opi = open_pool_inv [OF op inv1]
  have r: "b" "rbind (CSocketSendPool_init env (to_u32 (sv_nMaxSocketNum sv2)) 100 4 (sv_sendPool sv2, n5))
      (\<lambda>(pl, n6). Inr (True, sv2\<lparr>sv_sendPool := pl\<rparr>, n6)) = Inr (True, s')"
    using assms(3) op unfolding CTcpServer_Open_def
    by (auto simp: Let_def h_def sv1_def n3_def n5_def sys_def split: if_splits api_ret.splits)
  have inv5: "sv_inv env LpLoop [] (sv2, n5)" unfolding n5_def using opi by (intro sv_inv_sys) auto
  have "snd_objFreeList (sv_sendPool sv2) = []" using opi assms(2) by (simp add: sv1_def sv_fresh_def)
  then obtain pl where pl: "s' = (sv2\<lparr>sv_sendPool := pl\<rparr>, n5)" "snd_objFreeList pl = []"
    using r(2) by (auto simp: CSocketSendPool_init_def CSocketSendPool_clear_def)
  have "net_ok env n5" using inv5 by (simp add: sv_inv_def)
  then have "sndp.exclusive env [] (pl, n5)" using pl(2) by (simp add: sndp.exclusive_def snd_ok_def)
  then have "sv_inv env LpLoop [] s'" using pool_inv [OF inv5, of "[]" pl n5] pl(1) by simp
  moreover have "length (sv_lstFreePool (fst s')) = nat (sv_nDefaultFreePoolNum sv)"
    using opi r(1) pl(1) assms(2) by (simp add: sv1_def sv_fresh_def)
  ultimately show ?thesis by simp
qed

lemma sv_fresh_new: "sv_fresh (CTcpServer_SetConfig a b c (CTcpServer_new junk this))"
  by (simp add: sv_fresh_def CTcpServer_SetConfig_def CTcpServer_new_def CSocketSendPool_new_def
      CSocketSource.extend_def CTcpServer.fields_def)

section \<open>Closing\<close>

definition sess_remove :: "addr list \<Rightarrow> net \<Rightarrow> addr \<Rightarrow> SOCKET_SESSION option" where
  "sess_remove ps n p = (if p \<in> set ps then None else n_sess n p)"

lemma close_clients_spec:
  "net_ok env n \<Longrightarrow> distinct (map snd m) \<Longrightarrow> \<forall>p \<in> set (map snd m). n_sess n p \<noteq> None \<Longrightarrow>
   \<exists>n' t. close_clients env m n = Inr n' \<and> net_ok env n' \<and> n_io n' = n_io n \<and>
     n_sess n' = sess_remove (map snd m) n \<and> n_trace n' = n_trace n @ t \<and>
     closed_sockets t = map fst m \<and> freed_blocks t = map snd m"
proof (induction m arbitrary: n)
  case Nil
  then show ?case by (intro exI [of _ n] exI [of _ "[]"]) (auto simp: sess_remove_def)
next
  case (Cons x m)
  obtain h p where x: "x = (h, p)" by (cases x)
  define n2 where "n2 = snd (sys env (Closesocket h) (snd (sys env (Shutdown h) n)))"
  have n2: "net_ok env n2" "n_io n2 = n_io n" "n_sess n2 = n_sess n"
    using Cons.prems(1) by (simp_all add: n2_def)
  then obtain n3 where n3: "sess_free env p n2 = Inr n3" "net_ok env n3" "n_io n3 = n_io n"
      "n_sess n3 = (n_sess n)(p := None)" "n_trace n3 = n_trace n2 @ [(HeapFree p, env (n_trace n2) (HeapFree p))]"
    using sess_free_spec [of env n2 p] Cons.prems(3) x by auto
  have "\<forall>q \<in> set (map snd m). n_sess n3 q \<noteq> None" using Cons.prems(2,3) x n3(4) by auto
  then obtain n' t where ih: "close_clients env m n3 = Inr n'" "net_ok env n'" "n_io n' = n_io n3"
      "n_sess n' = sess_remove (map snd m) n3" "n_trace n' = n_trace n3 @ t"
      "closed_sockets t = map fst m" "freed_blocks t = map snd m"
    using Cons.IH [OF n3(2)] Cons.prems(2) by auto
  have sess: "n_sess n' = sess_remove (map snd (x # m)) n" using ih(4) n3(4) x by (auto simp: sess_remove_def)
  have "\<exists>t0. n_trace n3 = n_trace n @ t0 \<and> closed_sockets t0 = [h] \<and> freed_blocks t0 = [p]"
    using n3(5) by (simp add: n2_def)
  then obtain t0 where t0: "n_trace n3 = n_trace n @ t0" "closed_sockets t0 = [h]" "freed_blocks t0 = [p]"
    by blast
  then show ?case using ih n3(1,3) x sess
    by (intro exI [of _ n'] exI [of _ "t0 @ t"]) (simp add: Let_def n2_def [symmetric])
qed

lemma free_sessions_spec:
  "net_ok env n \<Longrightarrow> distinct ps \<Longrightarrow> \<forall>p \<in> set ps. n_sess n p \<noteq> None \<Longrightarrow>
   \<exists>n' t. free_sessions env ps n = Inr n' \<and> net_ok env n' \<and> n_io n' = n_io n \<and>
     n_sess n' = sess_remove ps n \<and> n_trace n' = n_trace n @ t \<and>
     closed_sockets t = [] \<and> freed_blocks t = ps"
proof (induction ps arbitrary: n)
  case Nil
  then show ?case by (intro exI [of _ n] exI [of _ "[]"]) (auto simp: sess_remove_def)
next
  case (Cons p ps)
  then obtain n3 where n3: "sess_free env p n = Inr n3" "net_ok env n3" "n_io n3 = n_io n"
      "n_sess n3 = (n_sess n)(p := None)" "n_trace n3 = n_trace n @ [(HeapFree p, env (n_trace n) (HeapFree p))]"
    using sess_free_spec [of env n p] by auto
  have "\<forall>q \<in> set ps. n_sess n3 q \<noteq> None" using Cons.prems(2,3) n3(4) by auto
  then obtain n' t where ih: "free_sessions env ps n3 = Inr n'" "net_ok env n'" "n_io n' = n_io n3"
      "n_sess n' = sess_remove ps n3" "n_trace n' = n_trace n3 @ t" "closed_sockets t = []" "freed_blocks t = ps"
    using Cons.IH [OF n3(2)] Cons.prems(2) by auto
  have "n_sess n' = sess_remove (p # ps) n" using ih(4) n3(4) by (auto simp: sess_remove_def)
  then show ?case using ih n3 by auto
qed

end
