(* ===== verification/TcpServerProps.thy ===== *)
theory TcpServerProps
  imports TcpServer
begin

text \<open>
  What holds of \<open>CTcpServer\<close>: of every state that the threads can reach (sessions and send
  structures have one owner, nothing but the listening thread's last step can fault), of
  \<open>Close\<close>, of \<open>Send\<close> and of the attached pointers; and runs of the code that go wrong.
\<close>

section \<open>Reachable states\<close>

text \<open>
  C10. After \<open>Open\<close> of a new server has succeeded, whatever the listening thread and the other
  threads do, in any interleaving: the sessions in the map, in the free pool and in the hands
  of the listening thread are pairwise different live heap blocks; the send structures in use
  are different, live and not in the pool; the keys of the map are in strict order, and the map
  never has more entries than the configured maximum.
\<close>

theorem tcp_server_sessions:
  assumes "net_ok env n"
    and "sv_fresh sv0" "CTcpServer_Open env nPort nBacklog (sv0, n) = Inr (True, s0)"
    and "(sv_step env oninit)\<^sup>*\<^sup>* (LpLoop, [], s0) (pc, H, s)"
  shows "distinct (sv_sessions pc (fst s)) \<and> (\<forall>p \<in> set (sv_sessions pc (fst s)). n_sess (snd s) p \<noteq> None) \<and>
    distinct H \<and> (\<forall>p \<in> set H. n_io (snd s) p \<noteq> None \<and> p \<notin> set (snd_objFreeList (sv_sendPool (fst s)))) \<and>
    smap_ok (sv_mapSocketSession (fst s)) \<and> length (sv_mapSocketSession (fst s)) \<le> sv_max (fst s)"
proof -
  have "sv_inv env LpLoop [] s0" using Open_inv [OF assms(1-3)] by simp
  then have "sv_inv env pc H s" using sv_reach_inv [OF assms(4)] by simp
  then show ?thesis by (auto simp: sv_inv_def sndp.exclusive_def io_live_def split: if_splits)
qed


text \<open>
  C12. \<open>Close\<close> in such a state does not fault. It closes the listening socket and every
  connected socket once, gives every session and every free send structure back to the heap
  exactly once, leaves all lists empty, and a second \<open>Close\<close> does nothing.
\<close>

theorem tcp_server_close:
  assumes "sv_inv env pc H (sv, n)" "sv_hListenSocket sv \<noteq> 0"
  shows "\<exists>sv' n' t. CTcpServer_Close env (sv, n) = Inr (True, sv', n') \<and>
    sv_mapSocketSession sv' = [] \<and> sv_lstFreePool sv' = [] \<and> snd_objFreeList (sv_sendPool sv') = [] \<and>
    CTcpServer_Close env (sv', n') = Inr (False, sv', n') \<and> n_trace n' = n_trace n @ t \<and>
    closed_sockets t = sv_hListenSocket sv # map fst (sv_mapSocketSession sv) \<and>
    freed_blocks t = map snd (sv_mapSocketSession sv) @ sv_lstFreePool sv @ snd_objFreeList (sv_sendPool sv) \<and>
    distinct (freed_blocks t) \<and>
    n_sess n' = sess_remove (map snd (sv_mapSocketSession sv) @ sv_lstFreePool sv) n"
proof -
  let ?m = "sv_mapSocketSession sv" and ?f = "sv_lstFreePool sv" and ?q = "snd_objFreeList (sv_sendPool sv)"
  have nok: "net_ok env n" and dis: "distinct (map snd ?m @ ?f)"
    and live: "\<forall>p \<in> set (map snd ?m @ ?f). n_sess n p \<noteq> None"
    and pool: "distinct ?q" "\<forall>p \<in> set ?q. n_io n p \<noteq> None"
    using assms(1) by (auto simp: sv_inv_def sv_sessions_def sndp.exclusive_def snd_ok_def io_live_def)
  define h where "h = sv_hListenSocket sv"
  define n4 where "n4 = snd (sys env KillThread (snd (sys env (StopThread 200)
      (snd (sys env (Closesocket h) (snd (sys env (Shutdown h) n)))))))"
  have n4: "net_ok env n4" "n_io n4 = n_io n" "n_sess n4 = n_sess n" using nok by (simp_all add: n4_def)
  have t4: "\<exists>t. n_trace n4 = n_trace n @ t \<and> closed_sockets t = [h] \<and> freed_blocks t = []"
    by (simp add: n4_def)
  then obtain t4 where t4: "n_trace n4 = n_trace n @ t4" "closed_sockets t4 = [h]" "freed_blocks t4 = []"
    by blast
  obtain n5 t5 where c5: "close_clients env ?m n4 = Inr n5" "net_ok env n5" "n_io n5 = n_io n"
      "n_sess n5 = sess_remove (map snd ?m) n4" "n_trace n5 = n_trace n4 @ t5"
      "closed_sockets t5 = map fst ?m" "freed_blocks t5 = map snd ?m"
    using close_clients_spec [OF n4(1), of ?m] dis live n4 by auto
  have "\<forall>p \<in> set ?f. n_sess n5 p \<noteq> None" using dis live c5(4) n4(3) by (auto simp: sess_remove_def)
  then obtain n6 t6 where c6: "free_sessions env ?f n5 = Inr n6" "net_ok env n6" "n_io n6 = n_io n"
      "n_sess n6 = sess_remove ?f n5" "n_trace n6 = n_trace n5 @ t6" "closed_sockets t6 = []"
      "freed_blocks t6 = ?f"
    using free_sessions_spec [OF c5(2), of ?f] dis c5(3) by auto
  obtain n7 t7 where c7: "snd_free_all env ?q n6 = Inr n7" "net_ok env n7" "n_sess n7 = n_sess n6"
      "n_trace n7 = n_trace n6 @ t7" "closed_sockets t7 = []" "freed_blocks t7 = ?q"
    using snd_free_all_spec [OF c6(2), of ?q] pool c6(3) by auto
  let ?sv = "sv\<lparr>sv_hListenSocket := 0, sv_mapSocketSession := [], sv_lstFreePool := [],
                sv_sendPool := (sv_sendPool sv)\<lparr>snd_objFreeList := []\<rparr>\<rparr>"
  have close: "CTcpServer_Close env (sv, n) = Inr (True, ?sv, n7)"
    using assms(2) c5(1) c6(1) c7(1)
    by (simp add: CTcpServer_Close_def CSocketSendPool_clear_def Let_def h_def [symmetric] n4_def [symmetric])
  have sess: "n_sess n7 = sess_remove (map snd ?m @ ?f) n"
    using c5(4) c6(4) c7(3) n4(3) by (auto simp: sess_remove_def)
  have "set ?q \<inter> set (map snd ?m @ ?f) = {}"
    using pool(2) live net_ok_excl [OF nok] by (meson disjoint_iff)
  then have "distinct (map snd ?m @ ?f @ ?q)" using dis pool(1) by auto
  then show ?thesis using close sess t4 c5(5-7) c6(5-7) c7(4-6)
    by (intro exI [of _ ?sv] exI [of _ n7] exI [of _ "t4 @ t5 @ t6 @ t7"])
      (simp add: h_def CTcpServer_Close_def)
qed

section \<open>Sending\<close>

text \<open>What \<open>Disconnect\<close> leaves alone.\<close>

lemma Disconnect_frame:
  assumes inv: "sv_inv env pc H (sv, n)" and ret: "CTcpServer_Disconnect env h f (sv, n) = Inr (b, sv', n')"
  shows "n_bytes n' = n_bytes n" "n_io n' = n_io n" "sv_sendPool sv' = sv_sendPool sv"
    "\<And>q. n_io n q \<noteq> None \<Longrightarrow> blocks (n_trace n') q = blocks (n_trace n) q"
    "\<And>q a. blocks (n_trace n') q = Some a \<Longrightarrow> blocks (n_trace n) q = Some a"
    "\<exists>t. n_trace n' = n_trace n @ t \<and> (\<forall>y \<in> set t. call_bytes (fst y) = None)"
proof -
  have nok: "net_ok env n" using inv by (simp add: sv_inv_def)
  have "n_bytes n' = n_bytes n \<and> n_io n' = n_io n \<and> sv_sendPool sv' = sv_sendPool sv \<and>
    (\<exists>t. n_trace n' = n_trace n @ t \<and> (\<forall>y \<in> set t. call_bytes (fst y) = None)) \<and>
    (\<exists>p. n_io n p = None \<and> (\<forall>q. blocks (n_trace n') q = blocks (n_trace n) q \<or> q = p \<and> blocks (n_trace n') q = None))"
  proof (cases "map_of (sv_mapSocketSession sv) h")
    case None
    have "n_io n NULL = None" using nok by (auto simp: net_ok_def)
    then show ?thesis using None ret by (auto simp: CTcpServer_Disconnect_def)
  next
    case (Some p)
    obtain ss where ss: "n_sess n p = Some ss" "get_sess p n = Inr ss"
      using sv_inv_map(1) [OF inv Some] by blast
    have iop: "n_io n p = None" using net_ok_excl(2) [OF nok, of p] ss by simp
    define n3 where "n3 = snd (sys env (Closesocket h) (snd (sys env (Shutdown h) (snd (sys env (GetPeerName h) n)))))"
    have n3: "n_io n3 = n_io n" "n_sess n3 = n_sess n" "n_bytes n3 = n_bytes n"
      "\<exists>t. n_trace n3 = n_trace n @ t \<and> (\<forall>y \<in> set t. call_bytes (fst y) = None)"
      "blocks (n_trace n3) = blocks (n_trace n)"
      by (simp_all add: n3_def blocks_def)
    have tail: "n_bytes n' = n_bytes m \<and> n_io n' = n_io m \<and> blocks (n_trace n') = blocks (n_trace m) \<and>
        (\<exists>t. n_trace n' = n_trace m @ t \<and> (\<forall>y \<in> set t. call_bytes (fst y) = None))"
      if "n' = (if f then m else snd (sys env (OnDisconnect h a) m))" for m a
      using that by (simp add: blocks_sys)
    show ?thesis
    proof (cases "unat (to_u32 (sv_nMaxFreePoolNum sv)) \<le> length (sv_lstFreePool sv)")
      case True
      obtain n4 where n4: "sess_free env p n3 = Inr n4" "n_io n4 = n_io n3" "n_bytes n4 = n_bytes n3"
        "n_trace n4 = n_trace n3 @ [(HeapFree p, env (n_trace n3) (HeapFree p))]"
        using ss n3(2) by (simp add: sess_free_def)
      have e: "n' = (if f then n4 else snd (sys env (OnDisconnect h (ph_pAttachInfo (ss_PerHandle ss))) n4))"
        "sv_sendPool sv' = sv_sendPool sv"
        using ret Some ss True n4(1)
        by (auto simp: CTcpServer_Disconnect_def Let_def n3_def [symmetric])
      have "blocks (n_trace n4) = (blocks (n_trace n))(p := None)" using n4(4) n3(5) by (simp add: blocks_snoc)
      moreover have "\<exists>t. n_trace n4 = n_trace n @ t \<and> (\<forall>y \<in> set t. call_bytes (fst y) = None)"
        using n3(4) n4(4) by auto
      ultimately show ?thesis using tail [OF e(1)] e(2) n4(2,3) n3(1,3) iop by fastforce
    next
      case False
      have e: "n' = (if f then n3 else snd (sys env (OnDisconnect h (ph_pAttachInfo (ss_PerHandle ss))) n3))"
        "sv_sendPool sv' = sv_sendPool sv"
        using ret Some ss False
        by (auto simp: CTcpServer_Disconnect_def Let_def n3_def [symmetric])
      then show ?thesis using tail [OF e(1)] n3 iop by fastforce
    qed
  qed
  note all = this
  show "n_bytes n' = n_bytes n" "n_io n' = n_io n" "sv_sendPool sv' = sv_sendPool sv"
    "\<exists>t. n_trace n' = n_trace n @ t \<and> (\<forall>y \<in> set t. call_bytes (fst y) = None)"
    using all by auto
  show "blocks (n_trace n') q = blocks (n_trace n) q" if "n_io n q \<noteq> None" for q
    using all that by metis
  show "blocks (n_trace n') q = Some a \<Longrightarrow> blocks (n_trace n) q = Some a" for q a
    using all by (metis option.distinct(1))
qed



section \<open>Concrete runs\<close>

text \<open>A schedule of steps.\<close>

datatype sv_op = DoListen | DoDisconnect int bool | DoAttach int addr

fun sv_do :: "env \<Rightarrow> (SOCKET_SESSION \<Rightarrow> addr) \<Rightarrow> sv_op \<Rightarrow> listen_pc \<times> sv_state \<Rightarrow> cerror + listen_pc \<times> sv_state" where
  "sv_do env oninit DoListen (pc, s) = ListenProc_step env oninit pc s"
| "sv_do env oninit (DoDisconnect h f) (pc, s) =
     rbind (CTcpServer_Disconnect env h f s) (\<lambda>(b, s'). Inr (pc, s'))"
| "sv_do env oninit (DoAttach h a) (pc, s) =
     rbind (CTcpServer_SetAttachInfo h a s) (\<lambda>(b, s'). Inr (pc, s'))"

fun sv_run :: "env \<Rightarrow> (SOCKET_SESSION \<Rightarrow> addr) \<Rightarrow> sv_op list \<Rightarrow> listen_pc \<times> sv_state \<Rightarrow> cerror + listen_pc \<times> sv_state" where
  "sv_run env oninit [] st = Inr st"
| "sv_run env oninit (x # xs) st = rbind (sv_do env oninit x st) (sv_run env oninit xs)"

lemma sv_do_step:
  "sv_do env oninit x (pc, s) = Inr (pc', s') \<Longrightarrow> sv_step env oninit (pc, H, s) (pc', H, s')"
  by (cases x) (auto simp: res_simps intro: sv_step.intros)

lemma sv_run_steps:
  "sv_run env oninit xs st = Inr st' \<Longrightarrow>
   (sv_step env oninit)\<^sup>*\<^sup>* (fst st, H, snd st) (fst st', H, snd st')"
proof (induction xs arbitrary: st)
  case (Cons x xs)
  then obtain st1 where "sv_do env oninit x st = Inr st1" "sv_run env oninit xs st1 = Inr st'"
    by (auto simp: res_simps)
  then have "sv_step env oninit (fst st, H, snd st) (fst st1, H, snd st1)"
      "(sv_step env oninit)\<^sup>*\<^sup>* (fst st1, H, snd st1) (fst st', H, snd st')"
    using Cons.IH sv_do_step by simp_all
  then show ?case by (rule converse_rtranclp_into_rtranclp)
qed simp

text \<open>A server with room for four clients, small buffers, \<open>fr\<close> free sessions at most and one
  to begin with; the application's callback leaves the session alone.\<close>

definition srv0 :: "int \<Rightarrow> CTcpServer" where
  "srv0 fr = CTcpServer_SetBufferSize 4 4 (CTcpServer_SetConfig 4 fr 1 (CTcpServer_new 0 7))"

definition keep_attach :: "SOCKET_SESSION \<Rightarrow> addr" where
  "keep_attach ss = ph_pAttachInfo (ss_PerHandle ss)"

definition srv_open :: "int \<Rightarrow> cerror + bool \<times> sv_state" where
  "srv_open fr = CTcpServer_Open srv_env 80 10 (srv0 fr, net0)"

definition srv_go :: "int \<Rightarrow> sv_op list \<Rightarrow> cerror + listen_pc \<times> sv_state" where
  "srv_go fr ops = rbind (srv_open fr) (\<lambda>(b, s). sv_run srv_env keep_attach ops (LpLoop, s))"

lemma srv_fresh: "sv_fresh (srv0 fr)"
  by (simp add: sv_fresh_def srv0_def CTcpServer_SetBufferSize_def source_SetBufferSize_def Let_def
      CTcpServer_SetConfig_def CTcpServer_new_def CSocketSendPool_new_def
      CSocketSource.extend_def CTcpServer.fields_def)

lemma srv_open_eval: "map_sum id fst (srv_open 0) = Inr True" "map_sum id fst (srv_open 4) = Inr True"
  by code_simp+

lemma srv_open_ok: "fr = 0 \<or> fr = 4 \<Longrightarrow> \<exists>s. srv_open fr = Inr (True, s)"
  using srv_open_eval by (cases "srv_open fr") auto

lemma srv_go_reach:
  assumes "srv_go fr ops = Inr (pc, s)" "fr = 0 \<or> fr = 4"
  shows "\<exists>s0. CTcpServer_Open srv_env 80 10 (srv0 fr, net0) = Inr (True, s0) \<and>
    (sv_step srv_env keep_attach)\<^sup>*\<^sup>* (LpLoop, [], s0) (pc, [], s)"
proof -
  obtain s0 where s0: "srv_open fr = Inr (True, s0)" using srv_open_ok [OF assms(2)] by blast
  then have "sv_run srv_env keep_attach ops (LpLoop, s0) = Inr (pc, s)" using assms(1) by (simp add: srv_go_def)
  from sv_run_steps [OF this, of "[]"] s0 show ?thesis by (auto simp: srv_open_def)
qed

text \<open>A client is accepted and served; the map then holds it.\<close>

lemma srv_go_client:
  "map_sum id (\<lambda>(pc, s). (pc, map fst (sv_mapSocketSession (fst s)), sv_lstFreePool (fst s)))
     (srv_go 4 [DoListen, DoListen, DoListen, DoListen]) = Inr (LpLoop, [5], [])"
  by code_simp

lemma srv_client:
  obtains s0 s where "CTcpServer_Open srv_env 80 10 (srv0 4, net0) = Inr (True, s0)"
    "(sv_step srv_env keep_attach)\<^sup>*\<^sup>* (LpLoop, [], s0) (LpLoop, [], s)"
    "map fst (sv_mapSocketSession (fst s)) = [5]" "sv_inv srv_env LpLoop [] s" "sv_hListenSocket (fst s) = 3"
proof -
  have "map_sum id (\<lambda>(pc, s). (pc, map fst (sv_mapSocketSession (fst s)), sv_hListenSocket (fst s)))
     (srv_go 4 [DoListen, DoListen, DoListen, DoListen]) = Inr (LpLoop, [5], 3)"
    by code_simp
  then obtain s where s: "srv_go 4 [DoListen, DoListen, DoListen, DoListen] = Inr (LpLoop, s)"
      "map fst (sv_mapSocketSession (fst s)) = [5]" "sv_hListenSocket (fst s) = 3"
    by (cases "srv_go 4 [DoListen, DoListen, DoListen, DoListen]") auto
  obtain s0 where s0: "CTcpServer_Open srv_env 80 10 (srv0 4, net0) = Inr (True, s0)"
      "(sv_step srv_env keep_attach)\<^sup>*\<^sup>* (LpLoop, [], s0) (LpLoop, [], s)"
    using srv_go_reach [OF s(1)] by auto
  have "sv_inv srv_env LpLoop [] s0" using Open_inv [OF srv_net0 srv_fresh s0(1)] by simp
  then have "sv_inv srv_env LpLoop [] s" using sv_reach_inv [OF s0(2)] by simp
  from that [OF s0 s(2) this s(3)] show thesis .
qed

lemma tcp_server_sessions_witness:
  "\<exists>s0 s. CTcpServer_Open srv_env 80 10 (srv0 4, net0) = Inr (True, s0) \<and>
    (sv_step srv_env keep_attach)\<^sup>*\<^sup>* (LpLoop, [], s0) (LpLoop, [], s) \<and>
    map fst (sv_mapSocketSession (fst s)) = [5] \<and>
    distinct (sv_sessions LpLoop (fst s)) \<and> length (sv_mapSocketSession (fst s)) \<le> sv_max (fst s)"
proof -
  obtain s0 s where s: "CTcpServer_Open srv_env 80 10 (srv0 4, net0) = Inr (True, s0)"
    "(sv_step srv_env keep_attach)\<^sup>*\<^sup>* (LpLoop, [], s0) (LpLoop, [], s)"
    "map fst (sv_mapSocketSession (fst s)) = [5]"
    by (rule srv_client)
  from tcp_server_sessions [OF srv_net0 srv_fresh s(1,2)] s show ?thesis
    by (intro exI [of _ s0] exI [of _ s]) simp
qed


lemma tcp_server_close_witness:
  "\<exists>s sv' n' t. CTcpServer_Close srv_env s = Inr (True, sv', n') \<and> sv_mapSocketSession sv' = [] \<and>
    n_trace n' = n_trace (snd s) @ t \<and> closed_sockets t = [3, 5] \<and> distinct (freed_blocks t)"
proof -
  obtain s0 s where s: "map fst (sv_mapSocketSession (fst s)) = [5]" "sv_inv srv_env LpLoop [] s"
      "sv_hListenSocket (fst s) = 3"
    by (rule srv_client)
  then have "sv_inv srv_env LpLoop [] (fst s, snd s)" "sv_hListenSocket (fst s) \<noteq> 0" by simp_all
  from tcp_server_close [OF this] obtain sv' n' t where
    "CTcpServer_Close srv_env (fst s, snd s) = Inr (True, sv', n')" "sv_mapSocketSession sv' = []"
    "n_trace n' = n_trace (snd s) @ t" "closed_sockets t = sv_hListenSocket (fst s) # map fst (sv_mapSocketSession (fst s))"
    "distinct (freed_blocks t)"
    by blast
  with s show ?thesis by (intro exI [of _ s] exI [of _ sv'] exI [of _ n'] exI [of _ t]) simp
qed

lemma srv0_inv: "sv_inv srv_env LpLoop [] (srv0 4, net0)"
proof -
  have "sv_fresh (srv0 4)" by (rule srv_fresh)
  then show ?thesis using srv_net0
    by (auto simp: sv_inv_def sv_fresh_def sv_sessions_def sndp.exclusive_def snd_ok_def smap_ok_def)
qed

lemma srv0_segment: "nSegmentSize 3 6 (srv0 4) = 4" "nSegmentSize 6 6 (srv0 4) = 4"
  by code_simp+



section \<open>Runs that go wrong\<close>

text \<open>
  C15. The listening thread enters the session in the map before it has finished with it. If
  another thread disconnects the socket in between and the free pool is full, the session is
  given back to the heap, and the listening thread then posts a receive into freed memory.
\<close>

theorem tcp_server_post_race:
  "\<exists>s0 p s. CTcpServer_Open srv_env 80 10 (srv0 0, net0) = Inr (True, s0) \<and>
     (sv_step srv_env keep_attach)\<^sup>*\<^sup>* (LpLoop, [], s0) (LpPost 5 p, [], s) \<and>
     ListenProc_step srv_env keep_attach (LpPost 5 p) s = Inl UseAfterFree"
proof -
  let ?ops = "[DoListen, DoListen, DoListen, DoDisconnect 5 False]"
  have "(case srv_go 0 ?ops of Inl e \<Rightarrow> False
     | Inr (pc, s) \<Rightarrow> (case pc of LpPost h p \<Rightarrow> h = 5 \<and>
         map_sum id fst (ListenProc_step srv_env keep_attach (LpPost 5 p) s) = Inl UseAfterFree | _ \<Rightarrow> False))"
    by code_simp
  then obtain p s where s: "srv_go 0 ?ops = Inr (LpPost 5 p, s)"
      "map_sum id fst (ListenProc_step srv_env keep_attach (LpPost 5 p) s) = Inl UseAfterFree"
    by (cases "srv_go 0 ?ops") (simp_all split: prod.splits listen_pc.splits)
  then have "ListenProc_step srv_env keep_attach (LpPost 5 p) s = Inl UseAfterFree"
    by (cases "ListenProc_step srv_env keep_attach (LpPost 5 p) s") auto
  moreover obtain s0 where "CTcpServer_Open srv_env 80 10 (srv0 0, net0) = Inr (True, s0)"
    "(sv_step srv_env keep_attach)\<^sup>*\<^sup>* (LpLoop, [], s0) (LpPost 5 p, [], s)"
    using srv_go_reach [OF s(1)] by auto
  ultimately show ?thesis by (intro exI [of _ s0] exI [of _ p] exI [of _ s]) simp
qed

text \<open>
  A session that goes through the free pool keeps the pointer that was attached to the old
  connection: a new connection, to which nothing was ever attached, is given it.
\<close>

theorem tcp_server_stale_attach:
  "\<exists>s0 s. CTcpServer_Open srv_env 80 10 (srv0 4, net0) = Inr (True, s0) \<and>
     (sv_step srv_env keep_attach)\<^sup>*\<^sup>* (LpLoop, [], s0) (LpLoop, [], s) \<and>
     srv_go 4 ([DoListen, DoListen, DoListen, DoListen] @ [DoAttach 5 77, DoDisconnect 5 False] @
       [DoListen, DoListen, DoListen, DoListen]) = Inr (LpLoop, s) \<and>
     CTcpServer_GetAttachInfo 5 s = Inr 77"
proof -
  let ?ops = "[DoListen, DoListen, DoListen, DoListen] @ [DoAttach 5 77, DoDisconnect 5 False] @
       [DoListen, DoListen, DoListen, DoListen]"
  have "(case srv_go 4 ?ops of Inl e \<Rightarrow> False
     | Inr (pc, s) \<Rightarrow> pc = LpLoop \<and> CTcpServer_GetAttachInfo 5 s = Inr 77)"
    by code_simp
  then obtain s where s: "srv_go 4 ?ops = Inr (LpLoop, s)" "CTcpServer_GetAttachInfo 5 s = Inr 77"
    by (auto split: sum.splits)
  obtain s0 where "CTcpServer_Open srv_env 80 10 (srv0 4, net0) = Inr (True, s0)"
    "(sv_step srv_env keep_attach)\<^sup>*\<^sup>* (LpLoop, [], s0) (LpLoop, [], s)"
    using srv_go_reach [OF s(1)] by auto
  with s show ?thesis by (intro exI [of _ s0] exI [of _ s]) simp
qed

definition zero_sends :: "env \<Rightarrow> (byte list \<Rightarrow> addr \<Rightarrow> api_call) \<Rightarrow> bool" where
  "zero_sends env call \<longleftrightarrow> (\<forall>t. env t (call [] NULL) = Ok 0)"

lemma send_block_zero:
  assumes "send_block env call p nLen sg a n = Some y"
  shows "zero_sends env call \<Longrightarrow> sg = 0 \<Longrightarrow> a = 0 \<Longrightarrow> \<not> 0 < nLen"
  using assms
proof (induction env call p nLen sg a n y rule: send_block.raw_induct [rotated, consumes 1, case_names step])
  case (step f env call p nLen sg a n r)
  show ?case
  proof (rule notI)
    assume "0 < nLen"
    moreover have "unat (to_u32 0) = 0" by (simp add: to_u32_def)
    moreover have "env (n_trace n) (call [] NULL) = Ok 0" using step(3) by (simp add: zero_sends_def)
    ultimately have "f env call p nLen 0 0 (snd (sys env (call [] NULL) n)) = Some r"
      using step(2,4,5) by (simp add: nPacketSize_def Let_def)
    from step(1) [OF this step(3)] \<open>0 < nLen\<close> show False by simp
  qed
qed

text \<open>
  \<open>m_nSendBufferSize\<close> is not initialised. With \<open>SEND_OPTION_SEGMENT\<close> and the value 0 in
  memory, a blocking \<open>Send\<close> of a message sends empty packets for ever: it never returns.
\<close>

theorem tcp_server_send_segment_zero:
  assumes "\<And>t c. call_bytes c = Some [] \<Longrightarrow> env t c = Ok 0"
    and "src_nSendBufferSize sv = 0" "0 < nLen"
    and "has_option nOptval SEND_OPTION_BLOCK" "has_option nOptval SEND_OPTION_SEGMENT"
  shows "CTcpServer_Send env h szData nLen nOptval (sv, n) = None"
proof -
  have "send_block env (WSASend h) szData nLen 0 0 n = None"
    using send_block_zero [of env "WSASend h" szData nLen 0 0 n] assms(1,3)
    by (cases "send_block env (WSASend h) szData nLen 0 0 n") (auto simp: zero_sends_def)
  then show ?thesis using assms(2,4,5) by (simp add: CTcpServer_Send_def nSegmentSize_def Let_def)
qed

lemma tcp_server_send_segment_zero_witness:
  "CTcpServer_Send srv_env 5 100 6 3 (CTcpServer_new 0 7, net0) = None"
proof (rule tcp_server_send_segment_zero)
  show "call_bytes c = Some [] \<Longrightarrow> srv_env t c = Ok 0" for t c
    by (cases c) (auto simp: srv_env_def)
  show "src_nSendBufferSize (CTcpServer_new 0 7) = 0" by code_simp
  show "has_option 3 SEND_OPTION_BLOCK" "has_option 3 SEND_OPTION_SEGMENT" by code_simp+
qed simp

end
