(* ===== verification/SocketAPI.thy ===== *)
theory SocketAPI
  imports NetFacts
begin

text \<open>
  \<open>CSocketAPI\<close> of SocketAPI.cpp: thin wrappers of Winsock calls. An option value is the byte
  string that the call is given. \<open>GetSocketInfo\<close> copies the text of an address, which the
  Winsock function \<open>inet_ntoa\<close> makes (the parameter \<open>ntoa\<close>), into a buffer of the caller of
  \<open>cap\<close> bytes. The answer of \<open>getpeername\<close> packs the address (upper 32 bits) and the port in
  network order (lower 16 bits).
\<close>

section \<open>Constants of Winsock\<close>

definition SOL_SOCKET :: int where "SOL_SOCKET = 65535"
definition SO_KEEPALIVE :: int where "SO_KEEPALIVE = 8"
definition SO_LINGER :: int where "SO_LINGER = 128"
definition SO_SNDBUF :: int where "SO_SNDBUF = 4097"
definition SO_RCVBUF :: int where "SO_RCVBUF = 4098"
definition SO_SNDTIMEO :: int where "SO_SNDTIMEO = 4101"
definition SO_RCVTIMEO :: int where "SO_RCVTIMEO = 4102"
definition IPPROTO_TCP :: int where "IPPROTO_TCP = 6"
definition TCP_NODELAY :: int where "TCP_NODELAY = 1"
definition SIO_KEEPALIVE_VALS :: int where "SIO_KEEPALIVE_VALS = 2550136836"
definition FIONBIO :: int where "FIONBIO = 2147772030"

definition int_bytes :: "int \<Rightarrow> byte list" where
  "int_bytes k = le_bytes 4 (unat (to_u32 k))"

section \<open>The wrappers\<close>

text \<open>\<open>MAKEWORD(a, b)\<close> has \<open>a\<close> as its low byte.\<close>

definition MAKEWORD :: "int \<Rightarrow> int \<Rightarrow> nat" where
  "MAKEWORD a b = nat (a mod 256) + 256 * nat (b mod 256)"

definition CSocketAPI_LoadSocketLib :: "env \<Rightarrow> int \<Rightarrow> int \<Rightarrow> net \<Rightarrow> bool \<times> net" where
  "CSocketAPI_LoadSocketLib env version_high version_low n =
     (let (r, n1) = sys env (WSAStartup (MAKEWORD version_high version_low)) n in (is_ok r, n1))"

definition CSocketAPI_UnloadSocketLib :: "env \<Rightarrow> net \<Rightarrow> bool \<times> net" where
  "CSocketAPI_UnloadSocketLib env n = (True, snd (sys env WSACleanup n))"

definition ntohs :: "u16 \<Rightarrow> u16" where
  "ntohs x = push_bit 8 x OR drop_bit 8 x"

text \<open>The result: FALSE, or TRUE with the contents of the caller's buffer and the port.\<close>

definition CSocketAPI_GetSocketInfo ::
    "env \<Rightarrow> (u32 \<Rightarrow> byte list) \<Rightarrow> int \<Rightarrow> nat \<Rightarrow> net \<Rightarrow> cerror + (byte list \<times> u16) option \<times> net" where
  "CSocketAPI_GetSocketInfo env ntoa hSocket cap n =
     (let (r, n1) = sys env (GetPeerName hSocket) n
      in case r of
           Err e \<Rightarrow> Inr (None, n1)
         | Ok v \<Rightarrow>
             let text = ntoa (of_int (v div 65536)) @ [0]
             in if cap < length text then Inl OutOfBounds
                else Inr (Some (text, ntohs (of_int v)), n1))"

definition CSocketAPI_GetSocketKeepAlive :: "env \<Rightarrow> int \<Rightarrow> net \<Rightarrow> bool \<times> net" where
  "CSocketAPI_GetSocketKeepAlive env hSocket n =
     (let (r, n1) = sys env (GetSockOpt hSocket SOL_SOCKET SO_KEEPALIVE) n in (is_ok r, n1))"

definition CSocketAPI_SetSocketKeepAlive :: "env \<Rightarrow> int \<Rightarrow> int \<Rightarrow> net \<Rightarrow> bool \<times> net" where
  "CSocketAPI_SetSocketKeepAlive env hSocket bKeepAlive n =
     (let (r, n1) = sys env (SetSockOpt hSocket SOL_SOCKET SO_KEEPALIVE (int_bytes bKeepAlive)) n
      in (is_ok r, n1))"

definition CSocketAPI_SetSocketKeepAliveValue :: "env \<Rightarrow> int \<Rightarrow> u32 \<Rightarrow> u32 \<Rightarrow> net \<Rightarrow> bool \<times> net" where
  "CSocketAPI_SetSocketKeepAliveValue env hSocket nKeepAliveTime nKeepAliveInterval n =
     (let (r, n1) = sys env (WSAIoctl hSocket SIO_KEEPALIVE_VALS
                      (int_bytes 1 @ le_bytes 4 (unat nKeepAliveTime) @ le_bytes 4 (unat nKeepAliveInterval))) n
      in (is_ok r, n1))"

definition CSocketAPI_SetSocketLinger :: "env \<Rightarrow> int \<Rightarrow> u16 \<Rightarrow> u16 \<Rightarrow> net \<Rightarrow> bool \<times> net" where
  "CSocketAPI_SetSocketLinger env hSocket nOnoff nLinger n =
     (let (r, n1) = sys env (SetSockOpt hSocket SOL_SOCKET SO_LINGER
                      (le_bytes 2 (unat nOnoff) @ le_bytes 2 (unat nLinger))) n
      in (is_ok r, n1))"

definition CSocketAPI_SetTimeOut :: "env \<Rightarrow> int \<Rightarrow> int \<Rightarrow> int \<Rightarrow> net \<Rightarrow> bool \<times> net" where
  "CSocketAPI_SetTimeOut env hSocket nRecvTimeOut nSendTimeOut n =
     (let n1 = snd (sys env (SetSockOpt hSocket SOL_SOCKET SO_RCVTIMEO (int_bytes nRecvTimeOut)) n);
          n2 = snd (sys env (SetSockOpt hSocket SOL_SOCKET SO_SNDTIMEO (int_bytes nSendTimeOut)) n1)
      in (True, n2))"

definition CSocketAPI_SetBufferSize :: "env \<Rightarrow> int \<Rightarrow> int \<Rightarrow> int \<Rightarrow> net \<Rightarrow> bool \<times> net" where
  "CSocketAPI_SetBufferSize env hSocket nRecvBufferSize nSendBufferSize n =
     (let n1 = snd (sys env (SetSockOpt hSocket SOL_SOCKET SO_RCVBUF (int_bytes nRecvBufferSize)) n);
          n2 = snd (sys env (SetSockOpt hSocket SOL_SOCKET SO_SNDBUF (int_bytes nSendBufferSize)) n1)
      in (True, n2))"

definition CSocketAPI_SetTCPNODELAY :: "env \<Rightarrow> int \<Rightarrow> int \<Rightarrow> net \<Rightarrow> bool \<times> net" where
  "CSocketAPI_SetTCPNODELAY env hSocket nOpt n =
     (True, snd (sys env (SetSockOpt hSocket IPPROTO_TCP TCP_NODELAY (int_bytes nOpt)) n))"

definition CSocketAPI_SetFIONBIO :: "env \<Rightarrow> int \<Rightarrow> int \<Rightarrow> net \<Rightarrow> bool \<times> net" where
  "CSocketAPI_SetFIONBIO env hSocket nOpt n =
     (True, snd (sys env (IoctlSocket hSocket FIONBIO (int_bytes nOpt)) n))"

section \<open>The address buffer\<close>

text \<open>The dotted decimal text of an address in network order, first octet in the low byte.\<close>

fun dec_digits :: "nat \<Rightarrow> byte list" where
  "dec_digits k = (if k < 10 then [of_nat (48 + k)] else dec_digits (k div 10) @ [of_nat (48 + k mod 10)])"

declare dec_digits.simps [simp del]

definition octet :: "u32 \<Rightarrow> nat \<Rightarrow> nat" where
  "octet a i = unat a div 256 ^ i mod 256"

definition dotted :: "u32 \<Rightarrow> byte list" where
  "dotted a = dec_digits (octet a 0) @ [46] @ dec_digits (octet a 1) @ [46] @
              dec_digits (octet a 2) @ [46] @ dec_digits (octet a 3)"

definition MAX_IPADDR_LENGTH :: nat where "MAX_IPADDR_LENGTH = 15"

lemma octet_less: "octet a i < 256"
  by (simp add: octet_def)

lemma length_dec_digits:
  "k < 256 \<Longrightarrow> length (dec_digits k) = (if k < 10 then 1 else if k < 100 then 2 else 3)"
proof -
  assume "k < 256"
  have one: "k < 10 \<Longrightarrow> length (dec_digits k) = 1" for k by (simp add: dec_digits.simps [of k])
  have two: "10 \<le> k \<Longrightarrow> k < 100 \<Longrightarrow> length (dec_digits k) = 2" for k
    using one [of "k div 10"] by (simp add: dec_digits.simps [of k])
  have "100 \<le> k \<Longrightarrow> k div 10 \<ge> 10 \<and> k div 10 < 100" using \<open>k < 256\<close> by auto
  then have "100 \<le> k \<Longrightarrow> length (dec_digits k) = 3"
    using two [of "k div 10"] by (simp add: dec_digits.simps [of k])
  then show ?thesis using one two by auto
qed

lemma length_dec_octet:
  "length (dec_digits (octet a i)) \<le> 3"
  "length (dec_digits (octet a i)) = 3 \<longleftrightarrow> 100 \<le> octet a i"
  using length_dec_digits [OF octet_less, of a i] by (simp_all split: if_splits)

lemma length_dotted:
  "length (dotted a) \<le> 15"
  "length (dotted a) = 15 \<longleftrightarrow> (\<forall>i < 4. 100 \<le> octet a i)"
proof -
  note le = length_dec_octet(1) [of a 0] length_dec_octet(1) [of a 1]
    length_dec_octet(1) [of a 2] length_dec_octet(1) [of a 3]
  have len: "length (dotted a) = length (dec_digits (octet a 0)) + length (dec_digits (octet a 1)) +
      length (dec_digits (octet a 2)) + length (dec_digits (octet a 3)) + 3"
    by (simp only: dotted_def length_append list.size)
  then show "length (dotted a) \<le> 15" using le by linarith
  have "(\<forall>i < 4. 100 \<le> octet a i) \<longleftrightarrow> (\<forall>i \<in> {0, 1, 2, 3}. 100 \<le> octet a i)"
  proof -
    have "{0, 1, 2, 3} = {..<4::nat}" by auto
    then show ?thesis by (simp only: lessThan_iff Ball_def)
  qed
  also have "\<dots> \<longleftrightarrow> (\<forall>i \<in> {0, 1, 2, 3}. length (dec_digits (octet a i)) = 3)"
    by (simp only: length_dec_octet(2))
  also have "\<dots> \<longleftrightarrow> length (dotted a) = 15"
    unfolding len using le by (simp only: ball_simps) arith
  finally show "length (dotted a) = 15 \<longleftrightarrow> (\<forall>i < 4. 100 \<le> octet a i)" by simp
qed

text \<open>
  C21. \<open>GetSocketInfo\<close> of a connected socket writes past the end of a buffer of
  \<open>MAX_IPADDR_LENGTH\<close> bytes, the size that the library uses, exactly when all four octets of the
  peer's address have three digits; into a buffer of one byte more it never does, and it
  reports the address text and the port.
\<close>

theorem socket_info_bounds:
  assumes "\<And>a. ntoa a = dotted a" and "env (n_trace n) (GetPeerName h) = Ok v"
  shows "(CSocketAPI_GetSocketInfo env ntoa h MAX_IPADDR_LENGTH n = Inl OutOfBounds \<longleftrightarrow>
            (\<forall>i < 4. 100 \<le> octet (of_int (v div 65536)) i)) \<and>
    CSocketAPI_GetSocketInfo env ntoa h (Suc MAX_IPADDR_LENGTH) n =
      Inr (Some (dotted (of_int (v div 65536)) @ [0], ntohs (of_int v)), snd (sys env (GetPeerName h) n))"
proof -
  define a :: u32 where "a = of_int (v div 65536)"
  define n1 where "n1 = snd (sys env (GetPeerName h) n)"
  have r: "CSocketAPI_GetSocketInfo env ntoa h cap n =
      (if cap < Suc (length (dotted a)) then Inl OutOfBounds else Inr (Some (dotted a @ [0], ntohs (of_int v)), n1))" for cap
    unfolding CSocketAPI_GetSocketInfo_def a_def n1_def using assms
    by (simp only: Let_def case_prod_unfold sys_fields api_ret.case length_append) simp
  show ?thesis
    unfolding r a_def [symmetric] n1_def [symmetric] length_dotted(2) [of a, symmetric]
    using length_dotted(1) [of a] unfolding MAX_IPADDR_LENGTH_def by (auto split: if_splits)
qed

lemma socket_info_bounds_witness:
  "CSocketAPI_GetSocketInfo (\<lambda>t c. Ok (220764687564800)) dotted 5 MAX_IPADDR_LENGTH net0 = Inl OutOfBounds"
proof -
  have "100 \<le> octet (of_int (220764687564800 div 65536)) i" if "i < 4" for i
  proof -
    have "i \<in> {0, 1, 2, 3}" using that by auto
    then show ?thesis by (auto simp: octet_def)
  qed
  with socket_info_bounds [of dotted "\<lambda>t c. Ok (220764687564800)" net0 5 "220764687564800"]
  show ?thesis by blast
qed

end
