(* ===== verification/TcpClient.thy ===== *)
theory TcpClient
  imports NetFacts
begin

text \<open>
  \<open>CTcpClient\<close> of TcpClient.h and TcpClient.cpp. The session \<open>m_SocketSession\<close> is a part of the
  object; \<open>tc_this\<close> is its address, which the completion port is given. Its receive buffer is a
  block of the process heap. Lines that only log or print are left out. The reconnecting thread
  \<open>AutoConnect\<close> is a partial function, since its loops need not end.
\<close>

section \<open>The class\<close>

type_synonym SERVER_ADDR = "byte list \<times> u16"

record CTcpClient = CSocketSource +
  tc_this :: addr
  tc_hSocket :: int
  tc_bIsConnected :: bool
  tc_bAutoConnect :: bool
  tc_nCheckIntervalTime :: int
  tc_nReconnectSleepTime :: int
  tc_sendPool :: CSocketSendPool
  tc_SocketSession :: SOCKET_SESSION
  tc_vectServerAddr :: "SERVER_ADDR list"
  tc_nLocalPort :: u16
  tc_nVectorPos :: u16

type_synonym tc_state = "CTcpClient \<times> net"

definition tc_buffer :: "CTcpClient \<Rightarrow> addr" where
  "tc_buffer tc = io_szBuffer (ss_PerIoRecv (tc_SocketSession tc))"

definition tc_set_recv :: "PER_IO_OPERATION_DATA \<Rightarrow> CTcpClient \<Rightarrow> CTcpClient" where
  "tc_set_recv io tc = tc\<lparr>tc_SocketSession := (tc_SocketSession tc)\<lparr>ss_PerIoRecv := io\<rparr>\<rparr>"

text \<open>The constructor leaves \<open>m_nSendBufferSize\<close> and \<open>m_nCheckIntervalTime\<close> as they are in memory.\<close>

definition CTcpClient_new :: "int \<Rightarrow> int \<Rightarrow> addr \<Rightarrow> addr \<Rightarrow> CTcpClient" where
  "CTcpClient_new junk junk' this session =
     CSocketSource.extend (CSocketSource_new junk)
       (CTcpClient.fields session INVALID_SOCKET False False junk' 100 CSocketSendPool_new
          (zero_session\<lparr>ss_PerHandle := \<lparr>ph_hSocket = 0, ph_pSocketSource = this, ph_pAttachInfo = NULL\<rparr>\<rparr>)
          [] 0 0)"

definition CTcpClient_IsConnected :: "CTcpClient \<Rightarrow> bool" where
  "CTcpClient_IsConnected tc = tc_bIsConnected tc"

definition CTcpClient_GetSocketHandle :: "CTcpClient \<Rightarrow> int" where
  "CTcpClient_GetSocketHandle tc = tc_hSocket tc"

definition CTcpClient_DoOpen :: "tc_state \<Rightarrow> bool \<times> tc_state" where
  "CTcpClient_DoOpen s = (True, s)"

definition CTcpClient_SetInterface :: "addr \<Rightarrow> addr \<Rightarrow> addr \<Rightarrow> CTcpClient \<Rightarrow> CTcpClient" where
  "CTcpClient_SetInterface = source_SetInterface"

definition CTcpClient_SetBufferSize :: "int \<Rightarrow> int \<Rightarrow> CTcpClient \<Rightarrow> CTcpClient" where
  "CTcpClient_SetBufferSize = source_SetBufferSize"

definition CTcpClient_AppendServerAddr :: "byte list \<Rightarrow> u16 \<Rightarrow> CTcpClient \<Rightarrow> bool \<times> CTcpClient" where
  "CTcpClient_AppendServerAddr szServerName nServerPort tc =
     (True, tc\<lparr>tc_vectServerAddr := tc_vectServerAddr tc @ [(szServerName, nServerPort)]\<rparr>)"

definition CTcpClient_RemoveServerAddr :: "int \<Rightarrow> CTcpClient \<Rightarrow> bool \<times> CTcpClient" where
  "CTcpClient_RemoveServerAddr nPos tc =
     (if nPos < 0 \<or> length (tc_vectServerAddr tc) \<le> unat (to_u32 nPos) then (False, tc)
      else (True, tc\<lparr>tc_vectServerAddr :=
              take (nat nPos) (tc_vectServerAddr tc) @ drop (Suc (nat nPos)) (tc_vectServerAddr tc)\<rparr>))"

section \<open>Closing and connecting\<close>

definition CTcpClient_Close :: "env \<Rightarrow> tc_state \<Rightarrow> bool \<times> tc_state" where
  "CTcpClient_Close env s =
     (case s of (tc, n) \<Rightarrow>
        if tc_hSocket tc \<noteq> INVALID_SOCKET
        then (True, tc\<lparr>tc_hSocket := INVALID_SOCKET, tc_bIsConnected := False\<rparr>,
              snd (sys env (Closesocket (tc_hSocket tc)) n))
        else (True, tc, n))"

text \<open>\<open>Disconnect\<close> does not look at the socket it is given.\<close>

definition CTcpClient_Disconnect :: "env \<Rightarrow> int \<Rightarrow> bool \<Rightarrow> tc_state \<Rightarrow> bool \<times> tc_state" where
  "CTcpClient_Disconnect env hSocket bForce s =
     (case CTcpClient_Close env s of (b, tc, n) \<Rightarrow>
        (True, tc, if \<not> bForce \<and> tc_bAutoConnect tc then snd (sys env SignalEvent n) else n))"

text \<open>\<open>p\<close> is the structure \<open>PerIoRecv\<close> of the session.\<close>

definition CTcpClient_PostRecv :: "env \<Rightarrow> int \<Rightarrow> tc_state \<Rightarrow> bool \<times> tc_state" where
  "CTcpClient_PostRecv env hSocket s =
     (case s of (tc, n) \<Rightarrow>
        let tc1 = tc_set_recv ((ss_PerIoRecv (tc_SocketSession tc))\<lparr>io_OperType := RECV_POSTED\<rparr>) tc;
            (r, n1) = sys env (WSARecv hSocket (tc_buffer tc1) (src_nRecvBufferSize tc1)) n
        in case r of
             Ok v \<Rightarrow> (True, tc1, n1)
           | Err e \<Rightarrow>
               if e \<noteq> WSA_IO_PENDING
               then (False, snd (CTcpClient_Disconnect env hSocket False (tc1, n1)))
               else (True, tc1, n1))"

definition CTcpClient_PostSend :: "env \<Rightarrow> addr \<Rightarrow> tc_state \<Rightarrow> cerror + bool \<times> tc_state" where
  "CTcpClient_PostSend env p s =
     (case s of (tc, n) \<Rightarrow>
        rbind (CSocketSendPool_push env p (tc_sendPool tc, n))
          (\<lambda>(pl, n'). Inr (True, tc\<lparr>tc_sendPool := pl\<rparr>, n')))"

text \<open>The receive buffer of a new connection: the old one is resized, or a first one is made. The
  result of the allocation is not looked at.\<close>

definition connect_buffer :: "env \<Rightarrow> tc_state \<Rightarrow> tc_state" where
  "connect_buffer env s =
     (case s of (tc, n) \<Rightarrow>
        let k = unat (to_u32 (src_nRecvBufferSize tc));
            p = tc_buffer tc;
            old = (if p = NULL then [] else mem_read (n_bytes n) p (nat (io_nLen (ss_PerIoRecv (tc_SocketSession tc)))));
            (r, n1) = sys env (if p = NULL then HeapAlloc k else HeapReAlloc p k) n;
            q = ret_ptr r
        in (tc_set_recv \<lparr>io_OperType = RECV_POSTED, io_nLen = src_nRecvBufferSize tc, io_szBuffer = q\<rparr> tc,
            if q = NULL then n1
            else n1\<lparr>n_bytes := mem_write (n_bytes n1) q (take k (old @ replicate k 0))\<rparr>))"

text \<open>The socket is new and connected: buffer, completion port, callback, first receive.
  \<open>oninit\<close> is what \<open>OnInitSocket\<close> of the application leaves in the session.\<close>

definition connect_finish :: "env \<Rightarrow> (SOCKET_SESSION \<Rightarrow> addr) \<Rightarrow> int \<Rightarrow> tc_state \<Rightarrow> tc_state" where
  "connect_finish env oninit hSocket s =
     (case connect_buffer env s of (tc, n) \<Rightarrow>
        let ss = (tc_SocketSession tc)\<lparr>ss_PerHandle := (ss_PerHandle (tc_SocketSession tc))\<lparr>ph_hSocket := hSocket\<rparr>\<rparr>;
            n1 = snd (sys env (AssociateSocket hSocket (tc_this tc)) n);
            n2 = snd (sys env (OnInitSocket (tc_this tc)) n1);
            ss2 = ss\<lparr>ss_PerHandle := (ss_PerHandle ss)\<lparr>ph_pAttachInfo := oninit ss\<rparr>\<rparr>;
            tc2 = tc\<lparr>tc_SocketSession := ss2\<rparr>;
            n3 = snd (sys env (WSARecv hSocket (tc_buffer tc2) (src_nRecvBufferSize tc2)) n2)
        in (tc2\<lparr>tc_hSocket := hSocket, tc_bIsConnected := True\<rparr>, n3))"

text \<open>The \<open>bind\<close> of a local port names \<open>m_hSocket\<close>, which \<open>Close\<close> has just set to \<open>INVALID_SOCKET\<close>.\<close>

definition connect_bind :: "env \<Rightarrow> tc_state \<Rightarrow> bool \<times> net" where
  "connect_bind env s =
     (case s of (tc, n) \<Rightarrow>
        let port = uint (tc_nLocalPort tc)
        in if 0 < port \<and> port < 65535
           then let (r, n1) = sys env (Bind (tc_hSocket tc) [] port) n in (is_ok r, n1)
           else (True, n))"

definition CTcpClient_Connect :: "env \<Rightarrow> (SOCKET_SESSION \<Rightarrow> addr) \<Rightarrow> tc_state \<Rightarrow> cerror + bool \<times> tc_state" where
  "CTcpClient_Connect env oninit s =
     (case CTcpClient_Close env s of (_, tc, n) \<Rightarrow>
        let (r, n1) = sys env WSASocketTcp n;
            hSocket = (case r of Ok v \<Rightarrow> v | Err e \<Rightarrow> INVALID_SOCKET)
        in if hSocket = INVALID_SOCKET then Inr (False, tc, n1)
           else let (bound, n2) = connect_bind env (tc, n1)
                in if \<not> bound then Inr (False, tc, n2)
                   else if length (tc_vectServerAddr tc) \<le> unat (tc_nVectorPos tc) then Inl OutOfBounds
                   else let (szName, nPort) = tc_vectServerAddr tc ! unat (tc_nVectorPos tc);
                            (a, n3) = resolve_host env szName n2
                        in case a of
                             None \<Rightarrow> Inr (False, tc, n3)
                           | Some sin_addr \<Rightarrow>
                               let (rc, n4) = sys env (WSAConnect hSocket sin_addr (uint nPort)) n3
                               in if \<not> is_ok rc then Inr (False, tc, n4)
                                  else Inr (CTcpClient_DoOpen (connect_finish env oninit hSocket (tc, n4))))"

definition CTcpClient_Open ::
    "env \<Rightarrow> (SOCKET_SESSION \<Rightarrow> addr) \<Rightarrow> byte list \<Rightarrow> u16 \<Rightarrow> int \<Rightarrow> tc_state \<Rightarrow> cerror + bool \<times> tc_state" where
  "CTcpClient_Open env oninit szServerName nServerPort nLocalPort s =
     (case s of (tc, n) \<Rightarrow>
        let tc1 = tc\<lparr>tc_nLocalPort := of_int nLocalPort\<rparr>;
            tc2 = (if tc_vectServerAddr tc1 = [] then snd (CTcpClient_AppendServerAddr szServerName nServerPort tc1)
                   else tc1)
        in rbind (CTcpClient_Connect env oninit (tc2, n)) (\<lambda>(b, tc3, n3).
             if b then Inr (True, tc3, n3)
             else Inr (False, tc3, if tc_bAutoConnect tc3 then snd (sys env SignalEvent n3) else n3)))"

section \<open>Sending\<close>

text \<open>After a failed call: the client disconnects if \<open>hSocket\<close> is still its socket.\<close>

definition tc_disconnect_if :: "env \<Rightarrow> bool \<Rightarrow> int \<Rightarrow> tc_state \<Rightarrow> tc_state" where
  "tc_disconnect_if env f hSocket s =
     (if f \<and> hSocket = tc_hSocket (fst s) then snd (CTcpClient_Disconnect env hSocket False s) else s)"

definition CTcpClient_Send :: "env \<Rightarrow> addr \<Rightarrow> int \<Rightarrow> int \<Rightarrow> tc_state \<Rightarrow> (cerror + int \<times> tc_state) option" where
  "CTcpClient_Send env szData nLen nOptval s =
     (case s of (tc, n) \<Rightarrow>
        if tc_hSocket tc = INVALID_SOCKET \<or> \<not> tc_bIsConnected tc then Some (Inr (-1, tc, n))
        else let nSeg = nSegmentSize nOptval nLen tc; hSocket = tc_hSocket tc
             in if has_option nOptval SEND_OPTION_BLOCK
                then (case send_block env (WSASend hSocket) szData nLen nSeg 0 n of
                        None \<Rightarrow> None
                      | Some (f, nSum, n') \<Rightarrow> Some (Inr (nSum, tc_disconnect_if env f hSocket (tc, n'))))
                else (case send_iocp env (WSASend hSocket) (has_option nOptval SEND_OPTION_USERBUFFER)
                             szData nLen nSeg 0 (tc_sendPool tc, n) of
                        None \<Rightarrow> None
                      | Some (Inl e) \<Rightarrow> Some (Inl e)
                      | Some (Inr (f, nSum, pl, n')) \<Rightarrow>
                          Some (Inr (nSum, tc_disconnect_if env f hSocket (tc\<lparr>tc_sendPool := pl\<rparr>, n')))))"

section \<open>The reconnecting thread\<close>

definition CTcpClient_SetAutoConnect :: "env \<Rightarrow> bool \<Rightarrow> int \<Rightarrow> int \<Rightarrow> tc_state \<Rightarrow> bool \<times> tc_state" where
  "CTcpClient_SetAutoConnect env bAutoConnect nCheckInterval nReconnectSleep s =
     (case s of (tc, n) \<Rightarrow>
        let n1 = (if bAutoConnect
                  then if \<not> tc_bAutoConnect tc then snd (sys env StartThread (snd (sys env CreateEvent n))) else n
                  else if tc_bAutoConnect tc
                       then snd (sys env KillThread (snd (sys env (StopThread 258) (snd (sys env SignalEvent n)))))
                       else n)
        in (True, tc\<lparr>tc_bAutoConnect := bAutoConnect, tc_nCheckIntervalTime := nCheckInterval,
                    tc_nReconnectSleepTime := nReconnectSleep\<rparr>, n1))"

text \<open>The destructor. The block of the receive buffer goes back to the heap; freeing NULL does
  nothing.\<close>

definition CTcpClient_delete :: "env \<Rightarrow> tc_state \<Rightarrow> tc_state" where
  "CTcpClient_delete env s =
     (case snd (CTcpClient_Close env (snd (CTcpClient_SetAutoConnect env False 300000 1000 s))) of (tc, n) \<Rightarrow>
        (tc_set_recv ((ss_PerIoRecv (tc_SocketSession tc))\<lparr>io_szBuffer := NULL\<rparr>) (tc\<lparr>tc_vectServerAddr := []\<rparr>),
         if tc_buffer tc = NULL then n else snd (sys env (HeapFree (tc_buffer tc)) n)))"

text \<open>The answer \<open>Ok v\<close> of \<open>select\<close> has \<open>v \<noteq> 0\<close> when the socket is in the set of errors.\<close>

definition CTcpClient_IsRealConnected :: "env \<Rightarrow> tc_state \<Rightarrow> bool \<times> tc_state" where
  "CTcpClient_IsRealConnected env s =
     (case s of (tc, n) \<Rightarrow>
        if tc_hSocket tc = INVALID_SOCKET then (False, tc\<lparr>tc_bIsConnected := False\<rparr>, n)
        else let (r, n1) = sys env (Select (tc_hSocket tc)) n
             in if r = Ok 0 then (True, tc\<lparr>tc_bIsConnected := True\<rparr>, n1)
                else (False, snd (CTcpClient_Close env (tc, n1))))"

definition next_pos :: "int \<Rightarrow> u16 \<Rightarrow> u16" where
  "next_pos nSize pos = (if nSize > 1 then of_int ((uint pos + 1) mod nSize) else 0)"

text \<open>The inner loop: \<open>Inr (True, s)\<close> when the thread was told to stop, \<open>Inr (False, s)\<close> when
  the client is connected.\<close>

partial_function (option) retry_connect ::
    "env \<Rightarrow> (SOCKET_SESSION \<Rightarrow> addr) \<Rightarrow> int \<Rightarrow> bool \<Rightarrow> tc_state \<Rightarrow> (cerror + bool \<times> tc_state) option" where
  "retry_connect env oninit nSize bRet s =
     (case s of (tc, n) \<Rightarrow>
        if is_true (fst (sys env IsStop n)) then Some (Inr (True, tc, snd (sys env IsStop n)))
        else let n2 = snd (sys env (Sleep (tc_nReconnectSleepTime tc)) (snd (sys env IsStop n)));
                 tc1 = (if bRet then tc else tc\<lparr>tc_nVectorPos := next_pos nSize (tc_nVectorPos tc)\<rparr>)
             in case CTcpClient_Connect env oninit (tc1, n2) of
                  Inl e \<Rightarrow> Some (Inl e)
                | Inr (b, s') \<Rightarrow>
                    if b then Some (Inr (False, s')) else retry_connect env oninit nSize b s')"

text \<open>The outer loop, with the value the thread returns.\<close>

partial_function (option) auto_connect ::
    "env \<Rightarrow> (SOCKET_SESSION \<Rightarrow> addr) \<Rightarrow> int \<Rightarrow> bool \<Rightarrow> tc_state \<Rightarrow> (cerror + int \<times> tc_state) option" where
  "auto_connect env oninit nSize bRet s =
     (case s of (tc, n) \<Rightarrow>
        let n1 = snd (sys env (WaitEvent (tc_nCheckIntervalTime tc)) n);
            n2 = snd (sys env IsStop n1)
        in if is_true (fst (sys env IsStop n1)) then Some (Inr (0, tc, n2))
           else let s' = snd (CTcpClient_IsRealConnected env (tc, n2))
                in if fst (CTcpClient_IsRealConnected env (tc, n2)) then auto_connect env oninit nSize bRet s'
                   else (case retry_connect env oninit nSize bRet s' of
                           None \<Rightarrow> None
                         | Some (Inl e) \<Rightarrow> Some (Inl e)
                         | Some (Inr (stopped, s2)) \<Rightarrow>
                             if stopped then Some (Inr (-1, s2)) else auto_connect env oninit nSize True s2))"

definition CTcpClient_AutoConnect ::
    "env \<Rightarrow> (SOCKET_SESSION \<Rightarrow> addr) \<Rightarrow> tc_state \<Rightarrow> (cerror + int \<times> tc_state) option" where
  "CTcpClient_AutoConnect env oninit s =
     auto_connect env oninit (int (length (tc_vectServerAddr (fst s)))) False s"

end
