(* ===== verification/TcpClientInv.thy ===== *)
theory TcpClientInv
  imports TcpClient
begin

text \<open>
  The invariant of \<open>CTcpClient\<close> and the transition system of its operations: who owns the
  socket, the send structures and the receive buffer.
\<close>

section \<open>The invariant\<close>

text \<open>
  \<open>H\<close> are the send structures that the system has. A connected client has a socket, and its
  receive buffer, when there is one, is a block of exactly the size that a receive is posted
  with.
\<close>

definition tc_buf_ok :: "tc_state \<Rightarrow> bool" where
  "tc_buf_ok s \<longleftrightarrow>
     (tc_buffer (fst s) \<noteq> NULL \<longrightarrow>
        io_nLen (ss_PerIoRecv (tc_SocketSession (fst s))) = src_nRecvBufferSize (fst s) \<and>
        foreign (snd s) (tc_buffer (fst s)) (unat (to_u32 (src_nRecvBufferSize (fst s)))))"

definition tc_inv :: "env \<Rightarrow> addr list \<Rightarrow> tc_state \<Rightarrow> bool" where
  "tc_inv env H s \<longleftrightarrow> net_ok env (snd s) \<and> sndp.exclusive env H (tc_sendPool (fst s), snd s) \<and>
     (tc_bIsConnected (fst s) \<longrightarrow> tc_hSocket (fst s) \<noteq> INVALID_SOCKET) \<and> tc_buf_ok s"

lemma tc_set_recv_fields [simp]:
  "tc_hSocket (tc_set_recv io tc) = tc_hSocket tc" "tc_bIsConnected (tc_set_recv io tc) = tc_bIsConnected tc"
  "tc_sendPool (tc_set_recv io tc) = tc_sendPool tc" "tc_buffer (tc_set_recv io tc) = io_szBuffer io"
  "src_nRecvBufferSize (tc_set_recv io tc) = src_nRecvBufferSize tc"
  "ss_PerIoRecv (tc_SocketSession (tc_set_recv io tc)) = io"
  "tc_vectServerAddr (tc_set_recv io tc) = tc_vectServerAddr tc"
  "tc_nVectorPos (tc_set_recv io tc) = tc_nVectorPos tc" "tc_this (tc_set_recv io tc) = tc_this tc"
  "tc_bAutoConnect (tc_set_recv io tc) = tc_bAutoConnect tc"
  "ss_PerHandle (tc_SocketSession (tc_set_recv io tc)) = ss_PerHandle (tc_SocketSession tc)"
  by (simp_all add: tc_set_recv_def tc_buffer_def)

text \<open>Steps that change neither the pool nor the buffer.\<close>

lemma tc_invI:
  assumes "tc_inv env H (tc, n)" "net_ok env n'" "n_io n' = n_io n"
    and "\<And>p m. foreign n p m \<Longrightarrow> foreign n' p m"
    and "tc_sendPool tc' = tc_sendPool tc" "ss_PerIoRecv (tc_SocketSession tc') = ss_PerIoRecv (tc_SocketSession tc)"
    and "src_nRecvBufferSize tc' = src_nRecvBufferSize tc"
    and "tc_bIsConnected tc' \<longrightarrow> tc_hSocket tc' \<noteq> INVALID_SOCKET"
  shows "tc_inv env H (tc', n')"
proof -
  have "tc_buffer tc' = tc_buffer tc" using assms(6) by (simp add: tc_buffer_def)
  then have "tc_buf_ok (tc', n')" using assms(1,4,6,7) by (auto simp: tc_inv_def tc_buf_ok_def)
  moreover have "sndp.exclusive env H (tc_sendPool tc', n')"
    using assms(1,5) excl_net [OF _ assms(2,3), of H "tc_sendPool tc"] by (simp add: tc_inv_def)
  ultimately show ?thesis using assms(2,8) by (simp add: tc_inv_def)
qed

lemma tc_inv_sys: "tc_inv env H (tc, n) \<Longrightarrow> \<not> heap_call c \<Longrightarrow> tc_inv env H (tc, snd (sys env c n))"
proof -
  assume a: "tc_inv env H (tc, n)" "\<not> heap_call c"
  then show ?thesis by (intro tc_invI [OF a(1)]) (simp_all add: tc_inv_def)
qed

lemma Close_inv:
  assumes "tc_inv env H s"
  shows "tc_inv env H (snd (CTcpClient_Close env s))"
proof -
  obtain tc n where s: "s = (tc, n)" by (cases s)
  have n: "net_ok env n" using assms s by (simp add: tc_inv_def)
  show ?thesis using assms n unfolding s CTcpClient_Close_def
    by (auto intro!: tc_invI [OF assms [unfolded s]])
qed

lemma Close_closed [simp]:
  "tc_hSocket (fst (snd (CTcpClient_Close env s))) = INVALID_SOCKET"
  by (simp add: CTcpClient_Close_def split: prod.splits)

lemma Disconnect_tc_inv:
  assumes "tc_inv env H s"
  shows "tc_inv env H (snd (CTcpClient_Disconnect env h f s))"
proof -
  obtain b tc n where c: "CTcpClient_Close env s = (b, tc, n)" by (cases "CTcpClient_Close env s")
  have "tc_inv env H (tc, n)" using Close_inv [OF assms] c by simp
  then show ?thesis using c tc_inv_sys [of env H tc n SignalEvent] by (simp add: CTcpClient_Disconnect_def)
qed

lemma PostRecv_tc_inv:
  assumes "tc_inv env H s"
  shows "tc_inv env H (snd (CTcpClient_PostRecv env h s))"
proof -
  obtain tc n where s: "s = (tc, n)" by (cases s)
  let ?tc = "tc_set_recv ((ss_PerIoRecv (tc_SocketSession tc))\<lparr>io_OperType := RECV_POSTED\<rparr>) tc"
  let ?n = "snd (sys env (WSARecv h (tc_buffer tc) (src_nRecvBufferSize tc)) n)"
  have b: "tc_buffer ?tc = tc_buffer tc" by (simp add: tc_buffer_def)
  have n: "net_ok env n" using assms s by (simp add: tc_inv_def)
  have "tc_buf_ok (?tc, ?n)" using assms s b by (simp add: tc_inv_def tc_buf_ok_def)
  moreover have "sndp.exclusive env H (tc_sendPool tc, ?n)"
    using assms s n by - (rule excl_net [where n = n], simp_all add: tc_inv_def)
  ultimately have inv: "tc_inv env H (?tc, ?n)" using assms s n by (simp add: tc_inv_def)
  have "snd (CTcpClient_PostRecv env h s) = (?tc, ?n) \<or>
      snd (CTcpClient_PostRecv env h s) = snd (CTcpClient_Disconnect env h False (?tc, ?n))"
    unfolding s CTcpClient_PostRecv_def using b by (simp add: Let_def case_prod_unfold split: api_ret.split)
  then show ?thesis using inv Disconnect_tc_inv [OF inv, of h False] by auto
qed

lemma pool_tc_inv:
  assumes "tc_inv env H (tc, n)" "sndp.exclusive env H' (pl, n')" "\<And>p m. foreign n p m \<Longrightarrow> foreign n' p m"
  shows "tc_inv env H' (tc\<lparr>tc_sendPool := pl\<rparr>, n')"
proof -
  have "net_ok env n'" using assms(2) by (simp add: sndp.exclusive_def snd_ok_def)
  moreover have "tc_buffer (tc\<lparr>tc_sendPool := pl\<rparr>) = tc_buffer tc" by (simp add: tc_buffer_def)
  ultimately show ?thesis using assms by (auto simp: tc_inv_def tc_buf_ok_def)
qed

lemma PostSend_tc_inv:
  assumes "tc_inv env H s" "i < length H"
  shows "\<exists>s'. CTcpClient_PostSend env (H ! i) s = Inr (True, s') \<and> tc_inv env (take i H @ drop (Suc i) H) s'"
proof -
  obtain tc n where s: "s = (tc, n)" by (cases s)
  have ex: "sndp.exclusive env H (tc_sendPool tc, n)" using assms s by (simp add: tc_inv_def)
  have ok: "snd_ok env (tc_sendPool tc, n)" using ex by (simp add: sndp.exclusive_def)
  obtain pl n' where p: "CSocketSendPool_push env (H ! i) (tc_sendPool tc, n) = Inr (pl, n')"
    "sndp.exclusive env (take i H @ drop (Suc i) H) (pl, n')"
    using snd_push_held [OF ex assms(2)] by auto
  have "foreign n q m \<Longrightarrow> foreign n' q m" for q m using snd_push_foreign [OF ok p(1)] by simp
  from pool_tc_inv [OF assms(1) [unfolded s] p(2) this] p(1) s show ?thesis
    by (simp add: CTcpClient_PostSend_def)
qed

lemma take_tc_inv:
  assumes "tc_inv env H (tc, n)" "CSocketSendPool_pop env k (tc_sendPool tc, n) = Inr (p, pl, n')"
  shows "tc_inv env (if p = NULL then H else p # H) (tc\<lparr>tc_sendPool := pl\<rparr>, n')"
proof -
  have ex: "sndp.exclusive env H (tc_sendPool tc, n)" using assms by (simp add: tc_inv_def)
  have ok: "snd_ok env (tc_sendPool tc, n)" using ex by (simp add: sndp.exclusive_def)
  have "sndp.exclusive env (if p = NULL then H else p # H) (pl, n')"
    using snd_pop_held [OF ex assms(2)] .
  moreover have "foreign n q m \<Longrightarrow> foreign n' q m" for q m using snd_pop_foreign [OF ok assms(2)] by simp
  ultimately show ?thesis using pool_tc_inv [OF assms(1)] by blast
qed

lemma connect_buffer_inv:
  assumes inv: "tc_inv env H (tc, n)" and ret: "connect_buffer env (tc, n) = (tc', n')"
  shows "tc_inv env H (tc', n')" "tc_hSocket tc' = tc_hSocket tc" "tc_bIsConnected tc' = tc_bIsConnected tc"
    "\<exists>c r. n_trace n' = n_trace n @ [(c, r)] \<and> heap_call c"
proof -
  define k where "k = unat (to_u32 (src_nRecvBufferSize tc))"
  define c where "c = (if tc_buffer tc = NULL then HeapAlloc k else HeapReAlloc (tc_buffer tc) k)"
  define r where "r = env (n_trace n) c"
  define old where "old = (if tc_buffer tc = NULL then [] else
      mem_read (n_bytes n) (tc_buffer tc) (nat (io_nLen (ss_PerIoRecv (tc_SocketSession tc)))))"
  have "connect_buffer env (tc, n) =
      (tc_set_recv \<lparr>io_OperType = RECV_POSTED, io_nLen = src_nRecvBufferSize tc, io_szBuffer = ret_ptr r\<rparr> tc,
       if ret_ptr r = NULL then n\<lparr>n_trace := n_trace n @ [(c, r)]\<rparr>
       else n\<lparr>n_trace := n_trace n @ [(c, r)],
              n_bytes := mem_write (n_bytes n) (ret_ptr r) (take k (old @ replicate k 0))\<rparr>)"
    unfolding connect_buffer_def prod.case k_def [symmetric] Let_def c_def [symmetric] old_def [symmetric]
    by (simp add: sys_def r_def [symmetric])
  then have tc': "tc' = tc_set_recv \<lparr>io_OperType = RECV_POSTED, io_nLen = src_nRecvBufferSize tc, io_szBuffer = ret_ptr r\<rparr> tc"
    and n': "if ret_ptr r = NULL then n' = n\<lparr>n_trace := n_trace n @ [(c, r)]\<rparr>
        else \<exists>b. n' = n\<lparr>n_trace := n_trace n @ [(c, r)], n_bytes := b\<rparr>"
    using ret by auto
  show "tc_hSocket tc' = tc_hSocket tc" "tc_bIsConnected tc' = tc_bIsConnected tc" by (simp_all add: tc')
  have tr: "n_trace n' = n_trace n @ [(c, r)]" "n_io n' = n_io n" using n' by (auto split: if_splits)
  then show "\<exists>c r. n_trace n' = n_trace n @ [(c, r)] \<and> heap_call c" by (auto simp: c_def)
  have nok: "net_ok env n" and ex: "sndp.exclusive env H (tc_sendPool tc, n)"
    and con: "tc_bIsConnected tc \<longrightarrow> tc_hSocket tc \<noteq> INVALID_SOCKET" using inv by (auto simp: tc_inv_def)
  have ok: "net_ok env n' \<and> (ret_ptr r \<noteq> NULL \<longrightarrow> foreign n' (ret_ptr r) k)"
  proof (cases "ret_ptr r = NULL")
    case True
    then have "blocks (n_trace n @ [(c, r)]) = blocks (n_trace n)"
      using blocks_alloc_null by (auto simp: c_def)
    then show ?thesis using nok n' True net_ok_trace [OF nok, of "n_trace n @ [(c, r)]"] by simp
  next
    case False
    have "c = HeapAlloc k \<or> (\<exists>p m. c = HeapReAlloc p k \<and> foreign n p m)"
      using inv by (auto simp: c_def tc_inv_def tc_buf_ok_def)
    from heap_new_block [OF nok this r_def [symmetric] False] show ?thesis using n' False by auto
  qed
  have "tc_buf_ok (tc', n')" using ok by (simp add: tc_buf_ok_def tc' k_def)
  moreover have "sndp.exclusive env H (tc_sendPool tc', n')"
    using excl_net [OF ex] ok tr(2) by (simp add: tc')
  ultimately show "tc_inv env H (tc', n')" using ok con by (simp add: tc_inv_def tc')
qed

section \<open>Connecting\<close>

lemma tc_inv_calls: "tc_inv env H (tc, n) \<Longrightarrow> calls plain n n' \<Longrightarrow> tc_inv env H (tc, n')"
proof -
  assume a: "tc_inv env H (tc, n)" "calls plain n n'"
  have "net_ok env n'" using calls_net(1) [OF a(2)] a(1) by (simp add: tc_inv_def)
  then show ?thesis using a(1) calls_blocks [OF a(2)] calls_net(2) [OF a(2)]
    by (intro tc_invI [OF a(1)]) (simp_all add: tc_inv_def)
qed

lemma connect_bind_calls: "connect_bind env (tc, n) = (b, n') \<Longrightarrow> calls plain n n'"
  by (auto simp: connect_bind_def Let_def case_prod_unfold split: if_splits)

text \<open>The two ways in which \<open>Connect\<close> can end.\<close>

lemma Connect_cases:
  assumes ret: "CTcpClient_Connect env oninit s = Inr (b, s')"
  obtains (failed) n1 where "\<not> b" "s' = (fst (snd (CTcpClient_Close env s)), n1)"
      "calls plain (snd (sys env WSASocketTcp (snd (snd (CTcpClient_Close env s))))) n1"
  | (connected) n1 h where "b" "env (n_trace (snd (snd (CTcpClient_Close env s)))) WSASocketTcp = Ok h"
      "h \<noteq> INVALID_SOCKET" "calls plain (snd (sys env WSASocketTcp (snd (snd (CTcpClient_Close env s))))) n1"
      "s' = connect_finish env oninit h (fst (snd (CTcpClient_Close env s)), n1)"
proof -
  obtain u tc n where c: "CTcpClient_Close env s = (u, tc, n)" by (cases "CTcpClient_Close env s")
  define r where "r = env (n_trace n) WSASocketTcp"
  define n1 where "n1 = snd (sys env WSASocketTcp n)"
  define h where "h = (case r of Ok v \<Rightarrow> v | Err e \<Rightarrow> INVALID_SOCKET)"
  have s1: "sys env WSASocketTcp n = (r, n1)" by (simp add: r_def n1_def prod_eq_iff)
  obtain bd n2 where b2: "connect_bind env (tc, n1) = (bd, n2)" by fastforce
  obtain szName nPort where v: "tc_vectServerAddr tc ! unat (tc_nVectorPos tc) = (szName, nPort)" by fastforce
  obtain a n3 where r3: "resolve_host env szName n2 = (a, n3)" by fastforce
  note c2 = connect_bind_calls [OF b2] and c3 = calls_trans [OF connect_bind_calls [OF b2] resolve_host_calls [OF r3]]
  have eq: "CTcpClient_Connect env oninit s =
      (if h = INVALID_SOCKET then Inr (False, tc, n1)
       else if \<not> bd then Inr (False, tc, n2)
       else if length (tc_vectServerAddr tc) \<le> unat (tc_nVectorPos tc) then Inl OutOfBounds
       else case a of None \<Rightarrow> Inr (False, tc, n3)
         | Some sin_addr \<Rightarrow>
             let (rc, n4) = sys env (WSAConnect h sin_addr (uint nPort)) n3
             in if \<not> is_ok rc then Inr (False, tc, n4)
                else Inr (CTcpClient_DoOpen (connect_finish env oninit h (tc, n4))))"
    unfolding CTcpClient_Connect_def c prod.case s1 Let_def h_def [symmetric] b2 v r3 ..
  show thesis
  proof (cases "h = INVALID_SOCKET \<or> \<not> bd \<or> a = None")
    case True
    then have "\<not> b \<and> fst s' = tc \<and> calls plain n1 (snd s')"
      using ret c2 c3 unfolding eq by (auto split: if_splits)
    then show thesis using failed [of "snd s'"] c by (simp add: n1_def prod_eq_iff)
  next
    case False
    then obtain x where x: "a = Some x" by auto
    define n4 where "n4 = snd (sys env (WSAConnect h x (uint nPort)) n3)"
    have c4: "calls plain n1 n4" unfolding n4_def by (rule calls_sys_trans [OF c3]) simp
    have "b \<and> s' = connect_finish env oninit h (tc, n4) \<or> \<not> b \<and> s' = (tc, n4)"
      using ret False x unfolding eq
      by (auto simp: n4_def CTcpClient_DoOpen_def case_prod_unfold Let_def split: if_splits)
    then show thesis
    proof
      assume f: "\<not> b \<and> s' = (tc, n4)"
      then show thesis using failed [of n4] c c4 by (simp add: n1_def)
    next
      assume t: "b \<and> s' = connect_finish env oninit h (tc, n4)"
      have "r = Ok h" using False by (cases r) (auto simp: h_def)
      then show thesis using connected [of h n4] t c c4 False by (simp add: n1_def r_def)
    qed
  qed
qed

lemma connect_finish_spec:
  assumes inv: "tc_inv env H (tc, n)" and h: "h \<noteq> INVALID_SOCKET"
    and ret: "connect_finish env oninit h (tc, n) = (tc', n')"
  shows "tc_inv env H (tc', n')" "tc_hSocket tc' = h" "tc_bIsConnected tc'"
    "\<exists>t. n_trace n' = n_trace n @ t \<and> closed_sockets t = [] \<and> opened_sockets t = []"
proof -
  obtain tc1 n1 where b: "connect_buffer env (tc, n) = (tc1, n1)" by fastforce
  note bi = connect_buffer_inv [OF inv b]
  define n2 where "n2 = snd (sys env (WSARecv h (tc_buffer tc1) (src_nRecvBufferSize tc1))
      (snd (sys env (OnInitSocket (tc_this tc1)) (snd (sys env (AssociateSocket h (tc_this tc1)) n1)))))"
  define ss where "ss = (tc_SocketSession tc1)\<lparr>ss_PerHandle := (ss_PerHandle (tc_SocketSession tc1))\<lparr>ph_hSocket := h\<rparr>\<rparr>"
  define ss2 where "ss2 = ss\<lparr>ss_PerHandle := (ss_PerHandle ss)\<lparr>ph_pAttachInfo := oninit ss\<rparr>\<rparr>"
  have io: "ss_PerIoRecv ss2 = ss_PerIoRecv (tc_SocketSession tc1)" by (simp add: ss2_def ss_def)
  have buf: "tc_buffer (tc1\<lparr>tc_SocketSession := ss2\<rparr>) = tc_buffer tc1" by (simp add: tc_buffer_def io)
  have r: "tc' = tc1\<lparr>tc_SocketSession := ss2, tc_hSocket := h, tc_bIsConnected := True\<rparr>" "n' = n2"
    using ret buf unfolding connect_finish_def b prod.case Let_def ss_def [symmetric] ss2_def [symmetric] n2_def
    by simp_all
  then show "tc_hSocket tc' = h" "tc_bIsConnected tc'" by simp_all
  have c: "calls plain n1 n2" unfolding n2_def by auto
  have "net_ok env n2" using calls_net(1) [OF c] bi(1) by (simp add: tc_inv_def)
  then show "tc_inv env H (tc', n')" unfolding r
    using h io calls_blocks(2) [OF c] calls_net(2) [OF c]
    by (intro tc_invI [OF bi(1)]) simp_all
  obtain y ry where "n_trace n1 = n_trace n @ [(y, ry)]" "heap_call y" using bi(4) by blast
  moreover from this(2) have "closed_sockets [(y, ry)] = [] \<and> opened_sockets [(y, ry)] = []"
    by (cases y) auto
  moreover obtain t where "n_trace n2 = n_trace n1 @ t" "\<forall>y \<in> set t. plain (fst y)"
    using c by (auto simp: calls_def)
  ultimately show "\<exists>t. n_trace n' = n_trace n @ t \<and> closed_sockets t = [] \<and> opened_sockets t = []"
    using plain_sockets [of t] r(2) opened_append [of "[(y, ry)]" t] closed_append [of "[(y, ry)]" t]
    by (intro exI [of _ "[(y, ry)] @ t"]) simp
qed

lemma Close_trace:
  "CTcpClient_Close env (tc, n) = (b, tc', n') \<Longrightarrow>
   \<exists>t. n_trace n' = n_trace n @ t \<and> opened_sockets t = [] \<and>
     closed_sockets t = (if tc_hSocket tc = INVALID_SOCKET then [] else [tc_hSocket tc]) \<and>
     \<not> tc_bIsConnected tc' \<or> tc_hSocket tc = INVALID_SOCKET \<and> tc' = tc \<and> n' = n"
  by (auto simp: CTcpClient_Close_def split: if_splits)

lemma Connect_spec:
  assumes inv: "tc_inv env H (tc, n)" and ret: "CTcpClient_Connect env oninit (tc, n) = Inr (b, tc', n')"
  shows "tc_inv env H (tc', n')" "tc_bIsConnected tc' = b" "\<not> b \<Longrightarrow> tc_hSocket tc' = INVALID_SOCKET"
    "\<exists>t. n_trace n' = n_trace n @ t \<and>
       closed_sockets t = (if tc_hSocket tc = INVALID_SOCKET then [] else [tc_hSocket tc]) \<and>
       length (opened_sockets t) \<le> 1 \<and> (b \<longrightarrow> opened_sockets t = [tc_hSocket tc'])"
proof -
  obtain u tc1 n1 where c: "CTcpClient_Close env (tc, n) = (u, tc1, n1)" by (cases "CTcpClient_Close env (tc, n)")
  have i1: "tc_inv env H (tc1, n1)" and h1: "tc_hSocket tc1 = INVALID_SOCKET"
    using Close_inv [OF inv] Close_closed [of env "(tc, n)"] c by simp_all
  have nc: "\<not> tc_bIsConnected tc1" using i1 h1 by (auto simp: tc_inv_def)
  obtain t1 where t1: "n_trace n1 = n_trace n @ t1" "opened_sockets t1 = []"
      "closed_sockets t1 = (if tc_hSocket tc = INVALID_SOCKET then [] else [tc_hSocket tc])"
    using Close_trace [OF c] by (auto intro: that [of "[]"])
  define n2 where "n2 = snd (sys env WSASocketTcp n1)"
  have i2: "tc_inv env H (tc1, n2)" unfolding n2_def by (rule tc_inv_sys [OF i1]) simp
  have n2: "n_trace n2 = n_trace n1 @ [(WSASocketTcp, env (n_trace n1) WSASocketTcp)]" by (simp add: n2_def)
  have op: "length (opened_sockets [(WSASocketTcp, r)]) \<le> 1" "closed_sockets [(WSASocketTcp, r)] = []" for r
    by (cases r; simp)+
  have all: "tc_inv env H (tc', n') \<and> tc_bIsConnected tc' = b \<and> (\<not> b \<longrightarrow> tc_hSocket tc' = INVALID_SOCKET) \<and>
    (\<exists>t. n_trace n' = n_trace n @ t \<and>
       closed_sockets t = (if tc_hSocket tc = INVALID_SOCKET then [] else [tc_hSocket tc]) \<and>
       length (opened_sockets t) \<le> 1 \<and> (b \<longrightarrow> opened_sockets t = [tc_hSocket tc']))"
    using ret
  proof (cases rule: Connect_cases)
    case (failed m)
    have m: "tc' = tc1" "n' = m" "calls plain n2 m" using failed c by (simp_all add: n2_def)
    obtain t2 where t2: "n_trace m = n_trace n2 @ t2" "\<forall>y \<in> set t2. plain (fst y)"
      using m(3) by (auto simp: calls_def)
    show ?thesis using m failed(1) t1 n2 t2 op plain_sockets [OF t2(2)] tc_inv_calls [OF i2 m(3)] h1 nc
      by (intro conjI exI [of _ "t1 @ [(WSASocketTcp, env (n_trace n1) WSASocketTcp)] @ t2"])
        (simp_all only: opened_append closed_append append_assoc append_Nil append_Nil2 if_cancel simp_thms)
  next
    case (connected m h)
    have m: "env (n_trace n1) WSASocketTcp = Ok h" "calls plain n2 m"
      "connect_finish env oninit h (tc1, m) = (tc', n')" using connected c by (simp_all add: n2_def)
    note f = connect_finish_spec [OF tc_inv_calls [OF i2 m(2)] connected(3) m(3)]
    obtain t2 where t2: "n_trace m = n_trace n2 @ t2" "\<forall>y \<in> set t2. plain (fst y)"
      using m(2) by (auto simp: calls_def)
    obtain t3 where t3: "n_trace n' = n_trace m @ t3" "closed_sockets t3 = []" "opened_sockets t3 = []"
      using f(4) by blast
    have s0: "opened_sockets [(WSASocketTcp, Ok h)] = [h]" "closed_sockets [(WSASocketTcp, Ok h)] = []" by simp_all
    show ?thesis using connected(1) f(1-3) t1 n2 t2 t3 plain_sockets [OF t2(2)] m(1) s0
      by (intro conjI exI [of _ "t1 @ [(WSASocketTcp, Ok h)] @ t2 @ t3"])
        (simp_all only: opened_append closed_append append_assoc append_Nil append_Nil2 if_cancel simp_thms list.size add_0)
  qed
  show "tc_inv env H (tc', n')" "tc_bIsConnected tc' = b" "\<not> b \<Longrightarrow> tc_hSocket tc' = INVALID_SOCKET"
    "\<exists>t. n_trace n' = n_trace n @ t \<and>
       closed_sockets t = (if tc_hSocket tc = INVALID_SOCKET then [] else [tc_hSocket tc]) \<and>
       length (opened_sockets t) \<le> 1 \<and> (b \<longrightarrow> opened_sockets t = [tc_hSocket tc'])"
    using all by auto
qed

section \<open>The client as a transition system\<close>

lemma IsRealConnected_inv:
  assumes "tc_inv env H s"
  shows "tc_inv env H (snd (CTcpClient_IsRealConnected env s))"
proof -
  obtain tc n where s: "s = (tc, n)" by (cases s)
  have n: "net_ok env n" using assms s by (simp add: tc_inv_def)
  show ?thesis
  proof (cases "tc_hSocket tc = INVALID_SOCKET")
    case True
    then show ?thesis using n assms s unfolding CTcpClient_IsRealConnected_def s
      by (auto intro!: tc_invI [OF assms [unfolded s]])
  next
    case False
    let ?n = "snd (sys env (Select (tc_hSocket tc)) n)"
    have "tc_inv env H (tc, ?n)" using assms s by (intro tc_inv_sys) auto
    from Close_inv [OF this] have c: "tc_inv env H (snd (CTcpClient_Close env (tc, ?n)))" .
    have "tc_inv env H (tc\<lparr>tc_bIsConnected := True\<rparr>, ?n)"
      using n False by (intro tc_invI [OF assms [unfolded s]]) auto
    then show ?thesis using c False unfolding CTcpClient_IsRealConnected_def s
      by (simp add: Let_def case_prod_unfold)
  qed
qed

lemma config_inv:
  assumes "tc_inv env H (tc, n)"
  shows "tc_inv env H (tc\<lparr>tc_vectServerAddr := v\<rparr>, n)" "tc_inv env H (tc\<lparr>tc_nLocalPort := p\<rparr>, n)"
    "tc_inv env H (tc\<lparr>tc_nVectorPos := p\<rparr>, n)"
    "tc_inv env H (tc\<lparr>tc_bAutoConnect := b, tc_nCheckIntervalTime := i, tc_nReconnectSleepTime := j\<rparr>, n)"
  using assms by (simp_all add: tc_inv_def tc_buf_ok_def tc_buffer_def)

lemma SetAutoConnect_inv:
  assumes "tc_inv env H s"
  shows "tc_inv env H (snd (CTcpClient_SetAutoConnect env b i j s))"
proof -
  obtain tc n where s: "s = (tc, n)" by (cases s)
  have "calls plain n n' \<Longrightarrow> tc_inv env H (tc\<lparr>tc_bAutoConnect := b, tc_nCheckIntervalTime := i, tc_nReconnectSleepTime := j\<rparr>, n')" for n'
    using config_inv(4) tc_inv_calls assms s by blast
  moreover have "calls plain n (snd (snd (CTcpClient_SetAutoConnect env b i j s)))"
    unfolding s CTcpClient_SetAutoConnect_def by (auto simp: Let_def)
  ultimately show ?thesis unfolding s CTcpClient_SetAutoConnect_def by (simp add: Let_def)
qed

lemma Open_tc_inv:
  assumes inv: "tc_inv env H s" and ret: "CTcpClient_Open env oninit name port lp s = Inr (b, s')"
  shows "tc_inv env H s'"
proof -
  obtain tc n where s: "s = (tc, n)" by (cases s)
  obtain tc2 where t2: "tc_inv env H (tc2, n)"
      "rbind (CTcpClient_Connect env oninit (tc2, n)) (\<lambda>(b, tc3, n3).
             if b then Inr (True, tc3, n3)
             else Inr (False, tc3, if tc_bAutoConnect tc3 then snd (sys env SignalEvent n3) else n3)) = Inr (b, s')"
    using ret config_inv(1,2) [OF config_inv(2) [OF inv [unfolded s]]] unfolding CTcpClient_Open_def s
    by (auto simp: Let_def CTcpClient_AppendServerAddr_def split: if_splits)
  then obtain b3 tc3 n3 where c: "CTcpClient_Connect env oninit (tc2, n) = Inr (b3, tc3, n3)"
      "s' = (tc3, n3) \<or> s' = (tc3, snd (sys env SignalEvent n3))"
    by (auto simp: res_simps split: if_splits)
  have i3: "tc_inv env H (tc3, n3)" using Connect_spec(1) [OF t2(1) c(1)] .
  then show ?thesis using c(2) tc_inv_sys [OF i3, of SignalEvent] by auto
qed

type_synonym tc_sys = "addr list \<times> tc_state"

inductive tc_step :: "env \<Rightarrow> (SOCKET_SESSION \<Rightarrow> addr) \<Rightarrow> tc_sys \<Rightarrow> tc_sys \<Rightarrow> bool" for env oninit where
  "open": "CTcpClient_Open env oninit name port lp s = Inr (b, s') \<Longrightarrow> tc_step env oninit (H, s) (H, s')"
| connect: "CTcpClient_Connect env oninit s = Inr (b, s') \<Longrightarrow> tc_step env oninit (H, s) (H, s')"
| close: "tc_step env oninit (H, s) (H, snd (CTcpClient_Close env s))"
| disconnect: "tc_step env oninit (H, s) (H, snd (CTcpClient_Disconnect env h f s))"
| recv: "tc_step env oninit (H, s) (H, snd (CTcpClient_PostRecv env h s))"
| check: "tc_step env oninit (H, s) (H, snd (CTcpClient_IsRealConnected env s))"
| auto_on: "tc_step env oninit (H, s) (H, snd (CTcpClient_SetAutoConnect env b i j s))"
| append: "tc_step env oninit (H, tc, n) (H, snd (CTcpClient_AppendServerAddr name port tc), n)"
| remove: "tc_step env oninit (H, tc, n) (H, snd (CTcpClient_RemoveServerAddr k tc), n)"
| take: "CSocketSendPool_pop env k (tc_sendPool tc, n) = Inr (p, pl, n') \<Longrightarrow>
    tc_step env oninit (H, tc, n) (if p = NULL then H else p # H, tc\<lparr>tc_sendPool := pl\<rparr>, n')"
| complete: "i < length H \<Longrightarrow> CTcpClient_PostSend env (H ! i) s = Inr (b, s') \<Longrightarrow>
    tc_step env oninit (H, s) (take i H @ drop (Suc i) H, s')"

lemma tc_step_inv:
  assumes "tc_step env oninit x y" "tc_inv env (fst x) (snd x)"
  shows "tc_inv env (fst y) (snd y)"
  using assms
proof (induction rule: tc_step.induct)
  case (connect s b s' H)
  then show ?case using Connect_spec(1) [of env H "fst s" "snd s" oninit b "fst s'" "snd s'"] by simp
next
  case (complete i H s b s')
  then show ?case using PostSend_tc_inv [of env H s i] by auto
next
  case (take k tc n p pl n' H)
  then show ?case using take_tc_inv [of env H tc n k p pl n'] by simp
qed (auto simp: Close_inv Disconnect_tc_inv PostRecv_tc_inv IsRealConnected_inv SetAutoConnect_inv
    CTcpClient_AppendServerAddr_def CTcpClient_RemoveServerAddr_def config_inv(1) intro: Open_tc_inv)

lemma tc_reach_inv:
  "(tc_step env oninit)\<^sup>*\<^sup>* x y \<Longrightarrow> tc_inv env (fst x) (snd x) \<Longrightarrow> tc_inv env (fst y) (snd y)"
  by (induction rule: rtranclp_induct) (auto dest: tc_step_inv)

definition tc_fresh :: "CTcpClient \<Rightarrow> bool" where
  "tc_fresh tc \<longleftrightarrow> tc_hSocket tc = INVALID_SOCKET \<and> \<not> tc_bIsConnected tc \<and> tc_buffer tc = NULL \<and>
     snd_objFreeList (tc_sendPool tc) = []"

lemma tc_fresh_new:
  "tc_fresh (CTcpClient_SetInterface a b c (CTcpClient_SetBufferSize d e (CTcpClient_new junk junk' this session)))"
  by (simp add: tc_fresh_def tc_buffer_def CTcpClient_SetInterface_def CTcpClient_SetBufferSize_def
      source_SetInterface_def source_SetBufferSize_def Let_def CTcpClient_new_def CSocketSource.extend_def
      CTcpClient.fields_def zero_session_def zero_io_def CSocketSendPool_new_def)

lemma tc_fresh_inv: "net_ok env n \<Longrightarrow> tc_fresh tc \<Longrightarrow> tc_inv env [] (tc, n)"
  by (simp add: tc_inv_def tc_fresh_def tc_buf_ok_def sndp.exclusive_def snd_ok_def)


text \<open>
  C17. \<open>Connect\<close> closes the old socket, and exactly that. If it succeeds, the client is connected
  with the one socket that it has made. If it fails, the client is not connected and has no
  socket: a socket that it has made by then is never closed.
\<close>

theorem tcp_client_connect:
  assumes "tc_inv env H (tc, n)" "CTcpClient_Connect env oninit (tc, n) = Inr (b, tc', n')"
  shows "CTcpClient_IsConnected tc' = b \<and> (\<not> b \<longrightarrow> tc_hSocket tc' = INVALID_SOCKET) \<and>
    (\<exists>t. n_trace n' = n_trace n @ t \<and>
       closed_sockets t = (if tc_hSocket tc = INVALID_SOCKET then [] else [tc_hSocket tc]) \<and>
       length (opened_sockets t) \<le> 1 \<and> (b \<longrightarrow> opened_sockets t = [tc_hSocket tc']))"
  using Connect_spec [OF assms] by (simp add: CTcpClient_IsConnected_def)

end
