(* ===== verification/TcpClientProps.thy ===== *)
theory TcpClientProps
  imports TcpClientInv
begin

text \<open>
  What \<open>CTcpClient\<close> does: its reconnecting thread reaches a server that accepts, a local port
  makes \<open>Connect\<close> fail, and \<open>Send\<close> passes on a prefix of the message in both modes.
\<close>

section \<open>The reconnecting thread\<close>

definition attempts :: "trace \<Rightarrow> nat" where
  "attempts t = length (filter (\<lambda>y. fst y = WSASocketTcp) t)"

lemma attempts_append [simp]: "attempts (t @ t') = attempts t + attempts t'"
  by (simp add: attempts_def)

lemma plain_attempts: "\<forall>y \<in> set t. plain (fst y) \<Longrightarrow> attempts t = 0"
  by (induction t) (auto simp: attempts_def)

text \<open>What \<open>Connect\<close> leaves as it is.\<close>

definition same_config :: "CTcpClient \<Rightarrow> CTcpClient \<Rightarrow> bool" where
  "same_config tc tc' \<longleftrightarrow> tc_vectServerAddr tc' = tc_vectServerAddr tc \<and> tc_nVectorPos tc' = tc_nVectorPos tc \<and>
     tc_nLocalPort tc' = tc_nLocalPort tc \<and> tc_nReconnectSleepTime tc' = tc_nReconnectSleepTime tc"

lemma connect_finish_frame:
  assumes "connect_finish env oninit h (tc, n) = (tc', n')"
  shows "same_config tc tc' \<and> (\<exists>t. n_trace n' = n_trace n @ t \<and> attempts t = 0) \<and> tc_bIsConnected tc'"
proof -
  obtain tc1 n1 where b: "connect_buffer env (tc, n) = (tc1, n1)" by fastforce
  define c where "c = (if tc_buffer tc = NULL then HeapAlloc (unat (to_u32 (src_nRecvBufferSize tc)))
      else HeapReAlloc (tc_buffer tc) (unat (to_u32 (src_nRecvBufferSize tc))))"
  have t1: "n_trace n1 = n_trace n @ [(c, env (n_trace n) c)]" "same_config tc tc1"
    using b unfolding connect_buffer_def prod.case Let_def c_def [symmetric]
    by (auto simp: sys_def same_config_def tc_set_recv_def split: if_splits)
  have "attempts [(c, r)] = 0" for r by (simp add: attempts_def c_def)
  moreover have "n_trace n' = n_trace n1 @
      [(AssociateSocket h (tc_this tc1), env (n_trace n1) (AssociateSocket h (tc_this tc1)))] @ t \<Longrightarrow>
      attempts t = 0 \<Longrightarrow> ?thesis" for t
    using calculation t1 assms b unfolding connect_finish_def
    by (intro conjI exI [of _ "[(c, env (n_trace n) c)] @ [(AssociateSocket h (tc_this tc1), env (n_trace n1) (AssociateSocket h (tc_this tc1)))] @ t"])
      (auto simp: same_config_def Let_def attempts_def)
  ultimately show ?thesis using assms b unfolding connect_finish_def by (auto simp: Let_def attempts_def)
qed

lemma Close_frame:
  "CTcpClient_Close env (tc, n) = (b, tc', n') \<Longrightarrow>
   same_config tc tc' \<and> (\<exists>t. n_trace n' = n_trace n @ t \<and> attempts t = 0)"
  by (auto simp: CTcpClient_Close_def same_config_def attempts_def split: if_splits)

lemma Connect_frame:
  assumes "CTcpClient_Connect env oninit (tc, n) = Inr (b, tc', n')"
  shows "same_config tc tc' \<and> (\<exists>t. n_trace n' = n_trace n @ t \<and> attempts t = 1) \<and> (b \<longrightarrow> tc_bIsConnected tc')"
proof -
  obtain u tc1 n1 where c: "CTcpClient_Close env (tc, n) = (u, tc1, n1)" by (cases "CTcpClient_Close env (tc, n)")
  obtain t1 where t1: "same_config tc tc1" "n_trace n1 = n_trace n @ t1" "attempts t1 = 0"
    using Close_frame [OF c] by blast
  define x where "x = (WSASocketTcp, env (n_trace n1) WSASocketTcp)"
  have x: "attempts [x] = 1" by (simp add: attempts_def x_def)
  have n2: "n_trace m = n_trace n @ t1 @ [x] @ t" if "n_trace m = n_trace (snd (sys env WSASocketTcp n1)) @ t" for m t
    using that t1(2) by (simp add: x_def)
  have pl: "\<exists>t. n_trace m = n_trace (snd (sys env WSASocketTcp n1)) @ t \<and> attempts t = 0"
    if "calls plain (snd (sys env WSASocketTcp n1)) m" for m
    using that plain_attempts by (auto simp: calls_def)
  from assms show ?thesis
  proof (cases rule: Connect_cases)
    case (failed m)
    then have m: "tc' = tc1" "n' = m" "calls plain (snd (sys env WSASocketTcp n1)) m" using c by simp_all
    obtain t where t: "n_trace m = n_trace (snd (sys env WSASocketTcp n1)) @ t" "attempts t = 0"
      using pl [OF m(3)] by blast
    show ?thesis using failed(1) m t1(1,3) n2 [OF t(1)] t(2) x
      by (intro conjI exI [of _ "t1 @ [x] @ t"]) (simp_all only: attempts_append, simp_all)
  next
    case (connected m h)
    then have m: "calls plain (snd (sys env WSASocketTcp n1)) m" "connect_finish env oninit h (tc1, m) = (tc', n')"
      using c by simp_all
    obtain t where t: "n_trace m = n_trace (snd (sys env WSASocketTcp n1)) @ t" "attempts t = 0"
      using pl [OF m(1)] by blast
    obtain t' where t': "n_trace n' = n_trace m @ t'" "attempts t' = 0"
      using connect_finish_frame [OF m(2)] by blast
    show ?thesis using connect_finish_frame [OF m(2)] t1(1,3) n2 [OF t(1)] t(2) t' x
      by (intro conjI exI [of _ "t1 @ [x] @ t @ t'"])
        (simp_all only: attempts_append, simp_all add: same_config_def)
  qed
qed

text \<open>A server that accepts: its name resolves, always to \<open>a\<close>, and every connection succeeds.\<close>

definition accepts :: "env \<Rightarrow> byte list \<Rightarrow> SERVER_ADDR \<Rightarrow> bool" where
  "accepts env a sa \<longleftrightarrow> (\<forall>n. fst (resolve_host env (fst sa) n) = Some a) \<and>
     (\<forall>t h. is_ok (env t (WSAConnect h a (uint (snd sa)))))"

lemma Connect_total:
  assumes "unat (tc_nVectorPos tc) < length (tc_vectServerAddr tc)"
  shows "\<exists>b tc' n'. CTcpClient_Connect env oninit (tc, n) = Inr (b, tc', n')"
proof -
  obtain u tc1 n1 where c: "CTcpClient_Close env (tc, n) = (u, tc1, n1)" by (cases "CTcpClient_Close env (tc, n)")
  then have "unat (tc_nVectorPos tc1) < length (tc_vectServerAddr tc1)"
    using assms Close_frame [OF c] by (simp add: same_config_def)
  then show ?thesis unfolding CTcpClient_Connect_def c
    by (auto simp: Let_def case_prod_unfold CTcpClient_DoOpen_def split: option.split)
qed

lemma Connect_succeeds:
  assumes "unat (tc_nVectorPos tc) < length (tc_vectServerAddr tc)" "tc_nLocalPort tc = 0"
    and "\<And>t. \<exists>h. env t WSASocketTcp = Ok h \<and> h \<noteq> INVALID_SOCKET"
    and "accepts env a (tc_vectServerAddr tc ! unat (tc_nVectorPos tc))"
  shows "\<exists>tc' n'. CTcpClient_Connect env oninit (tc, n) = Inr (True, tc', n')"
proof -
  obtain u tc1 n1 where c: "CTcpClient_Close env (tc, n) = (u, tc1, n1)" by (cases "CTcpClient_Close env (tc, n)")
  then have f: "same_config tc tc1" using Close_frame [OF c] by simp
  obtain h where h: "env (n_trace n1) WSASocketTcp = Ok h" "h \<noteq> INVALID_SOCKET" using assms(3) by blast
  define n2 where "n2 = snd (sys env WSASocketTcp n1)"
  have s: "sys env WSASocketTcp n1 = (Ok h, n2)" using h by (simp add: n2_def prod_eq_iff)
  have b: "connect_bind env (tc1, n2) = (True, n2)" using f assms(2) by (simp add: connect_bind_def same_config_def)
  obtain nm pt where v: "tc_vectServerAddr tc1 ! unat (tc_nVectorPos tc1) = (nm, pt)" by fastforce
  have ac: "accepts env a (nm, pt)" using assms(4) f v by (simp add: same_config_def)
  obtain n3 where r: "resolve_host env nm n2 = (Some a, n3)" using ac by (metis accepts_def fst_conv prod.collapse)
  have k: "is_ok (fst (sys env (WSAConnect h a (uint pt)) n3))" using ac by (simp add: accepts_def)
  show ?thesis using assms(1) f h b v r k s unfolding CTcpClient_Connect_def c
    by (simp add: Let_def case_prod_unfold CTcpClient_DoOpen_def same_config_def)
qed

lemma unat_next_pos:
  assumes "0 < k" "k \<le> 65536" "unat pos < k"
  shows "unat (next_pos (int k) pos) = (unat pos + 1) mod k"
proof (cases "k = 1")
  case True
  then show ?thesis using assms by (simp add: next_pos_def)
next
  case False
  have e: "(uint pos + 1) mod int k = int ((unat pos + 1) mod k)" by (simp add: zmod_int add.commute)
  have "(unat pos + 1) mod k < 65536" using assms mod_less_divisor [of k "unat pos + 1"] by linarith
  then have "unat (of_nat ((unat pos + 1) mod k) :: u16) = (unat pos + 1) mod k"
    by (simp add: unsigned_of_nat take_bit_nat_eq_self)
  then show ?thesis using False assms(1) by (simp add: next_pos_def e del: of_nat_unat)
qed

lemma retry_connect_step:
  assumes "\<And>t. \<not> is_true (env t IsStop)" "CTcpClient_Connect env oninit
      (if bRet then tc else tc\<lparr>tc_nVectorPos := next_pos nSize (tc_nVectorPos tc)\<rparr>,
       snd (sys env (Sleep (tc_nReconnectSleepTime tc)) (snd (sys env IsStop n)))) = Inr (b, s')"
  shows "retry_connect env oninit nSize bRet (tc, n) =
    (if b then Some (Inr (False, s')) else retry_connect env oninit nSize b s')"
  using assms by (subst retry_connect.simps) (simp add: Let_def)

text \<open>One attempt at the address where the loop stands.\<close>

lemma retry_connect_one:
  assumes sock: "\<And>t. \<exists>h. env t WSASocketTcp = Ok h \<and> h \<noteq> INVALID_SOCKET"
    and go: "\<And>t. \<not> is_true (env t IsStop)"
    and pos: "tc1 = (if bRet then tc else tc\<lparr>tc_nVectorPos := next_pos nSize (tc_nVectorPos tc)\<rparr>)"
      "unat (tc_nVectorPos tc1) < length (tc_vectServerAddr tc)" "tc_nLocalPort tc = 0"
  shows "\<exists>b tc' n' t. retry_connect env oninit nSize bRet (tc, n) =
      (if b then Some (Inr (False, tc', n')) else retry_connect env oninit nSize b (tc', n')) \<and>
    same_config tc1 tc' \<and> n_trace n' = n_trace n @ t \<and> attempts t = 1 \<and> (b \<longrightarrow> tc_bIsConnected tc') \<and>
    (accepts env a (tc_vectServerAddr tc ! unat (tc_nVectorPos tc1)) \<longrightarrow> b)"
proof -
  define n2 where "n2 = snd (sys env (Sleep (tc_nReconnectSleepTime tc)) (snd (sys env IsStop n)))"
  have c1: "tc_vectServerAddr tc1 = tc_vectServerAddr tc" "tc_nLocalPort tc1 = 0" using pos by (simp_all split: if_splits)
  obtain b tc' n' where c: "CTcpClient_Connect env oninit (tc1, n2) = Inr (b, tc', n')"
    using Connect_total [of tc1 env oninit n2] pos(2) c1 by auto
  obtain t where t: "n_trace n' = n_trace n2 @ t" "attempts t = 1" using Connect_frame [OF c] by blast
  have "\<exists>t0. n_trace n2 = n_trace n @ t0 \<and> attempts t0 = 0" by (simp add: n2_def attempts_def)
  then obtain t0 where t0: "n_trace n2 = n_trace n @ t0" "attempts t0 = 0" by blast
  have "accepts env a (tc_vectServerAddr tc ! unat (tc_nVectorPos tc1)) \<longrightarrow> b"
    using Connect_succeeds [of tc1 env a oninit n2] pos(2) c1 sock c by auto
  then show ?thesis
    using retry_connect_step [of env oninit bRet tc nSize n b "(tc', n')"] go c pos(1) t t0 Connect_frame [OF c]
    by (intro exI [of _ b] exI [of _ tc'] exI [of _ n'] exI [of _ "t0 @ t"]) (simp add: n2_def)
qed

text \<open>From a failed attempt on, the loop tries the addresses one after the other; \<open>d\<close> is how far
  the good one is away.\<close>

lemma retry_connect_reaches:
  assumes sock: "\<And>t. \<exists>h. env t WSASocketTcp = Ok h \<and> h \<noteq> INVALID_SOCKET"
    and go: "\<And>t. \<not> is_true (env t IsStop)"
    and v: "length v = k" "k \<le> 65536" "accepts env a (v ! j)" "j < k"
  shows "tc_vectServerAddr tc = v \<Longrightarrow> tc_nLocalPort tc = 0 \<Longrightarrow> unat (tc_nVectorPos tc) < k \<Longrightarrow>
    (unat (tc_nVectorPos tc) + 1 + d) mod k = j \<Longrightarrow>
    \<exists>tc' n' t. retry_connect env oninit (int k) False (tc, n) = Some (Inr (False, tc', n')) \<and>
      tc_bIsConnected tc' \<and> n_trace n' = n_trace n @ t \<and> attempts t \<le> d + 1"
proof (induction d arbitrary: tc n)
  case (0 tc n)
  let ?tc1 = "tc\<lparr>tc_nVectorPos := next_pos (int k) (tc_nVectorPos tc)\<rparr>"
  have p: "unat (tc_nVectorPos ?tc1) = j" using unat_next_pos [OF _ v(2) 0(3)] 0(4) v(4) by simp
  obtain b tc' n' t where "retry_connect env oninit (int k) False (tc, n) =
        (if b then Some (Inr (False, tc', n')) else retry_connect env oninit (int k) b (tc', n'))"
      "n_trace n' = n_trace n @ t" "attempts t = 1" "b \<longrightarrow> tc_bIsConnected tc'"
      "accepts env a (tc_vectServerAddr tc ! unat (tc_nVectorPos ?tc1)) \<longrightarrow> b"
    using retry_connect_one [of env ?tc1 False tc "int k" oninit n a, OF sock go] p v 0(1,2) by auto
  then show ?case using p v(3) 0(1) by auto
next
  case (Suc d tc n)
  let ?tc1 = "tc\<lparr>tc_nVectorPos := next_pos (int k) (tc_nVectorPos tc)\<rparr>"
  have p: "unat (tc_nVectorPos ?tc1) = (unat (tc_nVectorPos tc) + 1) mod k" "unat (tc_nVectorPos ?tc1) < k"
    using unat_next_pos [OF _ v(2) Suc.prems(3)] v(4) by simp_all
  obtain b tc' n' t where o: "retry_connect env oninit (int k) False (tc, n) =
        (if b then Some (Inr (False, tc', n')) else retry_connect env oninit (int k) b (tc', n'))"
      "same_config ?tc1 tc'" "n_trace n' = n_trace n @ t" "attempts t = 1" "b \<longrightarrow> tc_bIsConnected tc'"
    using retry_connect_one [of env ?tc1 False tc "int k" oninit n a, OF sock go] p v Suc.prems(1,2) by auto
  show ?case
  proof (cases b)
    case True
    then show ?thesis using o by auto
  next
    case False
    have q: "tc_nVectorPos tc' = tc_nVectorPos ?tc1" "tc_vectServerAddr tc' = v" "tc_nLocalPort tc' = 0"
      using o(2) Suc.prems(1,2) by (simp_all add: same_config_def)
    have "((unat (tc_nVectorPos tc) + 1) mod k + 1 + d) mod k = (unat (tc_nVectorPos tc) + 1 + (1 + d)) mod k"
      by (simp only: add.assoc mod_add_left_eq)
    then have "(unat (tc_nVectorPos tc') + 1 + d) mod k = j" using q(1) p(1) Suc.prems(4) by simp
    from Suc.IH [OF q(2,3) _ this, of n'] q(1) p(2) obtain tc2 n2 t2 where
      "retry_connect env oninit (int k) False (tc', n') = Some (Inr (False, tc2, n2))" "tc_bIsConnected tc2"
      "n_trace n2 = n_trace n' @ t2" "attempts t2 \<le> d + 1"
      by auto
    then show ?thesis using o False by (intro exI [of _ tc2] exI [of _ n2] exI [of _ "t @ t2"]) simp
  qed
qed


text \<open>
  With a local port in its range \<open>Connect\<close> never gets as far as connecting: the socket it binds
  is not the new one but \<open>INVALID_SOCKET\<close>, and binding that fails.
\<close>

theorem tcp_client_local_port:
  assumes "\<And>t p. \<not> is_ok (env t (Bind INVALID_SOCKET [] p))"
    and "0 < uint (tc_nLocalPort tc)" "uint (tc_nLocalPort tc) < 65535"
  shows "\<exists>tc' n'. CTcpClient_Connect env oninit (tc, n) = Inr (False, tc', n') \<and>
    (\<exists>t. n_trace n' = n_trace n @ t \<and> (\<forall>h a p. WSAConnect h a p \<notin> fst ` set t))"
proof -
  obtain u tc1 n1 where c: "CTcpClient_Close env (tc, n) = (u, tc1, n1)" by (cases "CTcpClient_Close env (tc, n)")
  have h1: "tc_hSocket tc1 = INVALID_SOCKET" using Close_closed [of env "(tc, n)"] c by simp
  have t1: "\<exists>t. n_trace n1 = n_trace n @ t \<and> (\<forall>h a p. WSAConnect h a p \<notin> fst ` set t)"
    using c by (auto simp: CTcpClient_Close_def split: if_splits)
  then obtain t where t: "n_trace n1 = n_trace n @ t" "\<forall>h a p. WSAConnect h a p \<notin> fst ` set t" by blast
  have lp: "tc_nLocalPort tc1 = tc_nLocalPort tc" using Close_frame [OF c] by (simp add: same_config_def)
  have b: "\<not> fst (connect_bind env (tc1, m)) \<and> n_trace (snd (connect_bind env (tc1, m))) =
      n_trace m @ [(Bind INVALID_SOCKET [] (uint (tc_nLocalPort tc)),
        env (n_trace m) (Bind INVALID_SOCKET [] (uint (tc_nLocalPort tc))))]" for m
    using assms lp h1 by (simp add: connect_bind_def Let_def case_prod_unfold)
  show ?thesis using t b unfolding CTcpClient_Connect_def c
    by (auto simp: Let_def case_prod_unfold)
qed

section \<open>Sending\<close>

lemma tc_inv_trace:
  assumes "tc_inv env H (tc, n)" "blocks (n_trace n @ t) = blocks (n_trace n)"
  shows "tc_inv env H (tc, n\<lparr>n_trace := n_trace n @ t\<rparr>)"
  using assms by (intro tc_invI [OF assms(1)]) (auto simp: tc_inv_def net_ok_def foreign_def)

lemma Disconnect_tc_frame:
  assumes "CTcpClient_Disconnect env h f (tc, n) = (b, tc', n')" "tc_bIsConnected tc \<longrightarrow> tc_hSocket tc \<noteq> INVALID_SOCKET"
  shows "\<exists>t. n' = n\<lparr>n_trace := n_trace n @ t\<rparr> \<and> (\<forall>y \<in> set t. call_bytes (fst y) = None) \<and>
    blocks (n_trace n @ t) = blocks (n_trace n) \<and> tc_sendPool tc' = tc_sendPool tc \<and> \<not> tc_bIsConnected tc'"
proof -
  have "calls (\<lambda>c. \<not> heap_call c \<and> call_bytes c = None) n n'" and e: "tc_sendPool tc' = tc_sendPool tc" "\<not> tc_bIsConnected tc'"
    using assms by (auto simp: CTcpClient_Disconnect_def CTcpClient_Close_def split: if_splits)
  then obtain t where t: "n' = n\<lparr>n_trace := n_trace n @ t\<rparr>"
      "\<forall>y \<in> set t. \<not> heap_call (fst y) \<and> call_bytes (fst y) = None"
    by (auto simp: calls_def)
  from t(2) have "blocks (n_trace n @ t) = blocks (n_trace n)"
  proof (induction t rule: rev_induct)
    case (snoc y t)
    then show ?case using blocks_sys [of "fst y" "n_trace n @ t" "snd y"] by simp
  qed simp
  with t e show ?thesis by blast
qed

lemma send_failed_disconnect:
  assumes inv: "tc_inv env H (tc, n)" and io: "io_inv need env lo hi F (tc_sendPool tc, n)" and h: "h = tc_hSocket tc"
  shows "\<exists>tc' n' t. tc_disconnect_if env f h (tc, n) = (tc', n') \<and> n_trace n' = n_trace n @ t \<and>
    sent_bytes t = [] \<and> posted_packets t = [] \<and> tc_inv env H (tc', n') \<and>
    io_inv need env lo hi F (tc_sendPool tc', n') \<and> n_bytes n' = n_bytes n \<and> (f \<longrightarrow> \<not> tc_bIsConnected tc')"
proof (cases f)
  case False
  then show ?thesis using assms by (intro exI [of _ tc] exI [of _ n] exI [of _ "[]"]) (simp add: tc_disconnect_if_def)
next
  case True
  obtain b tc' n' where d: "CTcpClient_Disconnect env h False (tc, n) = (b, tc', n')"
    by (cases "CTcpClient_Disconnect env h False (tc, n)")
  obtain t where t: "n' = n\<lparr>n_trace := n_trace n @ t\<rparr>" "\<forall>y \<in> set t. call_bytes (fst y) = None"
      "blocks (n_trace n @ t) = blocks (n_trace n)" "tc_sendPool tc' = tc_sendPool tc" "\<not> tc_bIsConnected tc'"
    using Disconnect_tc_frame [OF d] inv by (auto simp: tc_inv_def)
  have "tc_inv env H (tc', n')" using Disconnect_tc_inv [OF inv, of h False] d by simp
  moreover have "io_inv need env lo hi F (tc_sendPool tc', n')" unfolding t(1,4) by (rule io_inv_trace [OF io t(3)])
  ultimately show ?thesis using True d t sent_bytes_no_sends [OF t(2)] h
    by (intro exI [of _ tc'] exI [of _ n'] exI [of _ t]) (simp add: tc_disconnect_if_def)
qed


section \<open>Concrete runs\<close>

text \<open>A system in which port 80 refuses connections, names resolve to 10.0.0.0, and binding an
  invalid socket fails; otherwise as \<open>srv_env\<close>.\<close>

definition cl_env :: env where
  "cl_env t c = (case c of WSAConnect h a p \<Rightarrow> if p = 80 then Err 10061 else Ok 0
     | InetAddr s \<Rightarrow> Ok 10 | Bind h a p \<Rightarrow> if h = INVALID_SOCKET then Err 10038 else Ok 0
     | _ \<Rightarrow> srv_env t c)"

definition cl0 :: CTcpClient where
  "cl0 = CTcpClient_SetInterface 1 2 3 (CTcpClient_SetBufferSize 16 4 (CTcpClient_new 0 0 7 8))
     \<lparr>tc_vectServerAddr := [([97], 80), ([98], 81)], tc_nVectorPos := 1\<rparr>"

definition cl_attach :: "SOCKET_SESSION \<Rightarrow> addr" where
  "cl_attach ss = ph_pAttachInfo (ss_PerHandle ss)"

lemma cl_env_heap: "heap_env_ok cl_env" "heap_keeps_off cl_env lo 1000"
  using srv_env_heap unfolding heap_env_ok_def heap_keeps_off_def by (simp_all add: cl_env_def)

lemma cl_env_send: "send_env_ok cl_env"
  unfolding send_env_ok_def
proof (intro allI impI)
  fix t c bs v assume a: "call_bytes c = Some bs" "cl_env t c = Ok v"
  then have "srv_env t c = Ok v" by (cases c) (auto simp: cl_env_def)
  then show "0 \<le> v \<and> v \<le> int (length bs) \<and> (bs \<noteq> [] \<longrightarrow> 0 < v)"
    using srv_env_send a(1) unfolding send_env_ok_def by blast
qed

lemma cl_net0: "net_ok cl_env net0"
  by (simp add: net_ok_def net0_def cl_env_heap)

lemma cl0_fresh: "tc_fresh cl0"
  by (simp add: cl0_def tc_fresh_def tc_buffer_def CTcpClient_SetInterface_def CTcpClient_SetBufferSize_def
      source_SetInterface_def source_SetBufferSize_def Let_def CTcpClient_new_def CSocketSource.extend_def
      CTcpClient.fields_def zero_session_def zero_io_def CSocketSendPool_new_def)

lemma cl0_connects:
  "\<exists>tc n. CTcpClient_Connect cl_env cl_attach (cl0, net0) = Inr (True, tc, n) \<and> tc_hSocket tc = 3 \<and> tc_buffer tc = 1001"
proof -
  have "(case CTcpClient_Connect cl_env cl_attach (cl0, net0) of Inl e \<Rightarrow> False
     | Inr (b, tc, n) \<Rightarrow> b \<and> tc_hSocket tc = 3 \<and> tc_buffer tc = 1001)"
    by code_simp
  then show ?thesis by (auto split: sum.splits)
qed


lemma tcp_client_connect_witness:
  "\<exists>tc n. CTcpClient_Connect cl_env cl_attach (cl0, net0) = Inr (True, tc, n) \<and>
    CTcpClient_IsConnected tc = True \<and>
    (\<exists>t. n_trace n = n_trace net0 @ t \<and> closed_sockets t = [] \<and> opened_sockets t = [3])"
proof -
  obtain tc n where c: "CTcpClient_Connect cl_env cl_attach (cl0, net0) = Inr (True, tc, n)" "tc_hSocket tc = 3"
    using cl0_connects by blast
  have "tc_hSocket cl0 = INVALID_SOCKET" using cl0_fresh by (simp add: tc_fresh_def)
  then show ?thesis using tcp_client_connect [OF tc_fresh_inv [OF cl_net0 cl0_fresh] c(1)] c by auto
qed


lemma tcp_client_local_port_witness:
  "\<exists>tc' n'. CTcpClient_Connect cl_env cl_attach (cl0\<lparr>tc_nLocalPort := 5000\<rparr>, net0) = Inr (False, tc', n') \<and>
    (\<exists>t. n_trace n' = n_trace net0 @ t \<and> (\<forall>h a p. WSAConnect h a p \<notin> fst ` set t))"
  by (rule tcp_client_local_port) (simp_all add: cl_env_def)


end
