(* ===== verification/UdpSource.thy ===== *)
theory UdpSource
  imports NetFacts
begin

text \<open>
  \<open>CUdpSource\<close> of UdpSource.h and UdpSource.cpp. A receive structure
  \<open>PER_IO_OPERATION_UDP_RECV\<close> begins with the fields of \<open>PER_IO_OPERATION_DATA\<close>, which are kept in
  \<open>n_io\<close>; the sender's address behind them is written by the system only and comes with the
  completion. The number of worker threads that the runner reports is the parameter
  \<open>nWorkThreadNum\<close>. Lines that only log or print are left out.
\<close>

section \<open>The class\<close>

record CUdpSource = CSocketSource +
  ud_this :: addr
  ud_hSocket :: int
  ud_ServerAddr :: "byte list"
  ud_perHandle :: PER_HANDLE_DATA
  ud_nMaxFreeRecvPoolNum :: int
  ud_nMaxFreeSendPoolNum :: int
  ud_lstFreeRecvPool :: "addr list"
  ud_sendPool :: CSocketSendPool

type_synonym ud_state = "CUdpSource \<times> net"

definition sizeof_UDP_RECV :: nat where "sizeof_UDP_RECV = 52"

text \<open>The bytes of a \<open>sockaddr_in\<close>: family, port in network order, address, padding \<open>z\<close>.\<close>

definition sockaddr_in :: "byte list \<Rightarrow> u16 \<Rightarrow> byte list \<Rightarrow> byte list" where
  "sockaddr_in a nPort z = [2, 0] @ rev (le_bytes 2 (unat nPort)) @ a @ z"

text \<open>The default constructor, on an object whose other members are those of \<open>m\<close>.\<close>

definition CUdpSource_new :: "addr \<Rightarrow> CUdpSource \<Rightarrow> CUdpSource" where
  "CUdpSource_new this m =
     m\<lparr>ud_hSocket := 0, ud_nMaxFreeRecvPoolNum := 100, ud_nMaxFreeSendPoolNum := 100,
       ud_perHandle := (ud_perHandle m)\<lparr>ph_pSocketSource := this\<rparr>,
       ud_lstFreeRecvPool := [], ud_sendPool := CSocketSendPool_new\<rparr>"

text \<open>The second constructor assigns a valid \<open>nMaxFreeRecvPoolNum\<close> to itself, so that the member
  keeps the value that is in memory, and gives the send pool the maximum of the receive pool.\<close>

definition CUdpSource_new_max :: "int \<Rightarrow> int \<Rightarrow> addr \<Rightarrow> CUdpSource \<Rightarrow> CUdpSource" where
  "CUdpSource_new_max nMaxFreeRecvPoolNum nMaxFreeSendPoolNum this m =
     (let m1 = m\<lparr>ud_hSocket := 0, ud_lstFreeRecvPool := [], ud_sendPool := CSocketSendPool_new\<rparr>;
          m2 = (if nMaxFreeRecvPoolNum < 1 then m1\<lparr>ud_nMaxFreeRecvPoolNum := 100\<rparr> else m1);
          m3 = (if nMaxFreeSendPoolNum < 1 then m2\<lparr>ud_nMaxFreeSendPoolNum := 100\<rparr>
                else m2\<lparr>ud_nMaxFreeSendPoolNum := nMaxFreeRecvPoolNum\<rparr>)
      in m3\<lparr>ud_perHandle := (ud_perHandle m3)\<lparr>ph_pSocketSource := this\<rparr>\<rparr>)"

definition CUdpSource_SetInterface :: "addr \<Rightarrow> addr \<Rightarrow> addr \<Rightarrow> CUdpSource \<Rightarrow> CUdpSource" where
  "CUdpSource_SetInterface = source_SetInterface"

definition CUdpSource_SetBufferSize :: "int \<Rightarrow> int \<Rightarrow> CUdpSource \<Rightarrow> CUdpSource" where
  "CUdpSource_SetBufferSize = source_SetBufferSize"

section \<open>Receive structures\<close>

definition CUdpSource_GetRecvObj :: "env \<Rightarrow> ud_state \<Rightarrow> addr \<times> ud_state" where
  "CUdpSource_GetRecvObj env s =
     (case s of (u, n) \<Rightarrow>
        case ud_lstFreeRecvPool u of
          p # rest \<Rightarrow> (p, u\<lparr>ud_lstFreeRecvPool := rest\<rparr>, n)
        | [] \<Rightarrow>
            let (p, n1) = io_alloc env (sizeof_UDP_RECV - sizeof_PER_IO + nat (src_nRecvBufferSize u)) n
            in if p = NULL then (NULL, u, n1)
               else (p, u, put_io p \<lparr>io_OperType = RECV_POSTED, io_nLen = src_nRecvBufferSize u,
                                     io_szBuffer = p + sizeof_UDP_RECV\<rparr> n1))"

definition CUdpSource_FreeRecvObj :: "env \<Rightarrow> addr \<Rightarrow> ud_state \<Rightarrow> cerror + ud_state" where
  "CUdpSource_FreeRecvObj env p s =
     (case s of (u, n) \<Rightarrow>
        if unat (to_u32 (ud_nMaxFreeRecvPoolNum u)) \<le> length (ud_lstFreeRecvPool u)
        then rbind (io_free env p n) (\<lambda>n'. Inr (u, n'))
        else Inr (u\<lparr>ud_lstFreeRecvPool := ud_lstFreeRecvPool u @ [p]\<rparr>, n))"

definition CUdpSource_PostRecv :: "env \<Rightarrow> addr \<Rightarrow> ud_state \<Rightarrow> cerror + bool \<times> ud_state" where
  "CUdpSource_PostRecv env p s =
     (case s of (u, n) \<Rightarrow>
        if p = NULL then Inr (False, u, n)
        else rbind (get_io p n) (\<lambda>io.
          let n1 = put_io p (io\<lparr>io_OperType := RECV_POSTED\<rparr>) n;
              (r, n2) = sys env (WSARecvFrom (ud_hSocket u) (io_szBuffer io) (src_nRecvBufferSize u)) n1
          in case r of
               Ok v \<Rightarrow> Inr (True, u, n2)
             | Err e \<Rightarrow>
                 if e \<noteq> WSA_IO_PENDING
                 then rbind (CUdpSource_FreeRecvObj env p (u, n2)) (\<lambda>s'. Inr (False, s'))
                 else Inr (True, u, n2)))"

definition CUdpSource_PostSend :: "env \<Rightarrow> addr \<Rightarrow> ud_state \<Rightarrow> cerror + bool \<times> ud_state" where
  "CUdpSource_PostSend env p s =
     (case s of (u, n) \<Rightarrow>
        rbind (CSocketSendPool_push env p (ud_sendPool u, n))
          (\<lambda>(pl, n'). Inr (True, u\<lparr>ud_sendPool := pl\<rparr>, n')))"

section \<open>Opening and closing\<close>

definition CUdpSource_Close :: "env \<Rightarrow> ud_state \<Rightarrow> cerror + bool \<times> ud_state" where
  "CUdpSource_Close env s =
     (case s of (u, n) \<Rightarrow>
        rbind (snd_free_all env (ud_lstFreeRecvPool u) n) (\<lambda>n1.
          let u1 = u\<lparr>ud_lstFreeRecvPool := []\<rparr>;
              (u2, n2) = (if ud_hSocket u1 \<noteq> 0
                then (u1\<lparr>ud_hSocket := 0\<rparr>,
                      snd (sys env (Closesocket (ud_hSocket u1)) (snd (sys env (Shutdown (ud_hSocket u1)) n1))))
                else (u1, n1))
          in rbind (CSocketSendPool_clear env (ud_sendPool u2, n2)) (\<lambda>(pl, n3).
               Inr (True, u2\<lparr>ud_sendPool := pl\<rparr>, n3))))"

definition CUdpSource_delete :: "env \<Rightarrow> ud_state \<Rightarrow> cerror + bool \<times> ud_state" where
  "CUdpSource_delete = CUdpSource_Close"

text \<open>The loop that posts the first receives.\<close>

fun post_recvs :: "env \<Rightarrow> nat \<Rightarrow> ud_state \<Rightarrow> cerror + bool \<times> ud_state" where
  "post_recvs env 0 s = Inr (True, s)"
| "post_recvs env (Suc i) s =
     (case CUdpSource_GetRecvObj env s of (p, s1) \<Rightarrow>
        if p = NULL then Inr (False, s1)
        else rbind (CUdpSource_PostRecv env p s1) (\<lambda>(b, s2). post_recvs env i s2))"

definition SIO_UDP_CONNRESET :: int where "SIO_UDP_CONNRESET = 2550136844"

text \<open>The end of both \<open>Open\<close> functions: ICMP errors off, completion port, receives.\<close>

definition open_finish :: "env \<Rightarrow> u32 \<Rightarrow> ud_state \<Rightarrow> cerror + bool \<times> ud_state" where
  "open_finish env nWorkThreadNum s =
     (case s of (u, n) \<Rightarrow>
        let (r, n1) = sys env (WSAIoctl (ud_hSocket u) SIO_UDP_CONNRESET (le_bytes 4 0)) n
        in if \<not> is_ok r then Inr (False, u, n1)
           else let u1 = u\<lparr>ud_perHandle := (ud_perHandle u)\<lparr>ph_hSocket := ud_hSocket u\<rparr>\<rparr>;
                    n2 = snd (sys env (AssociateSocket (ud_hSocket u1) (ud_this u1)) n1)
                in post_recvs env (nat (sint (nWorkThreadNum * 2 + 2))) (u1, n2))"

definition open_socket :: "env \<Rightarrow> ud_state \<Rightarrow> cerror + bool \<times> ud_state" where
  "open_socket env s =
     rbind (CUdpSource_Close env s) (\<lambda>(b, u, n).
     rbind (CSocketSendPool_init env (to_u32 (ud_nMaxFreeSendPoolNum u)) 100 4 (ud_sendPool u, n)) (\<lambda>(pl, n1).
       let (r, n2) = sys env WSASocketUdp n1;
           h = (case r of Ok v \<Rightarrow> v | Err e \<Rightarrow> INVALID_SOCKET)
       in Inr (h \<noteq> INVALID_SOCKET, u\<lparr>ud_sendPool := pl, ud_hSocket := h\<rparr>, n2)))"

definition CUdpSource_Open_server ::
    "env \<Rightarrow> u32 \<Rightarrow> byte list \<Rightarrow> u16 \<Rightarrow> int \<Rightarrow> ud_state \<Rightarrow> cerror + bool \<times> ud_state" where
  "CUdpSource_Open_server env nWorkThreadNum szServerName nServerPort nLocalPort s =
     rbind (open_socket env s) (\<lambda>(b, u, n).
       if \<not> b then Inr (False, u, n)
       else let (a, n1) = resolve_host env szServerName n
            in case a of
                 None \<Rightarrow> Inr (False, u\<lparr>ud_ServerAddr := sockaddr_in (replicate 4 0) nServerPort (replicate 8 0)\<rparr>, n1)
               | Some sin_addr \<Rightarrow>
                   let u1 = u\<lparr>ud_ServerAddr := sockaddr_in sin_addr nServerPort (replicate 8 0)\<rparr>;
                       (r, n2) = (if 0 < nLocalPort \<and> nLocalPort < 65535
                         then sys env (Bind (ud_hSocket u1) [] nLocalPort) n1
                         else sys env (WSAConnect (ud_hSocket u1) sin_addr (uint nServerPort)) n1)
                   in if \<not> is_ok r then Inr (False, u1, n2) else open_finish env nWorkThreadNum (u1, n2))"

text \<open>The overload without a local address passes NULL for it, which is not used.\<close>

definition CUdpSource_Open3 ::
    "env \<Rightarrow> u32 \<Rightarrow> byte list \<Rightarrow> u16 \<Rightarrow> int \<Rightarrow> ud_state \<Rightarrow> cerror + bool \<times> ud_state" where
  "CUdpSource_Open3 = CUdpSource_Open_server"

text \<open>The address to bind: any (the empty list), or that of a text, which is not checked.\<close>

definition local_addr :: "env \<Rightarrow> byte list option \<Rightarrow> net \<Rightarrow> byte list \<times> net" where
  "local_addr env szLocalIP n =
     (case szLocalIP of
        None \<Rightarrow> ([], n)
      | Some ip \<Rightarrow> let (r, n1) = sys env (InetAddr ip) n
          in (le_bytes 4 (nat (case r of Ok v \<Rightarrow> v | Err e \<Rightarrow> INADDR_NONE)), n1))"

definition CUdpSource_Open_local ::
    "env \<Rightarrow> u32 \<Rightarrow> u16 \<Rightarrow> byte list option \<Rightarrow> ud_state \<Rightarrow> cerror + bool \<times> ud_state" where
  "CUdpSource_Open_local env nWorkThreadNum nLocalPort szLocalIP s =
     rbind (open_socket env s) (\<lambda>(b, u, n).
       if \<not> b then Inr (False, u, n)
       else let (a, n1) = local_addr env szLocalIP n;
                (r, n2) = sys env (Bind (ud_hSocket u) a (uint nLocalPort)) n1
            in if \<not> is_ok r then Inr (False, u, n2) else open_finish env nWorkThreadNum (u, n2))"

section \<open>Sending\<close>

text \<open>\<open>pTo\<close> are the bytes of the address. A failed call ends the loop; nothing is disconnected.\<close>

definition CUdpSource_Send ::
    "env \<Rightarrow> addr \<Rightarrow> int \<Rightarrow> byte list \<Rightarrow> int \<Rightarrow> int \<Rightarrow> ud_state \<Rightarrow> (cerror + int \<times> ud_state) option" where
  "CUdpSource_Send env szData nLen pTo nToLen nOptval s =
     (case s of (u, n) \<Rightarrow>
        let nSeg = nSegmentSize nOptval nLen u;
            call = (\<lambda>bs ov. WSASendTo (ud_hSocket u) bs ov pTo nToLen)
        in if has_option nOptval SEND_OPTION_BLOCK
           then (case send_block env call szData nLen nSeg 0 n of
                   None \<Rightarrow> None
                 | Some (f, nSum, n') \<Rightarrow> Some (Inr (nSum, u, n')))
           else (case send_iocp env call (has_option nOptval SEND_OPTION_USERBUFFER)
                        szData nLen nSeg 0 (ud_sendPool u, n) of
                   None \<Rightarrow> None
                 | Some (Inl e) \<Rightarrow> Some (Inl e)
                 | Some (Inr (f, nSum, pl, n')) \<Rightarrow> Some (Inr (nSum, u\<lparr>ud_sendPool := pl\<rparr>, n'))))"

text \<open>To an address in text form; the padding of the local structure is not initialised, \<open>z\<close>.\<close>

definition CUdpSource_Send_ip ::
    "env \<Rightarrow> byte list \<Rightarrow> addr \<Rightarrow> int \<Rightarrow> byte list \<Rightarrow> u16 \<Rightarrow> int \<Rightarrow> ud_state \<Rightarrow> (cerror + int \<times> ud_state) option" where
  "CUdpSource_Send_ip env z szData nLen szIP nPort nOptval s =
     (case s of (u, n) \<Rightarrow>
        let (r, n1) = sys env (InetAddr szIP) n;
            a = le_bytes 4 (nat (case r of Ok v \<Rightarrow> v | Err e \<Rightarrow> INADDR_NONE))
        in CUdpSource_Send env szData nLen (sockaddr_in a nPort z) 16 nOptval (u, n1))"

definition CUdpSource_Send_server ::
    "env \<Rightarrow> addr \<Rightarrow> int \<Rightarrow> int \<Rightarrow> ud_state \<Rightarrow> (cerror + int \<times> ud_state) option" where
  "CUdpSource_Send_server env szData nLen nOptval s =
     CUdpSource_Send env szData nLen (ud_ServerAddr (fst s)) 16 nOptval s"

end
