(* ===== verification/UdpSourceProps.thy ===== *)
theory UdpSourceProps
  imports UdpSource
begin

text \<open>
  What holds of \<open>CUdpSource\<close>: its pool of receive structures keeps the contract \<open>object_pool\<close>, and in
  every state that its threads can reach each structure has one owner.
\<close>

section \<open>The receive pool keeps the contract of a pool\<close>

definition ud_live :: "ud_state \<Rightarrow> addr \<Rightarrow> bool" where
  "ud_live s p \<longleftrightarrow> n_io (snd s) p \<noteq> None"

definition ud_pool_ok :: "env \<Rightarrow> ud_state \<Rightarrow> bool" where
  "ud_pool_ok env s \<longleftrightarrow> net_ok env (snd s) \<and> distinct (ud_lstFreeRecvPool (fst s)) \<and>
     (\<forall>p \<in> set (ud_lstFreeRecvPool (fst s)). ud_live s p)"

lemma GetRecvObj_cases:
  assumes "net_ok env (snd s)" "CUdpSource_GetRecvObj env s = (p, s')"
  obtains (reused) "ud_lstFreeRecvPool (fst s) = p # ud_lstFreeRecvPool (fst s')" "snd s' = snd s"
      "ud_sendPool (fst s') = ud_sendPool (fst s)"
  | (failed) "p = NULL" "fst s' = fst s" "ud_lstFreeRecvPool (fst s) = []" "net_ok env (snd s')" "n_io (snd s') = n_io (snd s)"
  | (created) io where "p \<noteq> NULL" "fst s' = fst s" "ud_lstFreeRecvPool (fst s) = []" "net_ok env (snd s')"
      "n_io (snd s) p = None" "n_io (snd s') = (n_io (snd s))(p \<mapsto> io)"
proof -
  obtain u n where s: "s = (u, n)" by (cases s)
  show thesis
  proof (cases "ud_lstFreeRecvPool u")
    case (Cons q rest)
    then show thesis using assms s by (intro reused) (auto simp: CUdpSource_GetRecvObj_def)
  next
    case Nil
    obtain q n1 where al: "io_alloc env (sizeof_UDP_RECV - sizeof_PER_IO + nat (src_nRecvBufferSize u)) n = (q, n1)"
      by fastforce
    have nok: "net_ok env n" using assms(1) s by simp
    note sp = io_alloc_spec [OF nok al]
    show thesis
    proof (cases "q = NULL")
      case True
      then show thesis using assms(2) s Nil al sp by (intro failed) (auto simp: CUdpSource_GetRecvObj_def)
    next
      case False
      obtain io where "p = q" "s' = (u, put_io q io n1)"
        using assms(2) s Nil al False by (auto simp: CUdpSource_GetRecvObj_def)
      then show thesis using False s Nil sp(1) sp(4) [OF False] net_ok_put_io [OF sp(1), of q io]
        by (intro created [of io]) auto
    qed
  qed
qed

lemma FreeRecvObj_cases:
  assumes "CUdpSource_FreeRecvObj env p s = Inr s'"
  obtains (kept) "ud_lstFreeRecvPool (fst s') = ud_lstFreeRecvPool (fst s) @ [p]" "snd s' = snd s"
      "ud_sendPool (fst s') = ud_sendPool (fst s)"
  | (freed) "fst s' = fst s" "io_free env p (snd s) = Inr (snd s')"
proof -
  obtain u n where s: "s = (u, n)" by (cases s)
  show thesis
  proof (cases "unat (to_u32 (ud_nMaxFreeRecvPoolNum u)) \<le> length (ud_lstFreeRecvPool u)")
    case True
    then obtain n' where "io_free env p n = Inr n'" "s' = (u, n')"
      using assms s by (auto simp: CUdpSource_FreeRecvObj_def res_simps)
    then show thesis using s by (intro freed) simp_all
  next
    case False
    then have "s' = (u\<lparr>ud_lstFreeRecvPool := ud_lstFreeRecvPool u @ [p]\<rparr>, n)"
      using assms s by (simp add: CUdpSource_FreeRecvObj_def)
    then show thesis using s by (intro kept) simp_all
  qed
qed

interpretation udr: object_pool "\<lambda>s. Inr (CUdpSource_GetRecvObj env s)" "CUdpSource_FreeRecvObj env"
  "\<lambda>s. ud_lstFreeRecvPool (fst s)" ud_live "ud_pool_ok env"
proof (unfold_locales, goal_cases)
  case (3 s)
  then show ?case by (metis surj_pair)
next
  case (4 s p s')
  then have "net_ok env (snd s)" "CUdpSource_GetRecvObj env s = (p, s')" by (simp_all add: ud_pool_ok_def)
  then show ?case using 4(1) by (cases rule: GetRecvObj_cases) (auto simp: ud_pool_ok_def ud_live_def)
next
  case (5 s p s')
  then have "net_ok env (snd s)" "CUdpSource_GetRecvObj env s = (p, s')" by (simp_all add: ud_pool_ok_def)
  then show ?case using 5(1,3) by (cases rule: GetRecvObj_cases) (auto simp: ud_pool_ok_def ud_live_def)
next
  case (6 s p s')
  then have "net_ok env (snd s)" "CUdpSource_GetRecvObj env s = (p, s')" by (simp_all add: ud_pool_ok_def)
  then show ?case using 6(1,3) by (cases rule: GetRecvObj_cases) (auto simp: ud_pool_ok_def)
next
  case (7 s p s')
  then have "net_ok env (snd s)" "CUdpSource_GetRecvObj env s = (p, s')" by (simp_all add: ud_pool_ok_def)
  then show ?case using 7(1,3) by (cases rule: GetRecvObj_cases) (auto simp: ud_live_def)
next
  case (8 s p s' q)
  then have "net_ok env (snd s)" "CUdpSource_GetRecvObj env s = (p, s')" by (simp_all add: ud_pool_ok_def)
  then show ?case using 8(4) by (cases rule: GetRecvObj_cases) (auto simp: ud_live_def)
next
  case (9 s p s' q)
  then have "net_ok env (snd s)" "CUdpSource_GetRecvObj env s = (p, s')" by (simp_all add: ud_pool_ok_def)
  then show ?case using 9(3) by (cases rule: GetRecvObj_cases) auto
next
  case (10 s p s')
  have nok: "net_ok env (snd s)" using 10(1) by (simp add: ud_pool_ok_def)
  from 10(4) show ?case
  proof (cases rule: FreeRecvObj_cases)
    case kept
    then show ?thesis using 10 by (auto simp: ud_pool_ok_def ud_live_def)
  next
    case freed
    then show ?thesis using 10(1,3) io_free_spec [OF nok freed(2)] by (auto simp: ud_pool_ok_def ud_live_def)
  qed
next
  case (11 s p s' q)
  have nok: "net_ok env (snd s)" using 11(1) by (simp add: ud_pool_ok_def)
  from 11(2) show ?case
  proof (cases rule: FreeRecvObj_cases)
    case freed
    then show ?thesis using 11(3,4) io_free_spec(2) [OF nok freed(2)] by (simp add: ud_live_def)
  qed (use 11(4) in \<open>simp add: ud_live_def\<close>)
next
  case (12 s p s' q)
  from 12(2,3) show ?case by (cases rule: FreeRecvObj_cases) auto
qed (auto simp: ud_pool_ok_def)

interpretation udrt: total_pool "\<lambda>s. Inr (CUdpSource_GetRecvObj env s)" "CUdpSource_FreeRecvObj env"
  "\<lambda>s. ud_lstFreeRecvPool (fst s)" ud_live "ud_pool_ok env"
  by unfold_locales
    (auto simp: CUdpSource_FreeRecvObj_def io_free_def ud_live_def split: prod.splits option.splits)

section \<open>The invariant\<close>

text \<open>\<open>R\<close> are the receive structures that are posted, \<open>H\<close> the send structures in use.\<close>

definition ud_inv :: "env \<Rightarrow> addr list \<Rightarrow> addr list \<Rightarrow> ud_state \<Rightarrow> bool" where
  "ud_inv env R H s \<longleftrightarrow> net_ok env (snd s) \<and>
     distinct (R @ H @ ud_lstFreeRecvPool (fst s) @ snd_objFreeList (ud_sendPool (fst s))) \<and>
     (\<forall>p \<in> set (R @ H @ ud_lstFreeRecvPool (fst s) @ snd_objFreeList (ud_sendPool (fst s))). n_io (snd s) p \<noteq> None)"

lemma ud_inv_recv:
  "ud_inv env R H s \<longleftrightarrow> udr.exclusive env (R @ H @ snd_objFreeList (ud_sendPool (fst s))) s"
  by (auto simp: ud_inv_def udr.exclusive_def ud_pool_ok_def ud_live_def)

lemma ud_inv_send:
  "ud_inv env R H (u, n) \<longleftrightarrow> sndp.exclusive env (H @ R @ ud_lstFreeRecvPool u) (ud_sendPool u, n)"
  by (auto simp: ud_inv_def sndp.exclusive_def snd_ok_def io_live_def)

lemma ud_inv_sys:
  "ud_inv env R H (u, n) \<Longrightarrow> \<not> heap_call c \<Longrightarrow> ud_inv env R H (u, snd (sys env c n))"
  by (simp add: ud_inv_def)

lemma ud_inv_put:
  "ud_inv env R H (u, n) \<Longrightarrow> n_io n p \<noteq> None \<Longrightarrow> ud_inv env R H (u, put_io p io n)"
  by (simp add: ud_inv_def net_ok_put_io)

lemma GetRecvObj_inv:
  assumes "ud_inv env R H s" "CUdpSource_GetRecvObj env s = (p, s')"
  shows "ud_inv env (if p = NULL then R else p # R) H s'"
proof -
  have n: "net_ok env (snd s)" using assms(1) by (simp add: ud_inv_def)
  have n0: "n_io (snd s) NULL = None" using n by (auto simp: net_ok_def)
  from n assms(2) show ?thesis
  proof (cases rule: GetRecvObj_cases)
    case reused
    then have "p \<noteq> NULL" using assms(1) n0 by (auto simp: ud_inv_def)
    then show ?thesis using assms(1) reused by (auto simp: ud_inv_def)
  next
    case failed
    then show ?thesis using assms(1) by (auto simp: ud_inv_def)
  next
    case (created io)
    let ?X = "R @ H @ ud_lstFreeRecvPool (fst s) @ snd_objFreeList (ud_sendPool (fst s))"
    have "\<forall>q \<in> set ?X. n_io (snd s) q \<noteq> None" using assms(1) unfolding ud_inv_def by blast
    then have "p \<notin> set ?X" using created(5) by blast
    then show ?thesis using assms(1) created by (auto simp: ud_inv_def)
  qed
qed

lemma FreeRecvObj_inv:
  assumes "ud_inv env (R1 @ p # R2) H s"
  shows "\<exists>s'. CUdpSource_FreeRecvObj env p s = Inr s' \<and> ud_inv env (R1 @ R2) H s'"
proof -
  have n: "net_ok env (snd s)" using assms by (simp add: ud_inv_def)
  obtain s' where s': "CUdpSource_FreeRecvObj env p s = Inr s'"
    using udrt.push_total [of env s p] assms by (auto simp: ud_inv_def ud_pool_ok_def ud_live_def)
  then have "ud_inv env (R1 @ R2) H s'"
  proof (cases rule: FreeRecvObj_cases)
    case kept
    then show ?thesis using assms by (auto simp: ud_inv_def)
  next
    case freed
    then show ?thesis using assms io_free_spec [OF n freed(2)] by (auto simp: ud_inv_def)
  qed
  with s' show ?thesis by blast
qed

lemma PostRecv_inv_ud:
  assumes inv: "ud_inv env (R1 @ p # R2) H s"
  shows "\<exists>b s'. CUdpSource_PostRecv env p s = Inr (b, s') \<and>
    ud_inv env (if b then R1 @ p # R2 else R1 @ R2) H s'"
proof -
  obtain u n where s: "s = (u, n)" by (cases s)
  have n: "net_ok env n" and live: "n_io n p \<noteq> None" using inv s by (auto simp: ud_inv_def)
  have p: "p \<noteq> NULL" using n live by (auto simp: net_ok_def)
  obtain io where io: "get_io p n = Inr io" using p live by (auto simp: get_io_def)
  define c where "c = WSARecvFrom (ud_hSocket u) (io_szBuffer io) (src_nRecvBufferSize u)"
  define n2 where "n2 = snd (sys env c (put_io p (io\<lparr>io_OperType := RECV_POSTED\<rparr>) n))"
  have i2: "ud_inv env (R1 @ p # R2) H (u, n2)"
    unfolding n2_def c_def using inv s live by (intro ud_inv_sys ud_inv_put) auto
  obtain s3 where s3: "CUdpSource_FreeRecvObj env p (u, n2) = Inr s3" "ud_inv env (R1 @ R2) H s3"
    using FreeRecvObj_inv [OF i2] by blast
  define r where "r = env (n_trace n) c"
  have e: "CUdpSource_PostRecv env p s =
      (case r of Ok v \<Rightarrow> Inr (True, u, n2)
       | Err e \<Rightarrow> if e \<noteq> WSA_IO_PENDING then Inr (False, s3) else Inr (True, u, n2))"
    using p io s s3(1) unfolding CUdpSource_PostRecv_def s prod.case
    by (simp add: Let_def case_prod_unfold c_def [symmetric] n2_def [symmetric] r_def [symmetric]
        cong: api_ret.case_cong if_cong)
  show ?thesis
  proof (cases r)
    case (Ok v)
    then show ?thesis using e i2 by (intro exI [of _ True] exI [of _ "(u, n2)"]) simp
  next
    case (Err e')
    then show ?thesis using e i2 s3(2)
      by (cases "e' = WSA_IO_PENDING") (auto intro: exI [of _ True] exI [of _ False])
  qed
qed

lemma PostSend_inv_ud:
  assumes "ud_inv env R H s" "i < length H"
  shows "\<exists>s'. CUdpSource_PostSend env (H ! i) s = Inr (True, s') \<and> ud_inv env R (take i H @ drop (Suc i) H) s'"
proof -
  obtain u n where s: "s = (u, n)" by (cases s)
  let ?L = "H @ R @ ud_lstFreeRecvPool u"
  have ex: "sndp.exclusive env ?L (ud_sendPool u, n)" using assms(1) unfolding s ud_inv_send .
  have i: "i < length ?L" "?L ! i = H ! i"
    "take i ?L @ drop (Suc i) ?L = (take i H @ drop (Suc i) H) @ R @ ud_lstFreeRecvPool u"
    using assms(2) by (simp_all add: nth_append)
  obtain pl n' where p: "CSocketSendPool_push env (H ! i) (ud_sendPool u, n) = Inr (pl, n')"
    "sndp.exclusive env ((take i H @ drop (Suc i) H) @ R @ ud_lstFreeRecvPool u) (pl, n')"
    using snd_push_held [OF ex i(1)] unfolding i(2,3) by auto
  have "ud_inv env R (take i H @ drop (Suc i) H) (u\<lparr>ud_sendPool := pl\<rparr>, n')"
    unfolding ud_inv_send using p(2) by simp
  then show ?thesis using p(1) s by (simp add: CUdpSource_PostSend_def)
qed

lemma take_inv_ud:
  assumes "ud_inv env R H (u, n)" "CSocketSendPool_pop env k (ud_sendPool u, n) = Inr (p, pl, n')"
  shows "ud_inv env R (if p = NULL then H else p # H) (u\<lparr>ud_sendPool := pl\<rparr>, n')"
  using snd_pop_held [OF assms(1) [unfolded ud_inv_send] assms(2)] by (auto simp: ud_inv_send split: if_splits)

lemma Close_inv_ud:
  assumes "ud_inv env R H s"
  shows "\<exists>s'. CUdpSource_Close env s = Inr (True, s') \<and> ud_inv env R H s' \<and> ud_hSocket (fst s') = 0 \<and>
    ud_lstFreeRecvPool (fst s') = [] \<and> snd_objFreeList (ud_sendPool (fst s')) = []"
proof -
  obtain u n where s: "s = (u, n)" by (cases s)
  let ?f = "ud_lstFreeRecvPool u" and ?q = "snd_objFreeList (ud_sendPool u)"
  have n: "net_ok env n" and d: "distinct (R @ H @ ?f @ ?q)" and l: "\<forall>p \<in> set (R @ H @ ?f @ ?q). n_io n p \<noteq> None"
    using assms s unfolding ud_inv_def by auto
  obtain n1 where n1: "snd_free_all env ?f n = Inr n1" "net_ok env n1"
    using snd_free_all_spec [OF n, of ?f] d l by auto
  note io1 = snd_free_all_io [OF n1(1) n]
  define n2 where "n2 = (if ud_hSocket u \<noteq> 0 then snd (sys env (Closesocket (ud_hSocket u))
      (snd (sys env (Shutdown (ud_hSocket u)) n1))) else n1)"
  have n2: "net_ok env n2" "n_io n2 = n_io n1" using n1(2) by (simp_all add: n2_def)
  have l2: "\<forall>p \<in> set ?q. n_io n2 p \<noteq> None" using d l io1 n2(2) by auto
  obtain n3 where n3: "snd_free_all env ?q n2 = Inr n3" "net_ok env n3"
    using snd_free_all_spec [OF n2(1), of ?q] d l2 by auto
  note io3 = snd_free_all_io [OF n3(1) n2(1)]
  let ?u = "(u\<lparr>ud_lstFreeRecvPool := [], ud_hSocket := 0, ud_sendPool := (ud_sendPool u)\<lparr>snd_objFreeList := []\<rparr>\<rparr>)"
  have e: "CUdpSource_Close env s = Inr (True, ?u, n3)"
    using n1(1) n3(1) unfolding s CUdpSource_Close_def n2_def
    by (cases u; cases "ud_hSocket u = 0"; simp add: Let_def CSocketSendPool_clear_def)
  have "ud_inv env R H (?u, n3)"
    using n3(2) d l io1 io3 n2(2) unfolding ud_inv_def by auto
  then show ?thesis using e by (intro exI [of _ "(?u, n3)"]) simp
qed

lemma post_recvs_inv:
  "ud_inv env R H s \<Longrightarrow>
   \<exists>b s' R'. post_recvs env k s = Inr (b, s') \<and> ud_inv env (R' @ R) H s' \<and> length R' \<le> k"
proof (induction k arbitrary: R s)
  case 0
  then show ?case by (intro exI [of _ True] exI [of _ s] exI [of _ "[]"]) simp
next
  case (Suc k)
  obtain p s1 where g: "CUdpSource_GetRecvObj env s = (p, s1)" by (cases "CUdpSource_GetRecvObj env s")
  have i1: "ud_inv env (if p = NULL then R else p # R) H s1" by (rule GetRecvObj_inv [OF Suc.prems g])
  show ?case
  proof (cases "p = NULL")
    case True
    then show ?thesis using g i1 by (intro exI [of _ False] exI [of _ s1] exI [of _ "[]"]) simp
  next
    case False
    then have "ud_inv env ([] @ p # R) H s1" using i1 by simp
    from PostRecv_inv_ud [OF this] obtain b s2 where
      p2: "CUdpSource_PostRecv env p s1 = Inr (b, s2)" "ud_inv env (if b then p # R else R) H s2"
      unfolding append_Nil by blast
    from Suc.IH [OF p2(2)] obtain b' s3 R' where
      "post_recvs env k s2 = Inr (b', s3)" "ud_inv env (R' @ (if b then p # R else R)) H s3" "length R' \<le> k"
      by blast
    then show ?thesis using g False p2(1)
      by (intro exI [of _ b'] exI [of _ s3] exI [of _ "R' @ (if b then [p] else [])"]) (simp split: if_splits)
  qed
qed

lemma open_socket_inv:
  assumes "ud_inv env R H s"
  shows "\<exists>b s'. open_socket env s = Inr (b, s') \<and> ud_inv env R H s'"
proof -
  obtain u n where c: "CUdpSource_Close env s = Inr (True, u, n)" "ud_inv env R H (u, n)"
      "snd_objFreeList (ud_sendPool u) = []"
    using Close_inv_ud [OF assms] by auto
  obtain pl where pl: "CSocketSendPool_init env (to_u32 (ud_nMaxFreeSendPoolNum u)) 100 4 (ud_sendPool u, n) = Inr (pl, n)"
      "snd_objFreeList pl = []"
    using c(3) by (simp add: CSocketSendPool_init_def CSocketSendPool_clear_def)
  let ?h = "(case env (n_trace n) WSASocketUdp of Ok v \<Rightarrow> v | Err e \<Rightarrow> INVALID_SOCKET)"
  have "ud_inv env R H (u\<lparr>ud_sendPool := pl, ud_hSocket := ?h\<rparr>, snd (sys env WSASocketUdp n))"
    using c(2,3) pl(2) by (simp add: ud_inv_def)
  then show ?thesis using c(1) pl(1)
    by (intro exI [of _ "?h \<noteq> INVALID_SOCKET"] exI) (simp add: open_socket_def Let_def case_prod_unfold)
qed

lemma ud_inv_config: "ud_inv env R H (u, n) \<Longrightarrow> ud_inv env R H (u\<lparr>ud_perHandle := x\<rparr>, n)"
  "ud_inv env R H (u, n) \<Longrightarrow> ud_inv env R H (u\<lparr>ud_ServerAddr := y\<rparr>, n)"
  by (simp_all add: ud_inv_def)

lemma open_finish_inv:
  assumes "ud_inv env R H (u, n)"
  shows "\<exists>b s' R'. open_finish env w (u, n) = Inr (b, s') \<and> ud_inv env (R' @ R) H s' \<and>
    length R' \<le> nat (sint (w * 2 + 2))"
proof -
  define n1 where "n1 = snd (sys env (WSAIoctl (ud_hSocket u) SIO_UDP_CONNRESET (le_bytes 4 0)) n)"
  define u1 where "u1 = u\<lparr>ud_perHandle := (ud_perHandle u)\<lparr>ph_hSocket := ud_hSocket u\<rparr>\<rparr>"
  define n2 where "n2 = snd (sys env (AssociateSocket (ud_hSocket u1) (ud_this u1)) n1)"
  have i1: "ud_inv env R H (u, n1)" unfolding n1_def by (rule ud_inv_sys [OF assms]) simp
  have i2: "ud_inv env R H (u1, n2)"
    unfolding n2_def u1_def by (intro ud_inv_sys ud_inv_config) (use i1 in simp_all)
  from post_recvs_inv [OF i2] show ?thesis
    using i1 unfolding open_finish_def
    by (auto simp: Let_def case_prod_unfold n1_def u1_def n2_def intro: exI [of _ "[]"])
qed

lemma Open_local_inv:
  assumes "ud_inv env R H s"
  shows "\<exists>b s' R'. CUdpSource_Open_local env w port ip s = Inr (b, s') \<and> ud_inv env (R' @ R) H s' \<and>
    length R' \<le> nat (sint (w * 2 + 2))"
proof -
  obtain b u n where o: "open_socket env s = Inr (b, u, n)" "ud_inv env R H (u, n)"
    using open_socket_inv [OF assms] by auto
  have inet: "ud_inv env R H (u, snd (sys env c n))" if "\<not> heap_call c" for c using o(2) that by (rule ud_inv_sys)
  obtain a n1 where a: "local_addr env ip n = (a, n1)" by fastforce
  then have i1: "ud_inv env R H (u, n1)"
    using o(2) inet by (auto simp: local_addr_def Let_def case_prod_unfold split: option.splits)
  define n2 where "n2 = snd (sys env (Bind (ud_hSocket u) a (uint port)) n1)"
  have i2: "ud_inv env R H (u, n2)" unfolding n2_def by (rule ud_inv_sys [OF i1]) simp
  have e: "CUdpSource_Open_local env w port ip s =
      (if \<not> b then Inr (False, u, n)
       else if \<not> is_ok (fst (sys env (Bind (ud_hSocket u) a (uint port)) n1)) then Inr (False, u, n2)
       else open_finish env w (u, n2))"
    unfolding CUdpSource_Open_local_def o(1) rbind.simps prod.case a Let_def n2_def by (simp add: case_prod_unfold)
  show ?thesis using open_finish_inv [OF i2, of w] o(2) i2 unfolding e by (auto intro: exI [of _ "[]"])
qed

lemma ud_inv_calls: "ud_inv env R H (u, n) \<Longrightarrow> calls plain n n' \<Longrightarrow> ud_inv env R H (u, n')"
  using calls_blocks [of n n'] by (simp add: ud_inv_def net_ok_def)

lemma Open_server_inv:
  assumes "ud_inv env R H s"
  shows "\<exists>b s' R'. CUdpSource_Open_server env w name port lp s = Inr (b, s') \<and> ud_inv env (R' @ R) H s' \<and>
    length R' \<le> nat (sint (w * 2 + 2))"
proof -
  obtain b u n where o: "open_socket env s = Inr (b, u, n)" "ud_inv env R H (u, n)"
    using open_socket_inv [OF assms] by auto
  obtain a n1 where a: "resolve_host env name n = (a, n1)" by fastforce
  have i1: "ud_inv env R H (u, n1)" by (rule ud_inv_calls [OF o(2) resolve_host_calls [OF a]])
  show ?thesis
  proof (cases "b \<and> a \<noteq> None")
    case False
    then have "\<exists>x. CUdpSource_Open_server env w name port lp s = Inr (False, x) \<and> ud_inv env R H x"
      unfolding CUdpSource_Open_server_def o(1) rbind.simps prod.case a
      using o(2) ud_inv_config(2) [OF i1] by (cases b) (auto simp: a)
    then show ?thesis by (metis append_Nil le0 list.size(3))
  next
    case True
    then obtain sa where sa: "a = Some sa" by auto
    define u1 where "u1 = u\<lparr>ud_ServerAddr := sockaddr_in sa port (replicate 8 0)\<rparr>"
    define c where "c = (if 0 < lp \<and> lp < 65535 then Bind (ud_hSocket u1) [] lp
        else WSAConnect (ud_hSocket u1) sa (uint port))"
    define n2 where "n2 = snd (sys env c n1)"
    have i2: "ud_inv env R H (u1, n2)"
      unfolding n2_def u1_def c_def by (rule ud_inv_sys [OF ud_inv_config(2) [OF i1]]) simp
    have e: "CUdpSource_Open_server env w name port lp s =
        (if is_ok (env (n_trace n1) c) then open_finish env w (u1, n2) else Inr (False, u1, n2))"
      unfolding CUdpSource_Open_server_def o(1) rbind.simps prod.case a sa using True
      by (simp add: Let_def case_prod_unfold u1_def c_def n2_def)
    show ?thesis using open_finish_inv [OF i2, of w] i2 unfolding e
      by (cases "is_ok (env (n_trace n1) c)") (auto intro: exI [of _ "[]"])
  qed
qed

section \<open>The source as a transition system\<close>

text \<open>The threads post again what completed, take and give back send structures, get a new
  receive structure and post it, and close. \<open>R\<close> and \<open>H\<close> are as in the invariant.\<close>

type_synonym ud_sys = "addr list \<times> addr list \<times> ud_state"

inductive ud_step :: "env \<Rightarrow> ud_sys \<Rightarrow> ud_sys \<Rightarrow> bool" for env where
  post: "CUdpSource_GetRecvObj env s = (p, s1) \<Longrightarrow> p \<noteq> NULL \<Longrightarrow> CUdpSource_PostRecv env p s1 = Inr (b, s') \<Longrightarrow>
    ud_step env (R, H, s) (if b then p # R else R, H, s')"
| again: "i < length R \<Longrightarrow> CUdpSource_PostRecv env (R ! i) s = Inr (b, s') \<Longrightarrow>
    ud_step env (R, H, s) (if b then R else take i R @ drop (Suc i) R, H, s')"
| take: "CSocketSendPool_pop env k (ud_sendPool u, n) = Inr (p, pl, n') \<Longrightarrow>
    ud_step env (R, H, u, n) (R, if p = NULL then H else p # H, u\<lparr>ud_sendPool := pl\<rparr>, n')"
| complete: "i < length H \<Longrightarrow> CUdpSource_PostSend env (H ! i) s = Inr (b, s') \<Longrightarrow>
    ud_step env (R, H, s) (R, take i H @ drop (Suc i) H, s')"
| close: "CUdpSource_Close env s = Inr (b, s') \<Longrightarrow> ud_step env (R, H, s) (R, H, s')"

lemma ud_step_inv:
  "ud_step env x y \<Longrightarrow> ud_inv env (fst x) (fst (snd x)) (snd (snd x)) \<Longrightarrow>
   ud_inv env (fst y) (fst (snd y)) (snd (snd y))"
proof (induction rule: ud_step.induct)
  case (post s p s1 b s' R H)
  then have "ud_inv env ([] @ p # R) H s1" using GetRecvObj_inv [of env R H s p s1] by simp
  from PostRecv_inv_ud [OF this] post(3) show ?case by auto
next
  case (again i R s b s' H)
  have "R = take i R @ R ! i # drop (Suc i) R" using again(1) by (rule id_take_nth_drop)
  then have "ud_inv env (take i R @ R ! i # drop (Suc i) R) H s" using again(3) by simp
  from PostRecv_inv_ud [OF this] again(2) show ?case
    using \<open>R = take i R @ R ! i # drop (Suc i) R\<close> by auto
next
  case (take k u n p pl n' R H)
  then show ?case using take_inv_ud [of env R H u n k p pl n'] by simp
next
  case (complete i H s b s' R)
  then show ?case using PostSend_inv_ud [of env R H s i] by auto
next
  case (close s b s' R H)
  then show ?case using Close_inv_ud [of env R H s] by auto
qed

lemma ud_reach_inv:
  "(ud_step env)\<^sup>*\<^sup>* x y \<Longrightarrow> ud_inv env (fst x) (fst (snd x)) (snd (snd x)) \<Longrightarrow>
   ud_inv env (fst y) (fst (snd y)) (snd (snd y))"
  by (induction rule: rtranclp_induct) (auto dest: ud_step_inv)

text \<open>
  C20. Opening a new UDP source, with or without a server address, does not fault and leaves at
  most \<open>2 w + 2\<close> posted receives, \<open>w\<close> being the number of worker threads. Whatever the threads do
  then, the structures of posted receives, of sends in use and of the two free lists are
  pairwise different and live, and posting a receive again, giving a send structure back and
  closing do not fault.
\<close>

theorem udp_source_objects:
  assumes "net_ok env n" "ud_lstFreeRecvPool u = []" "snd_objFreeList (ud_sendPool u) = []"
    and "open = CUdpSource_Open_local env w port ip \<or> open = CUdpSource_Open_server env w name sport lp"
  shows "\<exists>b s0 R0. open (u, n) = Inr (b, s0) \<and> length R0 \<le> nat (sint (w * 2 + 2)) \<and>
    (\<forall>R H s. (ud_step env)\<^sup>*\<^sup>* (R0, [], s0) (R, H, s) \<longrightarrow>
       distinct (R @ H @ ud_lstFreeRecvPool (fst s) @ snd_objFreeList (ud_sendPool (fst s))) \<and>
       (\<forall>p \<in> set (R @ H @ ud_lstFreeRecvPool (fst s) @ snd_objFreeList (ud_sendPool (fst s))). n_io (snd s) p \<noteq> None) \<and>
       (\<forall>i < length R. \<exists>x. CUdpSource_PostRecv env (R ! i) s = Inr x) \<and>
       (\<forall>i < length H. \<exists>x. CUdpSource_PostSend env (H ! i) s = Inr x) \<and>
       (\<exists>x. CUdpSource_Close env s = Inr x))"
proof -
  have "ud_inv env [] [] (u, n)" using assms(1-3) by (simp add: ud_inv_def)
  then obtain b s0 R0 where o: "open (u, n) = Inr (b, s0)" "ud_inv env R0 [] s0" "length R0 \<le> nat (sint (w * 2 + 2))"
    using assms(4) Open_local_inv [of env "[]" "[]" "(u, n)" w port ip]
      Open_server_inv [of env "[]" "[]" "(u, n)" w name sport lp] by (metis append_Nil2)
  have "distinct (R @ H @ ud_lstFreeRecvPool (fst s) @ snd_objFreeList (ud_sendPool (fst s))) \<and>
       (\<forall>p \<in> set (R @ H @ ud_lstFreeRecvPool (fst s) @ snd_objFreeList (ud_sendPool (fst s))). n_io (snd s) p \<noteq> None) \<and>
       (\<forall>i < length R. \<exists>x. CUdpSource_PostRecv env (R ! i) s = Inr x) \<and>
       (\<forall>i < length H. \<exists>x. CUdpSource_PostSend env (H ! i) s = Inr x) \<and>
       (\<exists>x. CUdpSource_Close env s = Inr x)"
    if "(ud_step env)\<^sup>*\<^sup>* (R0, [], s0) (R, H, s)" for R H s
  proof -
    have inv: "ud_inv env R H s" using ud_reach_inv [OF that] o(2) by simp
    have "\<exists>x. CUdpSource_PostRecv env (R ! i) s = Inr x" if i: "i < length R" for i
    proof -
      have "R = take i R @ R ! i # drop (Suc i) R" using i by (rule id_take_nth_drop)
      then have "ud_inv env (take i R @ R ! i # drop (Suc i) R) H s" using inv by simp
      from PostRecv_inv_ud [OF this] show ?thesis by auto
    qed
    then show ?thesis using inv PostSend_inv_ud [OF inv] Close_inv_ud [OF inv] unfolding ud_inv_def by blast
  qed
  then show ?thesis using o(1,3) by blast
qed

definition ud0 :: CUdpSource where
  "ud0 = \<lparr>src_pAppLog = 1, src_pSocketEvent = 2, src_pSocketRunner = 3, src_nRecvBufferSize = 4,
     src_nSendBufferSize = 4, ud_this = 8, ud_hSocket = 0, ud_ServerAddr = [],
     ud_perHandle = \<lparr>ph_hSocket = 0, ph_pSocketSource = 0, ph_pAttachInfo = 0\<rparr>,
     ud_nMaxFreeRecvPoolNum = 2, ud_nMaxFreeSendPoolNum = 2, ud_lstFreeRecvPool = [], ud_sendPool = CSocketSendPool_new\<rparr>"

lemma udp_source_objects_witness:
  "\<exists>b s0 R0. CUdpSource_Open_local srv_env 1 5000 None (ud0, net0) = Inr (b, s0) \<and> length R0 \<le> nat (sint (1 * 2 + 2 :: u32)) \<and>
    (\<forall>R H s. (ud_step srv_env)\<^sup>*\<^sup>* (R0, [], s0) (R, H, s) \<longrightarrow>
       distinct (R @ H @ ud_lstFreeRecvPool (fst s) @ snd_objFreeList (ud_sendPool (fst s))) \<and>
       (\<forall>p \<in> set (R @ H @ ud_lstFreeRecvPool (fst s) @ snd_objFreeList (ud_sendPool (fst s))). n_io (snd s) p \<noteq> None) \<and>
       (\<forall>i < length R. \<exists>x. CUdpSource_PostRecv srv_env (R ! i) s = Inr x) \<and>
       (\<forall>i < length H. \<exists>x. CUdpSource_PostSend srv_env (H ! i) s = Inr x) \<and>
       (\<exists>x. CUdpSource_Close srv_env s = Inr x))"
  by (rule udp_source_objects [OF srv_net0, where port = 5000 and ip = None]) (simp_all add: ud0_def CSocketSendPool_new_def)

end
