(* ===== verification/Sync.thy ===== *)
theory Sync
  imports Winsock
begin

text \<open>
  The classes of sync/: events, semaphores, mutexes, critical sections, guards, threads, thread
  groups and timer queues. Each owns handles of kernel objects, which are made and used by
  calls of the environment; NULL is 0. The answer of a wait is \<open>Ok v\<close>, \<open>v\<close> being
  \<open>WAIT_OBJECT_0\<close> (0), \<open>WAIT_TIMEOUT\<close> (258) and so on. A boolean answer is \<open>is_true\<close>.
\<close>

section \<open>Handles\<close>

type_synonym 's with_net = "'s \<times> net"

definition WAIT_OBJECT_0 :: int where "WAIT_OBJECT_0 = 0"
definition INFINITE :: int where "INFINITE = 4294967295"

text \<open>A handle from the system; a failure is NULL.\<close>

fun ret_handle :: "api_ret \<Rightarrow> int" where
  "ret_handle (Ok h) = h"
| "ret_handle (Err e) = 0"

definition make_handle :: "env \<Rightarrow> api_call \<Rightarrow> net \<Rightarrow> int \<times> net" where
  "make_handle env c n = (let (r, n1) = sys env c n in (ret_handle r, n1))"

definition object_op :: "env \<Rightarrow> kop \<Rightarrow> int \<Rightarrow> int list \<Rightarrow> net \<Rightarrow> bool \<times> net" where
  "object_op env k h args n = (let (r, n1) = sys env (ObjectOp k h args) n in (is_true r, n1))"

definition wait_object :: "env \<Rightarrow> int \<Rightarrow> int \<Rightarrow> net \<Rightarrow> int \<times> net" where
  "wait_object env h nTimeOut n =
     (let (r, n1) = sys env (WaitObject h nTimeOut) n
      in (case r of Ok v \<Rightarrow> v | Err e \<Rightarrow> 4294967295, n1))"

text \<open>\<open>CloseHandle\<close> of a handle that is not NULL, as in the \<open>Clear\<close> functions.\<close>

definition close_handle :: "env \<Rightarrow> int \<Rightarrow> net \<Rightarrow> net" where
  "close_handle env h n = (if h \<noteq> 0 then snd (sys env (CloseHandle h) n) else n)"

section \<open>CEvent\<close>

record CEvent =
  ev_hEvent :: int

definition CEvent_new :: CEvent where
  "CEvent_new = \<lparr>ev_hEvent = 0\<rparr>"

definition CEvent_Clear :: "env \<Rightarrow> CEvent with_net \<Rightarrow> bool \<times> CEvent with_net" where
  "CEvent_Clear env s =
     (case s of (e, n) \<Rightarrow>
        if ev_hEvent e \<noteq> 0 then (True, e\<lparr>ev_hEvent := 0\<rparr>, close_handle env (ev_hEvent e) n)
        else (True, e, n))"

definition CEvent_Create :: "env \<Rightarrow> bool \<Rightarrow> bool \<Rightarrow> CEvent with_net \<Rightarrow> bool \<times> CEvent with_net" where
  "CEvent_Create env bManualReset bInitialState s =
     (case CEvent_Clear env s of (b, e, n) \<Rightarrow>
        let (h, n1) = make_handle env (CreateObject KEvent [of_bool bManualReset, of_bool bInitialState]) n
        in (h \<noteq> 0, e\<lparr>ev_hEvent := h\<rparr>, n1))"

definition CEvent_new_state :: "env \<Rightarrow> bool \<Rightarrow> bool \<Rightarrow> net \<Rightarrow> CEvent with_net" where
  "CEvent_new_state env bManualReset bInitialState n =
     snd (CEvent_Create env bManualReset bInitialState (CEvent_new, n))"

definition CEvent_delete :: "env \<Rightarrow> CEvent with_net \<Rightarrow> CEvent with_net" where
  "CEvent_delete env s = snd (CEvent_Clear env s)"

definition CEvent_Open :: "env \<Rightarrow> int \<Rightarrow> bool \<Rightarrow> CEvent with_net \<Rightarrow> bool \<times> CEvent with_net" where
  "CEvent_Open env dwAccess bInheritHandle s =
     (case s of (e, n) \<Rightarrow>
        let (h, n1) = make_handle env (OpenObject KEvent [dwAccess, of_bool bInheritHandle]) n
        in if h = 0 then (False, e, n1)
           else if h \<noteq> ev_hEvent e
           then (case CEvent_Clear env (e, n1) of (b, e2, n2) \<Rightarrow> (True, e2\<lparr>ev_hEvent := h\<rparr>, n2))
           else (True, e, n1))"

definition CEvent_op :: "env \<Rightarrow> kop \<Rightarrow> CEvent with_net \<Rightarrow> bool \<times> CEvent with_net" where
  "CEvent_op env k s = (case s of (e, n) \<Rightarrow> let (b, n1) = object_op env k (ev_hEvent e) [] n in (b, e, n1))"

definition CEvent_Pulse :: "env \<Rightarrow> CEvent with_net \<Rightarrow> bool \<times> CEvent with_net" where
  "CEvent_Pulse env = CEvent_op env PulseEvent"

definition CEvent_Reset :: "env \<Rightarrow> CEvent with_net \<Rightarrow> bool \<times> CEvent with_net" where
  "CEvent_Reset env = CEvent_op env ResetEvent"

definition CEvent_Signal :: "env \<Rightarrow> CEvent with_net \<Rightarrow> bool \<times> CEvent with_net" where
  "CEvent_Signal env = CEvent_op env SetEvent"

definition CEvent_Wait :: "env \<Rightarrow> int \<Rightarrow> CEvent with_net \<Rightarrow> int \<times> CEvent with_net" where
  "CEvent_Wait env nTimeOut s =
     (case s of (e, n) \<Rightarrow> let (v, n1) = wait_object env (ev_hEvent e) nTimeOut n in (v, e, n1))"

definition CEvent_Lock_timeout :: "env \<Rightarrow> int \<Rightarrow> CEvent with_net \<Rightarrow> bool \<times> CEvent with_net" where
  "CEvent_Lock_timeout env nTimeOut s = (let (v, s1) = CEvent_Wait env nTimeOut s in (v = WAIT_OBJECT_0, s1))"

definition CEvent_Lock :: "env \<Rightarrow> CEvent with_net \<Rightarrow> bool \<times> CEvent with_net" where
  "CEvent_Lock env = CEvent_Lock_timeout env INFINITE"

definition CEvent_UnLock :: "env \<Rightarrow> CEvent with_net \<Rightarrow> bool \<times> CEvent with_net" where
  "CEvent_UnLock env = CEvent_Signal env"

definition CEvent_TryLock :: "CEvent \<Rightarrow> bool" where
  "CEvent_TryLock e = False"

definition CEvent_GetHandle :: "CEvent \<Rightarrow> int" where
  "CEvent_GetHandle e = ev_hEvent e"

section \<open>CSemaphore\<close>

record CSemaphore =
  sem_hSemaphore :: int

definition CSemaphore_new :: CSemaphore where
  "CSemaphore_new = \<lparr>sem_hSemaphore = 0\<rparr>"

definition CSemaphore_Clear :: "env \<Rightarrow> CSemaphore with_net \<Rightarrow> bool \<times> CSemaphore with_net" where
  "CSemaphore_Clear env s =
     (case s of (m, n) \<Rightarrow>
        if sem_hSemaphore m \<noteq> 0 then (True, m\<lparr>sem_hSemaphore := 0\<rparr>, close_handle env (sem_hSemaphore m) n)
        else (True, m, n))"

text \<open>\<open>Create\<close> does not clear: an old handle is overwritten.\<close>

definition CSemaphore_Create :: "env \<Rightarrow> int \<Rightarrow> int \<Rightarrow> CSemaphore with_net \<Rightarrow> bool \<times> CSemaphore with_net" where
  "CSemaphore_Create env nInitialCount nMaxCount s =
     (case s of (m, n) \<Rightarrow>
        let (h, n1) = make_handle env (CreateObject KSemaphore [nInitialCount, nMaxCount]) n
        in (h \<noteq> 0, m\<lparr>sem_hSemaphore := h\<rparr>, n1))"

definition CSemaphore_new_count :: "env \<Rightarrow> int \<Rightarrow> int \<Rightarrow> net \<Rightarrow> CSemaphore with_net" where
  "CSemaphore_new_count env nInitialCount nMaxCount n =
     snd (CSemaphore_Create env nInitialCount nMaxCount (CSemaphore_new, n))"

definition CSemaphore_delete :: "env \<Rightarrow> CSemaphore with_net \<Rightarrow> CSemaphore with_net" where
  "CSemaphore_delete env s = snd (CSemaphore_Clear env s)"

definition CSemaphore_Open :: "env \<Rightarrow> int \<Rightarrow> bool \<Rightarrow> CSemaphore with_net \<Rightarrow> bool \<times> CSemaphore with_net" where
  "CSemaphore_Open env dwAccess bInheritHandle s =
     (case s of (m, n) \<Rightarrow>
        let (h, n1) = make_handle env (OpenObject KSemaphore [dwAccess, of_bool bInheritHandle]) n
        in if h = 0 then (False, m, n1)
           else if h \<noteq> sem_hSemaphore m
           then (case CSemaphore_Clear env (m, n1) of (b, m2, n2) \<Rightarrow> (True, m2\<lparr>sem_hSemaphore := h\<rparr>, n2))
           else (True, m, n1))"

definition CSemaphore_Release :: "env \<Rightarrow> int \<Rightarrow> CSemaphore with_net \<Rightarrow> bool \<times> CSemaphore with_net" where
  "CSemaphore_Release env nReleaseCount s =
     (case s of (m, n) \<Rightarrow>
        let (b, n1) = object_op env ReleaseSemaphore (sem_hSemaphore m) [nReleaseCount] n in (b, m, n1))"

definition CSemaphore_Wait :: "env \<Rightarrow> int \<Rightarrow> CSemaphore with_net \<Rightarrow> int \<times> CSemaphore with_net" where
  "CSemaphore_Wait env nWaitTime s =
     (case s of (m, n) \<Rightarrow> let (v, n1) = wait_object env (sem_hSemaphore m) nWaitTime n in (v, m, n1))"

definition CSemaphore_Lock_timeout :: "env \<Rightarrow> int \<Rightarrow> CSemaphore with_net \<Rightarrow> bool \<times> CSemaphore with_net" where
  "CSemaphore_Lock_timeout env nTimeOut s = (let (v, s1) = CSemaphore_Wait env nTimeOut s in (v = WAIT_OBJECT_0, s1))"

definition CSemaphore_Lock :: "env \<Rightarrow> CSemaphore with_net \<Rightarrow> bool \<times> CSemaphore with_net" where
  "CSemaphore_Lock env = CSemaphore_Lock_timeout env INFINITE"

definition CSemaphore_UnLock :: "env \<Rightarrow> CSemaphore with_net \<Rightarrow> bool \<times> CSemaphore with_net" where
  "CSemaphore_UnLock env = CSemaphore_Release env 1"

definition CSemaphore_TryLock :: "CSemaphore \<Rightarrow> bool" where
  "CSemaphore_TryLock m = False"

definition CSemaphore_GetHandle :: "CSemaphore \<Rightarrow> int" where
  "CSemaphore_GetHandle m = sem_hSemaphore m"

section \<open>CProcessMutex\<close>

record CProcessMutex =
  pm_hMutex :: int

definition CProcessMutex_new :: CProcessMutex where
  "CProcessMutex_new = \<lparr>pm_hMutex = 0\<rparr>"

definition CProcessMutex_Clear :: "env \<Rightarrow> CProcessMutex with_net \<Rightarrow> bool \<times> CProcessMutex with_net" where
  "CProcessMutex_Clear env s =
     (case s of (m, n) \<Rightarrow>
        if pm_hMutex m \<noteq> 0 then (True, m\<lparr>pm_hMutex := 0\<rparr>, close_handle env (pm_hMutex m) n)
        else (True, m, n))"

definition CProcessMutex_Create :: "env \<Rightarrow> bool \<Rightarrow> CProcessMutex with_net \<Rightarrow> bool \<times> CProcessMutex with_net" where
  "CProcessMutex_Create env bInitialOwner s =
     (case CProcessMutex_Clear env s of (b, m, n) \<Rightarrow>
        let (h, n1) = make_handle env (CreateObject KMutex [of_bool bInitialOwner]) n
        in (h \<noteq> 0, m\<lparr>pm_hMutex := h\<rparr>, n1))"

text \<open>The other constructors call \<open>Create\<close> on a member that they have not set: \<open>junk\<close>.\<close>

definition CProcessMutex_new_owner :: "env \<Rightarrow> int \<Rightarrow> bool \<Rightarrow> net \<Rightarrow> CProcessMutex with_net" where
  "CProcessMutex_new_owner env junk bInitialOwner n =
     snd (CProcessMutex_Create env bInitialOwner (\<lparr>pm_hMutex = junk\<rparr>, n))"

definition CProcessMutex_delete :: "env \<Rightarrow> CProcessMutex with_net \<Rightarrow> CProcessMutex with_net" where
  "CProcessMutex_delete env s = snd (CProcessMutex_Clear env s)"

definition CProcessMutex_Open :: "env \<Rightarrow> int \<Rightarrow> bool \<Rightarrow> CProcessMutex with_net \<Rightarrow> bool \<times> CProcessMutex with_net" where
  "CProcessMutex_Open env dwAccess bInheritHandle s =
     (case s of (m, n) \<Rightarrow>
        let (h, n1) = make_handle env (OpenObject KMutex [dwAccess, of_bool bInheritHandle]) n
        in if h = 0 then (False, m, n1)
           else if h \<noteq> pm_hMutex m
           then (case CProcessMutex_Clear env (m, n1) of (b, m2, n2) \<Rightarrow> (True, m2\<lparr>pm_hMutex := h\<rparr>, n2))
           else (True, m, n1))"

definition CProcessMutex_Release :: "env \<Rightarrow> CProcessMutex with_net \<Rightarrow> bool \<times> CProcessMutex with_net" where
  "CProcessMutex_Release env s =
     (case s of (m, n) \<Rightarrow> let (b, n1) = object_op env ReleaseMutex (pm_hMutex m) [] n in (b, m, n1))"

definition CProcessMutex_Wait :: "env \<Rightarrow> int \<Rightarrow> CProcessMutex with_net \<Rightarrow> int \<times> CProcessMutex with_net" where
  "CProcessMutex_Wait env nTimeOut s =
     (case s of (m, n) \<Rightarrow> let (v, n1) = wait_object env (pm_hMutex m) nTimeOut n in (v, m, n1))"

definition CProcessMutex_Lock_timeout :: "env \<Rightarrow> int \<Rightarrow> CProcessMutex with_net \<Rightarrow> bool \<times> CProcessMutex with_net" where
  "CProcessMutex_Lock_timeout env nTimeOut s =
     (let (v, s1) = CProcessMutex_Wait env nTimeOut s in (v = WAIT_OBJECT_0, s1))"

definition CProcessMutex_Lock :: "env \<Rightarrow> CProcessMutex with_net \<Rightarrow> bool \<times> CProcessMutex with_net" where
  "CProcessMutex_Lock env = CProcessMutex_Lock_timeout env INFINITE"

text \<open>\<open>UnLock\<close> does nothing.\<close>

definition CProcessMutex_UnLock :: "CProcessMutex with_net \<Rightarrow> bool \<times> CProcessMutex with_net" where
  "CProcessMutex_UnLock s = (False, s)"

definition CProcessMutex_TryLock :: "CProcessMutex \<Rightarrow> bool" where
  "CProcessMutex_TryLock m = False"

definition CProcessMutex_GetHandle :: "CProcessMutex \<Rightarrow> int" where
  "CProcessMutex_GetHandle m = pm_hMutex m"

section \<open>CMutex and CNullMutex\<close>

record CMutex =
  mx_hMutex :: int

definition CMutex_new :: CMutex where
  "CMutex_new = \<lparr>mx_hMutex = 0\<rparr>"

definition CMutex_Clear :: "env \<Rightarrow> CMutex with_net \<Rightarrow> bool \<times> CMutex with_net" where
  "CMutex_Clear env s =
     (case s of (m, n) \<Rightarrow>
        if mx_hMutex m \<noteq> 0 then (True, m\<lparr>mx_hMutex := 0\<rparr>, close_handle env (mx_hMutex m) n)
        else (True, m, n))"

definition CMutex_delete :: "env \<Rightarrow> CMutex with_net \<Rightarrow> CMutex with_net" where
  "CMutex_delete env s = snd (CMutex_Clear env s)"

definition CMutex_Wait :: "env \<Rightarrow> int \<Rightarrow> CMutex with_net \<Rightarrow> int \<times> CMutex with_net" where
  "CMutex_Wait env nTimeOut s =
     (case s of (m, n) \<Rightarrow> let (v, n1) = wait_object env (mx_hMutex m) nTimeOut n in (v, m, n1))"

definition CMutex_Lock_timeout :: "env \<Rightarrow> int \<Rightarrow> CMutex with_net \<Rightarrow> bool \<times> CMutex with_net" where
  "CMutex_Lock_timeout env nTimeOut s =
     (let (nRet, s1) = CMutex_Wait env nTimeOut s in if WAIT_OBJECT_0 = nRet then (True, s1) else (False, s1))"

definition CMutex_Lock :: "env \<Rightarrow> CMutex with_net \<Rightarrow> bool \<times> CMutex with_net" where
  "CMutex_Lock env = CMutex_Lock_timeout env INFINITE"

definition CMutex_UnLock :: "CMutex with_net \<Rightarrow> bool \<times> CMutex with_net" where
  "CMutex_UnLock s = (False, s)"

definition CMutex_TryLock :: "CMutex \<Rightarrow> bool" where
  "CMutex_TryLock m = False"

definition CMutex_GetHandle :: "CMutex \<Rightarrow> int" where
  "CMutex_GetHandle m = mx_hMutex m"

definition CNullMutex_Wait :: "int \<Rightarrow> 's \<Rightarrow> int \<times> 's" where
  "CNullMutex_Wait nTimeout s = (0, s)"

definition CNullMutex_Lock_timeout :: "int \<Rightarrow> 's \<Rightarrow> bool \<times> 's" where
  "CNullMutex_Lock_timeout nTimeout s = (False, s)"

definition CNullMutex_Lock :: "'s \<Rightarrow> bool \<times> 's" where
  "CNullMutex_Lock s = (False, s)"

definition CNullMutex_UnLock :: "'s \<Rightarrow> bool \<times> 's" where
  "CNullMutex_UnLock s = (False, s)"

definition CNullMutex_TryLock :: "'s \<Rightarrow> bool \<times> 's" where
  "CNullMutex_TryLock s = (False, s)"

definition CNullMutex_GetHandle :: "'s \<Rightarrow> int \<times> 's" where
  "CNullMutex_GetHandle s = (0, s)"

definition CNullMutex_Clear :: "'s \<Rightarrow> bool \<times> 's" where
  "CNullMutex_Clear s = (True, s)"

section \<open>CThreadMutex and the guards\<close>

text \<open>A critical section is its address.\<close>

record CThreadMutex =
  cs_mtx :: addr

definition CThreadMutex_new :: "env \<Rightarrow> addr \<Rightarrow> net \<Rightarrow> CThreadMutex with_net" where
  "CThreadMutex_new env this n = (\<lparr>cs_mtx = this\<rparr>, snd (sys env (CriticalSection InitializeCS this) n))"

definition CThreadMutex_delete :: "env \<Rightarrow> CThreadMutex with_net \<Rightarrow> CThreadMutex with_net" where
  "CThreadMutex_delete env s = (case s of (m, n) \<Rightarrow> (m, snd (sys env (CriticalSection DeleteCS (cs_mtx m)) n)))"

definition CThreadMutex_Wait :: "int \<Rightarrow> CThreadMutex with_net \<Rightarrow> int \<times> CThreadMutex with_net" where
  "CThreadMutex_Wait nTimeOut s = (0, s)"

definition CThreadMutex_Lock :: "env \<Rightarrow> CThreadMutex with_net \<Rightarrow> bool \<times> CThreadMutex with_net" where
  "CThreadMutex_Lock env s = (case s of (m, n) \<Rightarrow> (True, m, snd (sys env (CriticalSection EnterCS (cs_mtx m)) n)))"

definition CThreadMutex_Lock_timeout :: "env \<Rightarrow> int \<Rightarrow> CThreadMutex with_net \<Rightarrow> bool \<times> CThreadMutex with_net" where
  "CThreadMutex_Lock_timeout env nTimeOut s =
     (case s of (m, n) \<Rightarrow> (True, m, snd (sys env (CriticalSection EnterCS (cs_mtx m)) n)))"

definition CThreadMutex_UnLock :: "env \<Rightarrow> CThreadMutex with_net \<Rightarrow> bool \<times> CThreadMutex with_net" where
  "CThreadMutex_UnLock env s = (case s of (m, n) \<Rightarrow> (True, m, snd (sys env (CriticalSection LeaveCS (cs_mtx m)) n)))"

definition CThreadMutex_TryLock :: "env \<Rightarrow> CThreadMutex with_net \<Rightarrow> bool \<times> CThreadMutex with_net" where
  "CThreadMutex_TryLock env s =
     (case s of (m, n) \<Rightarrow> let (r, n1) = sys env (CriticalSection TryEnterCS (cs_mtx m)) n in (is_true r, m, n1))"

definition CThreadMutex_GetHandle :: "CThreadMutex \<Rightarrow> addr" where
  "CThreadMutex_GetHandle m = cs_mtx m"

text \<open>A block with a guard at its beginning: the constructor locks, the body runs, and whichever
  way the body ends the destructor unlocks. The results of the lock and the unlock are dropped.\<close>

definition CGuard_block :: "('s \<Rightarrow> bool \<times> 's) \<Rightarrow> ('s \<Rightarrow> bool \<times> 's) \<Rightarrow> ('s \<Rightarrow> 'a \<times> 's) \<Rightarrow> 's \<Rightarrow> 'a \<times> 's" where
  "CGuard_block lock unlock body s =
     (let s1 = snd (lock s); (x, s2) = body s1 in (x, snd (unlock s2)))"

definition CGuard_block_timeout ::
    "(int \<Rightarrow> 's \<Rightarrow> bool \<times> 's) \<Rightarrow> ('s \<Rightarrow> bool \<times> 's) \<Rightarrow> int \<Rightarrow> ('s \<Rightarrow> 'a \<times> 's) \<Rightarrow> 's \<Rightarrow> 'a \<times> 's" where
  "CGuard_block_timeout lock unlock nTimeOut body s =
     (let s1 = snd (lock nTimeOut s); (x, s2) = body s1 in (x, snd (unlock s2)))"

definition CMutexGuard_block :: "('s \<Rightarrow> bool \<times> 's) \<Rightarrow> ('s \<Rightarrow> bool \<times> 's) \<Rightarrow> ('s \<Rightarrow> 'a \<times> 's) \<Rightarrow> 's \<Rightarrow> 'a \<times> 's" where
  "CMutexGuard_block lock unlock body s =
     (let s1 = snd (lock s); (x, s2) = body s1 in (x, snd (unlock s2)))"

definition CMutexGuard_block_timeout ::
    "(int \<Rightarrow> 's \<Rightarrow> bool \<times> 's) \<Rightarrow> ('s \<Rightarrow> bool \<times> 's) \<Rightarrow> int \<Rightarrow> ('s \<Rightarrow> 'a \<times> 's) \<Rightarrow> 's \<Rightarrow> 'a \<times> 's" where
  "CMutexGuard_block_timeout lock unlock nTimeOut body s =
     (let s1 = snd (lock nTimeOut s); (x, s2) = body s1 in (x, snd (unlock s2)))"

section \<open>CThread\<close>

datatype ThreadCmd = Cmd_nothing | Cmd_stop
datatype ThreadState = State_norun | State_normal | State_suspend

record CThread =
  th_hThread :: int
  th_threadProc :: addr
  th_pParameter :: addr
  th_ThreadCmd :: ThreadCmd
  th_ThreadState :: ThreadState

text \<open>The constructor leaves the procedure and its parameter as they are in memory.\<close>

definition CThread_new :: "addr \<Rightarrow> addr \<Rightarrow> CThread" where
  "CThread_new junk junk' =
     \<lparr>th_hThread = 0, th_threadProc = junk, th_pParameter = junk',
      th_ThreadCmd = Cmd_nothing, th_ThreadState = State_norun\<rparr>"

definition CThread_SetPriority :: "env \<Rightarrow> int \<Rightarrow> CThread with_net \<Rightarrow> bool \<times> CThread with_net" where
  "CThread_SetPriority env nPriority s =
     (case s of (t, n) \<Rightarrow> let (b, n1) = object_op env SetThreadPriority (th_hThread t) [nPriority] n in (b, t, n1))"

definition CThread_GetPriority :: "env \<Rightarrow> CThread with_net \<Rightarrow> api_ret \<times> CThread with_net" where
  "CThread_GetPriority env s =
     (case s of (t, n) \<Rightarrow> let (r, n1) = sys env (ObjectOp GetThreadPriority (th_hThread t) []) n in (r, t, n1))"

definition CThread_Kill :: "env \<Rightarrow> CThread with_net \<Rightarrow> bool \<times> CThread with_net" where
  "CThread_Kill env s =
     (case s of (t, n) \<Rightarrow>
        let (bRet, n1) = object_op env TerminateThread (th_hThread t) [0] n
        in if bRet then (True, t\<lparr>th_ThreadState := State_norun\<rparr>, n1) else (False, t, n1))"

definition CThread_Clear :: "env \<Rightarrow> CThread with_net \<Rightarrow> bool \<times> CThread with_net" where
  "CThread_Clear env s =
     (case (if th_ThreadState (fst s) \<noteq> State_norun then snd (CThread_Kill env s) else s) of (t, n) \<Rightarrow>
        (True, t\<lparr>th_hThread := 0, th_ThreadCmd := Cmd_nothing, th_ThreadState := State_norun\<rparr>,
         close_handle env (th_hThread t) n))"

definition CThread_delete :: "env \<Rightarrow> CThread with_net \<Rightarrow> CThread with_net" where
  "CThread_delete env s = snd (CThread_Clear env s)"

text \<open>\<open>_beginthreadex\<close>; the flag is \<open>CREATE_SUSPENDED\<close> (4) or 0.\<close>

definition begin_thread :: "env \<Rightarrow> addr \<Rightarrow> addr \<Rightarrow> bool \<Rightarrow> net \<Rightarrow> int \<times> net" where
  "begin_thread env threadProc pParameter bSuspend n =
     make_handle env (CreateObject KThread [int threadProc, int pParameter, if bSuspend then 4 else 0]) n"

definition CThread_Start ::
    "env \<Rightarrow> addr \<Rightarrow> addr \<Rightarrow> bool \<Rightarrow> int \<Rightarrow> CThread with_net \<Rightarrow> bool \<times> CThread with_net" where
  "CThread_Start env threadProc pParameter bSuspend nPriority s =
     (case CThread_Clear env s of (b, t, n) \<Rightarrow>
        let (h, n1) = begin_thread env threadProc pParameter bSuspend n; t1 = t\<lparr>th_hThread := h\<rparr>
        in if h = 0 then (False, t1, n1)
           else (case CThread_SetPriority env nPriority (t1, n1) of (b, t2, n2) \<Rightarrow>
             (True, t2\<lparr>th_threadProc := threadProc, th_pParameter := pParameter,
                th_ThreadState := if bSuspend then State_suspend else State_normal\<rparr>, n2)))"

definition CThread_new_proc :: "env \<Rightarrow> addr \<Rightarrow> addr \<Rightarrow> addr \<Rightarrow> addr \<Rightarrow> bool \<Rightarrow> net \<Rightarrow> CThread with_net" where
  "CThread_new_proc env junk junk' threadProc pParameter bSuspend n =
     snd (CThread_Start env threadProc pParameter bSuspend 0 (CThread_new junk junk', n))"

definition CThread_Start0 :: "env \<Rightarrow> CThread with_net \<Rightarrow> bool \<times> CThread with_net" where
  "CThread_Start0 env s =
     (case CThread_Clear env s of (b, t, n) \<Rightarrow>
        let (h, n1) = begin_thread env (th_threadProc t) (th_pParameter t) False n; t1 = t\<lparr>th_hThread := h\<rparr>
        in if h = 0 then (False, t1, n1) else (True, t1\<lparr>th_ThreadState := State_normal\<rparr>, n1))"

text \<open>\<open>ResumeThread\<close> and \<open>SuspendThread\<close> fail with -1.\<close>

definition CThread_Resume :: "env \<Rightarrow> CThread with_net \<Rightarrow> bool \<times> CThread with_net" where
  "CThread_Resume env s =
     (case s of (t, n) \<Rightarrow>
        let (r, n1) = sys env (ObjectOp ResumeThread (th_hThread t) []) n
        in if \<not> is_ok r then (False, t, n1) else (True, t\<lparr>th_ThreadState := State_normal\<rparr>, n1))"

definition CThread_Suspend :: "env \<Rightarrow> CThread with_net \<Rightarrow> bool \<times> CThread with_net" where
  "CThread_Suspend env s =
     (case s of (t, n) \<Rightarrow>
        let (r, n1) = sys env (ObjectOp SuspendThread (th_hThread t) []) n
        in if \<not> is_ok r then (False, t, n1) else (True, t\<lparr>th_ThreadState := State_suspend\<rparr>, n1))"

definition CThread_Stop :: "env \<Rightarrow> int \<Rightarrow> CThread with_net \<Rightarrow> int \<times> CThread with_net" where
  "CThread_Stop env nTimeOut s =
     (case s of (t, n) \<Rightarrow>
        let t1 = t\<lparr>th_ThreadCmd := Cmd_stop\<rparr>; (v, n1) = wait_object env (th_hThread t1) nTimeOut n
        in (v, if v = WAIT_OBJECT_0 then t1\<lparr>th_ThreadState := State_norun\<rparr> else t1, n1))"

definition CThread_IsStop :: "CThread \<Rightarrow> bool" where
  "CThread_IsStop t \<longleftrightarrow> th_ThreadCmd t = Cmd_stop"

definition CThread_GetHandle :: "CThread \<Rightarrow> int" where
  "CThread_GetHandle t = th_hThread t"

end
