(* ===== verification/ThreadGroup.thy ===== *)
theory ThreadGroup
  imports Sync
begin

text \<open>
  \<open>CThreadGroup\<close> and \<open>CTimerQueue\<close> of sync/. A thread group keeps the handles of its threads in
  the order in which they were started.
\<close>

section \<open>CThreadGroup\<close>

record CThreadGroup =
  tg_vecThreads :: "int list"
  tg_threadProc :: addr
  tg_pParameter :: addr
  tg_ThreadCmd :: ThreadCmd

definition CThreadGroup_new :: CThreadGroup where
  "CThreadGroup_new = \<lparr>tg_vecThreads = [], tg_threadProc = NULL, tg_pParameter = NULL, tg_ThreadCmd = Cmd_nothing\<rparr>"

definition CThreadGroup_new_proc :: "addr \<Rightarrow> addr \<Rightarrow> CThreadGroup" where
  "CThreadGroup_new_proc threadProc pParameter =
     \<lparr>tg_vecThreads = [], tg_threadProc = threadProc, tg_pParameter = pParameter, tg_ThreadCmd = Cmd_nothing\<rparr>"

fun terminate_threads :: "env \<Rightarrow> int list \<Rightarrow> net \<Rightarrow> net" where
  "terminate_threads env [] n = n"
| "terminate_threads env (h # hs) n =
     terminate_threads env hs
       (snd (sys env (CloseHandle h) (snd (object_op env TerminateThread h [0] n))))"

definition CThreadGroup_Clear :: "env \<Rightarrow> CThreadGroup with_net \<Rightarrow> bool \<times> CThreadGroup with_net" where
  "CThreadGroup_Clear env s =
     (case s of (g, n) \<Rightarrow>
        (True, g\<lparr>tg_vecThreads := [], tg_ThreadCmd := Cmd_nothing\<rparr>, terminate_threads env (tg_vecThreads g) n))"

definition CThreadGroup_delete :: "env \<Rightarrow> CThreadGroup with_net \<Rightarrow> CThreadGroup with_net" where
  "CThreadGroup_delete env s = snd (CThreadGroup_Clear env s)"

definition CThreadGroup_Kill :: "env \<Rightarrow> CThreadGroup with_net \<Rightarrow> bool \<times> CThreadGroup with_net" where
  "CThreadGroup_Kill = CThreadGroup_Clear"

text \<open>The loop that starts threads; it ends with FALSE at the first failure. \<open>prio\<close> is the
  priority that is set, if any.\<close>

fun start_threads :: "env \<Rightarrow> addr \<Rightarrow> addr \<Rightarrow> int option \<Rightarrow> nat \<Rightarrow> CThreadGroup with_net \<Rightarrow> bool \<times> CThreadGroup with_net" where
  "start_threads env proc par prio 0 s = (True, s)"
| "start_threads env proc par prio (Suc k) s =
     (case s of (g, n) \<Rightarrow>
        let (h, n1) = begin_thread env proc par False n
        in if h = 0 then (False, g, n1)
           else let n2 = (case prio of None \<Rightarrow> n1 | Some p \<Rightarrow> snd (object_op env SetThreadPriority h [p] n1))
                in start_threads env proc par prio k (g\<lparr>tg_vecThreads := tg_vecThreads g @ [h]\<rparr>, n2))"

definition CThreadGroup_Start ::
    "env \<Rightarrow> addr \<Rightarrow> addr \<Rightarrow> int \<Rightarrow> int \<Rightarrow> CThreadGroup with_net \<Rightarrow> bool \<times> CThreadGroup with_net" where
  "CThreadGroup_Start env threadProc pParameter nThreadCount nPriority s =
     (if threadProc = NULL then (False, s)
      else let (b, g, n) = (if nThreadCount > 0
                 then start_threads env threadProc pParameter (Some nPriority) (nat nThreadCount) (snd (CThreadGroup_Clear env s))
                 else (True, s))
           in if \<not> b then (False, g, n)
              else (True, g\<lparr>tg_threadProc := threadProc, tg_pParameter := pParameter\<rparr>, n))"

definition CThreadGroup_Start_again :: "env \<Rightarrow> int \<Rightarrow> CThreadGroup with_net \<Rightarrow> bool \<times> CThreadGroup with_net" where
  "CThreadGroup_Start_again env nThreadCount s =
     (if tg_threadProc (fst s) = NULL then (False, s)
      else if nThreadCount > 0
      then (case CThreadGroup_Clear env s of (b, g, n) \<Rightarrow>
              start_threads env (tg_threadProc g) (tg_pParameter g) None (nat nThreadCount) (g, n))
      else (True, s))"

fun wait_threads :: "env \<Rightarrow> int list \<Rightarrow> int \<Rightarrow> net \<Rightarrow> net" where
  "wait_threads env [] nTimeOut n = n"
| "wait_threads env (h # hs) nTimeOut n = wait_threads env hs nTimeOut (snd (wait_object env h nTimeOut n))"

definition CThreadGroup_Stop :: "env \<Rightarrow> int \<Rightarrow> CThreadGroup with_net \<Rightarrow> int \<times> CThreadGroup with_net" where
  "CThreadGroup_Stop env nTimeOut s =
     (case s of (g, n) \<Rightarrow> (0, g\<lparr>tg_ThreadCmd := Cmd_stop\<rparr>, wait_threads env (tg_vecThreads g) nTimeOut n))"

definition CThreadGroup_IsStop :: "CThreadGroup \<Rightarrow> bool" where
  "CThreadGroup_IsStop g = (if tg_ThreadCmd g \<noteq> Cmd_stop then False else True)"

definition CThreadGroup_GetThreadCount :: "CThreadGroup \<Rightarrow> int" where
  "CThreadGroup_GetThreadCount g = int (length (tg_vecThreads g))"

text \<open>\<open>AddThread\<close> goes on after a failure and returns how many threads it has started.\<close>

fun add_threads :: "env \<Rightarrow> nat \<Rightarrow> CThreadGroup with_net \<Rightarrow> int \<times> CThreadGroup with_net" where
  "add_threads env 0 s = (0, s)"
| "add_threads env (Suc k) s =
     (case s of (g, n) \<Rightarrow>
        let (h, n1) = begin_thread env (tg_threadProc g) (tg_pParameter g) False n
        in if h \<noteq> 0
           then let (c, s') = add_threads env k (g\<lparr>tg_vecThreads := tg_vecThreads g @ [h]\<rparr>, n1) in (c + 1, s')
           else add_threads env k (g, n1))"

definition CThreadGroup_AddThread :: "env \<Rightarrow> int \<Rightarrow> CThreadGroup with_net \<Rightarrow> int \<times> CThreadGroup with_net" where
  "CThreadGroup_AddThread env nThreadCount s =
     (if tg_threadProc (fst s) = NULL then (0, s)
      else if nThreadCount \<le> 0 then (0, s)
      else add_threads env (nat nThreadCount) s)"

fun pop_threads :: "env \<Rightarrow> nat \<Rightarrow> CThreadGroup with_net \<Rightarrow> CThreadGroup with_net" where
  "pop_threads env 0 s = s"
| "pop_threads env (Suc k) s =
     (case s of (g, n) \<Rightarrow>
        let h = last (tg_vecThreads g);
            n1 = snd (object_op env TerminateThread h [0] n);
            n2 = snd (sys env (CloseHandle h) n1)
        in pop_threads env k (g\<lparr>tg_vecThreads := butlast (tg_vecThreads g)\<rparr>, n2))"

definition CThreadGroup_RemoveThread :: "env \<Rightarrow> int \<Rightarrow> CThreadGroup with_net \<Rightarrow> int \<times> CThreadGroup with_net" where
  "CThreadGroup_RemoveThread env nThreadCount s =
     (if nThreadCount > 0
      then let nRet = CThreadGroup_GetThreadCount (fst s)
           in if nThreadCount \<ge> nRet then (nRet, snd (CThreadGroup_Clear env s))
              else (nThreadCount, pop_threads env (nat nThreadCount) s)
      else (0, s))"

fun each_thread :: "env \<Rightarrow> kop \<Rightarrow> int list \<Rightarrow> net \<Rightarrow> net" where
  "each_thread env k [] n = n"
| "each_thread env k (h # hs) n = each_thread env k hs (snd (sys env (ObjectOp k h []) n))"

definition CThreadGroup_Resume :: "env \<Rightarrow> CThreadGroup with_net \<Rightarrow> bool \<times> CThreadGroup with_net" where
  "CThreadGroup_Resume env s = (case s of (g, n) \<Rightarrow> (True, g, each_thread env ResumeThread (tg_vecThreads g) n))"

definition CThreadGroup_Suspend :: "env \<Rightarrow> CThreadGroup with_net \<Rightarrow> bool \<times> CThreadGroup with_net" where
  "CThreadGroup_Suspend env s = (case s of (g, n) \<Rightarrow> (True, g, each_thread env SuspendThread (tg_vecThreads g) n))"

section \<open>CTimerQueue\<close>

record CTimerQueue =
  tq_hTimerQueue :: int

definition CTimerQueue_Release :: "env \<Rightarrow> int \<Rightarrow> CTimerQueue with_net \<Rightarrow> bool \<times> CTimerQueue with_net" where
  "CTimerQueue_Release env hCompletionEvent s =
     (case s of (q, n) \<Rightarrow>
        if tq_hTimerQueue q \<noteq> 0
        then let (bRet, n1) = object_op env DeleteTimerQueueEx (tq_hTimerQueue q) [hCompletionEvent] n
             in (bRet, q\<lparr>tq_hTimerQueue := 0\<rparr>, n1)
        else (True, q, n))"

definition CTimerQueue_Clear :: "env \<Rightarrow> CTimerQueue with_net \<Rightarrow> bool \<times> CTimerQueue with_net" where
  "CTimerQueue_Clear env = CTimerQueue_Release env 0"

definition CTimerQueue_Create :: "env \<Rightarrow> CTimerQueue with_net \<Rightarrow> bool \<times> CTimerQueue with_net" where
  "CTimerQueue_Create env s =
     (case CTimerQueue_Clear env s of (b, q, n) \<Rightarrow>
        let (h, n1) = make_handle env (CreateObject KTimerQueue []) n in (h \<noteq> 0, q\<lparr>tq_hTimerQueue := h\<rparr>, n1))"

definition CTimerQueue_new :: "env \<Rightarrow> net \<Rightarrow> CTimerQueue with_net" where
  "CTimerQueue_new env n = snd (CTimerQueue_Create env (\<lparr>tq_hTimerQueue = 0\<rparr>, n))"

definition CTimerQueue_delete :: "env \<Rightarrow> CTimerQueue with_net \<Rightarrow> CTimerQueue with_net" where
  "CTimerQueue_delete env s = snd (CTimerQueue_Clear env s)"

definition CTimerQueue_GetHandle :: "CTimerQueue \<Rightarrow> int" where
  "CTimerQueue_GetHandle q = tq_hTimerQueue q"

text \<open>The new timer's handle, or \<open>None\<close>.\<close>

definition CTimerQueue_CreateTimer ::
    "env \<Rightarrow> addr \<Rightarrow> addr \<Rightarrow> int \<Rightarrow> int \<Rightarrow> int \<Rightarrow> CTimerQueue with_net \<Rightarrow> int option \<times> CTimerQueue with_net" where
  "CTimerQueue_CreateTimer env timerQueueProc pParameter nDueTime nPeriod nFlags s =
     (case s of (q, n) \<Rightarrow>
        let (r, n1) = sys env (CreateObject KTimer [tq_hTimerQueue q, int timerQueueProc, int pParameter,
                                 nDueTime, nPeriod, nFlags]) n
        in ((case r of Ok h \<Rightarrow> Some h | Err e \<Rightarrow> None), q, n1))"

definition CTimerQueue_DeleteTimer :: "env \<Rightarrow> int \<Rightarrow> int \<Rightarrow> CTimerQueue with_net \<Rightarrow> bool \<times> CTimerQueue with_net" where
  "CTimerQueue_DeleteTimer env hTimer hCompletionEvent s =
     (case s of (q, n) \<Rightarrow>
        let (b, n1) = object_op env DeleteTimerQueueTimer (tq_hTimerQueue q) [hTimer, hCompletionEvent] n in (b, q, n1))"

definition CTimerQueue_UpdateTimer ::
    "env \<Rightarrow> int \<Rightarrow> int \<Rightarrow> int \<Rightarrow> CTimerQueue with_net \<Rightarrow> bool \<times> CTimerQueue with_net" where
  "CTimerQueue_UpdateTimer env hTimer nDueTime nPeriod s =
     (case s of (q, n) \<Rightarrow>
        let (b, n1) = object_op env ChangeTimerQueueTimer (tq_hTimerQueue q) [hTimer, nDueTime, nPeriod] n in (b, q, n1))"

end
