(* ===== verification/SyncProps.thy ===== *)
theory SyncProps
  imports ThreadGroup SendPool "HOL-Library.Multiset"
begin

text \<open>
  The contract that the classes of sync/ share: an object closes every handle that it makes,
  once, and no other. The locale \<open>handle_owner\<close> states it for one step and for the destructor and
  draws the consequence for every sequence of operations.
\<close>

section \<open>Handles made and closed\<close>

fun makes_handle :: "api_call \<times> api_ret \<Rightarrow> int list" where
  "makes_handle (CreateObject k xs, Ok h) = (if h \<noteq> 0 then [h] else [])"
| "makes_handle (OpenObject k xs, Ok h) = (if h \<noteq> 0 then [h] else [])"
| "makes_handle _ = []"

fun closes_handle :: "api_call \<times> api_ret \<Rightarrow> int list" where
  "closes_handle (CloseHandle h, r) = [h]"
| "closes_handle (ObjectOp DeleteTimerQueueEx h xs, r) = [h]"
| "closes_handle _ = []"

definition made :: "trace \<Rightarrow> int multiset" where
  "made t = mset (concat (map makes_handle t))"

definition closed :: "trace \<Rightarrow> int multiset" where
  "closed t = mset (concat (map closes_handle t))"

lemma made_append [simp]: "made (t @ t') = made t + made t'" "closed (t @ t') = closed t + closed t'"
  by (simp_all add: made_def closed_def)

text \<open>The handles that are open after a run are those that the object owns and \<open>X\<close>.\<close>

definition balanced :: "int multiset \<Rightarrow> int list \<Rightarrow> net \<Rightarrow> bool" where
  "balanced X own n \<longleftrightarrow> made (n_trace n) = closed (n_trace n) + mset own + X"

text \<open>The system does not hand out a handle that is open.\<close>

definition fresh_handles :: "env \<Rightarrow> bool" where
  "fresh_handles env \<longleftrightarrow>
     (\<forall>t c h. makes_handle (c, env t c) = [h] \<longrightarrow> h \<notin># made t - closed t)"

lemma balanced_new:
  assumes "fresh_handles env" "balanced X own n" "makes_handle (c, env (n_trace n) c) = [h]"
  shows "h \<notin> set own"
proof -
  have "made (n_trace n) - closed (n_trace n) = mset own + X" using assms(2) by (simp add: balanced_def)
  then show ?thesis using assms(1,3) unfolding fresh_handles_def by (metis set_mset_mset union_iff)
qed

locale handle_owner =
  fixes step :: "env \<Rightarrow> 'op \<Rightarrow> 's with_net \<Rightarrow> 's with_net"
    and owned :: "'s \<Rightarrow> int list"
    and delete :: "env \<Rightarrow> 's with_net \<Rightarrow> 's with_net"
  assumes step_balanced: "fresh_handles env \<Longrightarrow> balanced X (owned (fst s)) (snd s) \<Longrightarrow>
      balanced X (owned (fst (step env x s))) (snd (step env x s))"
    and delete_balanced: "balanced X (owned (fst s)) (snd s) \<Longrightarrow> balanced X [] (snd (delete env s))"
begin

definition run :: "env \<Rightarrow> 'op list \<Rightarrow> 's with_net \<Rightarrow> 's with_net" where
  "run env xs s = fold (step env) xs s"

lemma run_balanced:
  "fresh_handles env \<Longrightarrow> balanced X (owned (fst s)) (snd s) \<Longrightarrow>
   balanced X (owned (fst (run env xs s))) (snd (run env xs s))"
  by (induction xs arbitrary: s) (simp_all add: run_def step_balanced)

lemma all_closed:
  assumes "fresh_handles env" "owned o1 = []" "balanced X [] n"
  shows "balanced X [] (snd (delete env (run env xs (o1, n))))"
  using assms by (intro delete_balanced run_balanced) simp_all

end

section \<open>Calls\<close>

named_theorems hnd \<open>the operations, unfolded to their calls\<close>

definition quiet :: "api_call \<Rightarrow> bool" where
  "quiet c \<longleftrightarrow> (\<forall>r. makes_handle (c, r) = [] \<and> closes_handle (c, r) = [])"

lemma quiet_simps [simp]:
  "quiet (WaitObject h t)" "quiet (CriticalSection j p)"
  "quiet (ObjectOp k h xs) \<longleftrightarrow> k \<noteq> DeleteTimerQueueEx"
  by (auto simp: quiet_def elim: closes_handle.elims) (cases k; simp)+

lemma balanced_quiet [simp]: "quiet c \<Longrightarrow> balanced X own (snd (sys env c n)) = balanced X own n"
  by (simp add: balanced_def sys_def quiet_def made_def closed_def)

lemma balanced_close [simp]:
  "balanced X own (snd (sys env (CloseHandle h) n)) \<longleftrightarrow> balanced X (h # own) n"
  by (auto simp: balanced_def sys_def made_def closed_def)

lemma balanced_delete_queue [simp]:
  "balanced X own (snd (sys env (ObjectOp DeleteTimerQueueEx h xs) n)) \<longleftrightarrow> balanced X (h # own) n"
  by (auto simp: balanced_def sys_def made_def closed_def)

text \<open>The handle that an object holds: NULL is none.\<close>

definition held :: "int \<Rightarrow> int list" where
  "held h = (if h = 0 then [] else [h])"

lemma held_simps [simp]: "held 0 = []" "h \<noteq> 0 \<Longrightarrow> held h = [h]"
  by (simp_all add: held_def)

lemma balanced_make:
  assumes "balanced X own n" "c = CreateObject k xs \<or> c = OpenObject k xs" "make_handle env c n = (h, n')"
  shows "balanced X (own @ held h) n'"
  using assms by (cases "env (n_trace n) c")
    (auto simp: make_handle_def Let_def sys_def balanced_def made_def closed_def held_def)

lemmas balanced_create = balanced_make [OF _ disjI1 [OF refl]]
lemmas balanced_open = balanced_make [OF _ disjI2 [OF refl]]

lemma balanced_close_handle: "balanced X (held h @ own) n \<Longrightarrow> balanced X own (close_handle env h n)"
  by (simp add: close_handle_def held_def split: if_splits)

lemma make_handle_fresh:
  assumes "fresh_handles env" "balanced X own n" "c = CreateObject k xs \<or> c = OpenObject k xs"
    "make_handle env c n = (h, n')" "h \<noteq> 0"
  shows "h \<notin> set own"
proof (rule balanced_new [OF assms(1,2)])
  show "makes_handle (c, env (n_trace n) c) = [h]"
    using assms(3-5) by (cases "env (n_trace n) c") (auto simp: make_handle_def Let_def sys_def)
qed

lemmas open_fresh = make_handle_fresh [OF _ _ disjI2 [OF refl]]

lemma object_op_net [simp]: "snd (object_op env k h xs n) = snd (sys env (ObjectOp k h xs) n)"
  by (simp add: object_op_def case_prod_unfold Let_def)

lemma wait_object_net [simp]: "snd (wait_object env h t n) = snd (sys env (WaitObject h t) n)"
  by (simp add: wait_object_def case_prod_unfold Let_def)

section \<open>Objects with one handle\<close>

text \<open>\<open>CEvent\<close> and \<open>CProcessMutex\<close> handle their one handle in the same way: \<open>Clear\<close> closes it,
  \<open>Create\<close> makes a new one after \<open>Clear\<close>, and \<open>Open\<close> replaces it when the system gives one.\<close>

locale handle_cell =
  fixes handle :: "'s \<Rightarrow> int"
    and put :: "int \<Rightarrow> 's \<Rightarrow> 's"
    and kind :: kobj
    and clear :: "env \<Rightarrow> 's with_net \<Rightarrow> bool \<times> 's with_net"
    and cargs :: "'a \<Rightarrow> int list"
    and create :: "env \<Rightarrow> 'a \<Rightarrow> 's with_net \<Rightarrow> bool \<times> 's with_net"
    and reopen :: "env \<Rightarrow> int \<times> bool \<Rightarrow> 's with_net \<Rightarrow> bool \<times> 's with_net"
  assumes handle_put: "handle (put h x) = h"
    and clear_eq: "clear env (x, n) =
      (if handle x \<noteq> 0 then (True, put 0 x, close_handle env (handle x) n) else (True, x, n))"
    and create_eq: "create env a s = (case clear env s of (b, x, n) \<Rightarrow>
        case make_handle env (CreateObject kind (cargs a)) n of (h, n1) \<Rightarrow> (h \<noteq> 0, put h x, n1))"
    and reopen_eq: "reopen env p (x, n) = (case make_handle env (OpenObject kind [fst p, of_bool (snd p)]) n of (h, n1) \<Rightarrow>
        if h = 0 then (False, x, n1)
        else if h \<noteq> handle x then (case clear env (x, n1) of (b, x2, n2) \<Rightarrow> (True, put h x2, n2))
        else (True, x, n1))"
begin

lemma clear_balanced:
  assumes "balanced X (held (handle (fst s))) (snd s)"
  shows "handle (fst (snd (clear env s))) = 0" "balanced X [] (snd (snd (clear env s)))"
  using assms balanced_close_handle [of X "handle (fst s)" "[]" "snd s" env]
  by (cases s; auto simp: clear_eq handle_put)+

lemma create_balanced:
  assumes "balanced X (held (handle (fst s))) (snd s)"
  shows "balanced X (held (handle (fst (snd (create env a s))))) (snd (snd (create env a s)))"
proof -
  obtain b x n where c: "clear env s = (b, x, n)" by (cases "clear env s")
  obtain h n' where m: "make_handle env (CreateObject kind (cargs a)) n = (h, n')"
    by (cases "make_handle env (CreateObject kind (cargs a)) n")
  have "balanced X [] n" using clear_balanced(2) [OF assms, of env] c by simp
  from balanced_create [OF this m] have "balanced X (held h) n'" by simp
  then show ?thesis by (simp add: create_eq c m handle_put)
qed

lemma reopen_balanced:
  assumes "fresh_handles env" "balanced X (held (handle (fst s))) (snd s)"
  shows "balanced X (held (handle (fst (snd (reopen env p s))))) (snd (snd (reopen env p s)))"
proof -
  obtain x n where s: "s = (x, n)" by (cases s)
  let ?c = "OpenObject kind [fst p, of_bool (snd p)]"
  obtain h n1 where m: "make_handle env ?c n = (h, n1)" by (cases "make_handle env ?c n")
  have o: "balanced X (held (handle x)) n" using assms(2) by (simp add: s)
  have b: "balanced X (held (handle x) @ held h) n1" by (rule balanced_open [OF o m])
  have "h \<noteq> 0 \<Longrightarrow> h \<noteq> handle x" using open_fresh [OF assms(1) o m] by (auto simp: held_def)
  then show ?thesis using b balanced_close_handle [of X "handle x" "held h" n1 env]
    by (auto simp: reopen_eq clear_eq s m handle_put)
qed

end

section \<open>Events and process mutexes\<close>

interpretation event: handle_cell ev_hEvent "\<lambda>h e. e\<lparr>ev_hEvent := h\<rparr>" KEvent CEvent_Clear
  "\<lambda>a. [of_bool (fst a), of_bool (snd a)]" "\<lambda>env a. CEvent_Create env (fst a) (snd a)"
  "\<lambda>env p. CEvent_Open env (fst p) (snd p)"
  by unfold_locales (auto simp: CEvent_Clear_def CEvent_Create_def CEvent_Open_def Let_def split: prod.splits)

interpretation pmutex: handle_cell pm_hMutex "\<lambda>h m. m\<lparr>pm_hMutex := h\<rparr>" KMutex CProcessMutex_Clear
  "\<lambda>a. [of_bool a]" CProcessMutex_Create "\<lambda>env p. CProcessMutex_Open env (fst p) (snd p)"
  by unfold_locales
    (auto simp: CProcessMutex_Clear_def CProcessMutex_Create_def CProcessMutex_Open_def Let_def split: prod.splits)

datatype event_op = EvCreate bool bool | EvOpen int bool | EvClear | EvSet | EvReset | EvPulse
  | EvWait int | EvLock | EvLockFor int | EvUnLock

fun event_step :: "env \<Rightarrow> event_op \<Rightarrow> CEvent with_net \<Rightarrow> CEvent with_net" where
  "event_step env (EvCreate m i) s = snd (CEvent_Create env m i s)"
| "event_step env (EvOpen a i) s = snd (CEvent_Open env a i s)"
| "event_step env EvClear s = snd (CEvent_Clear env s)"
| "event_step env EvSet s = snd (CEvent_Signal env s)"
| "event_step env EvReset s = snd (CEvent_Reset env s)"
| "event_step env EvPulse s = snd (CEvent_Pulse env s)"
| "event_step env (EvWait t) s = snd (CEvent_Wait env t s)"
| "event_step env EvLock s = snd (CEvent_Lock env s)"
| "event_step env (EvLockFor t) s = snd (CEvent_Lock_timeout env t s)"
| "event_step env EvUnLock s = snd (CEvent_UnLock env s)"

definition event_owned :: "CEvent \<Rightarrow> int list" where
  "event_owned e = held (ev_hEvent e)"

lemma event_calls:
  assumes "x \<in> {EvSet, EvReset, EvPulse, EvWait t, EvLock, EvLockFor t, EvUnLock}"
  shows "fst (event_step env x s) = fst s \<and> balanced X own (snd (event_step env x s)) = balanced X own (snd s)"
  using assms by (cases s) (auto simp: CEvent_Signal_def CEvent_Reset_def CEvent_Pulse_def CEvent_op_def CEvent_Wait_def
      CEvent_Lock_def CEvent_Lock_timeout_def CEvent_UnLock_def case_prod_unfold Let_def)

interpretation events: handle_owner event_step event_owned CEvent_delete
proof
  fix env X x and s :: "CEvent with_net"
  assume a: "fresh_handles env" "balanced X (event_owned (fst s)) (snd s)"
  then show "balanced X (event_owned (fst (event_step env x s))) (snd (event_step env x s))"
    using event.clear_balanced [of X s env] event.create_balanced [of X s env]
      event.reopen_balanced [of env X s] event_calls [of x _ env s X]
    by (cases x) (auto simp: event_owned_def)
next
  fix env X and s :: "CEvent with_net"
  assume "balanced X (event_owned (fst s)) (snd s)"
  then show "balanced X [] (snd (CEvent_delete env s))"
    using event.clear_balanced by (simp add: event_owned_def CEvent_delete_def)
qed

datatype pmutex_op = PmCreate bool | PmOpen int bool | PmClear | PmRelease | PmWait int | PmLock
  | PmLockFor int | PmUnLock

fun pmutex_step :: "env \<Rightarrow> pmutex_op \<Rightarrow> CProcessMutex with_net \<Rightarrow> CProcessMutex with_net" where
  "pmutex_step env (PmCreate b) s = snd (CProcessMutex_Create env b s)"
| "pmutex_step env (PmOpen a i) s = snd (CProcessMutex_Open env a i s)"
| "pmutex_step env PmClear s = snd (CProcessMutex_Clear env s)"
| "pmutex_step env PmRelease s = snd (CProcessMutex_Release env s)"
| "pmutex_step env (PmWait t) s = snd (CProcessMutex_Wait env t s)"
| "pmutex_step env PmLock s = snd (CProcessMutex_Lock env s)"
| "pmutex_step env (PmLockFor t) s = snd (CProcessMutex_Lock_timeout env t s)"
| "pmutex_step env PmUnLock s = snd (CProcessMutex_UnLock s)"

definition pmutex_owned :: "CProcessMutex \<Rightarrow> int list" where
  "pmutex_owned m = held (pm_hMutex m)"

lemma pmutex_calls:
  assumes "x \<in> {PmRelease, PmWait t, PmLock, PmLockFor t, PmUnLock}"
  shows "fst (pmutex_step env x s) = fst s \<and> balanced X own (snd (pmutex_step env x s)) = balanced X own (snd s)"
  using assms by (cases s) (auto simp: CProcessMutex_Release_def CProcessMutex_Wait_def CProcessMutex_Lock_def
      CProcessMutex_Lock_timeout_def CProcessMutex_UnLock_def case_prod_unfold Let_def)

interpretation pmutexes: handle_owner pmutex_step pmutex_owned CProcessMutex_delete
proof
  fix env X x and s :: "CProcessMutex with_net"
  assume "fresh_handles env" "balanced X (pmutex_owned (fst s)) (snd s)"
  then show "balanced X (pmutex_owned (fst (pmutex_step env x s))) (snd (pmutex_step env x s))"
    using pmutex.clear_balanced [of X s env] pmutex.create_balanced [of X s env]
      pmutex.reopen_balanced [of env X s] pmutex_calls [of x _ env s X]
    by (cases x) (auto simp: pmutex_owned_def)
next
  fix env X and s :: "CProcessMutex with_net"
  assume "balanced X (pmutex_owned (fst s)) (snd s)"
  then show "balanced X [] (snd (CProcessMutex_delete env s))"
    using pmutex.clear_balanced by (simp add: pmutex_owned_def CProcessMutex_delete_def)
qed

section \<open>Threads\<close>

datatype thread_op = ThStart addr addr bool int | ThStartAgain | ThResume | ThSuspend | ThStop int
  | ThKill | ThClear | ThPriority int | ThGetPriority

fun thread_step :: "env \<Rightarrow> thread_op \<Rightarrow> CThread with_net \<Rightarrow> CThread with_net" where
  "thread_step env (ThStart p a b k) s = snd (CThread_Start env p a b k s)"
| "thread_step env ThStartAgain s = snd (CThread_Start0 env s)"
| "thread_step env ThResume s = snd (CThread_Resume env s)"
| "thread_step env ThSuspend s = snd (CThread_Suspend env s)"
| "thread_step env (ThStop t) s = snd (CThread_Stop env t s)"
| "thread_step env ThKill s = snd (CThread_Kill env s)"
| "thread_step env ThClear s = snd (CThread_Clear env s)"
| "thread_step env (ThPriority k) s = snd (CThread_SetPriority env k s)"
| "thread_step env ThGetPriority s = snd (CThread_GetPriority env s)"

definition thread_owned :: "CThread \<Rightarrow> int list" where
  "thread_owned t = held (th_hThread t)"

lemma thread_calls:
  assumes "x \<in> {ThResume, ThSuspend, ThStop t, ThKill, ThPriority k, ThGetPriority}"
  shows "th_hThread (fst (thread_step env x s)) = th_hThread (fst s) \<and>
    balanced X own (snd (thread_step env x s)) = balanced X own (snd s)"
  using assms by (cases s) (auto simp: CThread_Resume_def CThread_Suspend_def CThread_Stop_def CThread_Kill_def
      CThread_SetPriority_def CThread_GetPriority_def case_prod_unfold Let_def split: if_splits)

lemma thread_clear:
  assumes "CThread_Clear env s = (b, t, n)" "balanced X (thread_owned (fst s)) (snd s)"
  shows "th_hThread t = 0" "balanced X [] n"
  using assms thread_calls [of ThKill _ _ env s X "thread_owned (fst s)"] balanced_close_handle [of X "th_hThread (fst s)" "[]" _ env]
  by (auto simp: CThread_Clear_def thread_owned_def case_prod_unfold split: if_splits)

lemma thread_begin:
  assumes "CThread_Clear env s = (b, t, n)" "balanced X (thread_owned (fst s)) (snd s)" "begin_thread env p a f n = (h, n')"
  shows "balanced X (held h) n'"
  using balanced_create [OF thread_clear(2) [OF assms(1,2)] assms(3) [unfolded begin_thread_def]] by simp

lemma thread_start:
  assumes "balanced X (thread_owned (fst s)) (snd s)"
  shows "balanced X (thread_owned (fst (snd (CThread_Start env p a f k s)))) (snd (snd (CThread_Start env p a f k s)))"
proof -
  obtain b t n where c: "CThread_Clear env s = (b, t, n)" by (cases "CThread_Clear env s")
  obtain h n' where m: "begin_thread env p a f n = (h, n')" by (cases "begin_thread env p a f n")
  show ?thesis using thread_begin [OF c assms m]
    by (cases "h = 0") (simp_all add: CThread_Start_def c m Let_def thread_owned_def CThread_SetPriority_def case_prod_unfold)
qed

lemma thread_start_again:
  assumes "balanced X (thread_owned (fst s)) (snd s)"
  shows "balanced X (thread_owned (fst (snd (CThread_Start0 env s)))) (snd (snd (CThread_Start0 env s)))"
proof -
  obtain b t n where c: "CThread_Clear env s = (b, t, n)" by (cases "CThread_Clear env s")
  obtain h n' where m: "begin_thread env (th_threadProc t) (th_pParameter t) False n = (h, n')"
    by (cases "begin_thread env (th_threadProc t) (th_pParameter t) False n")
  show ?thesis using thread_begin [OF c assms m]
    by (cases "h = 0") (simp_all add: CThread_Start0_def c m Let_def thread_owned_def)
qed

interpretation threads: handle_owner thread_step thread_owned CThread_delete
proof
  fix env X x and s :: "CThread with_net"
  assume a: "fresh_handles env" "balanced X (thread_owned (fst s)) (snd s)"
  have "balanced X (thread_owned (fst (snd (CThread_Clear env s)))) (snd (snd (CThread_Clear env s)))"
    using thread_clear [OF _ a(2), of env] by (cases "CThread_Clear env s") (simp add: thread_owned_def)
  then show "balanced X (thread_owned (fst (thread_step env x s))) (snd (thread_step env x s))"
    using a(2) thread_start [OF a(2), of env] thread_start_again [OF a(2), of env] thread_calls [of x _ _ env s X]
    by (cases x) (auto simp: thread_owned_def)
next
  fix env X and s :: "CThread with_net"
  assume "balanced X (thread_owned (fst s)) (snd s)"
  then show "balanced X [] (snd (CThread_delete env s))"
    using thread_clear [of env s] by (cases "CThread_Clear env s") (simp add: CThread_delete_def)
qed

section \<open>Thread groups\<close>

datatype group_op = GrStart addr addr int int | GrStartAgain int | GrStop int | GrKill | GrClear
  | GrAdd int | GrRemove int | GrResume | GrSuspend

fun group_step :: "env \<Rightarrow> group_op \<Rightarrow> CThreadGroup with_net \<Rightarrow> CThreadGroup with_net" where
  "group_step env (GrStart p a c k) s = snd (CThreadGroup_Start env p a c k s)"
| "group_step env (GrStartAgain c) s = snd (CThreadGroup_Start_again env c s)"
| "group_step env (GrStop t) s = snd (CThreadGroup_Stop env t s)"
| "group_step env GrKill s = snd (CThreadGroup_Kill env s)"
| "group_step env GrClear s = snd (CThreadGroup_Clear env s)"
| "group_step env (GrAdd c) s = snd (CThreadGroup_AddThread env c s)"
| "group_step env (GrRemove c) s = snd (CThreadGroup_RemoveThread env c s)"
| "group_step env GrResume s = snd (CThreadGroup_Resume env s)"
| "group_step env GrSuspend s = snd (CThreadGroup_Suspend env s)"

lemma terminate_balanced: "balanced X (hs @ own) n \<Longrightarrow> balanced X own (terminate_threads env hs n)"
  by (induction hs arbitrary: n) (simp_all add: Let_def)

lemma each_balanced [simp]:
  "k \<noteq> DeleteTimerQueueEx \<Longrightarrow> balanced X own (each_thread env k hs n) = balanced X own n"
  by (induction hs arbitrary: n) simp_all

lemma wait_balanced [simp]: "balanced X own (wait_threads env hs t n) = balanced X own n"
  by (induction hs arbitrary: n) simp_all

lemma begin_balanced:
  "balanced X own n \<Longrightarrow> begin_thread env p a f n = (h, n') \<Longrightarrow> balanced X (own @ held h) n'"
  unfolding begin_thread_def by (rule balanced_create)

lemma start_balanced:
  "balanced X (tg_vecThreads (fst s)) (snd s) \<Longrightarrow>
   balanced X (tg_vecThreads (fst (snd (start_threads env p a k c s)))) (snd (snd (start_threads env p a k c s)))"
proof (induction c arbitrary: s)
  case (Suc c)
  obtain g n where s: "s = (g, n)" by (cases s)
  obtain h n' where m: "begin_thread env p a False n = (h, n')" by (cases "begin_thread env p a False n")
  have "balanced X (tg_vecThreads g @ held h) n'" using begin_balanced [OF _ m] Suc.prems by (simp add: s)
  then show ?case using Suc.IH by (auto simp: s m Let_def split: option.split)
qed simp

lemma add_balanced:
  "balanced X (tg_vecThreads (fst s)) (snd s) \<Longrightarrow>
   balanced X (tg_vecThreads (fst (snd (add_threads env c s)))) (snd (snd (add_threads env c s)))"
proof (induction c arbitrary: s)
  case (Suc c)
  obtain g n where s: "s = (g, n)" by (cases s)
  obtain h n' where m: "begin_thread env (tg_threadProc g) (tg_pParameter g) False n = (h, n')"
    by (cases "begin_thread env (tg_threadProc g) (tg_pParameter g) False n")
  have "balanced X (tg_vecThreads g @ held h) n'" using begin_balanced [OF _ m] Suc.prems by (simp add: s)
  then show ?case using Suc.IH by (auto simp: s m Let_def case_prod_unfold)
qed simp

lemma pop_balanced:
  "balanced X (tg_vecThreads (fst s)) (snd s) \<Longrightarrow> c \<le> length (tg_vecThreads (fst s)) \<Longrightarrow>
   balanced X (tg_vecThreads (fst (pop_threads env c s))) (snd (pop_threads env c s))"
proof (induction c arbitrary: s)
  case (Suc c)
  obtain g n where s: "s = (g, n)" by (cases s)
  let ?v = "tg_vecThreads g"
  have "?v \<noteq> []" using Suc.prems(2) by (auto simp: s)
  then have "mset ?v = mset (last ?v # butlast ?v)"
    by (metis append_butlast_last_id mset.simps(2) mset_append add_mset_add_single mset.simps(1) union_commute)
  then have "balanced X (last ?v # butlast ?v) n" using Suc.prems(1) by (simp add: s balanced_def)
  then show ?case using Suc.IH Suc.prems(2) by (simp add: s Let_def)
qed simp

lemma group_clear:
  assumes "balanced X (tg_vecThreads (fst s)) (snd s)"
  shows "tg_vecThreads (fst (snd (CThreadGroup_Clear env s))) = []" "balanced X [] (snd (snd (CThreadGroup_Clear env s)))"
  using assms terminate_balanced [of X "tg_vecThreads (fst s)" "[]"] by (simp_all add: CThreadGroup_Clear_def case_prod_unfold)

interpretation groups: handle_owner group_step tg_vecThreads CThreadGroup_delete
proof
  fix env X x and s :: "CThreadGroup with_net"
  assume a: "fresh_handles env" "balanced X (tg_vecThreads (fst s)) (snd s)"
  note c = group_clear [OF a(2), of env]
  have st: "balanced X (tg_vecThreads (fst (snd (start_threads env p q k m (snd (CThreadGroup_Clear env s))))))
     (snd (snd (start_threads env p q k m (snd (CThreadGroup_Clear env s)))))" for p q k m
    by (rule start_balanced) (use c in simp)
  show "balanced X (tg_vecThreads (fst (group_step env x s))) (snd (group_step env x s))"
    using a(2) c st add_balanced [OF a(2), of env] pop_balanced [OF a(2), of _ env]
    by (cases x) (auto simp: CThreadGroup_Start_def CThreadGroup_Start_again_def CThreadGroup_Stop_def
      CThreadGroup_Kill_def CThreadGroup_AddThread_def CThreadGroup_RemoveThread_def CThreadGroup_GetThreadCount_def
      CThreadGroup_Resume_def CThreadGroup_Suspend_def case_prod_unfold Let_def)
next
  fix env X and s :: "CThreadGroup with_net"
  assume "balanced X (tg_vecThreads (fst s)) (snd s)"
  then show "balanced X [] (snd (CThreadGroup_delete env s))"
    using group_clear by (simp add: CThreadGroup_delete_def)
qed

section \<open>The properties\<close>

text \<open>
  C22. Handles are closed exactly once. Start with a new event, process mutex, thread or thread
  group while the handles \<open>X\<close> are open in the process. After any sequence of operations on it,
  failed ones included, the open handles are \<open>X\<close> and those that the object holds, and after its
  destructor they are \<open>X\<close> again. The system is only assumed not to hand out a handle that is
  still open.
\<close>

theorem sync_handles_closed:
  assumes "fresh_handles env" "balanced X [] n"
  shows "(case fold (event_step env) es (CEvent_new, n) of (e, n') \<Rightarrow> balanced X (held (ev_hEvent e)) n') \<and>
    balanced X [] (snd (CEvent_delete env (fold (event_step env) es (CEvent_new, n)))) \<and>
    (case fold (pmutex_step env) ms (CProcessMutex_new, n) of (m, n') \<Rightarrow> balanced X (held (pm_hMutex m)) n') \<and>
    balanced X [] (snd (CProcessMutex_delete env (fold (pmutex_step env) ms (CProcessMutex_new, n)))) \<and>
    (case fold (thread_step env) ts (CThread_new j j', n) of (t, n') \<Rightarrow> balanced X (held (th_hThread t)) n') \<and>
    balanced X [] (snd (CThread_delete env (fold (thread_step env) ts (CThread_new j j', n)))) \<and>
    (case fold (group_step env) gs (CThreadGroup_new, n) of (g, n') \<Rightarrow> balanced X (tg_vecThreads g) n') \<and>
    balanced X [] (snd (CThreadGroup_delete env (fold (group_step env) gs (CThreadGroup_new, n))))"
proof -
  have o: "event_owned CEvent_new = []" "pmutex_owned CProcessMutex_new = []" "thread_owned (CThread_new j j') = []"
    "tg_vecThreads CThreadGroup_new = []"
    by (simp_all add: event_owned_def CEvent_new_def pmutex_owned_def CProcessMutex_new_def thread_owned_def
      CThread_new_def CThreadGroup_new_def)
  note run = events.run_balanced [of env X "(CEvent_new, n)" es] pmutexes.run_balanced [of env X "(CProcessMutex_new, n)" ms]
    threads.run_balanced [of env X "(CThread_new j j', n)" ts] groups.run_balanced [of env X "(CThreadGroup_new, n)" gs]
  note all = events.all_closed [of env CEvent_new X n es] pmutexes.all_closed [of env CProcessMutex_new X n ms]
    threads.all_closed [of env "CThread_new j j'" X n ts] groups.all_closed [of env CThreadGroup_new X n gs]
  show ?thesis using run all assms o
    by (simp add: case_prod_unfold events.run_def pmutexes.run_def threads.run_def groups.run_def
      event_owned_def pmutex_owned_def thread_owned_def)
qed

text \<open>A system whose handles are larger than every answer so far.\<close>

fun ret_abs :: "api_ret \<Rightarrow> int" where
  "ret_abs (Ok v) = abs v"
| "ret_abs (Err e) = 0"

definition handle_env :: env where
  "handle_env t c = Ok (1 + (\<Sum>x\<leftarrow>t. ret_abs (snd x)))"

lemma ret_abs_nonneg: "0 \<le> ret_abs r"
  by (cases r) simp_all

lemma made_small: "h \<in># made t \<Longrightarrow> h \<le> (\<Sum>x\<leftarrow>t. ret_abs (snd x))"
proof (induction t)
  case (Cons x t)
  have pos: "0 \<le> (\<Sum>y\<leftarrow>t. ret_abs (snd y))" "0 \<le> ret_abs (snd x)"
    using ret_abs_nonneg by (auto intro!: sum_list_nonneg)
  have "h \<in> set (makes_handle x) \<or> h \<in># made t" using Cons.prems by (auto simp: made_def)
  moreover have "h \<le> ret_abs (snd x)" if "h \<in> set (makes_handle x)"
    using that by (cases x rule: makes_handle.cases) (auto split: if_splits)
  ultimately show ?case using Cons.IH pos by fastforce
qed (simp add: made_def)

lemma handle_env_fresh: "fresh_handles handle_env"
proof -
  have "h \<notin># made t" if "makes_handle (c, handle_env t c) = [h]" for t c h
  proof -
    have "h = 1 + (\<Sum>x\<leftarrow>t. ret_abs (snd x))"
      using that by (cases c) (auto simp: handle_env_def split: if_splits)
    then show ?thesis using made_small by fastforce
  qed
  then show ?thesis by (auto simp: fresh_handles_def dest: in_diffD)
qed

lemma sync_handles_closed_witness:
  "balanced {#} [] (snd (CThreadGroup_delete handle_env (fold (group_step handle_env)
     [GrStart 5 0 3 0, GrRemove 1, GrAdd 2, GrStop 100] (CThreadGroup_new, net0))))"
  using sync_handles_closed [of handle_env "{#}" net0 "[EvCreate True False]" "[PmCreate True]"
      "[ThStart 5 0 False 0]" 0 0 "[GrStart 5 0 3 0, GrRemove 1, GrAdd 2, GrStop 100]"] handle_env_fresh
  by (simp only: balanced_def net0_def made_def closed_def net.simps list.map concat.simps mset.simps
    add_0 simp_thms)

text \<open>
  C23. Where the classes break that contract. \<open>CSemaphore::Create\<close> on a semaphore that holds a
  handle leaves it open for good. A process mutex made by the constructor with an owner closes
  whatever its uninitialised member held. And a guard on a process mutex never releases it: the
  block is the lock and the body, while on a thread mutex it ends with leaving the critical
  section.
\<close>

theorem sync_object_faults:
  assumes "h \<noteq> 0" "balanced X [h] n" "junk \<noteq> 0"
  shows "balanced (add_mset h X) [] (snd (CSemaphore_delete env (snd (CSemaphore_Create env i k (\<lparr>sem_hSemaphore = h\<rparr>, n))))) \<and>
    closed (n_trace (snd (CProcessMutex_new_owner env junk own n))) = add_mset junk (closed (n_trace n)) \<and>
    snd (CGuard_block (CProcessMutex_Lock env) CProcessMutex_UnLock body m) = snd (body (snd (CProcessMutex_Lock env m))) \<and>
    (\<exists>r. n_trace (snd (snd (CGuard_block (CThreadMutex_Lock env) (CThreadMutex_UnLock env) body' c))) =
       n_trace (snd (snd (body' (snd (CThreadMutex_Lock env c))))) @
       [(CriticalSection LeaveCS (cs_mtx (fst (snd (body' (snd (CThreadMutex_Lock env c)))))), r)])"
proof (intro conjI)
  have b: "balanced (add_mset h X) [] n" using assms(2) by (simp add: balanced_def)
  obtain q n1 where m: "make_handle env (CreateObject KSemaphore [i, k]) n = (q, n1)"
    by (cases "make_handle env (CreateObject KSemaphore [i, k]) n")
  show "balanced (add_mset h X) [] (snd (CSemaphore_delete env (snd (CSemaphore_Create env i k (\<lparr>sem_hSemaphore = h\<rparr>, n)))))"
    using balanced_create [OF b m] balanced_close_handle [of "add_mset h X" q "[]" n1 env]
    by (auto simp: CSemaphore_Create_def m CSemaphore_delete_def CSemaphore_Clear_def)
  show "closed (n_trace (snd (CProcessMutex_new_owner env junk own n))) = add_mset junk (closed (n_trace n))"
    using assms(3) by (simp add: CProcessMutex_new_owner_def CProcessMutex_Create_def CProcessMutex_Clear_def
      close_handle_def make_handle_def case_prod_unfold Let_def sys_def closed_def)
qed (simp_all add: CGuard_block_def CProcessMutex_UnLock_def CThreadMutex_UnLock_def case_prod_unfold Let_def sys_def)

lemma sync_object_faults_witness:
  "balanced {#7#} [] (snd (CSemaphore_delete handle_env (snd (CSemaphore_Create handle_env 1 1 (\<lparr>sem_hSemaphore = 7\<rparr>,
     net0\<lparr>n_trace := [(CreateObject KSemaphore [0, 1], Ok 7)]\<rparr>)))))"
proof -
  have "balanced {#} [7] (net0\<lparr>n_trace := [(CreateObject KSemaphore [0, 1], Ok 7)]\<rparr>)"
    by (simp add: balanced_def made_def closed_def)
  then show ?thesis by (intro conjunct1 [OF sync_object_faults [where junk = 5]]) simp_all
qed

end
