(* ===== verification/Runner.thy ===== *)
theory Runner
  imports ThreadGroup SocketSource
begin

text \<open>
  The runners of SocketRunner.h, TcpRunner.cpp and UdpRunner.cpp: a completion port and a group of
  worker threads, each of which takes completions from the port and calls the source that they
  belong to. A source is the table of its virtual functions, a record \<open>source_if\<close>; the
  application's \<open>OnRecv\<close> is one of them, and may itself use the source.
\<close>

section \<open>CSocketRunner\<close>

record CSocketRunner =
  rn_this :: addr
  rn_hCompletionPort :: int
  rn_dwConcurrencyThreadNum :: u32
  rn_dwWorkThreadNum :: u32
  rn_threadGroup :: CThreadGroup

text \<open>The answer of \<open>GetSystemInfo\<close> is the number of processors.\<close>

definition CSocketRunner_new :: "env \<Rightarrow> addr \<Rightarrow> net \<Rightarrow> CSocketRunner with_net" where
  "CSocketRunner_new env this n =
     (let (r, n1) = sys env GetSystemInfo n; cpus = (case r of Ok v \<Rightarrow> of_int v | Err e \<Rightarrow> 0)
      in (\<lparr>rn_this = this, rn_hCompletionPort = 0, rn_dwConcurrencyThreadNum = 0,
           rn_dwWorkThreadNum = cpus * 2 + 2, rn_threadGroup = CThreadGroup_new\<rparr>, n1))"

definition CSocketRunner_AssociateSocket :: "env \<Rightarrow> int \<Rightarrow> addr \<Rightarrow> CSocketRunner with_net \<Rightarrow> bool \<times> CSocketRunner with_net" where
  "CSocketRunner_AssociateSocket env hSocket pPerHandle s =
     (case s of (rn, n) \<Rightarrow>
        let (h, n1) = make_handle env (CreateIoCompletionPort hSocket (rn_hCompletionPort rn) pPerHandle
                        (uint (rn_dwConcurrencyThreadNum rn))) n
        in (h \<noteq> 0, rn, n1))"

definition CSocketRunner_GetWorkThreadNum :: "CSocketRunner \<Rightarrow> u32" where
  "CSocketRunner_GetWorkThreadNum rn = rn_dwWorkThreadNum rn"

section \<open>Opening and closing\<close>

text \<open>The same code in both runners, but for the procedure that the threads run. The size that
  is posted to end a thread is -1; the timeout of \<open>Stop\<close> is \<open>WAIT_TIMEOUT\<close> (258).\<close>

fun post_stops :: "env \<Rightarrow> int \<Rightarrow> nat \<Rightarrow> net \<Rightarrow> net" where
  "post_stops env port 0 n = n"
| "post_stops env port (Suc i) n = post_stops env port i (snd (sys env (PostQueuedCompletionStatus port (-1) (-1)) n))"

definition runner_Close :: "env \<Rightarrow> CSocketRunner with_net \<Rightarrow> bool \<times> CSocketRunner with_net" where
  "runner_Close env s =
     (case s of (rn, n) \<Rightarrow>
        if rn_hCompletionPort rn = 0 then (False, rn, n)
        else let n1 = post_stops env (rn_hCompletionPort rn) (unat (rn_dwWorkThreadNum rn)) n;
                 n2 = snd (sys env (CloseHandle (rn_hCompletionPort rn)) n1);
                 s3 = snd (CThreadGroup_Stop env 258 (rn_threadGroup rn, n2));
                 (b, g, n4) = CThreadGroup_Kill env s3
             in (True, rn\<lparr>rn_hCompletionPort := 0, rn_threadGroup := g\<rparr>, n4))"

text \<open>A failure of \<open>CreateIoCompletionPort\<close> is NULL, but compared is \<open>INVALID_HANDLE_VALUE\<close>.\<close>

definition INVALID_HANDLE_VALUE :: int where "INVALID_HANDLE_VALUE = -1"

definition runner_Open :: "addr \<Rightarrow> env \<Rightarrow> u32 \<Rightarrow> u32 \<Rightarrow> CSocketRunner with_net \<Rightarrow> bool \<times> CSocketRunner with_net" where
  "runner_Open run env nConcurrencyThreadNum nWorkThreadNum s =
     (case runner_Close env s of (b, rn, n) \<Rightarrow>
        let rn1 = (if nWorkThreadNum > 0 then rn\<lparr>rn_dwWorkThreadNum := nWorkThreadNum\<rparr> else rn);
            rn2 = rn1\<lparr>rn_dwConcurrencyThreadNum :=
                        if nConcurrencyThreadNum \<le> nWorkThreadNum then nConcurrencyThreadNum else 0\<rparr>;
            (h, n1) = make_handle env (CreateIoCompletionPort INVALID_HANDLE_VALUE 0 0
                        (uint (rn_dwConcurrencyThreadNum rn2))) n;
            rn3 = rn2\<lparr>rn_hCompletionPort := h\<rparr>
        in if h = INVALID_HANDLE_VALUE then (False, rn3, n1)
           else let (c, g, n2) = CThreadGroup_Start env run (rn_this rn3) (sint (rn_dwWorkThreadNum rn3)) 0
                                   (rn_threadGroup rn3, n1)
                in (True, rn3\<lparr>rn_threadGroup := g\<rparr>, n2))"

definition CTcpRunner_Close :: "env \<Rightarrow> CSocketRunner with_net \<Rightarrow> bool \<times> CSocketRunner with_net" where
  "CTcpRunner_Close = runner_Close"

definition CTcpRunner_Open :: "addr \<Rightarrow> env \<Rightarrow> u32 \<Rightarrow> u32 \<Rightarrow> CSocketRunner with_net \<Rightarrow> bool \<times> CSocketRunner with_net" where
  "CTcpRunner_Open = runner_Open"

definition CTcpRunner_delete :: "env \<Rightarrow> CSocketRunner with_net \<Rightarrow> CSocketRunner with_net" where
  "CTcpRunner_delete env s = (case snd (CTcpRunner_Close env s) of (rn, n) \<Rightarrow>
     (case CThreadGroup_delete env (rn_threadGroup rn, n) of (g, n1) \<Rightarrow> (rn\<lparr>rn_threadGroup := g\<rparr>, n1)))"

definition CUdpRunner_Close :: "env \<Rightarrow> CSocketRunner with_net \<Rightarrow> bool \<times> CSocketRunner with_net" where
  "CUdpRunner_Close = runner_Close"

definition CUdpRunner_Open :: "addr \<Rightarrow> env \<Rightarrow> u32 \<Rightarrow> u32 \<Rightarrow> CSocketRunner with_net \<Rightarrow> bool \<times> CSocketRunner with_net" where
  "CUdpRunner_Open = runner_Open"

definition CUdpRunner_delete :: "env \<Rightarrow> CSocketRunner with_net \<Rightarrow> CSocketRunner with_net" where
  "CUdpRunner_delete env s = (case snd (CUdpRunner_Close env s) of (rn, n) \<Rightarrow>
     (case CThreadGroup_delete env (rn_threadGroup rn, n) of (g, n1) \<Rightarrow> (rn\<lparr>rn_threadGroup := g\<rparr>, n1)))"

section \<open>Completions and sources\<close>

text \<open>What \<open>GetQueuedCompletionStatus\<close> returns; \<open>cp_from\<close> is the address that the system has
  stored in the receive structure of a UDP source.\<close>

record completion =
  cp_bSuccess :: bool
  cp_nByteTransferred :: u32
  cp_pPerHandle :: addr
  cp_pPerIoData :: addr
  cp_from :: "byte list"

text \<open>A source with state \<open>'s\<close>: reading the two structures, the data in a buffer, the callback,
  and the virtual functions.\<close>

record 's source_if =
  si_handle :: "addr \<Rightarrow> 's \<Rightarrow> cerror + PER_HANDLE_DATA"
  si_io :: "addr \<Rightarrow> 's \<Rightarrow> cerror + PER_IO_OPERATION_DATA"
  si_data :: "addr \<Rightarrow> nat \<Rightarrow> 's \<Rightarrow> byte list"
  si_OnRecv :: "int \<Rightarrow> addr \<Rightarrow> byte list \<Rightarrow> byte list \<Rightarrow> 's \<Rightarrow> cerror + int \<times> 's"
  si_PostRecv :: "int \<Rightarrow> addr \<Rightarrow> 's \<Rightarrow> cerror + bool \<times> 's"
  si_PostSend :: "addr \<Rightarrow> 's \<Rightarrow> cerror + bool \<times> 's"
  si_Disconnect :: "int \<Rightarrow> 's \<Rightarrow> cerror + bool \<times> 's"

section \<open>The worker threads\<close>

text \<open>One turn of the loop of \<open>CTcpRunner::Run\<close>: the value that the thread returns, if it ends.\<close>

definition tcp_turn :: "'s source_if \<Rightarrow> completion \<Rightarrow> 's \<Rightarrow> cerror + int option \<times> 's" where
  "tcp_turn si c s =
     (if cp_nByteTransferred c = -1 then Inr (Some 1, s)
      else if cp_nByteTransferred c = 0
      then if cp_pPerHandle c \<noteq> NULL
           then rbind (si_handle si (cp_pPerHandle c) s) (\<lambda>ph.
                rbind (si_Disconnect si (ph_hSocket ph) s) (\<lambda>(b, s1). Inr (None, s1)))
           else Inr (None, s)
      else if \<not> cp_bSuccess c \<or> cp_pPerIoData c = NULL \<or> cp_pPerHandle c = NULL then Inr (None, s)
      else rbind (si_io si (cp_pPerIoData c) s) (\<lambda>io.
        if io_OperType io = RECV_POSTED
        then rbind (si_handle si (cp_pPerHandle c) s) (\<lambda>ph.
             rbind (si_OnRecv si (ph_hSocket ph) (ph_pAttachInfo ph)
                      (si_data si (io_szBuffer io) (unat (cp_nByteTransferred c)) s) [] s) (\<lambda>(nRet, s1).
             if nRet \<ge> 0
             then rbind (si_handle si (cp_pPerHandle c) s1) (\<lambda>ph1.
                  rbind (si_PostRecv si (ph_hSocket ph1) (cp_pPerIoData c) s1) (\<lambda>(b, s2). Inr (None, s2)))
             else Inr (None, s1)))
        else if io_OperType io = SEND_POSTED
        then rbind (si_handle si (cp_pPerHandle c) s) (\<lambda>ph.
             rbind (si_PostSend si (cp_pPerIoData c) s) (\<lambda>(b, s1). Inr (None, s1)))
        else Inr (None, s)))"

text \<open>\<open>Run\<close> on the completions that a thread is given: \<open>None\<close> while it waits for the next.\<close>

fun CTcpRunner_Run :: "'s source_if \<Rightarrow> completion list \<Rightarrow> 's \<Rightarrow> cerror + int option \<times> 's" where
  "CTcpRunner_Run si [] s = Inr (None, s)"
| "CTcpRunner_Run si (c # cs) s =
     rbind (tcp_turn si c s) (\<lambda>(e, s1). if e \<noteq> None then Inr (e, s1) else CTcpRunner_Run si cs s1)"

text \<open>\<open>CUdpRunner::Run\<close>: an empty datagram is passed over like an error, the success flag is not
  looked at, and the result of the callback neither.\<close>

definition udp_turn :: "'s source_if \<Rightarrow> completion \<Rightarrow> 's \<Rightarrow> cerror + int option \<times> 's" where
  "udp_turn si c s =
     (if cp_nByteTransferred c = -1 then Inr (Some 1, s)
      else if cp_pPerIoData c = NULL \<or> cp_pPerHandle c = NULL \<or> cp_nByteTransferred c = 0 then Inr (None, s)
      else rbind (si_io si (cp_pPerIoData c) s) (\<lambda>io.
        if io_OperType io = RECV_POSTED
        then rbind (si_handle si (cp_pPerHandle c) s) (\<lambda>ph.
             rbind (si_OnRecv si 0 NULL
                      (si_data si (io_szBuffer io) (unat (cp_nByteTransferred c)) s) (cp_from c) s) (\<lambda>(nRet, s1).
             rbind (si_PostRecv si 0 (cp_pPerIoData c) s1) (\<lambda>(b, s2). Inr (None, s2))))
        else if io_OperType io = SEND_POSTED
        then rbind (si_handle si (cp_pPerHandle c) s) (\<lambda>ph.
             rbind (si_PostSend si (cp_pPerIoData c) s) (\<lambda>(b, s1). Inr (None, s1)))
        else Inr (None, s)))"

fun CUdpRunner_Run :: "'s source_if \<Rightarrow> completion list \<Rightarrow> 's \<Rightarrow> cerror + int option \<times> 's" where
  "CUdpRunner_Run si [] s = Inr (None, s)"
| "CUdpRunner_Run si (c # cs) s =
     rbind (udp_turn si c s) (\<lambda>(e, s1). if e \<noteq> None then Inr (e, s1) else CUdpRunner_Run si cs s1)"

end
