(* ===== verification/RunnerProps.thy ===== *)
theory RunnerProps
  imports Runner TcpServerProps TcpClientProps UdpSourceProps SyncProps
begin

text \<open>
  The runners with the sources: what a worker thread does with the completions of a server, of a
  client and of a UDP source.
\<close>

section \<open>The server under the runner\<close>

text \<open>The virtual functions of \<open>CTcpServer\<close>; \<open>app\<close> is the application's \<open>OnRecv\<close>.\<close>

type_synonym 's on_recv = "int \<Rightarrow> addr \<Rightarrow> byte list \<Rightarrow> byte list \<Rightarrow> 's \<Rightarrow> cerror + int \<times> 's"

definition server_io :: "addr \<Rightarrow> sv_state \<Rightarrow> cerror + PER_IO_OPERATION_DATA" where
  "server_io p s =
     (case n_io (snd s) p of
        Some io \<Rightarrow> Inr io
      | None \<Rightarrow> rbind (get_sess p (snd s)) (\<lambda>ss. Inr (ss_PerIoRecv ss)))"

definition server_source :: "env \<Rightarrow> sv_state on_recv \<Rightarrow> sv_state source_if" where
  "server_source env app =
     \<lparr>si_handle = \<lambda>p s. rbind (get_sess p (snd s)) (\<lambda>ss. Inr (ss_PerHandle ss)),
      si_io = server_io,
      si_data = \<lambda>p k s. mem_read (n_bytes (snd s)) p k,
      si_OnRecv = app,
      si_PostRecv = CTcpServer_PostRecv env,
      si_PostSend = CTcpServer_PostSend env,
      si_Disconnect = \<lambda>h s. CTcpServer_Disconnect env h False s\<rparr>"

text \<open>A callback that only looks at the data.\<close>

fun ret_int :: "api_ret \<Rightarrow> int" where
  "ret_int (Ok v) = v"
| "ret_int (Err e) = 0"

definition plain_app :: "env \<Rightarrow> 's with_net on_recv" where
  "plain_app env h a bs from s =
     (case s of (x, n) \<Rightarrow> let (r, n1) = sys env (OnRecv h a bs) n in Inr (ret_int r, x, n1))"

text \<open>The contract of a callback: what it does with the server is a sequence of the server's steps,
  and as long as it wants to receive more (a result of at least 0), it has not disconnected
  the socket that it was called for.\<close>

definition app_ok :: "env \<Rightarrow> (SOCKET_SESSION \<Rightarrow> addr) \<Rightarrow> sv_state on_recv \<Rightarrow> bool" where
  "app_ok env oninit app \<longleftrightarrow>
     (\<forall>pc H s h a bs from. sv_inv env pc H s \<longrightarrow>
        (\<exists>r s' H'. app h a bs from s = Inr (r, s') \<and> (sv_step env oninit)\<^sup>*\<^sup>* (pc, H, s) (pc, H', s') \<and>
           (0 \<le> r \<longrightarrow> (\<forall>p. (h, p) \<in> set (sv_mapSocketSession (fst s)) \<longrightarrow> n_sess (snd s') p \<noteq> None))))"

text \<open>The completions of operations that are under way: a receive of a session that is in the map
  under the socket in its handle, a send of a structure in use, or a broken connection of a
  session that is alive. \<open>-1\<close> is the order to stop.\<close>

definition sv_deliverable :: "completion \<Rightarrow> addr list \<Rightarrow> sv_state \<Rightarrow> bool" where
  "sv_deliverable c H s \<longleftrightarrow>
     (cp_pPerHandle c \<noteq> NULL \<longrightarrow> n_sess (snd s) (cp_pPerHandle c) \<noteq> None) \<and>
     (cp_nByteTransferred c \<noteq> 0 \<and> cp_pPerIoData c \<noteq> NULL \<and> cp_pPerHandle c \<noteq> NULL \<longrightarrow>
        (case n_io (snd s) (cp_pPerIoData c) of
           Some io \<Rightarrow> cp_pPerIoData c \<in> set H \<and> io_OperType io = SEND_POSTED
         | None \<Rightarrow> cp_pPerIoData c = cp_pPerHandle c \<and>
             (case n_sess (snd s) (cp_pPerHandle c) of
                None \<Rightarrow> False
              | Some ss \<Rightarrow> io_OperType (ss_PerIoRecv ss) = RECV_POSTED \<and>
                  (ph_hSocket (ss_PerHandle ss), cp_pPerHandle c) \<in> set (sv_mapSocketSession (fst s)))))"

lemma plain_app_ok: "app_ok env oninit (plain_app env)"
proof -
  have "\<exists>r s' H'. plain_app env h a bs from s = Inr (r, s') \<and>
      (sv_step env oninit)\<^sup>*\<^sup>* (pc, H, s) (pc, H', s') \<and>
      (0 \<le> r \<longrightarrow> (\<forall>p. (h, p) \<in> set (sv_mapSocketSession (fst s)) \<longrightarrow> n_sess (snd s') p \<noteq> None))"
    if inv: "sv_inv env pc H s" for pc H s h a bs and "from"
  proof -
    obtain sv n where s: "s = (sv, n)" by (cases s)
    let ?n = "snd (sys env (OnRecv h a bs) n)"
    have "(sv_step env oninit)\<^sup>*\<^sup>* (pc, H, sv, n) (pc, H, sv, ?n)" by (intro r_into_rtranclp sv_step.event) simp
    moreover have "n_sess n p \<noteq> None" if "(h, p) \<in> set (sv_mapSocketSession sv)" for p
      using inv that by (force simp: s sv_inv_def sv_sessions_def)
    ultimately show ?thesis by (force simp: s plain_app_def Let_def case_prod_unfold)
  qed
  then show ?thesis unfolding app_ok_def by blast
qed

lemma server_handle:
  assumes "sv_inv env pc H s" "n_sess (snd s) p \<noteq> None"
  shows "\<exists>ss. n_sess (snd s) p = Some ss \<and> si_handle (server_source env app) p s = Inr (ss_PerHandle ss) \<and>
    get_sess p (snd s) = Inr ss"
proof -
  have "net_ok env (snd s)" using assms(1) by (simp add: sv_inv_def)
  from get_sess_live [OF this assms(2)] show ?thesis by (auto simp: server_source_def)
qed

lemma server_sends_run:
  assumes "sv_inv env pc H s" "p \<in> set H"
  obtains s' H' where "CTcpServer_PostSend env p s = Inr (True, s')" "sv_step env oninit (pc, H, s) (pc, H', s')"
    "sv_inv env pc H' s'"
proof -
  obtain i where "i < length H" "H ! i = p" using assms(2) by (auto simp: in_set_conv_nth)
  then show thesis using that PostSend_inv [OF assms(1), of i] sv_step.complete by blast
qed

lemma PostRecv_returns:
  assumes "sv_inv env pc H s" "n_sess (snd s) p \<noteq> None"
  shows "\<exists>b s'. CTcpServer_PostRecv env h p s = Inr (b, s')"
proof -
  obtain sv n where s: "s = (sv, n)" by (cases s)
  obtain ss where ss: "n_sess n p = Some ss" "get_sess p n = Inr ss"
    using server_handle [OF assms] s by auto
  define n1 where "n1 = put_sess p (ss\<lparr>ss_PerIoRecv := (ss_PerIoRecv ss)\<lparr>io_OperType := RECV_POSTED\<rparr>\<rparr>) n"
  define c where "c = WSARecv h (io_szBuffer (ss_PerIoRecv ss)) (src_nRecvBufferSize sv)"
  have "sv_inv env pc H (sv, n1)" unfolding n1_def using sv_inv_put [OF _ ss(1)] assms(1) s by simp
  then have n2: "sv_inv env pc H (sv, snd (sys env c n1))" by (rule sv_inv_sys) (simp add: c_def)
  show ?thesis using s ss Disconnect_inv [OF n2, of h False] unfolding CTcpServer_PostRecv_def
    by (auto simp: n1_def [symmetric] c_def [symmetric] sys_def res_simps Let_def split: api_ret.splits)
qed

lemma tcp_run_one: "CTcpRunner_Run si [c] s = tcp_turn si c s"
  by (cases "tcp_turn si c s") (auto split: option.splits)

lemma udp_run_one: "CUdpRunner_Run si [c] s = udp_turn si c s"
  by (cases "udp_turn si c s") (auto split: option.splits)

abbreviation steps_to :: "env \<Rightarrow> (SOCKET_SESSION \<Rightarrow> addr) \<Rightarrow> listen_pc \<Rightarrow> addr list \<Rightarrow> sv_state \<Rightarrow> sv_state \<Rightarrow> bool" where
  "steps_to env oninit pc H s s' \<equiv>
     \<exists>H'. (sv_step env oninit)\<^sup>*\<^sup>* (pc, H, s) (pc, H', s') \<and> sv_inv env pc H' s'"

lemma steps_toI:
  "(sv_step env oninit)\<^sup>*\<^sup>* (pc, H, s) (pc, H', s') \<Longrightarrow> sv_inv env pc H s \<Longrightarrow> steps_to env oninit pc H s s'"
  using sv_reach_inv [of env oninit "(pc, H, s)" "(pc, H', s')"] by auto

text \<open>The three things that a turn does with the server.\<close>

lemma turn_broken:
  assumes "sv_inv env pc H s" "n_sess (snd s) (cp_pPerHandle c) \<noteq> None"
    and "cp_nByteTransferred c = 0" "cp_pPerHandle c \<noteq> NULL"
  shows "\<exists>s' ss. tcp_turn (server_source env app) c s = Inr (None, s') \<and> steps_to env oninit pc H s s' \<and>
    n_sess (snd s) (cp_pPerHandle c) = Some ss \<and> \<not> CTcpServer_IsConnected (ph_hSocket (ss_PerHandle ss)) s'"
proof -
  obtain ss where ss: "n_sess (snd s) (cp_pPerHandle c) = Some ss" "si_handle (server_source env app) (cp_pPerHandle c) s = Inr (ss_PerHandle ss)"
    using server_handle [OF assms(1,2), where app = app] by blast
  let ?h = "ph_hSocket (ss_PerHandle ss)"
  obtain b s' where d: "CTcpServer_Disconnect env ?h False s = Inr (b, s')"
      "sv_mapSocketSession (fst s') = smap_erase ?h (sv_mapSocketSession (fst s))"
    using Disconnect_inv [OF assms(1), of ?h False] by blast
  have "\<not> CTcpServer_IsConnected ?h s'" using d(2)
    by (auto simp: CTcpServer_IsConnected_def smap_erase_def map_of_eq_None_iff)
  moreover have "steps_to env oninit pc H s s'" by (rule steps_toI [OF r_into_rtranclp assms(1)]) (rule sv_step.disconnect [OF d(1)])
  moreover have "tcp_turn (server_source env app) c s = Inr (None, s')"
    using assms(3,4) ss d(1) by (simp add: tcp_turn_def) (simp add: server_source_def)
  ultimately show ?thesis using ss(1) by blast
qed

lemma turn_received:
  assumes inv: "sv_inv env pc H s" and app: "app_ok env oninit app"
    and c: "cp_nByteTransferred c \<notin> {0, -1}" "cp_bSuccess c" "cp_pPerHandle c = p" "cp_pPerIoData c = p" "p \<noteq> NULL"
    and ss: "n_io (snd s) p = None" "n_sess (snd s) p = Some ss" "io_OperType (ss_PerIoRecv ss) = RECV_POSTED"
      "(ph_hSocket (ss_PerHandle ss), p) \<in> set (sv_mapSocketSession (fst s))"
  shows "\<exists>s'. tcp_turn (server_source env app) c s = Inr (None, s') \<and> steps_to env oninit pc H s s'"
proof -
  let ?si = "server_source env app"
  have h: "si_handle ?si p s = Inr (ss_PerHandle ss)" "get_sess p (snd s) = Inr ss"
    using ss(2) c(5) by (simp_all add: server_source_def get_sess_def)
  have io: "si_io ?si p s = Inr (ss_PerIoRecv ss)" using ss(1) h(2) by (simp add: server_source_def server_io_def)
  define bs where "bs = si_data ?si (io_szBuffer (ss_PerIoRecv ss)) (unat (cp_nByteTransferred c)) s"
  obtain r s1 H1 where a: "app (ph_hSocket (ss_PerHandle ss)) (ph_pAttachInfo (ss_PerHandle ss)) bs [] s = Inr (r, s1)"
      "(sv_step env oninit)\<^sup>*\<^sup>* (pc, H, s) (pc, H1, s1)" "0 \<le> r \<Longrightarrow> n_sess (snd s1) p \<noteq> None"
    using app inv ss(4) unfolding app_ok_def by metis
  have i1: "sv_inv env pc H1 s1" using sv_reach_inv [OF a(2)] inv by simp
  have t: "tcp_turn ?si c s = (if r \<ge> 0
      then rbind (si_handle ?si p s1) (\<lambda>ph1. rbind (si_PostRecv ?si (ph_hSocket ph1) p s1) (\<lambda>(b, s2). Inr (None, s2)))
      else Inr (None, s1))"
    unfolding tcp_turn_def using c io h(1) ss(3) a(1) by (simp add: bs_def [symmetric]) (simp add: server_source_def)
  show ?thesis
  proof (cases "0 \<le> r")
    case True
    obtain s1' :: SOCKET_SESSION where h1: "si_handle ?si p s1 = Inr (ss_PerHandle s1')"
      using server_handle [OF i1 a(3) [OF True], where app = app] by blast
    obtain b s2 where p: "CTcpServer_PostRecv env (ph_hSocket (ss_PerHandle s1')) p s1 = Inr (b, s2)"
      using PostRecv_returns [OF i1 a(3) [OF True]] by blast
    have "(sv_step env oninit)\<^sup>*\<^sup>* (pc, H, s) (pc, H1, s2)" using a(2) sv_step.recv [OF p] by (rule rtranclp.rtrancl_into_rtrancl)
    moreover have "tcp_turn ?si c s = Inr (None, s2)" using t True h1 p by simp (simp add: server_source_def)
    ultimately show ?thesis using steps_toI inv by blast
  next
    case False
    then show ?thesis using t a(2) i1 by auto
  qed
qed

lemma turn_sent:
  assumes inv: "sv_inv env pc H s"
    and c: "cp_nByteTransferred c \<notin> {0, -1}" "cp_bSuccess c" "cp_pPerHandle c \<noteq> NULL" "cp_pPerIoData c = p" "p \<noteq> NULL"
    and io: "n_sess (snd s) (cp_pPerHandle c) \<noteq> None" "n_io (snd s) p = Some io" "io_OperType io = SEND_POSTED" "p \<in> set H"
  shows "\<exists>s'. tcp_turn (server_source env app) c s = Inr (None, s') \<and> steps_to env oninit pc H s s'"
proof -
  let ?si = "server_source env app"
  obtain ss :: SOCKET_SESSION where h: "si_handle ?si (cp_pPerHandle c) s = Inr (ss_PerHandle ss)" using server_handle [OF inv io(1), where app = app] by blast
  obtain s' H' where p: "CTcpServer_PostSend env p s = Inr (True, s')" "sv_step env oninit (pc, H, s) (pc, H', s')"
      "sv_inv env pc H' s'"
    using server_sends_run [OF inv io(4)] by blast
  have "si_io ?si p s = Inr io" using io(2) by (simp add: server_source_def server_io_def)
  then have "tcp_turn ?si c s = Inr (None, s')"
    unfolding tcp_turn_def using c h io(3) p(1) by (simp add: RECV_POSTED_def SEND_POSTED_def) (simp add: server_source_def)
  then show ?thesis using p(2,3) by blast
qed


definition broken :: "addr \<Rightarrow> completion" where
  "broken p = \<lparr>cp_bSuccess = False, cp_nByteTransferred = 0, cp_pPerHandle = p, cp_pPerIoData = p, cp_from = []\<rparr>"


section \<open>Completions that come too late\<close>

definition accept_one :: "sv_op list" where
  "accept_one = [DoListen, DoListen, DoListen, DoListen]"

definition first_session :: "sv_state \<Rightarrow> addr" where
  "first_session s = (case sv_mapSocketSession (fst s) of [] \<Rightarrow> NULL | x # m \<Rightarrow> snd x)"

lemma ran: "(case x of Inl e \<Rightarrow> False | Inr (y, s) \<Rightarrow> P y s) \<Longrightarrow> \<exists>y s. x = Inr (y, s) \<and> P y s"
  by (cases x) auto


section \<open>The UDP source under the runner\<close>

definition udp_source :: "env \<Rightarrow> ud_state on_recv \<Rightarrow> ud_state source_if" where
  "udp_source env app =
     \<lparr>si_handle = \<lambda>p s. if p = ud_this (fst s) then Inr (ud_perHandle (fst s)) else Inl UseAfterFree,
      si_io = \<lambda>p s. get_io p (snd s),
      si_data = \<lambda>p k s. mem_read (n_bytes (snd s)) p k,
      si_OnRecv = app,
      si_PostRecv = \<lambda>h. CUdpSource_PostRecv env,
      si_PostSend = CUdpSource_PostSend env,
      si_Disconnect = \<lambda>h. Inr \<circ> CSocketSource_Disconnect h False\<rparr>"

fun is_recv_from :: "api_call \<Rightarrow> bool" where
  "is_recv_from (WSARecvFrom h p k) = True"
| "is_recv_from c = False"

definition recv_posts :: "net \<Rightarrow> nat" where
  "recv_posts n = length (filter (is_recv_from \<circ> fst) (n_trace n))"

lemma recv_posts_sys [simp]: "recv_posts (snd (sys env c n)) = recv_posts n + (if is_recv_from c then 1 else 0)"
  by (simp add: recv_posts_def sys_def)

lemma recv_posts_upd [simp]: "recv_posts (n\<lparr>n_io := x\<rparr>) = recv_posts n" "recv_posts (put_io p y n) = recv_posts n"
  by (simp_all add: recv_posts_def put_io_def)

lemma io_free_posts: "io_free env p n = Inr n' \<Longrightarrow> recv_posts n' = recv_posts n"
  by (auto simp: io_free_def split: option.splits)

lemma push_posts: "CSocketSendPool_push env p (pl, n) = Inr (pl', n') \<Longrightarrow> recv_posts n' = recv_posts n"
  by (auto simp: CSocketSendPool_push_def res_simps io_free_posts split: if_splits)

lemma FreeRecvObj_posts: "CUdpSource_FreeRecvObj env p s = Inr s' \<Longrightarrow> recv_posts (snd s') = recv_posts (snd s)"
  by (cases s) (auto simp: CUdpSource_FreeRecvObj_def res_simps io_free_posts split: if_splits)

lemma PostRecv_posts:
  "CUdpSource_PostRecv env p s = Inr (b, s') \<Longrightarrow> recv_posts (snd s') \<le> recv_posts (snd s) + 1"
proof -
  assume ret: "CUdpSource_PostRecv env p s = Inr (b, s')"
  obtain u n where s: "s = (u, n)" by (cases s)
  show ?thesis
  proof (cases "p = NULL")
    case True
    then show ?thesis using ret s by (simp add: CUdpSource_PostRecv_def)
  next
    case False
    then obtain io where io: "get_io p n = Inr io" using ret s by (auto simp: CUdpSource_PostRecv_def res_simps)
    define c where "c = WSARecvFrom (ud_hSocket u) (io_szBuffer io) (src_nRecvBufferSize u)"
    define n1 where "n1 = put_io p (io\<lparr>io_OperType := RECV_POSTED\<rparr>) n"
    have eq: "CUdpSource_PostRecv env p s = (case env (n_trace n1) c of Ok v \<Rightarrow> Inr (True, u, snd (sys env c n1))
        | Err e \<Rightarrow> if e \<noteq> WSA_IO_PENDING
            then rbind (CUdpSource_FreeRecvObj env p (u, snd (sys env c n1))) (\<lambda>s'. Inr (False, s'))
            else Inr (True, u, snd (sys env c n1)))"
      unfolding CUdpSource_PostRecv_def s c_def n1_def
      using False by (simp add: io Let_def case_prod_unfold cong: api_ret.case_cong if_cong)
    have "s' = (u, snd (sys env c n1)) \<or> CUdpSource_FreeRecvObj env p (u, snd (sys env c n1)) = Inr s'"
      using ret unfolding eq by (auto simp: res_simps split: api_ret.splits if_splits)
    moreover have "recv_posts (snd (sys env c n1)) = recv_posts n + 1" by (simp add: c_def n1_def)
    ultimately show ?thesis using s FreeRecvObj_posts by fastforce
  qed
qed

lemma PostSend_posts: "CUdpSource_PostSend env p s = Inr (b, s') \<Longrightarrow> recv_posts (snd s') = recv_posts (snd s)"
  by (cases s) (auto simp: CUdpSource_PostSend_def res_simps dest!: push_posts)

lemma plain_app_posts: "plain_app env h a bs f s = Inr (r, s') \<Longrightarrow> recv_posts (snd s') = recv_posts (snd s)"
  by (cases s) (auto simp: plain_app_def Let_def case_prod_unfold)

lemma udp_turn_posts:
  assumes "udp_turn (udp_source env (plain_app env)) c s = Inr (e, s')"
  shows "recv_posts (snd s') \<le> recv_posts (snd s) + (if cp_nByteTransferred c = 0 then 0 else 1)"
  using assms by (auto simp: udp_turn_def udp_source_def res_simps split: if_splits
      dest!: PostSend_posts PostRecv_posts plain_app_posts)

lemma udp_run_posts:
  "CUdpRunner_Run (udp_source env (plain_app env)) cs s = Inr (e, s') \<Longrightarrow>
   recv_posts (snd s') \<le> recv_posts (snd s) + length (filter (\<lambda>c. cp_nByteTransferred c \<noteq> 0) cs)"
proof (induction cs arbitrary: s)
  case (Cons c cs)
  then obtain d s1 where t: "udp_turn (udp_source env (plain_app env)) c s = Inr (d, s1)"
      "d \<noteq> None \<and> s' = s1 \<or> CUdpRunner_Run (udp_source env (plain_app env)) cs s1 = Inr (e, s')"
    by (auto simp: res_simps split: if_splits)
  show ?case using udp_turn_posts [OF t(1)] t(2) Cons.IH [of s1] by fastforce
qed simp



end
