(* ===== verification/Task.thy ===== *)
theory Task
  imports MessageQueue ThreadGroup
begin

text \<open>
  \<open>CSLTask\<close> and \<open>CSLTaskEx\<close> of SLTask.h and SLTaskEx.h: a message queue with worker threads that
  wait for messages, at a semaphore or at a completion port. The state of a task is its object,
  the heap with the queue's nodes and messages, and the state of the system calls.
\<close>

section \<open>CSLTask\<close>

record CSLTask =
  tk_this :: addr
  tk_msgQueue :: CSLMessageQueue
  tk_threadGroup :: CThreadGroup
  tk_semaphore :: CSemaphore

type_synonym task_state = "CSLTask \<times> mq_heap \<times> net"

definition CSLTask_new :: "addr \<Rightarrow> CSLTask" where
  "CSLTask_new this = \<lparr>tk_this = this, tk_msgQueue = CSLMessageQueue_new, tk_threadGroup = CThreadGroup_new,
                       tk_semaphore = CSemaphore_new\<rparr>"

text \<open>Calling an operation of a member.\<close>

definition on_queue :: "(mq_state \<Rightarrow> cerror + 'a \<times> mq_state) \<Rightarrow> task_state \<Rightarrow> cerror + 'a \<times> task_state" where
  "on_queue f s = (case s of (tk, m, n) \<Rightarrow>
     rbind (f (tk_msgQueue tk, m)) (\<lambda>(x, q, m'). Inr (x, tk\<lparr>tk_msgQueue := q\<rparr>, m', n)))"

definition on_semaphore :: "(CSemaphore with_net \<Rightarrow> 'a \<times> CSemaphore with_net) \<Rightarrow> task_state \<Rightarrow> 'a \<times> task_state" where
  "on_semaphore f s = (case s of (tk, m, n) \<Rightarrow>
     case f (tk_semaphore tk, n) of (x, sem, n') \<Rightarrow> (x, tk\<lparr>tk_semaphore := sem\<rparr>, m, n'))"

definition on_threads :: "(CThreadGroup with_net \<Rightarrow> 'a \<times> CThreadGroup with_net) \<Rightarrow> task_state \<Rightarrow> 'a \<times> task_state" where
  "on_threads f s = (case s of (tk, m, n) \<Rightarrow>
     case f (tk_threadGroup tk, n) of (x, g, n') \<Rightarrow> (x, tk\<lparr>tk_threadGroup := g\<rparr>, m, n'))"

definition CSLTask_GetMsgQueueSize :: "task_state \<Rightarrow> cerror + u32 \<times> task_state" where
  "CSLTask_GetMsgQueueSize = on_queue (\<lambda>q. Inr (CSLMessageQueue_GetSize q))"

text \<open>A node is filled by \<open>Dequeue\<close>; it is returned with the result.\<close>

definition dequeue_to :: "CSLMessageQueueNode \<Rightarrow> mq_state \<Rightarrow> cerror + (int \<times> CSLMessageQueueNode) \<times> mq_state" where
  "dequeue_to oNode s = rbind (CSLMessageQueue_Dequeue oNode s) (\<lambda>(r, o', s'). Inr ((r, o'), s'))"

definition CSLTask_GetMessage :: "CSLMessageQueueNode \<Rightarrow> task_state \<Rightarrow> cerror + (int \<times> CSLMessageQueueNode) \<times> task_state" where
  "CSLTask_GetMessage oNode = on_queue (dequeue_to oNode)"

definition CSLTask_Pop :: "CSLMessageQueueNode \<Rightarrow> task_state \<Rightarrow> cerror + (int \<times> CSLMessageQueueNode) \<times> task_state" where
  "CSLTask_Pop oNode = on_queue (dequeue_to oNode)"

definition CSLTask_Push :: "addr \<Rightarrow> int \<Rightarrow> int \<Rightarrow> addr \<Rightarrow> task_state \<Rightarrow> cerror + int \<times> task_state" where
  "CSLTask_Push szMsg nLen nAttachID pAttachInfo =
     on_queue (CSLMessageQueue_Enqueue szMsg nLen nAttachID pAttachInfo)"

text \<open>\<open>PostMessage\<close> in its two steps, between which other threads can run: the message is put
  into the queue, then the semaphore is released.\<close>

definition post_wake :: "env \<Rightarrow> task_state \<Rightarrow> task_state" where
  "post_wake env s = snd (on_semaphore (CSemaphore_UnLock env) s)"

definition CSLTask_PostMessage :: "env \<Rightarrow> addr \<Rightarrow> int \<Rightarrow> int \<Rightarrow> addr \<Rightarrow> task_state \<Rightarrow> cerror + int \<times> task_state" where
  "CSLTask_PostMessage env szMsg nLen nAttachID pAttachInfo s =
     rbind (on_queue (CSLMessageQueue_Enqueue szMsg nLen nAttachID pAttachInfo) s) (\<lambda>(r, s1).
       if r \<ge> 0 then Inr (1, post_wake env s1) else Inr (-1, s1))"

definition CSLTask_Open :: "addr \<Rightarrow> task_state \<Rightarrow> bool \<times> task_state" where
  "CSLTask_Open p s = (True, s)"

fun wake_threads :: "env \<Rightarrow> nat \<Rightarrow> task_state \<Rightarrow> task_state" where
  "wake_threads env 0 s = s"
| "wake_threads env (Suc i) s = wake_threads env i (post_wake env s)"

definition clear_queue :: "task_state \<Rightarrow> (cerror + bool \<times> task_state) option" where
  "clear_queue s = (case s of (tk, m, n) \<Rightarrow>
     map_option (\<lambda>r. rbind r (\<lambda>(b, q, m'). Inr (b, tk\<lparr>tk_msgQueue := q\<rparr>, m', n)))
       (CSLMessageQueue_Clear (tk_msgQueue tk, m)))"

definition CSLTask_Close :: "env \<Rightarrow> task_state \<Rightarrow> (cerror + bool \<times> task_state) option" where
  "CSLTask_Close env s =
     (let nThreadCount = CThreadGroup_GetThreadCount (tk_threadGroup (fst s));
          s1 = wake_threads env (nat nThreadCount) s;
          s2 = snd (on_semaphore (CSemaphore_Clear env) s1);
          s3 = snd (on_threads (CThreadGroup_Stop env 200) s2);
          s4 = snd (on_threads (CThreadGroup_Kill env) s3)
      in map_option (\<lambda>r. rbind r (\<lambda>(b, s5). Inr (True, s5))) (clear_queue s4))"

text \<open>The destructor: \<open>Close\<close>, then the destructors of the semaphore and of the group.\<close>

definition CSLTask_delete :: "env \<Rightarrow> task_state \<Rightarrow> (cerror + task_state) option" where
  "CSLTask_delete env s =
     map_option (\<lambda>r. rbind r (\<lambda>(b, s1). Inr (snd (on_threads (\<lambda>x. ((), CThreadGroup_delete env x))
       (snd (on_semaphore (\<lambda>x. ((), CSemaphore_delete env x)) s1)))))) (CSLTask_Close env s)"

definition CSLTask_Activate :: "env \<Rightarrow> addr \<Rightarrow> int \<Rightarrow> u32 \<Rightarrow> task_state \<Rightarrow> cerror + bool \<times> task_state" where
  "CSLTask_Activate env run nThreadCount nQueueMaxSize s =
     rbind (on_queue (\<lambda>q. rbind (CSLMessageQueue_Init nQueueMaxSize q) (\<lambda>q'. Inr ((), q'))) s) (\<lambda>(u, s1).
       let s2 = snd (on_semaphore (CSemaphore_Create env 0 (sint nQueueMaxSize)) s1)
       in Inr (on_threads (CThreadGroup_Start env run (tk_this (fst s2)) nThreadCount 0) s2))"

definition CSLTask_Resume :: "env \<Rightarrow> task_state \<Rightarrow> bool \<times> task_state" where
  "CSLTask_Resume env = on_threads (CThreadGroup_Resume env)"

definition CSLTask_Suspend :: "env \<Rightarrow> task_state \<Rightarrow> bool \<times> task_state" where
  "CSLTask_Suspend env = on_threads (CThreadGroup_Suspend env)"

definition CSLTask_GetThreadCount :: "CSLTask \<Rightarrow> int" where
  "CSLTask_GetThreadCount tk = CThreadGroup_GetThreadCount (tk_threadGroup tk)"

definition CSLTask_ProcessMessage :: "CSLMessageQueueNode \<Rightarrow> 's \<Rightarrow> int \<times> 's" where
  "CSLTask_ProcessMessage oNode s = (0, s)"

text \<open>The thread as a step function over its program counter, cut where other threads can come
  in between; the node \<open>oNode\<close> is its local variable. \<open>proc\<close> is the virtual \<open>ProcessMessage\<close>.\<close>

datatype wk_pc = WkCheck | WkLock | WkGet | WkDo | WkExit

fun CSLTask_Run_step ::
    "env \<Rightarrow> (CSLMessageQueueNode \<Rightarrow> task_state \<Rightarrow> int \<times> task_state) \<Rightarrow> wk_pc \<Rightarrow> CSLMessageQueueNode \<Rightarrow> task_state \<Rightarrow>
     cerror + wk_pc \<times> CSLMessageQueueNode \<times> task_state" where
  "CSLTask_Run_step env proc WkCheck oNode s =
     Inr (if CThreadGroup_IsStop (tk_threadGroup (fst s)) then WkExit else WkLock, oNode, s)"
| "CSLTask_Run_step env proc WkLock oNode s = Inr (WkGet, oNode, snd (on_semaphore (CSemaphore_Lock env) s))"
| "CSLTask_Run_step env proc WkGet oNode s =
     rbind (CSLTask_GetMessage oNode s) (\<lambda>((r, o'), s1). Inr (if r \<ge> 0 then WkDo else WkCheck, o', s1))"
| "CSLTask_Run_step env proc WkDo oNode s = Inr (WkCheck, oNode, snd (proc oNode s))"
| "CSLTask_Run_step env proc WkExit oNode s = Inr (WkExit, oNode, s)"

section \<open>CSLTaskEx\<close>

record CSLTaskEx =
  tx_this :: addr
  tx_msgQueue :: CSLMessageQueue
  tx_threadGroup :: CThreadGroup
  tx_hCompletionPort :: int

type_synonym taskex_state = "CSLTaskEx \<times> mq_heap \<times> net"

definition CSLTaskEx_new :: "addr \<Rightarrow> CSLTaskEx" where
  "CSLTaskEx_new this = \<lparr>tx_this = this, tx_msgQueue = CSLMessageQueue_new, tx_threadGroup = CThreadGroup_new,
                         tx_hCompletionPort = 0\<rparr>"

definition tx_queue :: "(mq_state \<Rightarrow> cerror + 'a \<times> mq_state) \<Rightarrow> taskex_state \<Rightarrow> cerror + 'a \<times> taskex_state" where
  "tx_queue f s = (case s of (tx, m, n) \<Rightarrow>
     rbind (f (tx_msgQueue tx, m)) (\<lambda>(x, q, m'). Inr (x, tx\<lparr>tx_msgQueue := q\<rparr>, m', n)))"

definition tx_threads :: "(CThreadGroup with_net \<Rightarrow> 'a \<times> CThreadGroup with_net) \<Rightarrow> taskex_state \<Rightarrow> 'a \<times> taskex_state" where
  "tx_threads f s = (case s of (tx, m, n) \<Rightarrow>
     case f (tx_threadGroup tx, n) of (x, g, n') \<Rightarrow> (x, tx\<lparr>tx_threadGroup := g\<rparr>, m, n'))"

definition CSLTaskEx_GetMsgQueueSize :: "taskex_state \<Rightarrow> cerror + u32 \<times> taskex_state" where
  "CSLTaskEx_GetMsgQueueSize = tx_queue (\<lambda>q. Inr (CSLMessageQueue_GetSize q))"

definition CSLTaskEx_GetMessage :: "CSLMessageQueueNode \<Rightarrow> taskex_state \<Rightarrow> cerror + (int \<times> CSLMessageQueueNode) \<times> taskex_state" where
  "CSLTaskEx_GetMessage oNode = tx_queue (dequeue_to oNode)"

definition CSLTaskEx_Pop :: "CSLMessageQueueNode \<Rightarrow> taskex_state \<Rightarrow> cerror + (int \<times> CSLMessageQueueNode) \<times> taskex_state" where
  "CSLTaskEx_Pop oNode = tx_queue (dequeue_to oNode)"

text \<open>A completion that is posted to the port: the length of the message and the key 1.\<close>

definition CSLTaskEx_PostMessage :: "env \<Rightarrow> addr \<Rightarrow> int \<Rightarrow> int \<Rightarrow> addr \<Rightarrow> taskex_state \<Rightarrow> cerror + int \<times> taskex_state" where
  "CSLTaskEx_PostMessage env szMsg nLen nAttachID pAttachInfo s =
     rbind (tx_queue (CSLMessageQueue_Enqueue szMsg nLen nAttachID pAttachInfo) s) (\<lambda>(r, tx, m, n).
       if r \<ge> 0
       then let (b, n1) = sys env (PostQueuedCompletionStatus (tx_hCompletionPort tx) nLen 1) n
            in if is_true b then Inr (1, tx, m, n1) else Inr (-1, tx, m, n1)
       else Inr (-1, tx, m, n))"

definition CSLTaskEx_Push :: "addr \<Rightarrow> int \<Rightarrow> int \<Rightarrow> addr \<Rightarrow> taskex_state \<Rightarrow> cerror + int \<times> taskex_state" where
  "CSLTaskEx_Push szMsg nLen nAttachID pAttachInfo s =
     rbind (tx_queue (CSLMessageQueue_Enqueue szMsg nLen nAttachID pAttachInfo) s) (\<lambda>(r, s1).
       if r \<ge> 0 then Inr (1, s1) else Inr (-1, s1))"

definition CSLTaskEx_Open :: "addr \<Rightarrow> taskex_state \<Rightarrow> bool \<times> taskex_state" where
  "CSLTaskEx_Open p s = (True, s)"

fun tx_stops :: "env \<Rightarrow> int \<Rightarrow> nat \<Rightarrow> net \<Rightarrow> net" where
  "tx_stops env port 0 n = n"
| "tx_stops env port (Suc i) n = tx_stops env port i (snd (sys env (PostQueuedCompletionStatus port (-1) (-1)) n))"

definition CSLTaskEx_Close :: "env \<Rightarrow> taskex_state \<Rightarrow> (cerror + bool \<times> taskex_state) option" where
  "CSLTaskEx_Close env s =
     (case s of (tx, m, n) \<Rightarrow>
        if tx_hCompletionPort tx = 0 then Some (Inr (False, s))
        else let n1 = tx_stops env (tx_hCompletionPort tx)
                        (nat (CThreadGroup_GetThreadCount (tx_threadGroup tx))) n;
                 n2 = snd (sys env (CloseHandle (tx_hCompletionPort tx)) n1);
                 s3 = snd (tx_threads (CThreadGroup_Stop env 200) (tx\<lparr>tx_hCompletionPort := 0\<rparr>, m, n2));
                 (b, tx4, m4, n4) = tx_threads (CThreadGroup_Kill env) s3
             in map_option (\<lambda>r. rbind r (\<lambda>(b, q, m'). Inr (True, tx4\<lparr>tx_msgQueue := q\<rparr>, m', n4)))
                  (CSLMessageQueue_Clear (tx_msgQueue tx4, m4)))"

definition CSLTaskEx_delete :: "env \<Rightarrow> taskex_state \<Rightarrow> (cerror + taskex_state) option" where
  "CSLTaskEx_delete env s =
     map_option (\<lambda>r. rbind r (\<lambda>(b, s1). Inr (snd (tx_threads (\<lambda>x. ((), CThreadGroup_delete env x)) s1))))
       (CSLTaskEx_Close env s)"

definition CSLTaskEx_Activate :: "env \<Rightarrow> addr \<Rightarrow> int \<Rightarrow> int \<Rightarrow> taskex_state \<Rightarrow> cerror + int \<times> taskex_state" where
  "CSLTaskEx_Activate env run nThreadCount nQueueMaxCount s =
     (case s of (tx, m, n) \<Rightarrow>
        let (h, n1) = make_handle env (CreateIoCompletionPort (-1) 0 0 nThreadCount) n;
            s1 = (tx\<lparr>tx_hCompletionPort := h\<rparr>, m, n1)
        in if h = -1 then Inr (-1, s1)
           else rbind (tx_queue (\<lambda>q. rbind (CSLMessageQueue_Init (to_u32 nQueueMaxCount) q) (\<lambda>q'. Inr ((), q'))) s1)
             (\<lambda>(u, s2). let (b, s3) = tx_threads (CThreadGroup_Start env run (tx_this (fst s2)) nThreadCount 0) s2
                        in Inr (of_bool b, s3)))"

definition CSLTaskEx_Resume :: "env \<Rightarrow> taskex_state \<Rightarrow> bool \<times> taskex_state" where
  "CSLTaskEx_Resume env = tx_threads (CThreadGroup_Resume env)"

definition CSLTaskEx_Suspend :: "env \<Rightarrow> taskex_state \<Rightarrow> bool \<times> taskex_state" where
  "CSLTaskEx_Suspend env = tx_threads (CThreadGroup_Suspend env)"

definition CSLTaskEx_GetThreadCount :: "CSLTaskEx \<Rightarrow> int" where
  "CSLTaskEx_GetThreadCount tx = CThreadGroup_GetThreadCount (tx_threadGroup tx)"

definition CSLTaskEx_ProcessMessage :: "CSLMessageQueueNode \<Rightarrow> 's \<Rightarrow> int \<times> 's" where
  "CSLTaskEx_ProcessMessage oNode s = (0, s)"

text \<open>One turn of the thread's loop, on the size of the completion that it is given. The size is
  not reset before the call, so a failed call leaves that of the turn before.\<close>

definition CSLTaskEx_turn ::
    "(CSLMessageQueueNode \<Rightarrow> taskex_state \<Rightarrow> int \<times> taskex_state) \<Rightarrow> u32 \<Rightarrow> CSLMessageQueueNode \<Rightarrow> taskex_state \<Rightarrow>
     cerror + int option \<times> CSLMessageQueueNode \<times> taskex_state" where
  "CSLTaskEx_turn proc nByteTransferred oNode s =
     (if CThreadGroup_IsStop (tx_threadGroup (fst s)) then Inr (Some (-1), oNode, s)
      else if nByteTransferred = -1 then Inr (Some (-1), oNode, s)
      else rbind (CSLTaskEx_GetMessage oNode s) (\<lambda>((r, o'), s1).
             Inr (None, o', if r \<ge> 0 then snd (proc o' s1) else s1)))"

fun CSLTaskEx_Run ::
    "(CSLMessageQueueNode \<Rightarrow> taskex_state \<Rightarrow> int \<times> taskex_state) \<Rightarrow> u32 list \<Rightarrow> CSLMessageQueueNode \<Rightarrow> taskex_state \<Rightarrow>
     cerror + int option \<times> CSLMessageQueueNode \<times> taskex_state" where
  "CSLTaskEx_Run proc [] oNode s = Inr (None, oNode, s)"
| "CSLTaskEx_Run proc (c # cs) oNode s =
     rbind (CSLTaskEx_turn proc c oNode s) (\<lambda>(e, o', s1).
       if e \<noteq> None then Inr (e, o', s1) else CSLTaskEx_Run proc cs o' s1)"

end
