(* ===== verification/TaskProps.thy ===== *)
theory TaskProps
  imports Task SendPool
begin

text \<open>
  A task with one worker thread, as a transition system: any number of senders, each of which is
  between its two steps, and the thread. The semaphore is a kernel object; what is assumed of
  it is what its documentation says, in terms of the permits that a trace has left.
\<close>

section \<open>The semaphore\<close>

fun sem_delta :: "int \<Rightarrow> api_call \<times> api_ret \<Rightarrow> int" where
  "sem_delta h (ObjectOp ReleaseSemaphore g xs, r) = (if g = h \<and> is_true r then hd xs else 0)"
| "sem_delta h (WaitObject g t, Ok v) = (if g = h \<and> v = WAIT_OBJECT_0 then -1 else 0)"
| "sem_delta h (c, r) = 0"

definition permits :: "int \<Rightarrow> net \<Rightarrow> int" where
  "permits h n = sum_list (map (sem_delta h) (n_trace n))"

lemma permits_sys: "permits h (snd (sys env c n)) = permits h n + sem_delta h (c, env (n_trace n) c)"
  by (simp add: permits_def sys_def)

text \<open>A release succeeds below the maximum \<open>k\<close>, and a wait without a time limit returns when
  there is a permit and takes it.\<close>

definition sem_env_ok :: "env \<Rightarrow> int \<Rightarrow> int \<Rightarrow> bool" where
  "sem_env_ok env h k \<longleftrightarrow>
     (\<forall>n. 0 \<le> permits h n \<and> permits h n < k \<longrightarrow> is_true (env (n_trace n) (ObjectOp ReleaseSemaphore h [1]))) \<and>
     (\<forall>n. 0 < permits h n \<longrightarrow> env (n_trace n) (WaitObject h INFINITE) = Ok WAIT_OBJECT_0)"

section \<open>The task as a transition system\<close>

fun task_mq :: "CSLMessageQueueNode \<Rightarrow> task_state \<Rightarrow> mq_state \<times> CSLMessageQueueNode" where
  "task_mq oNode (tk, m, n) = ((tk_msgQueue tk, m), oNode)"

fun task_view :: "CSLMessageQueueNode \<Rightarrow> task_state \<Rightarrow> mq_message" where
  "task_view oNode (tk, m, n) = mqn_view oNode (oh_world m)"

text \<open>The thread's program counter and node, the number of senders that have still to release the
  semaphore, the messages accepted and those processed so far, and the task.\<close>

type_synonym task_sys =
  "wk_pc \<times> nat \<times> mq_message list \<times> mq_message list \<times> CSLMessageQueueNode \<times> task_state"

fun post_msg :: "mq_call \<Rightarrow> task_state \<Rightarrow> cerror + int \<times> task_state" where
  "post_msg (szMsg, nLen, nAttachID, pAttachInfo) s =
     on_queue (CSLMessageQueue_Enqueue szMsg nLen nAttachID pAttachInfo) s"

inductive task_step ::
    "env \<Rightarrow> (CSLMessageQueueNode \<Rightarrow> task_state \<Rightarrow> int \<times> task_state) \<Rightarrow> int \<Rightarrow> task_sys \<Rightarrow> task_sys \<Rightarrow> bool"
  for env proc h where
  post: "mq_is_full (task_mq x s) \<or> mq_call_ready c (task_mq x s) \<Longrightarrow> post_msg c s = Inr (r, s') \<Longrightarrow>
    task_step env proc h (pc, k, acc, done, x, s)
      (pc, if r \<ge> 0 then Suc k else k, if r \<ge> 0 then acc @ [mq_payload c (task_mq x s)] else acc, done, x, s')"
| wake: "task_step env proc h (pc, Suc k, acc, done, x, s) (pc, k, acc, done, x, post_wake env s)"
| work: "(pc = WkLock \<Longrightarrow> 0 < permits h (snd (snd s))) \<Longrightarrow> CSLTask_Run_step env proc pc x s = Inr (pc', x', s') \<Longrightarrow>
    task_step env proc h (pc, k, acc, done, x, s)
      (pc', k, acc, if pc = WkDo then done @ [task_view x s] else done, x', s')"

text \<open>\<open>ProcessMessage\<close> may make any calls but those on the semaphore, and leaves the task alone.\<close>

definition proc_ok :: "(CSLMessageQueueNode \<Rightarrow> task_state \<Rightarrow> int \<times> task_state) \<Rightarrow> int \<Rightarrow> bool" where
  "proc_ok proc h \<longleftrightarrow> (\<forall>x tk m n. \<exists>r n'. proc x (tk, m, n) = (r, tk, m, n') \<and> permits h n' = permits h n)"

definition task_inv :: "int \<Rightarrow> int \<Rightarrow> task_sys \<Rightarrow> bool" where
  "task_inv h k0 y = (case y of (pc, k, acc, done, x, s) \<Rightarrow>
     \<exists>ms. mq_repr ms (task_mq x s) \<and> acc = done @ (if pc = WkDo then [task_view x s] else []) @ ms \<and>
       int (length ms) = permits h (snd (snd s)) + int k + (if pc = WkGet then 1 else 0) \<and>
       0 \<le> permits h (snd (snd s)) \<and> sem_hSemaphore (tk_semaphore (fst s)) = h \<and>
       0 < k0 \<and> uint (mq_nMaxSize (tk_msgQueue (fst s))) = k0)"

lemma Enqueue_max:
  "CSLMessageQueue_Enqueue a b c d (q, m) = Inr (r, q', m') \<Longrightarrow> mq_nMaxSize q' = mq_nMaxSize q"
  by (auto simp: CSLMessageQueue_Enqueue_def Let_def res_simps mq_Lock_def mq_UnLock_def split: if_splits)

lemma Dequeue_max:
  "CSLMessageQueue_Dequeue x (q, m) = Inr (r, x', q', m') \<Longrightarrow> mq_nMaxSize q' = mq_nMaxSize q"
  by (auto simp: CSLMessageQueue_Dequeue_def Let_def res_simps mq_Lock_def mq_UnLock_def split: if_splits)

lemma repr_bound:
  assumes "mq_repr ms ((q, m), x)" "0 < uint (mq_nMaxSize q)"
  shows "int (length ms) \<le> uint (mq_nMaxSize q)"
proof -
  obtain ns where "mq_shape ns q m" "length ns = length ms" using assms(1) by auto
  moreover have "0 < mq_nMaxSize q" using assms(2) by (simp add: word_less_def)
  ultimately show ?thesis by (simp add: mq_shape_def word_le_def) (metis uint_nat)
qed

section \<open>The steps keep the invariant\<close>

lemma enq_keeps_node:
  assumes "mq_repr ms ((q, m), x)" "\<not> mq_full q" "mq_ready a b (q, m)"
    "CSLMessageQueue_Enqueue a b i d (q, m) = Inr (r, q', m')"
  shows "mqn_view x (oh_world m') = mqn_view x (oh_world m)"
proof -
  obtain ns where ns: "mq_inv ns ((q, m), x)" using assms(1) by auto
  obtain bs where bs: "load a 0 (nat b) (oh_world m) = Inr bs"
    using assms(3) by (cases "load a 0 (nat b) (oh_world m)") (auto simp: mq_ready_def)
  show ?thesis using mq_enqueue_ok [OF ns assms(3,2) bs, of i d] assms(4) by auto
qed

lemma task_post_inv:
  assumes inv: "task_inv h k0 (pc, k, acc, done, x, s)"
    and rdy: "mq_is_full (task_mq x s) \<or> mq_call_ready c (task_mq x s)" and ret: "post_msg c s = Inr (r, s')"
  shows "task_inv h k0 (pc, if r \<ge> 0 then Suc k else k,
    if r \<ge> 0 then acc @ [mq_payload c (task_mq x s)] else acc, done, x, s')"
proof -
  obtain tk m n where s: "s = (tk, m, n)" by (metis prod.exhaust)
  obtain a b i d where c: "c = (a, b, i, d)" by (metis prod.exhaust)
  obtain ms where ms: "mq_repr ms (task_mq x s)"
      "acc = done @ (if pc = WkDo then [task_view x s] else []) @ ms"
      "int (length ms) = permits h n + int k + (if pc = WkGet then 1 else 0)" "0 \<le> permits h n"
      "sem_hSemaphore (tk_semaphore tk) = h" "0 < k0" "uint (mq_nMaxSize (tk_msgQueue tk)) = k0"
    using inv s by (auto simp: task_inv_def)
  obtain q' m' where e: "CSLMessageQueue_Enqueue a b i d (tk_msgQueue tk, m) = Inr (r, q', m')"
      "s' = (tk\<lparr>tk_msgQueue := q'\<rparr>, m', n)"
    using ret by (auto simp: s c on_queue_def res_simps)
  have E: "mq_enq c (task_mq x s) = Inr (r, task_mq x s')" by (simp add: s c e)
  note max = Enqueue_max [OF e(1)]
  show ?thesis
  proof (cases "mq_is_full (task_mq x s)")
    case True
    then have "r = -1" "task_mq x s' = task_mq x s" using mq.enq_full [OF ms(1), of c] E by auto
    moreover have "task_view x s' = task_view x s" using calculation(2) by (simp add: s e)
    ultimately show ?thesis using ms max by (auto simp: task_inv_def e)
  next
    case False
    then have r: "r = 0" "mq_repr (ms @ [mq_payload c (task_mq x s)]) (task_mq x s')"
      using mq.enq_ok [OF ms(1) False, of c] rdy E by auto
    have "task_view x s' = task_view x s"
      using enq_keeps_node [of ms "tk_msgQueue tk" m x a b i d r q' m'] ms(1) e(1) False rdy by (simp add: s c e)
    then show ?thesis using ms r(1) r(2) max unfolding task_inv_def
      by (intro case_prodI exI [of _ "ms @ [mq_payload c (task_mq x s)]"]) (simp add: s e)
  qed
qed

lemma task_wake_inv:
  assumes inv: "task_inv h k0 (pc, Suc k, acc, done, x, s)" and env: "sem_env_ok env h k0"
  shows "task_inv h k0 (pc, k, acc, done, x, post_wake env s)"
proof -
  obtain tk m n where s: "s = (tk, m, n)" by (metis prod.exhaust)
  obtain ms where ms: "mq_repr ms (task_mq x s)"
      "acc = done @ (if pc = WkDo then [task_view x s] else []) @ ms"
      "int (length ms) = permits h n + int (Suc k) + (if pc = WkGet then 1 else 0)" "0 \<le> permits h n"
      "sem_hSemaphore (tk_semaphore tk) = h" "0 < k0" "uint (mq_nMaxSize (tk_msgQueue tk)) = k0"
    using inv s by (auto simp: task_inv_def)
  let ?c = "ObjectOp ReleaseSemaphore h [1]"
  have w: "post_wake env s = (tk, m, snd (sys env ?c n))"
    using ms(5) by (simp add: s post_wake_def on_semaphore_def CSemaphore_UnLock_def CSemaphore_Release_def
      object_op_def case_prod_unfold Let_def)
  have "int (length ms) \<le> k0" using repr_bound [of ms "tk_msgQueue tk" m x] ms(1,6,7) by (simp add: s)
  then have "permits h n < k0" using ms(3) by (simp split: if_splits)
  then have "is_true (env (n_trace n) ?c)" using env ms(4) by (simp add: sem_env_ok_def)
  then have "permits h (snd (sys env ?c n)) = permits h n + 1" by (simp add: permits_sys)
  then show ?thesis using ms unfolding task_inv_def w by (intro case_prodI exI [of _ ms]) (simp add: s)
qed

lemma task_work_inv:
  assumes inv: "task_inv h k0 (pc, k, acc, done, x, s)" and env: "sem_env_ok env h k0" and proc: "proc_ok proc h"
    and go: "pc = WkLock \<Longrightarrow> 0 < permits h (snd (snd s))"
    and ret: "CSLTask_Run_step env proc pc x s = Inr (pc', x', s')"
  shows "task_inv h k0 (pc', k, acc, if pc = WkDo then done @ [task_view x s] else done, x', s')"
proof -
  obtain tk m n where s: "s = (tk, m, n)" by (metis prod.exhaust)
  obtain ms where ms: "mq_repr ms (task_mq x s)"
      "acc = done @ (if pc = WkDo then [task_view x s] else []) @ ms"
      "int (length ms) = permits h n + int k + (if pc = WkGet then 1 else 0)" "0 \<le> permits h n"
      "sem_hSemaphore (tk_semaphore tk) = h" "0 < k0" "uint (mq_nMaxSize (tk_msgQueue tk)) = k0"
    using inv s by (auto simp: task_inv_def)
  show ?thesis
  proof (cases pc)
    case WkCheck
    then have e: "pc' = WkExit \<or> pc' = WkLock" "x' = x" "s' = s"
      using ret by (cases "CThreadGroup_IsStop (tk_threadGroup (fst s))"; simp)+
    show ?thesis using ms e(1) WkCheck unfolding task_inv_def e(2,3)
      by (intro case_prodI exI [of _ ms]) (auto simp del: mq_repr.simps simp: s)
  next
    case WkLock
    let ?c = "WaitObject h INFINITE"
    have p: "0 < permits h n" using go WkLock by (simp add: s)
    then have "env (n_trace n) ?c = Ok WAIT_OBJECT_0" using env by (simp add: sem_env_ok_def)
    then have "permits h (snd (sys env ?c n)) = permits h n - 1" by (simp add: permits_sys)
    moreover have "pc' = WkGet" "x' = x" "s' = (tk, m, snd (sys env ?c n))"
      using ret WkLock ms(5) by (simp_all add: s on_semaphore_def CSemaphore_Lock_def CSemaphore_Lock_timeout_def
        CSemaphore_Wait_def wait_object_def case_prod_unfold Let_def)
    ultimately show ?thesis using ms p WkLock unfolding task_inv_def
      by (intro case_prodI exI [of _ ms]) (simp add: s)
  next
    case WkGet
    then have "0 < length ms" using ms(3,4) by (cases ms) auto
    then obtain y ms' where y: "ms = y # ms'" by (cases ms) auto
    obtain z where z: "mq_deq (task_mq x s) = Inr (0, z)" "mq_repr ms' z" "mq_delivered z = y"
      using mq.deq_ok [of y ms' "task_mq x s"] ms(1) y by blast
    obtain o' q' m' where d: "CSLMessageQueue_Dequeue x (tk_msgQueue tk, m) = Inr (0, o', q', m')" "z = ((q', m'), o')"
      using z(1) by (auto simp: s res_simps)
    have e: "pc' = WkDo" "x' = o'" "s' = (tk\<lparr>tk_msgQueue := q'\<rparr>, m', n)"
      using ret WkGet d(1) by (auto simp: s CSLTask_GetMessage_def on_queue_def dequeue_to_def res_simps)
    show ?thesis using ms z(2,3) d Dequeue_max [OF d(1)] WkGet y unfolding task_inv_def e
      by (intro case_prodI exI [of _ ms']) (auto simp: s)
  next
    case WkDo
    obtain r n' where r: "proc x (tk, m, n) = (r, tk, m, n')" "permits h n' = permits h n"
      using proc unfolding proc_ok_def by blast
    have e: "pc' = WkCheck" "x' = x" "s' = (tk, m, n')" using ret WkDo r(1) by (simp_all add: s)
    show ?thesis using ms r(2) WkDo unfolding task_inv_def e by (intro case_prodI exI [of _ ms]) (simp add: s)
  next
    case WkExit
    then have e: "pc' = WkExit" "x' = x" "s' = (tk, m, n)" using ret by (simp_all add: s)
    show ?thesis using ms WkExit unfolding task_inv_def e by (intro case_prodI exI [of _ ms]) (simp add: s)
  qed
qed

lemma task_step_inv:
  assumes "task_step env proc h y z" "task_inv h k0 y" "sem_env_ok env h k0" "proc_ok proc h"
  shows "task_inv h k0 z"
  using assms(1,2)
proof (induction rule: task_step.induct)
  case (post x s c r s' pc k acc dn)
  show ?case using task_post_inv [OF post(3) post(1,2)] .
next
  case (wake pc k acc dn x s)
  show ?case using task_wake_inv [OF wake assms(3)] .
next
  case (work pc s x pc' x' s' k acc dn)
  show ?case using task_work_inv [OF work(3) assms(3,4) work(1,2)] .
qed

lemma task_reach_inv:
  assumes "(task_step env proc h)\<^sup>*\<^sup>* y z" "task_inv h k0 y" "sem_env_ok env h k0" "proc_ok proc h"
  shows "task_inv h k0 z"
  using assms by (induction rule: rtranclp_induct) (auto intro: task_step_inv)

section \<open>Activating a task\<close>

lemma start_permits:
  "permits h (snd (snd (start_threads env p a k c (g, n)))) = permits h n"
proof (induction c arbitrary: g n)
  case (Suc c)
  have "sem_delta h (ObjectOp SetThreadPriority x xs, r) = 0 \<and> sem_delta h (CreateObject j xs, r) = 0" for x xs r j
    by (cases r) simp_all
  then show ?case using Suc by (simp add: begin_thread_def make_handle_def object_op_def case_prod_unfold Let_def
      permits_sys split: option.split)
qed simp

lemma Activate_inv:
  assumes m: "objheap_ok m" "cheap_ok (oh_world m)" and k: "0 < sint K"
    and act: "CSLTask_Activate env run c K (CSLTask_new this, m, n) = Inr (b, s0)"
    and h: "h = sem_hSemaphore (tk_semaphore (fst s0))" "permits h n = 0"
  shows "task_inv h (uint K) (WkCheck, 0, [], [], CSLMessageQueueNode_new, s0)"
proof -
  have n: "bb_bOwner (mqn_msg CSLMessageQueueNode_new)" "bb_ok (mqn_msg CSLMessageQueueNode_new) (oh_world m)"
    by (simp_all add: CSLMessageQueueNode_new_def bb_ok_def CByteBuffer_new_def)
  obtain q' m' where q: "CSLMessageQueue_Init K (CSLMessageQueue_new, m) = Inr (q', m')"
      "mq_repr [] ((q', m'), CSLMessageQueueNode_new)" "mq_nMaxSize q' = K"
    using mq_init_ok [OF m(1) n m(2), of K] by blast
  obtain b2 g2 n2 where st: "CThreadGroup_Start env run this c 0 (CThreadGroup_new,
      snd (make_handle env (CreateObject KSemaphore [0, sint K]) n)) = (b2, g2, n2)"
    by (metis prod.exhaust)
  have "permits h n2 = permits h (snd (make_handle env (CreateObject KSemaphore [0, sint K]) n))"
    using st start_permits [of h env run this "Some 0" "nat c" CThreadGroup_new
        "snd (make_handle env (CreateObject KSemaphore [0, sint K]) n)"]
    by (auto simp: CThreadGroup_Start_def CThreadGroup_Clear_def CThreadGroup_new_def Let_def split: if_splits prod.splits)
  also have "\<dots> = 0"
    using h(2) by (simp add: make_handle_def case_prod_unfold Let_def permits_sys)
  finally have p: "permits h n2 = 0" .
  have s0: "\<exists>sem. s0 = (CSLTask_new this\<lparr>tk_msgQueue := q', tk_semaphore := sem, tk_threadGroup := g2\<rparr>, m', n2)"
    using act q(1) st by (auto simp: CSLTask_Activate_def on_queue_def on_semaphore_def on_threads_def CSLTask_new_def
      CSemaphore_Create_def CSemaphore_new_def case_prod_unfold Let_def)
  have "0 < uint K" using k by (metis sint_0 uint_0_iff uint_ge_0 order_less_le less_irrefl word_uint_eqI unsigned_0)
  then show ?thesis using s0 p q(2,3) h(1) unfolding task_inv_def by (auto simp del: mq_repr.simps)
qed

section \<open>Properties\<close>


section \<open>Witnesses\<close>

definition task_demo_env :: env where
  "task_demo_env t c = (case c of WaitObject h t \<Rightarrow> Ok WAIT_OBJECT_0 | CreateObject k xs \<Rightarrow> Ok 5 | _ \<Rightarrow> Ok 1)"

definition task_demo :: "cerror + task_state" where
  "task_demo = rbind (CSLTask_Activate task_demo_env 7 1 2 (CSLTask_new 9, mq_demo_heap, net0))
     (\<lambda>(b, s). Inr s)"

lemma task_demo_facts:
  "case task_demo of Inl e \<Rightarrow> False | Inr s \<Rightarrow> sem_hSemaphore (tk_semaphore (fst s)) = 5 \<and>
     mq_call_ready (1, 2, 7, 0) (task_mq CSLMessageQueueNode_new s) \<and>
     mq_payload (1, 2, 7, 0) (task_mq CSLMessageQueueNode_new s) = ([1, 2], 7, 0) \<and>
     (case post_msg (1, 2, 7, 0) s of Inl e \<Rightarrow> False | Inr (r, s') \<Rightarrow> r = 0)"
  by code_simp


end
