(* ===== verification/PoolMem.thy ===== *)
theory PoolMem
  imports NetFacts
begin

text \<open>
  What the allocators of SLAlloc.h, SLNormalMemoryPool.h and SLScopeMemoryPool.h share: the basic
  allocators below them, pointers that are stored in memory, regions of memory that do not overlap,
  and the contract of a memory pool. The pools keep their lists inside the blocks that they manage,
  so pointers are four bytes of the flat memory \<open>n_bytes\<close>, and their users may write whatever
  they like to the regions that they hold.
\<close>

section \<open>The basic allocators\<close>

text \<open>The default, \<open>SLBASICALLOC\<close>, is the process heap.\<close>

definition CSLBasicHeapAlloc_allocate :: "env \<Rightarrow> nat \<Rightarrow> net \<Rightarrow> addr \<times> net" where
  "CSLBasicHeapAlloc_allocate env k n = (let (r, n1) = sys env (HeapAlloc k) n in (ret_ptr r, n1))"

definition CSLBasicHeapAlloc_deallocate :: "env \<Rightarrow> addr \<Rightarrow> net \<Rightarrow> cerror + net" where
  "CSLBasicHeapAlloc_deallocate env p n =
     (if p \<noteq> NULL \<and> blocks (n_trace n) p = None then Inl DoubleFree
      else Inr (snd (sys env (HeapFree p) n)))"

definition CSLBasicHeapAlloc_reallocate :: "env \<Rightarrow> addr \<Rightarrow> nat \<Rightarrow> net \<Rightarrow> addr \<times> net" where
  "CSLBasicHeapAlloc_reallocate env p k n = (let (r, n1) = sys env (HeapReAlloc p k) n in (ret_ptr r, n1))"

section \<open>Regions\<close>

type_synonym region = "addr \<times> nat"

fun rng :: "region \<Rightarrow> addr set" where
  "rng (p, k) = {p..<p + k}"

definition apart :: "region list \<Rightarrow> bool" where
  "apart rs \<longleftrightarrow> sorted_wrt (\<lambda>r s. rng r \<inter> rng s = {}) rs"

lemma apart_Nil [simp]: "apart []"
  by (simp add: apart_def)

lemma apart_Cons [simp]: "apart (r # rs) \<longleftrightarrow> (\<forall>s \<in> set rs. rng r \<inter> rng s = {}) \<and> apart rs"
  by (simp add: apart_def)

lemma apart_append [simp]:
  "apart (rs @ ss) \<longleftrightarrow> apart rs \<and> apart ss \<and> (\<forall>r \<in> set rs. \<forall>s \<in> set ss. rng r \<inter> rng s = {})"
  by (simp add: apart_def sorted_wrt_append)

lemma apart_nth:
  assumes "apart rs" "i < length rs" "j < length rs" "i \<noteq> j"
  shows "rng (rs ! i) \<inter> rng (rs ! j) = {}"
proof (cases "i < j")
  case True
  then show ?thesis using assms sorted_wrt_nth_less unfolding apart_def by fastforce
next
  case False
  then have "j < i" using assms(4) by simp
  then have "rng (rs ! j) \<inter> rng (rs ! i) = {}" using assms sorted_wrt_nth_less unfolding apart_def by fastforce
  then show ?thesis by (simp add: Int_commute)
qed

lemma apartI:
  assumes "distinct (map fst H)"
    and "\<And>p k q j. (p, k) \<in> set H \<Longrightarrow> (q, j) \<in> set H \<Longrightarrow> p \<noteq> q \<Longrightarrow> rng (p, k) \<inter> rng (q, j) = {}"
  shows "apart H"
  using assms
proof (induction H)
  case (Cons r H)
  have "rng r \<inter> rng x = {}" if "x \<in> set H" for x
  proof -
    have "fst r \<noteq> fst x" using Cons.prems(1) that by auto
    then show ?thesis using Cons.prems(2) [of "fst r" "snd r" "fst x" "snd x"] that by simp
  qed
  moreover have "apart H" using Cons.IH Cons.prems by (simp del: rng.simps)
  ultimately show ?case by simp
qed simp

text \<open>A region lies in one allocated block.\<close>

definition fits :: "net \<Rightarrow> addr \<Rightarrow> nat \<Rightarrow> bool" where
  "fits n p k \<longleftrightarrow>
     list_ex (\<lambda>b. case blocks (n_trace n) b of None \<Rightarrow> False | Some m \<Rightarrow> p + k \<le> b + m) [1..<Suc p]"

lemma fits_iff: "fits n p k \<longleftrightarrow> (\<exists>b m. 0 < b \<and> b \<le> p \<and> blocks (n_trace n) b = Some m \<and> p + k \<le> b + m)"
proof -
  have "fits n p k \<longleftrightarrow> (\<exists>b \<in> set [1..<Suc p]. \<exists>m. blocks (n_trace n) b = Some m \<and> p + k \<le> b + m)"
    unfolding fits_def list_ex_iff by (rule bex_cong [OF refl]) (simp split: option.split)
  then show ?thesis unfolding set_upt Bex_def by (simp add: less_Suc_eq_le Suc_le_eq)
qed

lemma fitsI: "blocks (n_trace n) b = Some m \<Longrightarrow> 0 < b \<Longrightarrow> b \<le> p \<Longrightarrow> p + k \<le> b + m \<Longrightarrow> fits n p k"
  by (auto simp: fits_iff)

lemma fits_mono: "fits n p k \<Longrightarrow> p \<le> q \<Longrightarrow> q + j \<le> p + k \<Longrightarrow> fits n q j"
  unfolding fits_iff by (meson dual_order.trans)

lemma fits_sub:
  "fits n p k \<Longrightarrow> (\<And>b m. blocks (n_trace n) b = Some m \<Longrightarrow> blocks (n_trace n') b = Some m) \<Longrightarrow> fits n' p k"
  unfolding fits_iff by blast

lemma fits_pos: "fits n p k \<Longrightarrow> 0 < p"
  unfolding fits_iff by auto

section \<open>The heap\<close>

text \<open>In a process with 32-bit addresses a block ends below $2^{32}$; blocks do not overlap.\<close>

definition heap32 :: "env \<Rightarrow> bool" where
  "heap32 env \<longleftrightarrow> heap_env_ok env \<and>
     (\<forall>t k p. env t (HeapAlloc k) = Ok p \<longrightarrow> 0 < p \<longrightarrow> nat p + k \<le> 2 ^ 32)"

definition blocks_ok :: "(addr \<Rightarrow> nat option) \<Rightarrow> bool" where
  "blocks_ok B \<longleftrightarrow> (\<forall>p m. B p = Some m \<longrightarrow> 0 < p \<and> p + m \<le> 2 ^ 32) \<and>
     (\<forall>p m q k. B p = Some m \<longrightarrow> B q = Some k \<longrightarrow> p \<noteq> q \<longrightarrow> rng (p, m) \<inter> rng (q, k) = {})"

definition heap_ok :: "env \<Rightarrow> net \<Rightarrow> bool" where
  "heap_ok env n \<longleftrightarrow> heap32 env \<and> blocks_ok (blocks (n_trace n))"

lemma heap_okD: "heap_ok env n \<Longrightarrow> blocks (n_trace n) p = Some m \<Longrightarrow> 0 < p \<and> p + m \<le> 2 ^ 32"
  by (simp add: heap_ok_def blocks_ok_def)

lemma heap_ok_apart:
  "heap_ok env n \<Longrightarrow> blocks (n_trace n) p = Some m \<Longrightarrow> blocks (n_trace n) q = Some k \<Longrightarrow> p \<noteq> q \<Longrightarrow>
   rng (p, m) \<inter> rng (q, k) = {}"
  unfolding heap_ok_def blocks_ok_def by blast

lemma heap_ok_same: "heap_ok env n \<Longrightarrow> n_trace n' = n_trace n \<Longrightarrow> heap_ok env n'"
  by (simp add: heap_ok_def)

lemma heap_alloc_ok:
  assumes "heap_ok env n" "CSLBasicHeapAlloc_allocate env k n = (p, n')"
  shows "heap_ok env n'" "n_bytes n' = n_bytes n"
    "blocks (n_trace n') = (if p = NULL then blocks (n_trace n) else (blocks (n_trace n))(p \<mapsto> k))"
    "p \<noteq> NULL \<Longrightarrow> blocks (n_trace n) p = None \<and> (\<forall>q j. fits n q j \<longrightarrow> rng (p, k) \<inter> rng (q, j) = {}) \<and> p + k \<le> 2 ^ 32"
proof -
  let ?r = "env (n_trace n) (HeapAlloc k)"
  have n': "p = ret_ptr ?r" "n' = n\<lparr>n_trace := n_trace n @ [(HeapAlloc k, ?r)]\<rparr>"
    using assms(2) by (auto simp: CSLBasicHeapAlloc_allocate_def sys_def)
  then show "n_bytes n' = n_bytes n" by simp
  show B: "blocks (n_trace n') = (if p = NULL then blocks (n_trace n) else (blocks (n_trace n))(p \<mapsto> k))"
    using n' by (cases ?r) (auto simp: blocks_snoc)
  have new: "disjoint_from p k (blocks (n_trace n)) \<and> p + k \<le> 2 ^ 32" if p: "p \<noteq> NULL"
  proof -
    obtain v where "?r = Ok v" "p = nat v" using n'(1) p by (cases ?r) auto
    moreover have "0 < v" using calculation p by simp
    ultimately show ?thesis using assms(1) by (auto simp: heap_ok_def heap32_def heap_env_ok_def)
  qed
  show "heap_ok env n'"
    using assms(1) new unfolding heap_ok_def blocks_ok_def B disjoint_from_def
    by (cases "p = NULL") (auto simp del: rng.simps simp: rng.simps [abs_def] split: if_splits)
  show "p \<noteq> NULL \<Longrightarrow> blocks (n_trace n) p = None \<and> (\<forall>q j. fits n q j \<longrightarrow> rng (p, k) \<inter> rng (q, j) = {}) \<and> p + k \<le> 2 ^ 32"
  proof -
    assume p: "p \<noteq> NULL"
    have "rng (p, k) \<inter> rng (q, j) = {}" if q: "fits n q j" for q j
    proof -
      obtain b m where b: "b \<le> q" "blocks (n_trace n) b = Some m" "q + j \<le> b + m" using q by (auto simp: fits_iff)
      have "{p..<p + k} \<inter> {b..<b + m} = {}" using new [OF p] b(2) unfolding disjoint_from_def by blast
      moreover have "{q..<q + j} \<subseteq> {b..<b + m}" using b by auto
      ultimately show ?thesis by auto
    qed
    then show ?thesis using new [OF p] disjoint_fromD by blast
  qed
qed

lemma heap_free_ok:
  assumes "heap_ok env n" "blocks (n_trace n) p = Some m"
  shows "\<exists>n'. CSLBasicHeapAlloc_deallocate env p n = Inr n' \<and> heap_ok env n' \<and> n_bytes n' = n_bytes n \<and>
           blocks (n_trace n') = (blocks (n_trace n))(p := None)"
proof -
  let ?n = "snd (sys env (HeapFree p) n)"
  have B: "blocks (n_trace ?n) = (blocks (n_trace n))(p := None)" by (simp add: sys_def blocks_snoc)
  have "heap_ok env ?n" using assms(1) unfolding heap_ok_def blocks_ok_def B by (auto simp del: rng.simps split: if_splits)
  then show ?thesis using assms(2) B by (simp add: CSLBasicHeapAlloc_deallocate_def sys_def)
qed

text \<open>The heap can refuse a request.\<close>

definition heap_can_fail :: "env \<Rightarrow> bool" where
  "heap_can_fail env \<longleftrightarrow> (\<exists>t k. ret_ptr (env t (HeapAlloc k)) = NULL)"

lemma heap_alloc_null: "CSLBasicHeapAlloc_allocate env k n = (NULL, n1) \<Longrightarrow> heap_can_fail env"
  unfolding heap_can_fail_def by (auto simp: CSLBasicHeapAlloc_allocate_def sys_def intro!: exI)

section \<open>Pointers in memory\<close>

definition ptr_at :: "(addr \<Rightarrow> byte) \<Rightarrow> addr \<Rightarrow> addr" where
  "ptr_at b p = le_val (mem_read b p 4)"

definition load_ptr :: "addr \<Rightarrow> net \<Rightarrow> cerror + addr" where
  "load_ptr p n =
     (if p = NULL then Inl NullDeref else if fits n p 4 then Inr (ptr_at (n_bytes n) p) else Inl UseAfterFree)"

definition store_ptr :: "addr \<Rightarrow> addr \<Rightarrow> net \<Rightarrow> cerror + net" where
  "store_ptr p v n =
     (if p = NULL then Inl NullDeref
      else if fits n p 4 then Inr (n\<lparr>n_bytes := mem_write (n_bytes n) p (le_bytes 4 v)\<rparr>)
      else Inl UseAfterFree)"

lemma mem_write_other: "a \<notin> rng (p, length bs) \<Longrightarrow> mem_write b p bs a = b a"
  by (auto simp: mem_write_def)

lemma mem_read_rng_cong: "(\<And>a. a \<in> rng (p, k) \<Longrightarrow> b a = b' a) \<Longrightarrow> mem_read b p k = mem_read b' p k"
  by (auto simp: mem_read_def)

lemma mem_read_write: "mem_read (mem_write b p bs) p (length bs) = bs"
  by (rule nth_equalityI) (auto simp: mem_read_def mem_write_def)

lemma ptr_at_write [simp]: "v < 2 ^ 32 \<Longrightarrow> ptr_at (mem_write b p (le_bytes 4 v)) p = v"
  using mem_read_write [of b p "le_bytes 4 v"] by (simp add: ptr_at_def le_val_le_bytes)

lemma ptr_at_cong: "(\<And>a. a \<in> rng (p, 4) \<Longrightarrow> b a = b' a) \<Longrightarrow> ptr_at b p = ptr_at b' p"
  unfolding ptr_at_def using mem_read_rng_cong by metis

text \<open>A list that is linked through the first four bytes of its elements.\<close>

fun ptr_chain :: "(addr \<Rightarrow> byte) \<Rightarrow> addr \<Rightarrow> addr list \<Rightarrow> bool" where
  "ptr_chain b p [] = (p = NULL)"
| "ptr_chain b p (q # qs) = (p = q \<and> p \<noteq> NULL \<and> ptr_chain b (ptr_at b q) qs)"

lemma ptr_chain_cong:
  "ptr_chain b p qs \<Longrightarrow> (\<And>q a. q \<in> set qs \<Longrightarrow> a \<in> rng (q, 4) \<Longrightarrow> b' a = b a) \<Longrightarrow> ptr_chain b' p qs"
proof (induction qs arbitrary: p)
  case (Cons q qs)
  have "ptr_at b' q = ptr_at b q" by (rule ptr_at_cong) (rule Cons.prems(2) [of q], simp)
  moreover have "ptr_chain b' (ptr_at b q) qs"
  proof (rule Cons.IH)
    show "ptr_chain b (ptr_at b q) qs" using Cons.prems(1) by simp
    show "x \<in> set qs \<Longrightarrow> a \<in> rng (x, 4) \<Longrightarrow> b' a = b a" for x a
      using Cons.prems(2) [of x a] by simp
  qed
  ultimately show ?case using Cons.prems(1) by simp
qed simp

lemma ptr_chain_write:
  "ptr_chain b p qs \<Longrightarrow> (\<And>q. q \<in> set qs \<Longrightarrow> rng (q, 4) \<inter> rng (a, length bs) = {}) \<Longrightarrow>
   ptr_chain (mem_write b a bs) p qs"
  by (erule ptr_chain_cong) (metis disjoint_iff mem_write_other)

lemma ptr_chain_push:
  assumes "ptr_chain b p qs" "\<And>q. q \<in> set qs \<Longrightarrow> rng (q, 4) \<inter> rng (a, 4) = {}" "a \<noteq> NULL" "p < 2 ^ 32"
  shows "ptr_chain (mem_write b a (le_bytes 4 p)) a (a # qs)"
  using ptr_chain_write [OF assms(1), of a "le_bytes 4 p"] assms by simp

lemma ptr_chain_unique: "ptr_chain b p xs \<Longrightarrow> ptr_chain b p ys \<Longrightarrow> xs = ys"
proof (induction b p xs arbitrary: ys rule: ptr_chain.induct)
  case (1 b p)
  then show ?case by (cases ys) auto
next
  case (2 b p q qs)
  then show ?case by (cases ys) auto
qed

lemma ptr_chain_null [simp]: "ptr_chain b NULL qs \<longleftrightarrow> qs = []"
  by (cases qs) auto

section \<open>Freeing a list of blocks\<close>

text \<open>The loop of the \<open>clear\<close> functions: each block starts with the pointer to the next.\<close>

partial_function (option) free_chain :: "env \<Rightarrow> addr \<Rightarrow> net \<Rightarrow> (cerror + net) option" where
  "free_chain env p n =
     (if p = NULL then Some (Inr n)
      else case rbind (load_ptr p n) (\<lambda>next.
                  rbind (CSLBasicHeapAlloc_deallocate env p n) (\<lambda>n1. Inr (next, n1))) of
             Inl e \<Rightarrow> Some (Inl e)
           | Inr (next, n1) \<Rightarrow> free_chain env next n1)"

lemma free_chain_ok:
  assumes "heap_ok env n" "ptr_chain (n_bytes n) p bs" "distinct bs"
    and "\<forall>b \<in> set bs. \<exists>m. blocks (n_trace n) b = Some m \<and> 4 \<le> m"
  shows "\<exists>n'. free_chain env p n = Some (Inr n') \<and> heap_ok env n' \<and> n_bytes n' = n_bytes n \<and>
    (\<forall>q. blocks (n_trace n') q = (if q \<in> set bs then None else blocks (n_trace n) q))"
  using assms
proof (induction bs arbitrary: p n)
  case Nil
  then show ?case by (subst free_chain.simps) simp
next
  case (Cons b bs)
  obtain m where m: "blocks (n_trace n) b = Some m" "4 \<le> m" using Cons.prems(4) by auto
  have b: "p = b" "b \<noteq> NULL" "ptr_chain (n_bytes n) (ptr_at (n_bytes n) b) bs" using Cons.prems(2) by auto
  have l: "load_ptr b n = Inr (ptr_at (n_bytes n) b)"
    using b(2) m fitsI [OF m(1), of b 4] by (simp add: load_ptr_def)
  obtain n1 where n1: "CSLBasicHeapAlloc_deallocate env b n = Inr n1" "heap_ok env n1" "n_bytes n1 = n_bytes n"
      "blocks (n_trace n1) = (blocks (n_trace n))(b := None)" using heap_free_ok [OF Cons.prems(1) m(1)] by blast
  have "\<forall>c \<in> set bs. \<exists>m. blocks (n_trace n1) c = Some m \<and> 4 \<le> m" using Cons.prems(3,4) n1(4) by auto
  then obtain n' where n': "free_chain env (ptr_at (n_bytes n) b) n1 = Some (Inr n')" "heap_ok env n'"
      "n_bytes n' = n_bytes n1"
      "\<forall>q. blocks (n_trace n') q = (if q \<in> set bs then None else blocks (n_trace n1) q)"
    using Cons.IH [OF n1(2), of "ptr_at (n_bytes n) b"] b(3) n1(3) Cons.prems(3) by auto
  have "free_chain env p n = free_chain env (ptr_at (n_bytes n) b) n1"
    using b l n1(1) by (subst free_chain.simps) simp
  then show ?case using n' n1 by auto
qed

section \<open>The contract of a memory pool\<close>

text \<open>What the users of a pool do: ask for memory, give one of their regions back, write to one of
  their regions. A state is the list of the regions that they hold and the pool.\<close>

datatype mem_op = MAlloc u32 | MFree nat | MWrite nat nat "byte list"

type_synonym 'p pool_net = "'p \<times> net"

fun put_bytes :: "addr \<Rightarrow> byte list \<Rightarrow> 'p pool_net \<Rightarrow> 'p pool_net" where
  "put_bytes p bs (x, n) = (x, n\<lparr>n_bytes := mem_write (n_bytes n) p bs\<rparr>)"

fun mem_step ::
    "(u32 \<Rightarrow> 'p pool_net \<Rightarrow> cerror + addr \<times> 'p pool_net) \<Rightarrow> (addr \<Rightarrow> 'p pool_net \<Rightarrow> cerror + 'p pool_net) \<Rightarrow>
     mem_op \<Rightarrow> region list \<times> 'p pool_net \<Rightarrow> cerror + region list \<times> 'p pool_net" where
  "mem_step alloc dealloc (MAlloc k) (H, s) =
     rbind (alloc k s) (\<lambda>(p, s'). Inr (if p = NULL then H else (p, unat k) # H, s'))"
| "mem_step alloc dealloc (MFree i) (H, s) =
     (if i < length H then rbind (dealloc (fst (H ! i)) s) (\<lambda>s'. Inr (take i H @ drop (Suc i) H, s'))
      else Inr (H, s))"
| "mem_step alloc dealloc (MWrite i off bs) (H, s) =
     (if i < length H \<and> off + length bs \<le> snd (H ! i) then Inr (H, put_bytes (fst (H ! i) + off) bs s)
      else Inr (H, s))"

fun mem_run ::
    "(u32 \<Rightarrow> 'p pool_net \<Rightarrow> cerror + addr \<times> 'p pool_net) \<Rightarrow> (addr \<Rightarrow> 'p pool_net \<Rightarrow> cerror + 'p pool_net) \<Rightarrow>
     mem_op list \<Rightarrow> region list \<times> 'p pool_net \<Rightarrow> cerror + region list \<times> 'p pool_net" where
  "mem_run alloc dealloc [] y = Inr y"
| "mem_run alloc dealloc (op # ops) y = rbind (mem_step alloc dealloc op y) (mem_run alloc dealloc ops)"

text \<open>The abstract store: the contents of the regions that are held. New memory has some contents,
  and what is done with one region leaves the others as they are.\<close>

type_synonym store = "byte list list"

fun mem_view :: "region list \<times> 'p pool_net \<Rightarrow> store" where
  "mem_view (H, x, n) = map (\<lambda>(p, k). mem_read (n_bytes n) p k) H"

definition splice :: "nat \<Rightarrow> byte list \<Rightarrow> byte list \<Rightarrow> byte list" where
  "splice off new old = take off old @ new @ drop (off + length new) old"

fun store_step :: "mem_op \<Rightarrow> store \<Rightarrow> store \<Rightarrow> bool" where
  "store_step (MAlloc k) V V' = (V' = V \<or> tl V' = V \<and> V' \<noteq> [] \<and> length (hd V') = unat k)"
| "store_step (MFree i) V V' = (V' = take i V @ drop (Suc i) V)"
| "store_step (MWrite i off bs) V V' =
     (V' = (if i < length V \<and> off + length bs \<le> length (V ! i) then V[i := splice off bs (V ! i)] else V))"

fun store_run :: "mem_op list \<Rightarrow> store \<Rightarrow> store \<Rightarrow> bool" where
  "store_run [] V V' = (V' = V)"
| "store_run (op # ops) V V' = (\<exists>V1. store_step op V V1 \<and> store_run ops V1 V')"

text \<open>The regions of a state do not overlap, and each that is not empty lies in allocated memory.\<close>

definition regions_ok :: "net \<Rightarrow> region list \<Rightarrow> bool" where
  "regions_ok n rs \<longleftrightarrow> apart rs \<and> (\<forall>(p, k) \<in> set rs. 0 < k \<longrightarrow> fits n p k)"

fun sizes_ok :: "(u32 \<Rightarrow> bool) \<Rightarrow> mem_op \<Rightarrow> bool" where
  "sizes_ok good (MAlloc k) = good k"
| "sizes_ok good op = True"

definition same_bytes :: "region list \<Rightarrow> net \<Rightarrow> net \<Rightarrow> bool" where
  "same_bytes rs n n' \<longleftrightarrow> (\<forall>r \<in> set rs. \<forall>a \<in> rng r. n_bytes n' a = n_bytes n a)"

lemma mem_read_splice:
  assumes "off + length bs \<le> k"
  shows "mem_read (mem_write b (p + off) bs) p k = splice off bs (mem_read b p k)"
proof (rule nth_equalityI)
  show "length (mem_read (mem_write b (p + off) bs) p k) = length (splice off bs (mem_read b p k))"
    using assms by (simp add: mem_read_def splice_def)
  fix i assume "i < length (mem_read (mem_write b (p + off) bs) p k)"
  then have i: "i < k" by (simp add: mem_read_def)
  consider "i < off" | "off \<le> i" "i < off + length bs" | "off + length bs \<le> i" by linarith
  then show "mem_read (mem_write b (p + off) bs) p k ! i = splice off bs (mem_read b p k) ! i"
    by cases (use i assms in \<open>auto simp: mem_read_def mem_write_def splice_def nth_append\<close>)
qed

locale mem_pool =
  fixes alloc :: "u32 \<Rightarrow> 'p pool_net \<Rightarrow> cerror + addr \<times> 'p pool_net"
    and dealloc :: "addr \<Rightarrow> 'p pool_net \<Rightarrow> cerror + 'p pool_net"
    and good :: "u32 \<Rightarrow> bool"
    and inv :: "region list \<Rightarrow> 'p pool_net \<Rightarrow> bool"
    and oom :: bool
  assumes alloc_ok: "inv H s \<Longrightarrow> good w \<Longrightarrow> alloc w s = Inr (p, s') \<Longrightarrow>
      inv (if p = NULL then H else (p, unat w) # H) s' \<and> same_bytes H (snd s) (snd s')"
    and alloc_fault: "inv H s \<Longrightarrow> good w \<Longrightarrow> alloc w s = Inl e \<Longrightarrow> oom"
    and dealloc_ok: "inv (H1 @ (p, k) # H2) s \<Longrightarrow>
      \<exists>s'. dealloc p s = Inr s' \<and> inv (H1 @ H2) s' \<and> same_bytes (H1 @ H2) (snd s) (snd s')"
    and write_ok: "inv H s \<Longrightarrow> (p, k) \<in> set H \<Longrightarrow> off + length bs \<le> k \<Longrightarrow> inv H (put_bytes (p + off) bs s)"
    and regions: "inv H s \<Longrightarrow> regions_ok (snd s) H"
begin

lemma step_inv:
  assumes "inv H s" "sizes_ok good op" "mem_step alloc dealloc op (H, s) = Inr (H', s')"
  shows "inv H' s'"
proof (cases op)
  case (MAlloc k)
  then obtain p where "alloc k s = Inr (p, s')" "H' = (if p = NULL then H else (p, unat k) # H)"
    using assms(3) by (auto simp: res_simps)
  then show ?thesis using alloc_ok [OF assms(1)] assms(2) MAlloc by simp
next
  case (MFree i)
  show ?thesis
  proof (cases "i < length H")
    case True
    obtain p k where r: "H ! i = (p, k)" by (metis prod.exhaust)
    have H: "H = take i H @ (p, k) # drop (Suc i) H" using id_take_nth_drop [OF True] r by simp
    obtain s1 where "dealloc p s = Inr s1" "inv (take i H @ drop (Suc i) H) s1"
      using dealloc_ok [of "take i H" p k "drop (Suc i) H" s] assms(1) H by auto
    then show ?thesis using assms(3) MFree True r by auto
  qed (use assms MFree in auto)
next
  case (MWrite i off bs)
  obtain p k where r: "H ! i = (p, k)" by (metis prod.exhaust)
  show ?thesis
  proof (cases "i < length H \<and> off + length bs \<le> k")
    case True
    then have "(p, k) \<in> set H" using r nth_mem [of i H] by simp
    from write_ok [OF assms(1) this] show ?thesis using assms(3) MWrite True r by auto
  qed (use assms MWrite r in auto)
qed

text \<open>The contents of the regions.\<close>

lemma view_same: "same_bytes H (snd s) (snd s') \<Longrightarrow> mem_view (H, s') = mem_view (H, s)"
proof -
  assume eq: "same_bytes H (snd s) (snd s')"
  obtain x n x' n' where s: "s = (x, n)" "s' = (x', n')" by (metis prod.exhaust)
  have "mem_read (n_bytes n') p k = mem_read (n_bytes n) p k" if "(p, k) \<in> set H" for p k
    by (rule mem_read_rng_cong) (use eq that in \<open>auto simp: same_bytes_def s\<close>)
  then show ?thesis by (auto simp: s)
qed

lemma length_view: "length (mem_view (H, s)) = length H" "i < length H \<Longrightarrow> length (mem_view (H, s) ! i) = snd (H ! i)"
  by (cases s; auto simp: mem_read_def case_prod_unfold)+

lemma view_append: "mem_view (H1 @ H2, s) = mem_view (H1, s) @ mem_view (H2, s)"
  by (cases s) simp

lemma step_view:
  assumes "inv H s" "sizes_ok good op" "mem_step alloc dealloc op (H, s) = Inr (H', s')"
  shows "store_step op (mem_view (H, s)) (mem_view (H', s'))"
proof (cases op)
  case (MAlloc k)
  then obtain p where p: "alloc k s = Inr (p, s')" "H' = (if p = NULL then H else (p, unat k) # H)"
    using assms(3) by (auto simp: res_simps)
  have "mem_view (H, s') = mem_view (H, s)" using alloc_ok [OF assms(1) _ p(1)] assms(2) MAlloc by (simp add: view_same)
  then show ?thesis using MAlloc p(2) by (cases s') (auto simp: mem_read_def)
next
  case (MFree i)
  show ?thesis
  proof (cases "i < length H")
    case True
    obtain p k where r: "H ! i = (p, k)" by (metis prod.exhaust)
    let ?H = "take i H @ drop (Suc i) H"
    have "H = take i H @ (p, k) # drop (Suc i) H" using id_take_nth_drop [OF True] r by simp
    then obtain s1 where "dealloc p s = Inr s1" "same_bytes ?H (snd s) (snd s1)"
      using dealloc_ok [of "take i H" p k "drop (Suc i) H" s] assms(1) by auto
    then have "H' = ?H" "mem_view (?H, s') = mem_view (?H, s)" using assms(3) MFree True r by (auto simp: view_same)
    then show ?thesis using MFree by (cases s) (simp add: take_map drop_map)
  next
    case False
    then have "drop (Suc i) (mem_view (H, s)) = []" "take i (mem_view (H, s)) = mem_view (H, s)"
      using length_view(1) [of H s] by simp_all
    then show ?thesis using assms(3) MFree False by simp
  qed
next
  case (MWrite i off bs)
  obtain p k where r: "H ! i = (p, k)" by (metis prod.exhaust)
  show ?thesis
  proof (cases "i < length H \<and> off + length bs \<le> k")
    case True
    obtain x n where s: "s = (x, n)" by (cases s)
    let ?b = "mem_write (n_bytes n) (p + off) bs"
    have s': "H' = H" "s' = put_bytes (p + off) bs s" using assms(3) MWrite True r by auto
    have ap: "apart H" using regions [OF assms(1)] by (simp add: regions_ok_def)
    have i: "mem_read ?b p k = splice off bs (mem_read (n_bytes n) p k)"
      using True by (simp add: mem_read_splice)
    have "mem_read ?b q j = mem_read (n_bytes n) q j" if "H ! l = (q, j)" "l < length H" "l \<noteq> i" for l q j
    proof (rule mem_read_rng_cong)
      fix a assume a: "a \<in> rng (q, j)"
      have "rng (q, j) \<inter> rng (p, k) = {}"
        using apart_nth [OF ap that(2) _ that(3)] True that(1) r by simp
      then have "a \<notin> rng (p + off, length bs)" using a True by auto
      then show "?b a = n_bytes n a" by (rule mem_write_other)
    qed
    note other = this
    have "mem_view (H', s') = (mem_view (H, s))[i := splice off bs (mem_view (H, s) ! i)]"
    proof (rule nth_equalityI)
      fix l assume "l < length (mem_view (H', s'))"
      then have l: "l < length H" by (simp add: s s')
      obtain q j where q: "H ! l = (q, j)" by (metis prod.exhaust)
      show "mem_view (H', s') ! l = (mem_view (H, s))[i := splice off bs (mem_view (H, s) ! i)] ! l"
        using other [OF q l] i l q r by (cases "l = i") (simp_all add: s s')
    qed (simp add: s s')
    then show ?thesis using MWrite True r length_view(1) [of H s] length_view(2) [of i H s] by (simp del: mem_view.simps)
  next
    case False
    then have "H' = H" "s' = s" using assms(3) MWrite r by auto
    then show ?thesis using MWrite False r length_view(1) [of H s] length_view(2) [of i H s] by (auto simp del: mem_view.simps)
  qed
qed

lemma step_fault: "inv H s \<Longrightarrow> sizes_ok good op \<Longrightarrow> mem_step alloc dealloc op (H, s) = Inl e \<Longrightarrow> oom"
proof (cases op)
  case (MAlloc k)
  assume "inv H s" "sizes_ok good op" "mem_step alloc dealloc op (H, s) = Inl e"
  then show oom using alloc_fault MAlloc by (cases "alloc k s") auto
next
  case (MFree i)
  assume a: "inv H s" "mem_step alloc dealloc op (H, s) = Inl e"
  then have i: "i < length H" using MFree by (cases "i < length H") auto
  obtain p k where r: "H ! i = (p, k)" by (metis prod.exhaust)
  have "H = take i H @ (p, k) # drop (Suc i) H" using id_take_nth_drop [OF i] r by simp
  then obtain s1 where "dealloc p s = Inr s1"
    using dealloc_ok [of "take i H" p k "drop (Suc i) H" s] a(1) by auto
  then show oom using a(2) MFree i r by simp
qed (auto split: if_splits)

text \<open>A pool implements the store: a run ends only for want of memory.\<close>

lemma run_refines:
  assumes "inv H s" "list_all (sizes_ok good) ops"
  shows "case mem_run alloc dealloc ops (H, s) of
      Inl e \<Rightarrow> oom
    | Inr (H', s') \<Rightarrow> inv H' s' \<and> regions_ok (snd s') H' \<and> store_run ops (mem_view (H, s)) (mem_view (H', s'))"
  using assms
proof (induction ops arbitrary: H s)
  case Nil
  then show ?case using regions by (simp del: mem_view.simps)
next
  case (Cons op ops)
  show ?case
  proof (cases "mem_step alloc dealloc op (H, s)")
    case (Inl e)
    then show ?thesis using step_fault [OF Cons.prems(1) _ Inl] Cons.prems(2) by simp
  next
    case (Inr y)
    obtain H1 s1 where y: "y = (H1, s1)" by (cases y)
    note st = Inr [unfolded y]
    have g: "sizes_ok good op" "list_all (sizes_ok good) ops" using Cons.prems(2) by simp_all
    show ?thesis using Cons.IH [OF step_inv [OF Cons.prems(1) g(1) st] g(2)] step_view [OF Cons.prems(1) g(1) st] st
      by (auto simp del: mem_view.simps split: sum.splits)
  qed
qed

end

section \<open>A concrete heap\<close>

text \<open>A heap with 32-bit addresses that grows upwards.\<close>

definition env32 :: env where
  "env32 t c = (case c of HeapAlloc k \<Rightarrow>
       if int (heap_top t) + 4 + int k \<le> 4294967296 then Ok (int (heap_top t) + 4) else Err 8
     | HeapReAlloc p k \<Rightarrow> Err 8 | _ \<Rightarrow> Ok 1)"

lemma env32_heap: "heap_ok env32 net0"
proof -
  have "disjoint_from (nat (int (heap_top t) + 4)) k (blocks t)" for t k
    using bump_disjoint [of "blocks t" t 4 k] by (simp add: nat_add_distrib)
  then show ?thesis
    by (auto simp: heap_ok_def heap32_def heap_env_ok_def env32_def blocks_ok_def net0_def split: if_splits)
qed

definition pool_demo_ops :: "mem_op list" where
  "pool_demo_ops = [MAlloc 3, MAlloc 2, MWrite 0 0 [7, 8], MWrite 1 1 [9], MFree 0, MAlloc 4, MWrite 0 0 [1, 2, 3, 4]]"

end
