(* ===== verification/NormalMemoryPool.thy ===== *)
theory NormalMemoryPool
  imports PoolMem
begin

text \<open>
  \<open>CSLNormalMemoryPool\<close> of SLNormalMemoryPool.h: nodes of one size, cut out of larger blocks of
  the process heap and kept in a free list. The template arguments \<open>NODE_SIZE\<close> and
  \<open>MEMORY_BLOCK_SIZE\<close> are \<open>N\<close> and \<open>M\<close>; a \<open>FreeNode\<close> is a pointer and the node's bytes, rounded up
  to the alignment of a pointer.
\<close>

section \<open>The pool\<close>

definition BLOCK_NODE_COUNT :: "nat \<Rightarrow> nat \<Rightarrow> nat" where
  "BLOCK_NODE_COUNT N M = (M - 4) div (N + 4)"

definition sizeof_FreeNode :: "nat \<Rightarrow> nat" where
  "sizeof_FreeNode N = 4 + (N + 3) div 4 * 4"

definition sizeof_MemBlock :: "nat \<Rightarrow> nat \<Rightarrow> nat" where
  "sizeof_MemBlock N M = 4 + BLOCK_NODE_COUNT N M * sizeof_FreeNode N"

text \<open>\<open>&pNewBlock->node[i]\<close>.\<close>

definition node_at :: "nat \<Rightarrow> addr \<Rightarrow> nat \<Rightarrow> addr" where
  "node_at N b i = b + 4 + i * sizeof_FreeNode N"

record CSLNormalMemoryPool =
  np_pMemBlockHeader :: addr
  np_pFreeNodeHeader :: addr
  np_destroyChain :: addr

type_synonym np_state = "CSLNormalMemoryPool pool_net"

definition CSLNormalMemoryPool_new :: CSLNormalMemoryPool where
  "CSLNormalMemoryPool_new = \<lparr>np_pMemBlockHeader = NULL, np_pFreeNodeHeader = NULL, np_destroyChain = NULL\<rparr>"

text \<open>The free header is not reset.\<close>

definition CSLNormalMemoryPool_clear :: "env \<Rightarrow> np_state \<Rightarrow> (cerror + np_state) option" where
  "CSLNormalMemoryPool_clear env s =
     (case s of (np, n) \<Rightarrow>
        map_option (\<lambda>r. rbind r (\<lambda>n1. Inr (np\<lparr>np_pMemBlockHeader := NULL\<rparr>, n1)))
          (free_chain env (np_pMemBlockHeader np) n))"

definition CSLNormalMemoryPool_delete :: "env \<Rightarrow> np_state \<Rightarrow> (cerror + np_state) option" where
  "CSLNormalMemoryPool_delete env s = CSLNormalMemoryPool_clear env s"

text \<open>The loop that links node \<open>i\<close> and the \<open>c\<close> after it.\<close>

fun np_link :: "nat \<Rightarrow> addr \<Rightarrow> nat \<Rightarrow> nat \<Rightarrow> net \<Rightarrow> cerror + net" where
  "np_link N b i 0 n = Inr n"
| "np_link N b i (Suc c) n =
     rbind (store_ptr (node_at N b i) (node_at N b (Suc i)) n) (np_link N b (Suc i) c)"

definition np_new_block :: "env \<Rightarrow> nat \<Rightarrow> nat \<Rightarrow> np_state \<Rightarrow> cerror + np_state" where
  "np_new_block env N M s =
     (case s of (np, n) \<Rightarrow>
        let (b, n1) = CSLBasicHeapAlloc_allocate env (sizeof_MemBlock N M) n
        in if b = NULL then Inl NullDeref
           else if BLOCK_NODE_COUNT N M = 0 then Inl OutOfBounds
           else rbind (np_link N b 0 (BLOCK_NODE_COUNT N M - 1) n1) (\<lambda>n2.
                rbind (store_ptr (node_at N b (BLOCK_NODE_COUNT N M - 1)) NULL n2) (\<lambda>n3.
                rbind (store_ptr b (np_pMemBlockHeader np) n3) (\<lambda>n4.
                  Inr (np\<lparr>np_pFreeNodeHeader := node_at N b 0, np_pMemBlockHeader := b\<rparr>, n4)))))"

definition CSLNormalMemoryPool_allocate :: "env \<Rightarrow> nat \<Rightarrow> nat \<Rightarrow> u32 \<Rightarrow> np_state \<Rightarrow> cerror + addr \<times> np_state" where
  "CSLNormalMemoryPool_allocate env N M k s =
     (if N < unat k then Inr (NULL, s)
      else rbind (if np_pFreeNodeHeader (fst s) = NULL then np_new_block env N M s else Inr s) (\<lambda>(np, n).
           rbind (load_ptr (np_pFreeNodeHeader np) n) (\<lambda>next.
             Inr (np_pFreeNodeHeader np + 4, np\<lparr>np_pFreeNodeHeader := next\<rparr>, n))))"

definition CSLNormalMemoryPool_deallocate :: "addr \<Rightarrow> np_state \<Rightarrow> cerror + np_state" where
  "CSLNormalMemoryPool_deallocate p s =
     (case s of (np, n) \<Rightarrow>
        rbind (store_ptr (p - 4) (np_pFreeNodeHeader np) n) (\<lambda>n1. Inr (np\<lparr>np_pFreeNodeHeader := p - 4\<rparr>, n1)))"

text \<open>\<open>construct\<close> and \<open>destroy\<close>, with the constructor and the destructor of the objects as
  arguments; \<open>T\<close> is \<open>sizeof(T)\<close>.\<close>

definition CSLNormalMemoryPool_construct ::
    "env \<Rightarrow> nat \<Rightarrow> nat \<Rightarrow> u32 \<Rightarrow> (addr \<Rightarrow> net \<Rightarrow> cerror + net) \<Rightarrow> np_state \<Rightarrow> cerror + addr \<times> np_state" where
  "CSLNormalMemoryPool_construct env N M T ctor s =
     rbind (CSLNormalMemoryPool_allocate env N M T s) (\<lambda>(p, np, n). rbind (ctor p n) (\<lambda>n1. Inr (p, np, n1)))"

definition CSLNormalMemoryPool_construct_at :: "(addr \<Rightarrow> net \<Rightarrow> cerror + net) \<Rightarrow> addr \<Rightarrow> np_state \<Rightarrow> cerror + np_state" where
  "CSLNormalMemoryPool_construct_at ctor p s = (case s of (np, n) \<Rightarrow> rbind (ctor p n) (\<lambda>n1. Inr (np, n1)))"

definition CSLNormalMemoryPool_destroy :: "(addr \<Rightarrow> net \<Rightarrow> cerror + net) \<Rightarrow> addr \<Rightarrow> np_state \<Rightarrow> cerror + np_state" where
  "CSLNormalMemoryPool_destroy dtor p s =
     (case s of (np, n) \<Rightarrow> rbind (dtor p n) (\<lambda>n1. CSLNormalMemoryPool_deallocate p (np, n1)))"

section \<open>Nodes of a block\<close>

lemma sizeof_FreeNode_ge: "N + 4 \<le> sizeof_FreeNode N" "4 \<le> sizeof_FreeNode N"
  by (auto simp: sizeof_FreeNode_def)

lemma node_next: "node_at N b (Suc i) = node_at N b i + sizeof_FreeNode N"
  by (simp add: node_at_def)

lemma node_mono: "i < j \<Longrightarrow> node_at N b i + sizeof_FreeNode N \<le> node_at N b j"
proof -
  assume "i < j"
  then have "Suc i * sizeof_FreeNode N \<le> j * sizeof_FreeNode N" by (intro mult_le_mono1) simp
  then show ?thesis by (simp add: node_at_def)
qed

lemma node_in_block:
  "i < BLOCK_NODE_COUNT N M \<Longrightarrow> b + 4 \<le> node_at N b i \<and> node_at N b i + sizeof_FreeNode N \<le> b + sizeof_MemBlock N M"
  using node_mono [of i "BLOCK_NODE_COUNT N M" N b] by (simp add: node_at_def sizeof_MemBlock_def)

lemma nodes_disjoint: "i \<noteq> j \<Longrightarrow> rng (node_at N b i, sizeof_FreeNode N) \<inter> rng (node_at N b j, sizeof_FreeNode N) = {}"
  using node_mono [of i j N b] node_mono [of j i N b] by (cases "i < j") auto

lemma node_inj: "node_at N b i = node_at N b j \<longleftrightarrow> i = j"
  using sizeof_FreeNode_ge(2) [of N] by (simp add: node_at_def)

text \<open>Linking the nodes of a new block.\<close>

lemma np_link_ok:
  assumes "blocks (n_trace n) b = Some (sizeof_MemBlock N M)" "0 < b" "b + sizeof_MemBlock N M \<le> 2 ^ 32"
    and "i + c < BLOCK_NODE_COUNT N M"
  shows "\<exists>n'. np_link N b i c n = Inr n' \<and> n_trace n' = n_trace n \<and>
    (\<forall>a. a \<notin> rng (b, sizeof_MemBlock N M) \<longrightarrow> n_bytes n' a = n_bytes n a) \<and>
    (\<forall>j a. j < i \<longrightarrow> a \<in> rng (node_at N b j, 4) \<longrightarrow> n_bytes n' a = n_bytes n a) \<and>
    (\<forall>j. i \<le> j \<longrightarrow> j < i + c \<longrightarrow> ptr_at (n_bytes n') (node_at N b j) = node_at N b (Suc j))"
  using assms
proof (induction c arbitrary: i n)
  case 0
  then show ?case by simp
next
  case (Suc c)
  let ?x = "node_at N b i" and ?v = "node_at N b (Suc i)"
  let ?n = "n\<lparr>n_bytes := mem_write (n_bytes n) ?x (le_bytes 4 ?v)\<rparr>"
  have in1: "b + 4 \<le> ?x" "?x + sizeof_FreeNode N \<le> b + sizeof_MemBlock N M" "?v + 4 \<le> b + sizeof_MemBlock N M"
    using node_in_block [of i N M b] node_in_block [of "Suc i" N M b] Suc.prems(4) sizeof_FreeNode_ge(2) [of N] by auto
  have st: "store_ptr ?x ?v n = Inr ?n"
    using fitsI [OF Suc.prems(1,2), of ?x 4] in1 sizeof_FreeNode_ge(2) [of N] by (simp add: store_ptr_def)
  have v: "ptr_at (n_bytes ?n) ?x = ?v" using in1(3) Suc.prems(3) by (simp add: ptr_at_write)
  have b1: "a \<notin> rng (?x, 4) \<Longrightarrow> n_bytes ?n a = n_bytes n a" for a
    using mem_write_other [of a ?x "le_bytes 4 ?v" "n_bytes n"] by simp
  obtain n' where n': "np_link N b (Suc i) c ?n = Inr n'" "n_trace n' = n_trace ?n"
      "\<And>a. a \<notin> rng (b, sizeof_MemBlock N M) \<Longrightarrow> n_bytes n' a = n_bytes ?n a"
      "\<And>j a. j < Suc i \<Longrightarrow> a \<in> rng (node_at N b j, 4) \<Longrightarrow> n_bytes n' a = n_bytes ?n a"
      "\<And>j. Suc i \<le> j \<Longrightarrow> j < Suc i + c \<Longrightarrow> ptr_at (n_bytes n') (node_at N b j) = node_at N b (Suc j)"
    using Suc.IH [of ?n "Suc i"] Suc.prems by auto
  have "ptr_at (n_bytes n') ?x = ?v" using v ptr_at_cong [of ?x "n_bytes n'" "n_bytes ?n"] n'(4) [of i] by simp
  then have link: "ptr_at (n_bytes n') (node_at N b j) = node_at N b (Suc j)" if "i \<le> j" "j < i + Suc c" for j
    using n'(5) [of j] that by (cases "j = i") auto
  have keep: "n_bytes n' a = n_bytes n a" if "j < i" "a \<in> rng (node_at N b j, 4)" for j a
  proof -
    have "a \<notin> rng (?x, 4)"
      using nodes_disjoint [of i j N b] that sizeof_FreeNode_ge(2) [of N] by (auto dest: node_mono [of j i N b])
    then show ?thesis using n'(4) [of j a] that b1 [of a] by simp
  qed
  have out: "n_bytes n' a = n_bytes n a" if "a \<notin> rng (b, sizeof_MemBlock N M)" for a
  proof -
    have "a \<notin> rng (?x, 4)" using that in1 sizeof_FreeNode_ge(2) [of N] by auto
    then show ?thesis using n'(3) [OF that] b1 [of a] by simp
  qed
  show ?case using st n'(1,2) link keep out by (intro exI [of _ n']) auto
qed

lemma nodes_chain:
  assumes "\<And>j. j < c \<Longrightarrow> ptr_at bs (f j) = (if Suc j < c then f (Suc j) else NULL)" "\<And>j. f j \<noteq> NULL"
  shows "i < c \<Longrightarrow> ptr_chain bs (f i) (map f [i..<c])"
proof (induction "c - i" arbitrary: i)
  case (Suc d)
  have "[i..<c] = i # [Suc i..<c]" using Suc.prems by (simp add: upt_conv_Cons)
  moreover have "ptr_chain bs (ptr_at bs (f i)) (map f [Suc i..<c])"
    using Suc.hyps(1) [of "Suc i"] Suc.hyps(2) Suc.prems assms(1) [of i] by auto
  ultimately show ?case using assms(2) [of i] by simp
qed simp

section \<open>The invariant\<close>

text \<open>\<open>bs\<close> are the blocks and \<open>ns\<close> the free nodes. The node of a region in use starts four bytes
  before it.\<close>

definition np_cells :: "addr list \<Rightarrow> region list \<Rightarrow> addr list" where
  "np_cells ns H = ns @ map (\<lambda>r. fst r - 4) H"

definition np_nodes :: "nat \<Rightarrow> nat \<Rightarrow> addr list \<Rightarrow> addr list \<Rightarrow> region list \<Rightarrow> net \<Rightarrow> bool" where
  "np_nodes N M bs ns H n \<longleftrightarrow>
     distinct bs \<and> (\<forall>b \<in> set bs. blocks (n_trace n) b = Some (sizeof_MemBlock N M)) \<and>
     distinct (np_cells ns H) \<and>
     (\<forall>x \<in> set (np_cells ns H). \<exists>b \<in> set bs. \<exists>i < BLOCK_NODE_COUNT N M. x = node_at N b i) \<and>
     (\<forall>(p, k) \<in> set H. 4 < p \<and> k \<le> N)"

definition np_lists :: "addr list \<Rightarrow> addr list \<Rightarrow> np_state \<Rightarrow> bool" where
  "np_lists bs ns s = (case s of (np, n) \<Rightarrow>
     ptr_chain (n_bytes n) (np_pMemBlockHeader np) bs \<and> ptr_chain (n_bytes n) (np_pFreeNodeHeader np) ns)"

definition np_inv :: "env \<Rightarrow> nat \<Rightarrow> nat \<Rightarrow> region list \<Rightarrow> np_state \<Rightarrow> bool" where
  "np_inv env N M H s \<longleftrightarrow> heap_ok env (snd s) \<and> 1 \<le> BLOCK_NODE_COUNT N M \<and>
     (\<exists>bs ns. np_nodes N M bs ns H (snd s) \<and> np_lists bs ns s)"

lemma np_cellD:
  assumes "heap_ok env n" "np_nodes N M bs ns H n" "x \<in> set (np_cells ns H)"
  shows "\<exists>b \<in> set bs. b + 4 \<le> x \<and> x + sizeof_FreeNode N \<le> b + sizeof_MemBlock N M \<and> 0 < b \<and>
    b + sizeof_MemBlock N M \<le> 2 ^ 32 \<and> blocks (n_trace n) b = Some (sizeof_MemBlock N M)"
proof -
  obtain b i where b: "b \<in> set bs" "i < BLOCK_NODE_COUNT N M" "x = node_at N b i"
    using assms(2,3) by (auto simp: np_nodes_def)
  have "blocks (n_trace n) b = Some (sizeof_MemBlock N M)" using assms(2) b(1) by (auto simp: np_nodes_def)
  with heap_okD [OF assms(1) this] node_in_block [OF b(2), of b] b(1,3) show ?thesis by blast
qed

lemma np_cell:
  assumes "heap_ok env n" "np_nodes N M bs ns H n" "x \<in> set (np_cells ns H)"
  shows "4 < x" "x < 2 ^ 32" "k \<le> sizeof_FreeNode N \<Longrightarrow> fits n x k"
    "j + k \<le> sizeof_FreeNode N \<Longrightarrow> fits n (x + j) k"
proof -
  obtain b where b: "b + 4 \<le> x" "x + sizeof_FreeNode N \<le> b + sizeof_MemBlock N M" "0 < b"
      "b + sizeof_MemBlock N M \<le> 2 ^ 32" "blocks (n_trace n) b = Some (sizeof_MemBlock N M)"
    using np_cellD [OF assms] by blast
  then show "4 < x" "x < 2 ^ 32" using sizeof_FreeNode_ge(2) [of N] by auto
  show "fits n x k" if "k \<le> sizeof_FreeNode N" by (rule fitsI [OF b(5,3)]) (use b that in auto)
  show "fits n (x + j) k" if "j + k \<le> sizeof_FreeNode N" by (rule fitsI [OF b(5,3)]) (use b that in auto)
qed

text \<open>Different nodes do not overlap, and no node overlaps the head of a block.\<close>

lemma np_apart:
  assumes "heap_ok env n" "np_nodes N M bs ns H n" "x \<in> set (np_cells ns H)"
  shows "y \<in> set (np_cells ns H) \<Longrightarrow> x \<noteq> y \<Longrightarrow> rng (x, sizeof_FreeNode N) \<inter> rng (y, sizeof_FreeNode N) = {}"
    "c \<in> set bs \<Longrightarrow> rng (c, 4) \<inter> rng (x, sizeof_FreeNode N) = {}"
proof -
  let ?S = "sizeof_MemBlock N M"
  obtain b i where b: "b \<in> set bs" "i < BLOCK_NODE_COUNT N M" "x = node_at N b i"
    using assms(2,3) by (auto simp: np_nodes_def)
  have blk: "blocks (n_trace n) b = Some ?S" if "b \<in> set bs" for b using assms(2) that by (auto simp: np_nodes_def)
  have sub: "rng (node_at N b i, sizeof_FreeNode N) \<subseteq> rng (b, ?S)" if "i < BLOCK_NODE_COUNT N M" for b i
    using node_in_block [OF that, of b] by auto
  have ap: "rng (b, ?S) \<inter> rng (c, ?S) = {}" if "c \<in> set bs" "b \<noteq> c" for c
    using heap_ok_apart [OF assms(1) blk blk] b(1) that by blast
  show "rng (x, sizeof_FreeNode N) \<inter> rng (y, sizeof_FreeNode N) = {}"
    if y: "y \<in> set (np_cells ns H)" "x \<noteq> y"
  proof -
    obtain c j where c: "c \<in> set bs" "j < BLOCK_NODE_COUNT N M" "y = node_at N c j"
      using assms(2) y(1) by (auto simp: np_nodes_def)
    show ?thesis
    proof (cases "b = c")
      case True
      then have "i \<noteq> j" using b(3) c(3) y(2) by auto
      from nodes_disjoint [OF this, of N b] True b(3) c(3) show ?thesis by simp
    next
      case False
      then show ?thesis using ap [OF c(1)] sub [OF b(2), of b] sub [OF c(2), of c] b(3) c(3) by blast
    qed
  qed
  show "rng (c, 4) \<inter> rng (x, sizeof_FreeNode N) = {}" if c: "c \<in> set bs"
  proof (cases "b = c")
    case True
    then show ?thesis using node_in_block [OF b(2), of b] b(3) by auto
  next
    case False
    have "rng (c, 4) \<subseteq> rng (c, ?S)" by (auto simp: sizeof_MemBlock_def)
    then show ?thesis using ap [OF c False] sub [OF b(2), of b] b(3) by blast
  qed
qed

lemma np_region:
  assumes "np_nodes N M bs ns H n" "(p, k) \<in> set H"
  shows "p - 4 \<in> set (np_cells ns H)" "4 < p" "k \<le> N" "rng (p, k) \<subseteq> rng (p - 4, sizeof_FreeNode N)"
proof -
  show c: "p - 4 \<in> set (np_cells ns H)" using assms(2) by (force simp: np_cells_def)
  show p: "4 < p" "k \<le> N" using assms by (auto simp: np_nodes_def)
  show "rng (p, k) \<subseteq> rng (p - 4, sizeof_FreeNode N)" using p sizeof_FreeNode_ge(1) [of N] by auto
qed

lemma np_regions:
  assumes "np_inv env N M H s"
  shows "regions_ok (snd s) H"
proof -
  obtain np n where s: "s = (np, n)" by (cases s)
  obtain bs ns where sh: "heap_ok env n" "np_nodes N M bs ns H n" using assms by (auto simp: np_inv_def s)
  have d: "distinct (map (\<lambda>r. fst r - 4) H)" using sh(2) by (simp add: np_nodes_def np_cells_def)
  have "distinct (map fst H)"
  proof -
    have "distinct (map (\<lambda>p. p - 4) (map fst H))" using d by (simp add: comp_def)
    then show ?thesis using distinct_map by blast
  qed
  moreover have "rng (p, k) \<inter> rng (q, j) = {}" if pq: "(p, k) \<in> set H" "(q, j) \<in> set H" "p \<noteq> q" for p k q j
  proof -
    note P = np_region [OF sh(2) pq(1)] and Q = np_region [OF sh(2) pq(2)]
    have "p - 4 \<noteq> q - 4" using P(2) Q(2) pq(3) by linarith
    then have "rng (p - 4, sizeof_FreeNode N) \<inter> rng (q - 4, sizeof_FreeNode N) = {}"
      by (rule np_apart(1) [OF sh P(1) Q(1)])
    then show ?thesis using P(4) Q(4) by blast
  qed
  ultimately have "apart H" by (rule apartI)
  moreover have "fits n p k" if pk: "(p, k) \<in> set H" for p k
    using np_cell(4) [OF sh np_region(1) [OF sh(2) pk], of 4 k] np_region(2,3) [OF sh(2) pk] sizeof_FreeNode_ge(1) [of N]
    by simp
  ultimately show ?thesis by (auto simp: regions_ok_def s)
qed

section \<open>The operations keep the invariant\<close>

lemma np_pop_ok:
  assumes "heap_ok env n" "np_nodes N M bs (x # ns) H n" "np_lists bs (x # ns) (np, n)" "k \<le> N"
  shows "load_ptr (np_pFreeNodeHeader np) n = Inr (ptr_at (n_bytes n) x) \<and> np_pFreeNodeHeader np = x \<and>
    np_nodes N M bs ns ((x + 4, k) # H) n \<and> np_lists bs ns (np\<lparr>np_pFreeNodeHeader := ptr_at (n_bytes n) x\<rparr>, n)"
proof -
  have x: "x \<in> set (np_cells (x # ns) H)" by (simp add: np_cells_def)
  note c = np_cell [OF assms(1,2) x]
  have "fits n x 4" using c(3) [of 4] sizeof_FreeNode_ge(2) [of N] by simp
  moreover have "set (np_cells ns ((x + 4, k) # H)) = set (np_cells (x # ns) H)" by (auto simp: np_cells_def)
  moreover have "distinct (np_cells ns ((x + 4, k) # H))"
    using assms(2) by (auto simp: np_nodes_def np_cells_def)
  ultimately show ?thesis using assms c(1) unfolding np_nodes_def
    by (auto simp: np_lists_def load_ptr_def)
qed

text \<open>A write to the first four bytes of a node, which is free from then on.\<close>

lemma np_push_ok:
  assumes "heap_ok env n" "np_nodes N M bs ns (H1 @ (p, k) # H2) n" "np_lists bs ns (np, n)"
  defines "n' \<equiv> n\<lparr>n_bytes := mem_write (n_bytes n) (p - 4) (le_bytes 4 (np_pFreeNodeHeader np))\<rparr>"
  shows "store_ptr (p - 4) (np_pFreeNodeHeader np) n = Inr n' \<and> np_nodes N M bs ((p - 4) # ns) (H1 @ H2) n' \<and>
    np_lists bs ((p - 4) # ns) (np\<lparr>np_pFreeNodeHeader := p - 4\<rparr>, n') \<and> same_bytes (H1 @ H2) n n'"
proof -
  let ?x = "p - 4" and ?F = "sizeof_FreeNode N" and ?H = "H1 @ (p, k) # H2"
  have x: "?x \<in> set (np_cells ns ?H)" by (simp add: np_cells_def)
  note c = np_cell [OF assms(1,2) x] and ap = np_apart [OF assms(1,2)]
  have F: "rng (a, 4) \<subseteq> rng (a, ?F)" for a using sizeof_FreeNode_ge(2) [of N] by auto
  have st: "store_ptr ?x (np_pFreeNodeHeader np) n = Inr n'"
    using c(1) c(3) [of 4] sizeof_FreeNode_ge(2) [of N] by (simp add: store_ptr_def n'_def)
  have cs: "set (np_cells (?x # ns) (H1 @ H2)) = set (np_cells ns ?H)" by (auto simp: np_cells_def)
  have d: "distinct (np_cells ns ?H)" using assms(2) by (simp add: np_nodes_def)
  then have "distinct (np_cells (?x # ns) (H1 @ H2))" by (auto simp: np_cells_def)
  then have nodes: "np_nodes N M bs (?x # ns) (H1 @ H2) n'" using assms(2) cs by (simp add: np_nodes_def n'_def)
  have "rng (y, 4) \<inter> rng (?x, 4) = {}" if "y \<in> set ns" for y
  proof -
    have "y \<in> set (np_cells ns ?H)" "?x \<noteq> y" using that d by (auto simp: np_cells_def)
    from ap(1) [OF x this] F show ?thesis by blast
  qed
  moreover have "np_pFreeNodeHeader np < 2 ^ 32"
  proof (cases ns)
    case (Cons y ns')
    then have "np_pFreeNodeHeader np = y" "y \<in> set (np_cells ns ?H)" using assms(3) by (auto simp: np_lists_def np_cells_def)
    then show ?thesis using np_cell(2) [OF assms(1,2), of y] by simp
  qed (use assms(3) in \<open>simp add: np_lists_def\<close>)
  ultimately have free: "ptr_chain (n_bytes n') ?x (?x # ns)"
    using ptr_chain_push [of "n_bytes n" "np_pFreeNodeHeader np" ns ?x] assms(3) c(1) by (simp add: np_lists_def n'_def)
  have "ptr_chain (mem_write (n_bytes n) ?x (le_bytes 4 (np_pFreeNodeHeader np))) (np_pMemBlockHeader np) bs"
  proof (rule ptr_chain_write)
    show "ptr_chain (n_bytes n) (np_pMemBlockHeader np) bs" using assms(3) by (simp add: np_lists_def)
    show "rng (b, 4) \<inter> rng (?x, length (le_bytes 4 (np_pFreeNodeHeader np))) = {}" if "b \<in> set bs" for b
      using ap(2) [OF x that] F [of ?x] by (simp del: rng.simps) blast
  qed
  then have blk: "ptr_chain (n_bytes n') (np_pMemBlockHeader np) bs" by (simp add: n'_def)
  have "same_bytes (H1 @ H2) n n'"
    unfolding same_bytes_def
  proof (intro ballI)
    fix r a assume r: "r \<in> set (H1 @ H2)" "a \<in> rng r"
    obtain q j where q: "r = (q, j)" by (cases r)
    have qH: "(q, j) \<in> set ?H" using r(1) q by auto
    note Q = np_region [OF assms(2) qH]
    have "q - 4 \<in> set (map (\<lambda>r. fst r - 4) (H1 @ H2))" using r(1) q by force
    moreover have "?x \<notin> set (map (\<lambda>r. fst r - 4) (H1 @ H2))" using d unfolding np_cells_def by simp
    ultimately have "?x \<noteq> q - 4" by metis
    from ap(1) [OF x Q(1) this] Q(4) F [of ?x] r(2) q have "a \<notin> rng (?x, 4)" by blast
    then show "n_bytes n' a = n_bytes n a"
      using mem_write_other [of a ?x "le_bytes 4 (np_pFreeNodeHeader np)" "n_bytes n"] by (simp add: n'_def)
  qed
  then show ?thesis using st nodes free blk by (simp add: np_lists_def del: ptr_chain.simps)
qed

lemma np_write_ok:
  assumes "np_inv env N M H s" "(p, k) \<in> set H" "off + length bs \<le> k"
  shows "np_inv env N M H (put_bytes (p + off) bs s)"
proof -
  obtain np n where s: "s = (np, n)" by (cases s)
  obtain cs ns where sh: "heap_ok env n" "1 \<le> BLOCK_NODE_COUNT N M" "np_nodes N M cs ns H n" "np_lists cs ns (np, n)"
    using assms(1) by (auto simp: np_inv_def s)
  let ?n = "n\<lparr>n_bytes := mem_write (n_bytes n) (p + off) bs\<rparr>"
  note P = np_region [OF sh(3) assms(2)] and ap = np_apart [OF sh(1,3)]
  have sub: "rng (p + off, length bs) \<subseteq> rng (p, k)" using assms(3) by auto
  have F: "rng (a, 4) \<subseteq> rng (a, sizeof_FreeNode N)" for a using sizeof_FreeNode_ge(2) [of N] by auto
  have d: "distinct (np_cells ns H)" using sh(3) by (simp add: np_nodes_def)
  have "rng (y, 4) \<inter> rng (p + off, length bs) = {}" if y: "y \<in> set ns" for y
  proof -
    have "p - 4 \<in> set (map (\<lambda>r. fst r - 4) H)" using assms(2) by force
    then have "p - 4 \<noteq> y" "y \<in> set (np_cells ns H)" using y d by (auto simp: np_cells_def)
    from ap(1) [OF P(1) this(2,1)] F [of y] P(4) sub show ?thesis by blast
  qed
  moreover have "rng (b, 4) \<inter> rng (p + off, length bs) = {}" if "b \<in> set cs" for b
    using ap(2) [OF P(1) that] P(4) sub by blast
  ultimately have "np_lists cs ns (np, ?n)" using sh(4) by (auto simp: np_lists_def intro!: ptr_chain_write simp del: rng.simps)
  moreover have "np_nodes N M cs ns H ?n" using sh(3) by (simp add: np_nodes_def)
  ultimately show ?thesis using sh(1,2) heap_ok_same [OF sh(1), of ?n] unfolding np_inv_def s by auto
qed

text \<open>A new block, all of whose nodes are free.\<close>

lemma np_new_block_ok:
  assumes "heap_ok env n" "1 \<le> BLOCK_NODE_COUNT N M" "np_nodes N M bs [] H n" "np_lists bs [] (np, n)"
    and "CSLBasicHeapAlloc_allocate env (sizeof_MemBlock N M) n = (b, n1)" "b \<noteq> NULL"
  shows "\<exists>np' n'. np_new_block env N M (np, n) = Inr (np', n') \<and> heap_ok env n' \<and>
    np_nodes N M (b # bs) (map (node_at N b) [0..<BLOCK_NODE_COUNT N M]) H n' \<and>
    np_lists (b # bs) (map (node_at N b) [0..<BLOCK_NODE_COUNT N M]) (np', n') \<and> same_bytes H n n'"
proof -
  let ?S = "sizeof_MemBlock N M" and ?C = "BLOCK_NODE_COUNT N M" and ?F = "sizeof_FreeNode N"
  define e where "e = node_at N b (?C - 1)"
  note al = heap_alloc_ok [OF assms(1,5)]
  have bb: "blocks (n_trace n1) b = Some ?S" "0 < b" using al(3) assms(6) by simp_all
  have b32: "b + ?S \<le> 2 ^ 32" using al(4) [OF assms(6)] by blast
  obtain n2 where n2: "np_link N b 0 (?C - 1) n1 = Inr n2" "n_trace n2 = n_trace n1"
      "\<And>a. a \<notin> rng (b, ?S) \<Longrightarrow> n_bytes n2 a = n_bytes n1 a"
      "\<And>j. j < ?C - 1 \<Longrightarrow> ptr_at (n_bytes n2) (node_at N b j) = node_at N b (Suc j)"
    using np_link_ok [OF bb b32, of 0 "?C - 1"] assms(2) by auto
  have e: "b + 4 \<le> e" "e + ?F \<le> b + ?S" using node_in_block [of "?C - 1" N M b] assms(2) by (auto simp: e_def)
  let ?n3 = "n2\<lparr>n_bytes := mem_write (n_bytes n2) e (le_bytes 4 NULL)\<rparr>"
  let ?n4 = "?n3\<lparr>n_bytes := mem_write (n_bytes ?n3) b (le_bytes 4 (np_pMemBlockHeader np))\<rparr>"
  have blk2: "blocks (n_trace n2) b = Some ?S" using bb n2(2) by simp
  have s3: "store_ptr e NULL n2 = Inr ?n3"
    using fitsI [OF blk2 bb(2), of e 4] e sizeof_FreeNode_ge(2) [of N] by (simp add: store_ptr_def)
  have s4: "store_ptr b (np_pMemBlockHeader np) ?n3 = Inr ?n4"
    using fitsI [of ?n3 b ?S b 4] blk2 bb(2) by (simp add: store_ptr_def sizeof_MemBlock_def)
  have b3: "a \<notin> rng (e, 4) \<Longrightarrow> n_bytes ?n3 a = n_bytes n2 a" for a
    using mem_write_other [of a e "le_bytes 4 NULL" "n_bytes n2"] by simp
  have b4: "a \<notin> rng (b, 4) \<Longrightarrow> n_bytes ?n4 a = n_bytes ?n3 a" for a
    using mem_write_other [of a b "le_bytes 4 (np_pMemBlockHeader np)" "n_bytes ?n3"] by simp
  have out: "n_bytes ?n4 a = n_bytes n a" if "a \<notin> rng (b, ?S)" for a
  proof -
    have "a \<notin> rng (b, 4)" "a \<notin> rng (e, 4)" using that e sizeof_FreeNode_ge(2) [of N] by (auto simp: sizeof_MemBlock_def)
    then show ?thesis using n2(3) [OF that] al(2) b3 b4 by metis
  qed
  have fresh: "rng (b, ?S) \<inter> rng (p, k) = {}" if "fits n p k" for p k using al(4) [OF assms(6)] that by blast
  have bl: "\<forall>c \<in> set bs. blocks (n_trace n) c = Some ?S" "distinct bs" using assms(3) by (auto simp: np_nodes_def)
  have hd_fits: "fits n c 4" "c < 2 ^ 32" if "c \<in> set bs" for c
    using bl(1) that heap_okD [OF assms(1), of c ?S] fitsI [of n c ?S c 4] by (auto simp: sizeof_MemBlock_def)
  have keep: "ptr_chain (n_bytes ?n4) (np_pMemBlockHeader np) bs"
  proof (rule ptr_chain_cong)
    show "ptr_chain (n_bytes n) (np_pMemBlockHeader np) bs" using assms(4) by (simp add: np_lists_def)
    show "n_bytes ?n4 a = n_bytes n a" if "c \<in> set bs" "a \<in> rng (c, 4)" for c a
      using out [of a] fresh [OF hd_fits(1) [OF that(1)]] that(2) by blast
  qed
  have "np_pMemBlockHeader np < 2 ^ 32"
    using keep hd_fits(2) [of "np_pMemBlockHeader np"] by (cases bs) auto
  then have "ptr_at (n_bytes ?n4) b = np_pMemBlockHeader np" by (simp add: ptr_at_write)
  then have blocks: "ptr_chain (n_bytes ?n4) b (b # bs)" using keep assms(6) by simp
  have link: "ptr_at (n_bytes ?n4) (node_at N b j) = (if Suc j < ?C then node_at N b (Suc j) else NULL)" if j: "j < ?C" for j
  proof -
    have nb: "b + 4 \<le> node_at N b j" using node_in_block [OF j, of b] by simp
    have 4: "ptr_at (n_bytes ?n4) (node_at N b j) = ptr_at (n_bytes ?n3) (node_at N b j)"
      by (rule ptr_at_cong, rule b4) (use nb in auto)
    show ?thesis
    proof (cases "Suc j < ?C")
      case True
      then have "node_at N b j + ?F \<le> e" using node_mono [of j "?C - 1" N b] by (simp add: e_def)
      then have "ptr_at (n_bytes ?n3) (node_at N b j) = ptr_at (n_bytes n2) (node_at N b j)"
        using sizeof_FreeNode_ge(2) [of N] by (intro ptr_at_cong b3) auto
      then show ?thesis using 4 n2(4) [of j] True by simp
    next
      case False
      then have "j = ?C - 1" using j by simp
      then show ?thesis using 4 False by (simp add: e_def)
    qed
  qed
  have "node_at N b j \<noteq> NULL" for j by (simp add: node_at_def)
  from nodes_chain [OF link this, of 0] assms(2)
  have free: "ptr_chain (n_bytes ?n4) (node_at N b 0) (map (node_at N b) [0..<?C])" by simp
  have t: "n_trace ?n4 = n_trace n1" using n2(2) by simp
  have bnew: "b \<notin> set bs" using al(4) [OF assms(6)] bl(1) by auto
  have old: "blocks (n_trace ?n4) c = Some ?S" if "c \<in> set bs" for c
    using that bl(1) bnew t al(3) assms(6) by auto
  have cells: "node_at N b i \<noteq> x" if "i < ?C" "x \<in> set (np_cells [] H)" for i x
  proof
    assume x: "node_at N b i = x"
    have "fits n x 4" using np_cell(3) [OF assms(1,3) that(2), of 4] sizeof_FreeNode_ge(2) [of N] by simp
    from fresh [OF this] node_in_block [OF that(1), of b] sizeof_FreeNode_ge(2) [of N] x show False
      by (auto simp: disjoint_iff)
  qed
  have "distinct (map (node_at N b) [0..<?C])" by (simp add: distinct_map inj_on_def node_inj)
  moreover have "distinct (map (\<lambda>r. fst r - 4) H)" using assms(3) by (simp add: np_nodes_def np_cells_def)
  moreover have "set (map (node_at N b) [0..<?C]) \<inter> set (map (\<lambda>r. fst r - 4) H) = {}"
  proof (rule equals0I)
    fix x assume "x \<in> set (map (node_at N b) [0..<?C]) \<inter> set (map (\<lambda>r. fst r - 4) H)"
    then have x: "x \<in> set (map (node_at N b) [0..<?C])" "x \<in> set (np_cells [] H)" unfolding np_cells_def by simp_all
    from x(1) obtain i where "i < ?C" "node_at N b i = x" by auto
    with cells x(2) show False by blast
  qed
  ultimately have "distinct (np_cells (map (node_at N b) [0..<?C]) H)"
    unfolding np_cells_def distinct_append by blast
  moreover have "\<exists>c \<in> set (b # bs). \<exists>i < ?C. x = node_at N c i"
    if "x \<in> set (np_cells (map (node_at N b) [0..<?C]) H)" for x
  proof (cases "x \<in> set (np_cells [] H)")
    case True
    then show ?thesis using assms(3) unfolding np_nodes_def by (meson list.set_intros(2))
  next
    case False
    then show ?thesis using that by (auto simp: np_cells_def)
  qed
  moreover have "\<forall>c \<in> set (b # bs). blocks (n_trace ?n4) c = Some ?S" using old bb(1) t by simp
  ultimately have nodes: "np_nodes N M (b # bs) (map (node_at N b) [0..<?C]) H ?n4"
    using assms(3) bl(2) bnew unfolding np_nodes_def by auto
  have "same_bytes H n ?n4"
    unfolding same_bytes_def
  proof (intro ballI)
    fix r a assume r: "r \<in> set H" "a \<in> rng r"
    obtain q j where q: "r = (q, j)" by (cases r)
    note Q = np_region [OF assms(3) r(1) [unfolded q]]
    have "fits n (q - 4) ?F" by (rule np_cell(3) [OF assms(1,3) Q(1) order.refl])
    from fresh [OF this] Q(4) r(2) q have "a \<notin> rng (b, ?S)" by blast
    then show "n_bytes ?n4 a = n_bytes n a" by (rule out)
  qed
  moreover have "heap_ok env ?n4" using heap_ok_same [OF al(1), of ?n4] t by simp
  ultimately show ?thesis using assms(2,5,6) n2(1) s3 s4 nodes blocks free
    unfolding np_new_block_def by (simp add: np_lists_def e_def del: ptr_chain.simps)
qed

section \<open>The contract\<close>

lemma np_take:
  assumes "heap_ok env n" "1 \<le> BLOCK_NODE_COUNT N M" "np_nodes N M bs ns H n" "np_lists bs ns (np, n)" "ns \<noteq> []"
    and "unat k \<le> N"
    and "rbind (load_ptr (np_pFreeNodeHeader np) n) (\<lambda>next.
             Inr (np_pFreeNodeHeader np + 4, np\<lparr>np_pFreeNodeHeader := next\<rparr>, n)) = y"
  shows "\<exists>p s'. y = Inr (p, s') \<and> p \<noteq> NULL \<and> np_inv env N M ((p, unat k) # H) s' \<and> snd s' = n"
proof -
  obtain x ns' where ns: "ns = x # ns'" using assms(5) by (cases ns) auto
  note pop = np_pop_ok [OF assms(1) assms(3) [unfolded ns] assms(4) [unfolded ns] assms(6)]
  show ?thesis using pop assms(1,2,7) by (auto simp: np_inv_def) blast
qed

lemma np_allocate_ok:
  assumes "np_inv env N M H s"
  shows "case CSLNormalMemoryPool_allocate env N M k s of
      Inl e \<Rightarrow> heap_can_fail env
    | Inr (p, s') \<Rightarrow> np_inv env N M (if p = NULL then H else (p, unat k) # H) s' \<and> same_bytes H (snd s) (snd s')"
proof -
  obtain np n where s: "s = (np, n)" by (cases s)
  obtain bs ns where sh: "heap_ok env n" "1 \<le> BLOCK_NODE_COUNT N M" "np_nodes N M bs ns H n" "np_lists bs ns (np, n)"
    using assms by (auto simp: np_inv_def s)
  consider (large) "N < unat k" | (free) "unat k \<le> N" "np_pFreeNodeHeader np \<noteq> NULL"
    | (none) "unat k \<le> N" "np_pFreeNodeHeader np = NULL" by linarith
  then show ?thesis
  proof cases
    case large
    then show ?thesis using assms by (simp add: CSLNormalMemoryPool_allocate_def same_bytes_def)
  next
    case free
    then have "ns \<noteq> []" using sh(4) by (auto simp: np_lists_def)
    from np_take [OF sh this free(1) refl] free show ?thesis
      by (auto simp: CSLNormalMemoryPool_allocate_def s same_bytes_def)
  next
    case none
    then have ns: "ns = []" using sh(4) by (simp add: np_lists_def)
    obtain b n1 where al: "CSLBasicHeapAlloc_allocate env (sizeof_MemBlock N M) n = (b, n1)" by fastforce
    show ?thesis
    proof (cases "b = NULL")
      case True
      then have "ret_ptr (env (n_trace n) (HeapAlloc (sizeof_MemBlock N M))) = NULL"
        using al by (simp add: CSLBasicHeapAlloc_allocate_def sys_def)
      then have "heap_can_fail env" unfolding heap_can_fail_def by blast
      then show ?thesis using True al none by (simp add: CSLNormalMemoryPool_allocate_def np_new_block_def s)
    next
      case False
      obtain np' n' where nb: "np_new_block env N M (np, n) = Inr (np', n')" "heap_ok env n'"
          "np_nodes N M (b # bs) (map (node_at N b) [0..<BLOCK_NODE_COUNT N M]) H n'"
          "np_lists (b # bs) (map (node_at N b) [0..<BLOCK_NODE_COUNT N M]) (np', n')" "same_bytes H n n'"
        using np_new_block_ok [OF sh(1,2) sh(3,4) [unfolded ns] al False] by blast
      have "map (node_at N b) [0..<BLOCK_NODE_COUNT N M] \<noteq> []" using sh(2) by simp
      from np_take [OF nb(2) sh(2) nb(3,4) this none(1) refl] nb(1,5) none show ?thesis
        by (auto simp: CSLNormalMemoryPool_allocate_def s)
    qed
  qed
qed

lemma np_deallocate_ok:
  assumes "np_inv env N M (H1 @ (p, k) # H2) s"
  shows "\<exists>s'. CSLNormalMemoryPool_deallocate p s = Inr s' \<and> np_inv env N M (H1 @ H2) s' \<and>
    same_bytes (H1 @ H2) (snd s) (snd s')"
proof -
  obtain np n where s: "s = (np, n)" by (cases s)
  obtain bs ns where sh: "heap_ok env n" "1 \<le> BLOCK_NODE_COUNT N M" "np_nodes N M bs ns (H1 @ (p, k) # H2) n"
      "np_lists bs ns (np, n)" using assms by (auto simp: np_inv_def s)
  note push = np_push_ok [OF sh(1,3,4)]
  have "heap_ok env (n\<lparr>n_bytes := mem_write (n_bytes n) (p - 4) (le_bytes 4 (np_pFreeNodeHeader np))\<rparr>)"
    using heap_ok_same [OF sh(1)] by simp
  then show ?thesis using push sh(2) by (auto simp: CSLNormalMemoryPool_deallocate_def s np_inv_def)
qed

interpretation np: mem_pool "CSLNormalMemoryPool_allocate env N M" CSLNormalMemoryPool_deallocate "\<lambda>k. True"
  "np_inv env N M" "heap_can_fail env"
proof (unfold_locales, goal_cases)
  case (1 H s w p s')
  then show ?case using np_allocate_ok [of env N M H s w] by simp
next
  case (2 H s w e)
  then show ?case using np_allocate_ok [of env N M H s w] by simp
next
  case (3 H1 p k H2 s)
  then show ?case by (rule np_deallocate_ok)
qed (auto intro: np_write_ok np_regions)

section \<open>Clearing\<close>

lemma np_clear_dangling:
  assumes "np_inv env N M H (np, n)" "np_pFreeNodeHeader np \<noteq> NULL" "unat k \<le> N"
  shows "\<exists>n'. CSLNormalMemoryPool_clear env (np, n) = Some (Inr (np\<lparr>np_pMemBlockHeader := NULL\<rparr>, n')) \<and>
    CSLNormalMemoryPool_allocate env N M k (np\<lparr>np_pMemBlockHeader := NULL\<rparr>, n') = Inl UseAfterFree"
proof -
  let ?S = "sizeof_MemBlock N M" and ?x = "np_pFreeNodeHeader np"
  obtain bs ns where sh: "heap_ok env n" "np_nodes N M bs ns H n" "np_lists bs ns (np, n)"
    using assms(1) by (auto simp: np_inv_def)
  have bl: "\<forall>b \<in> set bs. blocks (n_trace n) b = Some ?S" "distinct bs" using sh(2) by (auto simp: np_nodes_def)
  then have "\<forall>b \<in> set bs. \<exists>m. blocks (n_trace n) b = Some m \<and> 4 \<le> m" by (simp add: sizeof_MemBlock_def)
  moreover have "ptr_chain (n_bytes n) (np_pMemBlockHeader np) bs" using sh(3) by (simp add: np_lists_def)
  ultimately obtain n' where n': "free_chain env (np_pMemBlockHeader np) n = Some (Inr n')"
      "\<forall>q. blocks (n_trace n') q = (if q \<in> set bs then None else blocks (n_trace n) q)"
    using free_chain_ok [OF sh(1) _ bl(2)] by blast
  have "?x \<in> set (np_cells ns H)" using sh(3) assms(2) by (cases ns) (auto simp: np_lists_def np_cells_def)
  from np_cellD [OF sh(1,2) this] obtain b where b: "b \<in> set bs" "b + 4 \<le> ?x"
      "?x + sizeof_FreeNode N \<le> b + ?S" by blast
  have "\<not> fits n' ?x 4"
  proof
    assume "fits n' ?x 4"
    then obtain c m where c: "c \<le> ?x" "blocks (n_trace n') c = Some m" "?x + 4 \<le> c + m" by (auto simp: fits_iff)
    have cb: "c \<notin> set bs" "blocks (n_trace n) c = Some m" using c(2) n'(2) by (auto split: if_splits)
    have "b \<noteq> c" using b(1) cb(1) by auto
    from heap_ok_apart [OF sh(1) _ cb(2) this, of ?S] bl(1) b(1)
    have "rng (b, ?S) \<inter> rng (c, m) = {}" by blast
    moreover have "?x \<in> rng (b, ?S)" "?x \<in> rng (c, m)" using b c sizeof_FreeNode_ge(2) [of N] by auto
    ultimately show False by blast
  qed
  then have "load_ptr ?x n' = Inl UseAfterFree" using assms(2) by (simp add: load_ptr_def)
  then show ?thesis using n'(1) assms(2,3)
    by (simp add: CSLNormalMemoryPool_clear_def CSLNormalMemoryPool_allocate_def)
qed

section \<open>Properties\<close>


section \<open>Witnesses\<close>

definition np_demo :: "cerror + region list \<times> np_state" where
  "np_demo = mem_run (CSLNormalMemoryPool_allocate env32 4 28) CSLNormalMemoryPool_deallocate pool_demo_ops
     ([], CSLNormalMemoryPool_new, net0)"

lemma np_demo_runs: "case np_demo of Inl e \<Rightarrow> False | Inr (H, np, n) \<Rightarrow> np_pFreeNodeHeader np \<noteq> NULL \<and> length H = 2"
  by code_simp


end
