(* ===== verification/BlockAlloc.thy ===== *)
theory BlockAlloc
  imports PoolMem CHeap
begin

text \<open>
  \<open>CSLBlockAlloc\<close> of SLAlloc.h: an allocator that keeps freed blocks of its block size in a list
  for later requests, over the process heap. The basic allocators below it are in theories
  PoolMem and CHeap; the adapters above it only forward. Each method runs under the allocator's
  mutex, so it is one step.
\<close>

section \<open>The other basic allocators\<close>

text \<open>\<open>new char[n]\<close> throws when there is no memory: \<open>None\<close>.\<close>

definition CSLBasicNewAlloc_allocate :: "nat \<Rightarrow> cheap \<Rightarrow> (addr \<times> cheap) option" where
  "CSLBasicNewAlloc_allocate k h = (let (p, h1) = malloc k h in if p = NULL then None else Some (p, h1))"

definition CSLBasicNewAlloc_deallocate :: "addr \<Rightarrow> cheap \<Rightarrow> cerror + cheap" where
  "CSLBasicNewAlloc_deallocate p h = free p h"

definition CSLBasicNewAlloc_reallocate :: "addr \<Rightarrow> nat \<Rightarrow> cheap \<Rightarrow> addr \<times> cheap" where
  "CSLBasicNewAlloc_reallocate p k h = (NULL, h)"

definition CSLBasicMallocAlloc_allocate :: "nat \<Rightarrow> cheap \<Rightarrow> addr \<times> cheap" where
  "CSLBasicMallocAlloc_allocate k h = malloc k h"

definition CSLBasicMallocAlloc_deallocate :: "addr \<Rightarrow> cheap \<Rightarrow> cerror + cheap" where
  "CSLBasicMallocAlloc_deallocate p h = free p h"

definition CSLBasicMallocAlloc_reallocate :: "addr \<Rightarrow> nat \<Rightarrow> cheap \<Rightarrow> cerror + addr \<times> cheap" where
  "CSLBasicMallocAlloc_reallocate p k h = realloc p k h"

section \<open>CSLBlockAlloc\<close>

definition DEFAULT_MEMORY_BLOCK_SIZE :: u32 where "DEFAULT_MEMORY_BLOCK_SIZE = 8192"

record CSLBlockAlloc =
  ba_lstFree :: addr
  ba_nFreeLimit :: u32
  ba_nFreeSize :: u32
  ba_nBlockSize :: u32

definition CSLBlockAlloc_new :: "u32 \<Rightarrow> u32 \<Rightarrow> cerror + CSLBlockAlloc" where
  "CSLBlockAlloc_new nFreeLimit nBlockSize =
     (if nBlockSize = 0 then Inl DivByZero
      else Inr \<lparr>ba_lstFree = NULL, ba_nFreeLimit = nFreeLimit div nBlockSize + 1, ba_nFreeSize = 0,
                ba_nBlockSize = nBlockSize\<rparr>)"

type_synonym ba_state = "CSLBlockAlloc pool_net"

definition CSLBlockAlloc_allocate :: "env \<Rightarrow> u32 \<Rightarrow> ba_state \<Rightarrow> cerror + addr \<times> ba_state" where
  "CSLBlockAlloc_allocate env k s =
     (case s of (ba, n) \<Rightarrow>
        if ba_nBlockSize ba < k
        then let (p, n1) = CSLBasicHeapAlloc_allocate env (unat k) n in Inr (p, ba, n1)
        else if ba_lstFree ba \<noteq> NULL
        then rbind (load_ptr (ba_lstFree ba) n) (\<lambda>next.
               Inr (ba_lstFree ba, ba\<lparr>ba_lstFree := next, ba_nFreeSize := ba_nFreeSize ba - 1\<rparr>, n))
        else let (p, n1) = CSLBasicHeapAlloc_allocate env (unat (ba_nBlockSize ba)) n in Inr (p, ba, n1))"

definition CSLBlockAlloc_deallocate :: "env \<Rightarrow> addr \<Rightarrow> ba_state \<Rightarrow> cerror + ba_state" where
  "CSLBlockAlloc_deallocate env p s =
     (case s of (ba, n) \<Rightarrow>
        if ba_nFreeLimit ba \<le> ba_nFreeSize ba
        then rbind (CSLBasicHeapAlloc_deallocate env p n) (\<lambda>n1. Inr (ba, n1))
        else rbind (store_ptr p (ba_lstFree ba) n) (\<lambda>n1.
               Inr (ba\<lparr>ba_lstFree := p, ba_nFreeSize := ba_nFreeSize ba + 1\<rparr>, n1)))"

definition CSLBlockAlloc_clear :: "env \<Rightarrow> ba_state \<Rightarrow> (cerror + ba_state) option" where
  "CSLBlockAlloc_clear env s =
     (case s of (ba, n) \<Rightarrow>
        map_option (\<lambda>r. rbind r (\<lambda>n1. Inr (ba\<lparr>ba_lstFree := NULL, ba_nFreeSize := 0\<rparr>, n1)))
          (free_chain env (ba_lstFree ba) n))"

definition CSLBlockAlloc_delete :: "env \<Rightarrow> ba_state \<Rightarrow> (cerror + ba_state) option" where
  "CSLBlockAlloc_delete env s = CSLBlockAlloc_clear env s"

section \<open>The invariant\<close>

text \<open>\<open>fs\<close> is the list of free blocks. A block in use is at least as large as what its user asked
  for, and no block is smaller than the block size, which has room for a pointer.\<close>

definition ba_blocks :: "region list \<Rightarrow> addr list \<Rightarrow> ba_state \<Rightarrow> bool" where
  "ba_blocks H fs s = (case s of (ba, n) \<Rightarrow>
     distinct (fs @ map fst H) \<and>
     (\<forall>p \<in> set (fs @ map fst H). \<exists>m. blocks (n_trace n) p = Some m \<and> unat (ba_nBlockSize ba) \<le> m) \<and>
     (\<forall>(p, k) \<in> set H. \<exists>m. blocks (n_trace n) p = Some m \<and> k \<le> m))"

definition ba_inv :: "env \<Rightarrow> region list \<Rightarrow> ba_state \<Rightarrow> bool" where
  "ba_inv env H s = (case s of (ba, n) \<Rightarrow>
     heap_ok env n \<and> 4 \<le> unat (ba_nBlockSize ba) \<and>
     (\<exists>fs. ptr_chain (n_bytes n) (ba_lstFree ba) fs \<and> length fs = unat (ba_nFreeSize ba) \<and> ba_blocks H fs s))"

lemma fst_memI: "(p, k) \<in> set H \<Longrightarrow> p \<in> fst ` set H"
  by force

lemma ba_live:
  "ba_blocks H fs (ba, n) \<Longrightarrow> p \<in> set fs \<or> p \<in> fst ` set H \<Longrightarrow>
   \<exists>m. blocks (n_trace n) p = Some m \<and> unat (ba_nBlockSize ba) \<le> m"
  by (auto simp: ba_blocks_def)

lemma ba_held: "ba_blocks H fs (ba, n) \<Longrightarrow> (p, k) \<in> set H \<Longrightarrow> \<exists>m. blocks (n_trace n) p = Some m \<and> k \<le> m"
  by (auto simp: ba_blocks_def)

lemma ba_dist: "ba_blocks H fs (ba, n) \<Longrightarrow> distinct (fs @ map fst H)"
  by (simp add: ba_blocks_def)

lemma ba_blocks_sub:
  assumes "ba_blocks H fs (ba, n)" "distinct (fs' @ map fst H')" "set H' \<subseteq> set H"
    and "set fs' \<subseteq> set fs \<union> fst ` set H"
    and "\<And>q. q \<in> set fs' \<union> fst ` set H' \<Longrightarrow> blocks (n_trace n') q = blocks (n_trace n) q"
    and "ba_nBlockSize ba' = ba_nBlockSize ba"
  shows "ba_blocks H' fs' (ba', n')"
proof -
  have "\<exists>m. blocks (n_trace n') q = Some m \<and> unat (ba_nBlockSize ba') \<le> m"
    if q: "q \<in> set (fs' @ map fst H')" for q
  proof -
    have "q \<in> set fs' \<union> fst ` set H'" using q by simp
    moreover have "q \<in> set fs \<or> q \<in> fst ` set H" using q assms(3,4) by auto
    ultimately show ?thesis using ba_live [OF assms(1), of q] assms(5) [of q] assms(6) by simp
  qed
  moreover have "\<exists>m. blocks (n_trace n') q = Some m \<and> l \<le> m" if q: "(q, l) \<in> set H'" for q l
  proof -
    have "q \<in> set fs' \<union> fst ` set H'" using fst_memI [OF q] by simp
    moreover have "(q, l) \<in> set H" using q assms(3) by blast
    ultimately show ?thesis using ba_held [OF assms(1), of q l] assms(5) [of q] by simp
  qed
  ultimately show ?thesis using assms(2) unfolding ba_blocks_def by blast
qed

lemma ba_pos:
  assumes "heap_ok env n" "ba_blocks H fs (ba, n)" "p \<in> set fs \<or> p \<in> fst ` set H" "4 \<le> unat (ba_nBlockSize ba)"
  shows "p \<noteq> NULL" "p < 2 ^ 32" "fits n p 4"
proof -
  obtain m where m: "blocks (n_trace n) p = Some m" "unat (ba_nBlockSize ba) \<le> m" using ba_live [OF assms(2,3)] by blast
  note pos = heap_okD [OF assms(1) m(1)]
  then show "p \<noteq> NULL" "p < 2 ^ 32" using m assms(4) by auto
  show "fits n p 4" by (rule fitsI [OF m(1)]) (use pos m assms(4) in auto)
qed

text \<open>Different blocks do not overlap.\<close>

lemma ba_apart:
  assumes "heap_ok env n" "ba_blocks H fs (ba, n)" "4 \<le> unat (ba_nBlockSize ba)"
    and "f \<in> set fs" "(p, k) \<in> set H \<or> p \<in> set fs \<and> f \<noteq> p \<and> k = 4"
  shows "rng (f, 4) \<inter> rng (p, k) = {}"
proof -
  obtain m where m: "blocks (n_trace n) f = Some m" "unat (ba_nBlockSize ba) \<le> m"
    using ba_live [OF assms(2), of f] assms(4) by blast
  obtain j where j: "blocks (n_trace n) p = Some j" "k \<le> j"
    using assms(5) ba_held [OF assms(2), of p k] ba_live [OF assms(2), of p] assms(3) le_trans by blast
  have ne: "f \<noteq> p"
  proof
    assume "f = p"
    then have "f \<in> fst ` set H" using assms(5) fst_memI by metis
    then show False using ba_dist [OF assms(2)] assms(4) by auto
  qed
  have "rng (f, m) \<inter> rng (p, j) = {}" using heap_ok_apart [OF assms(1) m(1) j(1) ne] .
  moreover have "rng (f, 4) \<subseteq> rng (f, m)" "rng (p, k) \<subseteq> rng (p, j)" using m j assms(3) by auto
  ultimately show ?thesis by blast
qed

lemma ba_regions:
  assumes "ba_inv env H s"
  shows "regions_ok (snd s) H"
proof -
  obtain ba n where s: "s = (ba, n)" by (cases s)
  obtain fs where fs: "heap_ok env n" "ba_blocks H fs (ba, n)" using assms by (auto simp: ba_inv_def s)
  have f: "fits n p k" if p: "(p, k) \<in> set H" for p k
    using ba_held [OF fs(2) p] heap_okD [OF fs(1), of p] fitsI [of n p _ p k] by auto
  have "rng (p, k) \<inter> rng (q, j) = {}" if pq: "(p, k) \<in> set H" "(q, j) \<in> set H" "p \<noteq> q" for p k q j
  proof -
    obtain m l where m: "blocks (n_trace n) p = Some m" "k \<le> m" "blocks (n_trace n) q = Some l" "j \<le> l"
      using ba_held [OF fs(2) pq(1)] ba_held [OF fs(2) pq(2)] by blast
    have "rng (p, m) \<inter> rng (q, l) = {}" using heap_ok_apart [OF fs(1) m(1,3) pq(3)] .
    moreover have "rng (p, k) \<subseteq> rng (p, m)" "rng (q, j) \<subseteq> rng (q, l)" using m by auto
    ultimately show ?thesis by blast
  qed
  then have "apart H" using ba_dist [OF fs(2)] apartI by simp
  then show ?thesis using f by (auto simp: regions_ok_def s)
qed

section \<open>The operations keep the invariant\<close>

lemma ba_new_block:
  assumes "heap_ok env n" "4 \<le> unat (ba_nBlockSize ba)" "ptr_chain (n_bytes n) (ba_lstFree ba) fs"
    "length fs = unat (ba_nFreeSize ba)" "ba_blocks H fs (ba, n)"
    and "CSLBasicHeapAlloc_allocate env j n = (p, n')" "k \<le> j" "unat (ba_nBlockSize ba) \<le> j"
  shows "ba_inv env (if p = NULL then H else (p, k) # H) (ba, n')"
proof (cases "p = NULL")
  case True
  then show ?thesis using assms(2-5) heap_alloc_ok [OF assms(1,6)] by (auto simp: ba_inv_def ba_blocks_def)
next
  case False
  note al = heap_alloc_ok [OF assms(1,6)]
  have "p \<notin> set fs \<and> p \<notin> fst ` set H" using al(4) False ba_live [OF assms(5), of p] by auto
  note new = this
  have B: "blocks (n_trace n') p = Some j" "q \<noteq> p \<Longrightarrow> blocks (n_trace n') q = blocks (n_trace n) q" for q
    using al(3) False by simp_all
  have old: "q \<in> set fs \<or> q \<in> fst ` set H \<Longrightarrow> blocks (n_trace n') q = blocks (n_trace n) q" for q
    using new B(2) by metis
  have "distinct (fs @ map fst ((p, k) # H))" using new ba_dist [OF assms(5)] by auto
  moreover have "\<exists>m. blocks (n_trace n') q = Some m \<and> unat (ba_nBlockSize ba) \<le> m"
    if "q \<in> set (fs @ map fst ((p, k) # H))" for q
    using that old [of q] ba_live [OF assms(5), of q] B(1) assms(8) by (cases "q = p") auto
  moreover have "\<exists>m. blocks (n_trace n') q = Some m \<and> l \<le> m" if "(q, l) \<in> set ((p, k) # H)" for q l
    using that old [of q] ba_held [OF assms(5), of q l] fst_memI [of q l H] B(1) assms(7) by auto
  ultimately have "ba_blocks ((p, k) # H) fs (ba, n')" unfolding ba_blocks_def by blast
  then show ?thesis using False assms(2-4) al(1,2) by (auto simp: ba_inv_def)
qed

lemma ba_allocate_ok:
  assumes "ba_inv env H s"
  shows "\<exists>p s'. CSLBlockAlloc_allocate env k s = Inr (p, s') \<and>
    ba_inv env (if p = NULL then H else (p, unat k) # H) s' \<and> n_bytes (snd s') = n_bytes (snd s)"
proof -
  obtain ba n where s: "s = (ba, n)" by (cases s)
  obtain fs where fs: "heap_ok env n" "4 \<le> unat (ba_nBlockSize ba)" "ptr_chain (n_bytes n) (ba_lstFree ba) fs"
      "length fs = unat (ba_nFreeSize ba)" "ba_blocks H fs (ba, n)" using assms by (auto simp: ba_inv_def s)
  note new = ba_new_block [OF fs]
  consider (big) "ba_nBlockSize ba < k" | (free) "\<not> ba_nBlockSize ba < k" "ba_lstFree ba \<noteq> NULL"
    | (none) "\<not> ba_nBlockSize ba < k" "ba_lstFree ba = NULL" by blast
  then show ?thesis
  proof cases
    case big
    obtain p n' where al: "CSLBasicHeapAlloc_allocate env (unat k) n = (p, n')" by fastforce
    have "unat (ba_nBlockSize ba) \<le> unat k" using big by (simp add: word_less_nat_alt)
    then show ?thesis using new [OF al order.refl] heap_alloc_ok(2) [OF fs(1) al] big al
      by (auto simp: CSLBlockAlloc_allocate_def s)
  next
    case none
    obtain p n' where al: "CSLBasicHeapAlloc_allocate env (unat (ba_nBlockSize ba)) n = (p, n')" by fastforce
    have "unat k \<le> unat (ba_nBlockSize ba)" using none by (simp add: word_less_nat_alt)
    then show ?thesis using new [OF al _ order.refl] heap_alloc_ok(2) [OF fs(1) al] none al
      by (auto simp: CSLBlockAlloc_allocate_def s)
  next
    case free
    then obtain f fs' where f: "fs = f # fs'" "ba_lstFree ba = f" using fs(3) by (cases fs) auto
    have "fits n f 4" "f \<noteq> NULL" using ba_pos [OF fs(1,5) _ fs(2), of f] f by auto
    then have l: "load_ptr f n = Inr (ptr_at (n_bytes n) f)" by (simp add: load_ptr_def)
    have "unat k \<le> unat (ba_nBlockSize ba)" using free by (simp add: word_less_nat_alt)
    let ?ba = "ba\<lparr>ba_lstFree := ptr_at (n_bytes n) f, ba_nFreeSize := ba_nFreeSize ba - 1\<rparr>"
    have "ba_nFreeSize ba \<noteq> 0" using fs(4) f by auto
    then have "length fs' = unat (ba_nFreeSize ba - 1)" using fs(4) f by (simp add: unat_minus_one)
    moreover have "ba_blocks ((f, unat k) # H) fs' (?ba, n)"
      using fs(5) f \<open>unat k \<le> unat (ba_nBlockSize ba)\<close> by (fastforce simp: ba_blocks_def)
    ultimately show ?thesis using fs free l f by (auto simp: CSLBlockAlloc_allocate_def s ba_inv_def)
  qed
qed

lemma ba_deallocate_ok:
  assumes "ba_inv env (H1 @ (p, k) # H2) s"
  shows "\<exists>s'. CSLBlockAlloc_deallocate env p s = Inr s' \<and> ba_inv env (H1 @ H2) s' \<and>
    same_bytes (H1 @ H2) (snd s) (snd s')"
proof -
  obtain ba n where s: "s = (ba, n)" by (cases s)
  obtain fs where fs: "heap_ok env n" "4 \<le> unat (ba_nBlockSize ba)" "ptr_chain (n_bytes n) (ba_lstFree ba) fs"
      "length fs = unat (ba_nFreeSize ba)" "ba_blocks (H1 @ (p, k) # H2) fs (ba, n)"
    using assms by (auto simp: ba_inv_def s)
  obtain m where m: "blocks (n_trace n) p = Some m" "unat (ba_nBlockSize ba) \<le> m"
    using fs(5) by (auto simp: ba_blocks_def)
  show ?thesis
  proof (cases "ba_nFreeLimit ba \<le> ba_nFreeSize ba")
    case True
    obtain n' where n': "CSLBasicHeapAlloc_deallocate env p n = Inr n'" "heap_ok env n'" "n_bytes n' = n_bytes n"
        "blocks (n_trace n') = (blocks (n_trace n))(p := None)" using heap_free_ok [OF fs(1) m(1)] by blast
    have "p \<notin> set fs \<and> p \<notin> fst ` set (H1 @ H2)" using ba_dist [OF fs(5)] by auto
    then have "ba_blocks (H1 @ H2) fs (ba, n')"
      using ba_dist [OF fs(5)] n'(4) by (intro ba_blocks_sub [OF fs(5)]) auto
    then show ?thesis using fs n' True by (auto simp: CSLBlockAlloc_deallocate_def s ba_inv_def same_bytes_def)
  next
    case False
    have pp: "p \<noteq> NULL" "fits n p 4" using ba_pos [OF fs(1,5) _ fs(2), of p] by auto
    let ?n = "n\<lparr>n_bytes := mem_write (n_bytes n) p (le_bytes 4 (ba_lstFree ba))\<rparr>"
    let ?ba = "ba\<lparr>ba_lstFree := p, ba_nFreeSize := ba_nFreeSize ba + 1\<rparr>"
    have st: "store_ptr p (ba_lstFree ba) n = Inr ?n" using pp fs(2) by (simp add: store_ptr_def)
    have blk: "ba_blocks (H1 @ H2) (p # fs) (?ba, ?n)"
      using ba_dist [OF fs(5)] by (intro ba_blocks_sub [OF fs(5)]) auto
    have lt: "ba_lstFree ba < 2 ^ 32"
      using fs(3) ba_pos(2) [OF fs(1,5) _ fs(2), of "ba_lstFree ba"] by (cases fs) auto
    have ok: "heap_ok env ?n" using heap_ok_same [OF fs(1)] by simp
    have off: "rng (p, 4) \<inter> rng (q, j) = {}" if "(q, j) \<in> set (H1 @ H2) \<or> q \<in> set fs \<and> p \<noteq> q \<and> j = 4" for q j
      by (rule ba_apart [OF ok blk]) (use fs(2) that in auto)
    have "p \<notin> set fs" using fs(5) by (auto simp: ba_blocks_def)
    then have ch: "ptr_chain (n_bytes ?n) p (p # fs)"
      using ptr_chain_push [OF fs(3), of p] off pp lt by (simp add: Int_commute del: rng.simps) blast
    have "unat (ba_nFreeSize ba) < unat (ba_nFreeLimit ba)" using False by (simp add: word_less_nat_alt not_le)
    then have "length (p # fs) = unat (ba_nFreeSize ba + 1)"
      using fs(4) u32_less [of "ba_nFreeLimit ba"] by (simp add: unat_word_ariths(1))
    moreover have "same_bytes (H1 @ H2) n ?n"
      unfolding same_bytes_def
    proof (intro ballI)
      fix r a assume r: "r \<in> set (H1 @ H2)" "a \<in> rng r"
      then have "rng (p, 4) \<inter> rng r = {}" using off [of "fst r" "snd r"] by simp
      then have "a \<notin> rng (p, length (le_bytes 4 (ba_lstFree ba)))" using r by auto
      then show "n_bytes ?n a = n_bytes n a" using mem_write_other by simp
    qed
    ultimately show ?thesis using ok fs(2) ch blk st False
      by (auto simp: CSLBlockAlloc_deallocate_def s ba_inv_def simp del: ptr_chain.simps)
  qed
qed

lemma ba_write_ok:
  assumes "ba_inv env H s" "(p, k) \<in> set H" "off + length bs \<le> k"
  shows "ba_inv env H (put_bytes (p + off) bs s)"
proof -
  obtain ba n where s: "s = (ba, n)" by (cases s)
  obtain fs where fs: "heap_ok env n" "4 \<le> unat (ba_nBlockSize ba)" "ptr_chain (n_bytes n) (ba_lstFree ba) fs"
      "length fs = unat (ba_nFreeSize ba)" "ba_blocks H fs (ba, n)" using assms(1) by (auto simp: ba_inv_def s)
  let ?n = "n\<lparr>n_bytes := mem_write (n_bytes n) (p + off) bs\<rparr>"
  have "ptr_chain (mem_write (n_bytes n) (p + off) bs) (ba_lstFree ba) fs"
  proof (rule ptr_chain_write [OF fs(3)])
    fix f assume "f \<in> set fs"
    then have "rng (f, 4) \<inter> rng (p, k) = {}" using ba_apart [OF fs(1,5,2)] assms(2) by blast
    moreover have "rng (p + off, length bs) \<subseteq> rng (p, k)" using assms(3) by auto
    ultimately show "rng (f, 4) \<inter> rng (p + off, length bs) = {}" by blast
  qed
  then show ?thesis using fs heap_ok_same [OF fs(1), of ?n] by (auto simp: s ba_inv_def ba_blocks_def)
qed

interpretation ba: mem_pool "CSLBlockAlloc_allocate env" "CSLBlockAlloc_deallocate env" "\<lambda>k. True" "ba_inv env" False
proof (unfold_locales, goal_cases)
  case (1 H s w p s')
  then show ?case using ba_allocate_ok [of env H s w] by (auto simp: same_bytes_def)
next
  case (2 H s w e)
  then show ?case using ba_allocate_ok [of env H s w] by auto
next
  case (3 H1 p k H2 s)
  then show ?case by (rule ba_deallocate_ok)
qed (auto intro: ba_write_ok ba_regions)

section \<open>Clearing\<close>

lemma ba_clear_ok:
  assumes "ba_inv env H s"
  shows "\<exists>s'. CSLBlockAlloc_clear env s = Some (Inr s') \<and> ba_inv env H s' \<and> ba_lstFree (fst s') = NULL \<and>
    n_bytes (snd s') = n_bytes (snd s) \<and>
    (\<exists>fs. ptr_chain (n_bytes (snd s)) (ba_lstFree (fst s)) fs \<and>
       (\<forall>p. blocks (n_trace (snd s')) p = (if p \<in> set fs then None else blocks (n_trace (snd s)) p)))"
proof -
  obtain ba n where s: "s = (ba, n)" by (cases s)
  obtain fs where fs: "heap_ok env n" "4 \<le> unat (ba_nBlockSize ba)" "ptr_chain (n_bytes n) (ba_lstFree ba) fs"
      "ba_blocks H fs (ba, n)" using assms by (auto simp: ba_inv_def s)
  have "\<exists>m. blocks (n_trace n) f = Some m \<and> 4 \<le> m" if f: "f \<in> set fs" for f
    using ba_live [OF fs(4), of f] f fs(2) by (meson le_trans)
  moreover have "distinct fs" using ba_dist [OF fs(4)] by simp
  ultimately have "\<exists>n'. free_chain env (ba_lstFree ba) n = Some (Inr n') \<and> heap_ok env n' \<and> n_bytes n' = n_bytes n \<and>
      (\<forall>q. blocks (n_trace n') q = (if q \<in> set fs then None else blocks (n_trace n) q))"
    using free_chain_ok [OF fs(1,3)] by blast
  then obtain n' where n': "free_chain env (ba_lstFree ba) n = Some (Inr n')" "heap_ok env n'" "n_bytes n' = n_bytes n"
      "\<forall>q. blocks (n_trace n') q = (if q \<in> set fs then None else blocks (n_trace n) q)" by blast
  let ?ba = "ba\<lparr>ba_lstFree := NULL, ba_nFreeSize := 0\<rparr>"
  have "ba_blocks H [] (?ba, n')" using ba_dist [OF fs(4)] n'(4) by (intro ba_blocks_sub [OF fs(4)]) auto
  then show ?thesis using n' fs(2,3) by (auto simp: s CSLBlockAlloc_clear_def ba_inv_def)
qed

section \<open>Properties\<close>

text \<open>
  C28. \<open>CSLBlockAlloc\<close> implements a store of byte strings, whatever its users do with it: no
  run of requests, returns and writes faults, the regions in use never overlap and lie in
  allocated memory, each keeps what its user wrote to it until he overwrites or returns it, and
  \<open>clear\<close> at any time ends, gives exactly the blocks of the free list back to the heap and leaves the
  regions in use alone.
\<close>

theorem block_alloc_store:
  assumes "heap_ok env n" "CSLBlockAlloc_new nFreeLimit nBlockSize = Inr ba" "4 \<le> unat nBlockSize"
  shows "\<exists>H s. mem_run (CSLBlockAlloc_allocate env) (CSLBlockAlloc_deallocate env) ops ([], ba, n) = Inr (H, s) \<and>
    regions_ok (snd s) H \<and> store_run ops [] (mem_view (H, s)) \<and>
    (\<exists>s'. CSLBlockAlloc_clear env s = Some (Inr s') \<and> ba_lstFree (fst s') = NULL \<and> regions_ok (snd s') H \<and>
       mem_view (H, s') = mem_view (H, s) \<and>
       (\<exists>fs. ptr_chain (n_bytes (snd s)) (ba_lstFree (fst s)) fs \<and>
          (\<forall>p. blocks (n_trace (snd s')) p = (if p \<in> set fs then None else blocks (n_trace (snd s)) p))))"
proof -
  have "ba_inv env [] (ba, n)"
    using assms by (auto simp: CSLBlockAlloc_new_def ba_inv_def ba_blocks_def split: if_splits)
  moreover have "list_all (sizes_ok (\<lambda>k. True)) ops"
    unfolding list_all_iff by (metis sizes_ok.elims(3))
  note ba.run_refines [OF calculation this]
  then obtain H s where s: "mem_run (CSLBlockAlloc_allocate env) (CSLBlockAlloc_deallocate env) ops ([], ba, n) = Inr (H, s)"
      "ba_inv env H s" "regions_ok (snd s) H" "store_run ops [] (mem_view (H, s))"
    by (auto split: sum.splits)
  obtain s' where s': "CSLBlockAlloc_clear env s = Some (Inr s')" "ba_inv env H s'" "ba_lstFree (fst s') = NULL"
      "n_bytes (snd s') = n_bytes (snd s)"
      "\<exists>fs. ptr_chain (n_bytes (snd s)) (ba_lstFree (fst s)) fs \<and>
       (\<forall>p. blocks (n_trace (snd s')) p = (if p \<in> set fs then None else blocks (n_trace (snd s)) p))"
    using ba_clear_ok [OF s(2)] by blast
  have "mem_view (H, s') = mem_view (H, s)" using s'(4) by (cases s; cases s') auto
  then show ?thesis using s(1,3,4) s'(1,3,5) ba.regions [OF s'(2)] by blast
qed

section \<open>Witnesses\<close>

lemma block_alloc_store_witness:
  "\<exists>ba H s. CSLBlockAlloc_new 16 8 = Inr ba \<and>
     mem_run (CSLBlockAlloc_allocate env32) (CSLBlockAlloc_deallocate env32) pool_demo_ops ([], ba, net0) = Inr (H, s) \<and>
     regions_ok (snd s) H \<and> store_run pool_demo_ops [] (mem_view (H, s))"
proof -
  obtain ba where ba: "CSLBlockAlloc_new 16 8 = Inr ba" by (simp add: CSLBlockAlloc_new_def)
  from block_alloc_store [OF env32_heap ba, of pool_demo_ops] ba show ?thesis by auto
qed

end
