(* ===== verification/Allocators.thy ===== *)
theory Allocators
  imports NormalMemoryPool BlockAlloc
begin

text \<open>
  The classes that put an interface over an allocator: \<open>CSLProxyAlloc\<close>, \<open>CSLAllocator\<close> and
  \<open>CSLAllocator_Adapter\<close> of SLAlloc.h and \<open>CSLObjectPool\<close> of SLObjectPool.h. The allocator or
  pool below, a template argument in the code, is given by its operations; the constructor and the
  destructor of the objects are arguments, and \<open>T\<close> is \<open>sizeof(T)\<close>.
\<close>

section \<open>CSLProxyAlloc and CSLAllocator\<close>

text \<open>The proxy's state is the allocator that it points to.\<close>

definition CSLProxyAlloc_allocate :: "('n \<Rightarrow> 's \<Rightarrow> 'r) \<Rightarrow> 'n \<Rightarrow> 's \<Rightarrow> 'r" where
  "CSLProxyAlloc_allocate alloc n s = alloc n s"

definition CSLProxyAlloc_deallocate :: "(addr \<Rightarrow> 's \<Rightarrow> 'r) \<Rightarrow> addr \<Rightarrow> 's \<Rightarrow> 'r" where
  "CSLProxyAlloc_deallocate dealloc p s = dealloc p s"

definition CSLAllocator_clear :: "net \<Rightarrow> net" where
  "CSLAllocator_clear n = n"

definition CSLAllocator_allocate :: "env \<Rightarrow> u32 \<Rightarrow> net \<Rightarrow> addr \<times> net" where
  "CSLAllocator_allocate env k n = CSLBasicHeapAlloc_allocate env (unat k) n"

definition CSLAllocator_deallocate :: "env \<Rightarrow> addr \<Rightarrow> net \<Rightarrow> cerror + net" where
  "CSLAllocator_deallocate env p n = CSLBasicHeapAlloc_deallocate env p n"

definition CSLAllocator_construct :: "env \<Rightarrow> u32 \<Rightarrow> (addr \<Rightarrow> net \<Rightarrow> cerror + net) \<Rightarrow> net \<Rightarrow> cerror + addr \<times> net" where
  "CSLAllocator_construct env T ctor n =
     (let (p, n1) = CSLBasicHeapAlloc_allocate env (unat T) n in rbind (ctor p n1) (\<lambda>n2. Inr (p, n2)))"

definition CSLAllocator_construct_at :: "(addr \<Rightarrow> net \<Rightarrow> cerror + net) \<Rightarrow> addr \<Rightarrow> net \<Rightarrow> cerror + net" where
  "CSLAllocator_construct_at ctor p n = ctor p n"

definition CSLAllocator_destroy :: "env \<Rightarrow> (addr \<Rightarrow> net \<Rightarrow> cerror + net) \<Rightarrow> addr \<Rightarrow> net \<Rightarrow> cerror + net" where
  "CSLAllocator_destroy env dtor p n = rbind (dtor p n) (CSLAllocator_deallocate env p)"

section \<open>CSLAllocator_Adapter\<close>

text \<open>A pool and the mutex that each call holds; \<open>ad_mtx\<close> counts how often it is locked.\<close>

record 'p CSLAllocator_Adapter =
  ad_oMemPool :: 'p
  ad_mtx :: int

type_synonym 'p ad_state = "'p CSLAllocator_Adapter pool_net"

definition CSLAllocator_Adapter_new :: "'p \<Rightarrow> 'p CSLAllocator_Adapter" where
  "CSLAllocator_Adapter_new mp = \<lparr>ad_oMemPool = mp, ad_mtx = 0\<rparr>"

definition ad_Lock :: "'p CSLAllocator_Adapter \<Rightarrow> 'p CSLAllocator_Adapter" where
  "ad_Lock ad = ad\<lparr>ad_mtx := ad_mtx ad + 1\<rparr>"

definition ad_UnLock :: "'p CSLAllocator_Adapter \<Rightarrow> 'p CSLAllocator_Adapter" where
  "ad_UnLock ad = ad\<lparr>ad_mtx := ad_mtx ad - 1\<rparr>"

definition ad_call :: "('p pool_net \<Rightarrow> cerror + 'p pool_net) \<Rightarrow> 'p ad_state \<Rightarrow> cerror + 'p ad_state" where
  "ad_call f s =
     (case s of (ad, n) \<Rightarrow>
        let ad1 = ad_Lock ad
        in rbind (f (ad_oMemPool ad1, n)) (\<lambda>(mp, n1). Inr (ad_UnLock (ad1\<lparr>ad_oMemPool := mp\<rparr>), n1)))"

definition ad_call_ptr :: "('p pool_net \<Rightarrow> cerror + addr \<times> 'p pool_net) \<Rightarrow> 'p ad_state \<Rightarrow> cerror + addr \<times> 'p ad_state" where
  "ad_call_ptr f s =
     (case s of (ad, n) \<Rightarrow>
        let ad1 = ad_Lock ad
        in rbind (f (ad_oMemPool ad1, n)) (\<lambda>(p, mp, n1). Inr (p, ad_UnLock (ad1\<lparr>ad_oMemPool := mp\<rparr>), n1)))"

definition CSLAllocator_Adapter_clear :: "('p pool_net \<Rightarrow> (cerror + 'p pool_net) option) \<Rightarrow> 'p ad_state \<Rightarrow> (cerror + 'p ad_state) option" where
  "CSLAllocator_Adapter_clear clear s =
     (case s of (ad, n) \<Rightarrow>
        map_option (\<lambda>r. ad_call (\<lambda>s. r) s) (clear (ad_oMemPool ad, n)))"

definition CSLAllocator_Adapter_allocate where
  "CSLAllocator_Adapter_allocate alloc (k :: u32) = ad_call_ptr (alloc k)"

definition CSLAllocator_Adapter_deallocate where
  "CSLAllocator_Adapter_deallocate dealloc (p :: addr) = ad_call (dealloc p)"

definition CSLAllocator_Adapter_construct where
  "CSLAllocator_Adapter_construct construct = ad_call_ptr construct"

definition CSLAllocator_Adapter_construct_at where
  "CSLAllocator_Adapter_construct_at construct (p :: addr) = ad_call (construct p)"

definition CSLAllocator_Adapter_destroy where
  "CSLAllocator_Adapter_destroy destroy (p :: addr) = ad_call (destroy p)"

definition CSLAllocator_Adapter_get_allocator :: "'p CSLAllocator_Adapter \<Rightarrow> 'p" where
  "CSLAllocator_Adapter_get_allocator ad = ad_oMemPool ad"

section \<open>CSLObjectPool\<close>

text \<open>The static operations take the allocator as an argument, the others forward to the pool's
  allocator, which has \<open>construct\<close> and \<open>destroy\<close> of its own.\<close>

definition CSLObjectPool_construct_with ::
    "(u32 \<Rightarrow> 'p pool_net \<Rightarrow> cerror + addr \<times> 'p pool_net) \<Rightarrow> u32 \<Rightarrow> (addr \<Rightarrow> net \<Rightarrow> cerror + net) \<Rightarrow>
     'p pool_net \<Rightarrow> cerror + addr \<times> 'p pool_net" where
  "CSLObjectPool_construct_with alloc T ctor s =
     rbind (alloc T s) (\<lambda>(p, mp, n). rbind (ctor p n) (\<lambda>n1. Inr (p, mp, n1)))"

definition CSLObjectPool_destroy_with ::
    "(addr \<Rightarrow> 'p pool_net \<Rightarrow> cerror + 'p pool_net) \<Rightarrow> (addr \<Rightarrow> net \<Rightarrow> cerror + net) \<Rightarrow> addr \<Rightarrow>
     'p pool_net \<Rightarrow> cerror + 'p pool_net" where
  "CSLObjectPool_destroy_with dealloc dtor p s =
     (case s of (mp, n) \<Rightarrow> rbind (dtor p n) (\<lambda>n1. dealloc p (mp, n1)))"

definition CSLObjectPool_construct :: "('s \<Rightarrow> cerror + addr \<times> 's) \<Rightarrow> 's \<Rightarrow> cerror + addr \<times> 's" where
  "CSLObjectPool_construct construct s = construct s"

definition CSLObjectPool_destroy :: "(addr \<Rightarrow> 's \<Rightarrow> cerror + 's) \<Rightarrow> addr \<Rightarrow> 's \<Rightarrow> cerror + 's" where
  "CSLObjectPool_destroy destroy p s = destroy p s"

section \<open>The adapter of a pool is a pool\<close>

locale adapted_pool = mem_pool

sublocale adapted_pool \<subseteq> ad: mem_pool "CSLAllocator_Adapter_allocate alloc" "CSLAllocator_Adapter_deallocate dealloc"
  good "\<lambda>H (ad, n). ad_mtx ad = 0 \<and> inv H (ad_oMemPool ad, n)" oom
proof (unfold_locales, goal_cases)
  case (1 H s w p s')
  obtain ad n where s: "s = (ad, n)" by (cases s)
  from 1 show ?case using alloc_ok [of H "(ad_oMemPool ad, n)" w]
    by (fastforce simp: s res_simps CSLAllocator_Adapter_allocate_def ad_call_ptr_def ad_Lock_def ad_UnLock_def Let_def)
next
  case (2 H s w e)
  obtain ad n where s: "s = (ad, n)" by (cases s)
  from 2 show ?case using alloc_fault [of H "(ad_oMemPool ad, n)" w]
    by (cases "alloc w (ad_oMemPool ad, n)")
       (auto simp: s CSLAllocator_Adapter_allocate_def ad_call_ptr_def ad_Lock_def Let_def)
next
  case (3 H1 p k H2 s)
  obtain ad n where s: "s = (ad, n)" by (cases s)
  from 3 show ?case using dealloc_ok [of H1 p k H2 "(ad_oMemPool ad, n)"]
    by (fastforce simp: s CSLAllocator_Adapter_deallocate_def ad_call_def ad_Lock_def ad_UnLock_def Let_def)
next
  case (4 H s p k off bs)
  obtain ad n where s: "s = (ad, n)" by (cases s)
  from 4 show ?case using write_ok [of H "(ad_oMemPool ad, n)" p k off bs] by (simp add: s)
next
  case (5 H s)
  then show ?case using regions by (cases s) auto
qed

interpretation npa: adapted_pool "CSLNormalMemoryPool_allocate env N M" CSLNormalMemoryPool_deallocate "\<lambda>k. True"
  "np_inv env N M" "heap_can_fail env"
  by unfold_locales

interpretation baa: adapted_pool "CSLBlockAlloc_allocate env" "CSLBlockAlloc_deallocate env" "\<lambda>k. True" "ba_inv env" False
  by unfold_locales

text \<open>A block allocator behind an adapter is a store, and the mutex is free after every call.\<close>

lemma adapter_block_store:
  assumes "heap_ok env n" "CSLBlockAlloc_new nFreeLimit nBlockSize = Inr ba" "4 \<le> unat nBlockSize"
  shows "\<exists>H ad n'. mem_run (CSLAllocator_Adapter_allocate (CSLBlockAlloc_allocate env))
      (CSLAllocator_Adapter_deallocate (CSLBlockAlloc_deallocate env)) ops ([], CSLAllocator_Adapter_new ba, n) = Inr (H, ad, n') \<and>
    regions_ok n' H \<and> store_run ops [] (mem_view (H, ad, n')) \<and> ad_mtx ad = 0"
proof -
  have "ba_inv env [] (ba, n)"
    using assms by (auto simp: CSLBlockAlloc_new_def ba_inv_def ba_blocks_def split: if_splits)
  then have i: "case (CSLAllocator_Adapter_new ba, n) of (ad, n) \<Rightarrow> ad_mtx ad = 0 \<and> ba_inv env [] (ad_oMemPool ad, n)"
    by (simp add: CSLAllocator_Adapter_new_def)
  have "list_all (sizes_ok (\<lambda>k. True)) ops" unfolding list_all_iff by (metis sizes_ok.elims(3))
  from baa.ad.run_refines [OF i this] show ?thesis by (auto split: sum.splits)
qed

end
