(* ===== verification/ScopeMemoryPool.thy ===== *)
theory ScopeMemoryPool
  imports PoolMem
begin

text \<open>
  \<open>CSLScopeMemoryPool\<close> of SLScopeMemoryPool.h: memory for the time of a scope. Requests are cut off
  the end of the current block; nothing is given back before \<open>clear\<close>. The template argument
  \<open>MEMORY_BLOCK_SIZE\<close> is \<open>M\<close>.
\<close>

section \<open>The pool\<close>

definition HeaderSize :: nat where "HeaderSize = 4"

definition BlockSize :: "nat \<Rightarrow> nat" where "BlockSize M = M - HeaderSize"

record CSLScopeMemoryPool =
  sc_begin :: addr
  sc_end :: addr
  sc_destroyChain :: addr

type_synonym sc_state = "CSLScopeMemoryPool pool_net"

definition CSLScopeMemoryPool_new :: CSLScopeMemoryPool where
  "CSLScopeMemoryPool_new = \<lparr>sc_begin = HeaderSize, sc_end = HeaderSize, sc_destroyChain = NULL\<rparr>"

definition ChainHeader :: "CSLScopeMemoryPool \<Rightarrow> addr" where
  "ChainHeader sc = sc_begin sc - HeaderSize"

text \<open>A request of at least a block's size gets a block of its own, which is put behind the current
  one in the list. The sum \<open>HeaderSize + n\<close> is one of \<open>size_t\<close>.\<close>

definition sc_big :: "env \<Rightarrow> u32 \<Rightarrow> sc_state \<Rightarrow> cerror + addr \<times> sc_state" where
  "sc_big env k s =
     (case s of (sc, n) \<Rightarrow>
        let pHeader = ChainHeader sc;
            (pNew, n1) = CSLBasicHeapAlloc_allocate env (unat (of_nat HeaderSize + k)) n
        in if pHeader \<noteq> NULL
           then rbind (load_ptr pHeader n1) (\<lambda>next.
                rbind (store_ptr pNew next n1) (\<lambda>n2.
                rbind (store_ptr pHeader pNew n2) (\<lambda>n3. Inr (pNew + HeaderSize, sc, n3))))
           else rbind (store_ptr pNew NULL n1) (\<lambda>n2.
                  Inr (pNew + HeaderSize, sc\<lparr>sc_begin := pNew + HeaderSize, sc_end := pNew + HeaderSize\<rparr>, n2)))"

definition sc_next_block :: "env \<Rightarrow> nat \<Rightarrow> sc_state \<Rightarrow> cerror + sc_state" where
  "sc_next_block env M s =
     (case s of (sc, n) \<Rightarrow>
        let (pNew, n1) = CSLBasicHeapAlloc_allocate env M n
        in rbind (store_ptr pNew (ChainHeader sc) n1) (\<lambda>n2.
             Inr (sc\<lparr>sc_begin := pNew + HeaderSize, sc_end := pNew + HeaderSize + BlockSize M\<rparr>, n2)))"

definition CSLScopeMemoryPool_allocate :: "env \<Rightarrow> nat \<Rightarrow> u32 \<Rightarrow> sc_state \<Rightarrow> cerror + addr \<times> sc_state" where
  "CSLScopeMemoryPool_allocate env M k s =
     (if sc_end (fst s) - sc_begin (fst s) < unat k \<and> BlockSize M \<le> unat k then sc_big env k s
      else rbind (if sc_end (fst s) - sc_begin (fst s) < unat k then sc_next_block env M s else Inr s) (\<lambda>(sc, n).
             Inr (sc_end sc - unat k, sc\<lparr>sc_end := sc_end sc - unat k\<rparr>, n)))"

definition CSLScopeMemoryPool_deallocate :: "addr \<Rightarrow> sc_state \<Rightarrow> cerror + sc_state" where
  "CSLScopeMemoryPool_deallocate p s = Inr s"

text \<open>\<open>construct\<close> puts a node of the destroy chain before the object; \<open>T\<close> is \<open>sizeof(T)\<close>.\<close>

definition CSLScopeMemoryPool_construct ::
    "env \<Rightarrow> nat \<Rightarrow> u32 \<Rightarrow> (addr \<Rightarrow> net \<Rightarrow> cerror + net) \<Rightarrow> sc_state \<Rightarrow> cerror + addr \<times> sc_state" where
  "CSLScopeMemoryPool_construct env M T ctor s =
     rbind (CSLScopeMemoryPool_allocate env M (4 + T) s) (\<lambda>(pNode, sc, n).
     rbind (store_ptr pNode (sc_destroyChain sc) n) (\<lambda>n1.
     rbind (ctor (pNode + 4) n1) (\<lambda>n2. Inr (pNode + 4, sc\<lparr>sc_destroyChain := pNode\<rparr>, n2))))"

definition CSLScopeMemoryPool_construct_at :: "(addr \<Rightarrow> net \<Rightarrow> cerror + net) \<Rightarrow> addr \<Rightarrow> sc_state \<Rightarrow> cerror + sc_state" where
  "CSLScopeMemoryPool_construct_at ctor p s = (case s of (sc, n) \<Rightarrow> rbind (ctor p n) (\<lambda>n1. Inr (sc, n1)))"

definition CSLScopeMemoryPool_destroy :: "addr \<Rightarrow> sc_state \<Rightarrow> cerror + sc_state" where
  "CSLScopeMemoryPool_destroy p s = Inr s"

text \<open>\<open>clear\<close> runs the destructors, then frees the blocks.\<close>

partial_function (option) sc_destroy_all :: "(addr \<Rightarrow> net \<Rightarrow> cerror + net) \<Rightarrow> addr \<Rightarrow> net \<Rightarrow> (cerror + net) option" where
  "sc_destroy_all dtor p n =
     (if p = NULL then Some (Inr n)
      else case rbind (load_ptr p n) (\<lambda>next. rbind (dtor (p + 4) n) (\<lambda>n1. Inr (next, n1))) of
             Inl e \<Rightarrow> Some (Inl e)
           | Inr (next, n1) \<Rightarrow> sc_destroy_all dtor next n1)"

definition CSLScopeMemoryPool_clear ::
    "env \<Rightarrow> (addr \<Rightarrow> net \<Rightarrow> cerror + net) \<Rightarrow> sc_state \<Rightarrow> (cerror + sc_state) option" where
  "CSLScopeMemoryPool_clear env dtor s =
     (case s of (sc, n) \<Rightarrow>
        case sc_destroy_all dtor (sc_destroyChain sc) n of
          None \<Rightarrow> None
        | Some (Inl e) \<Rightarrow> Some (Inl e)
        | Some (Inr n1) \<Rightarrow>
            map_option (\<lambda>r. rbind r (\<lambda>n2. Inr (CSLScopeMemoryPool_new, n2)))
              (free_chain env (ChainHeader sc) n1))"

definition CSLScopeMemoryPool_delete ::
    "env \<Rightarrow> (addr \<Rightarrow> net \<Rightarrow> cerror + net) \<Rightarrow> sc_state \<Rightarrow> (cerror + sc_state) option" where
  "CSLScopeMemoryPool_delete env dtor s = CSLScopeMemoryPool_clear env dtor s"

section \<open>The invariant\<close>

text \<open>\<open>bs\<close> are the blocks, the current one first, \<open>ds\<close> the nodes of the destroy chain, each with its
  object of \<open>T\<close> bytes. Beside these and the regions in use there is what is left of the current
  block. A region lies in a block, behind the block's head.\<close>

definition sc_owned :: "nat \<Rightarrow> CSLScopeMemoryPool \<Rightarrow> addr list \<Rightarrow> region list \<Rightarrow> region list" where
  "sc_owned T sc ds H = (sc_begin sc, sc_end sc - sc_begin sc) # map (\<lambda>d. (d, 4 + T)) ds @ H"

definition in_block :: "(addr \<Rightarrow> nat option) \<Rightarrow> addr list \<Rightarrow> region \<Rightarrow> bool" where
  "in_block B bs r \<longleftrightarrow> (case r of (p, k) \<Rightarrow>
     0 < k \<longrightarrow> (\<exists>b \<in> set bs. \<exists>m. B b = Some m \<and> b + 4 \<le> p \<and> p + k \<le> b + m))"

definition sc_shape :: "nat \<Rightarrow> addr list \<Rightarrow> addr list \<Rightarrow> region list \<Rightarrow> sc_state \<Rightarrow> bool" where
  "sc_shape T bs ds H s = (case s of (sc, n) \<Rightarrow>
     4 \<le> sc_begin sc \<and> sc_begin sc \<le> sc_end sc \<and>
     ptr_chain (n_bytes n) (ChainHeader sc) bs \<and> distinct bs \<and>
     (\<forall>b \<in> set bs. \<exists>m. blocks (n_trace n) b = Some m \<and> 4 \<le> m) \<and>
     ptr_chain (n_bytes n) (sc_destroyChain sc) ds \<and>
     apart (sc_owned T sc ds H) \<and> (\<forall>r \<in> set (sc_owned T sc ds H). in_block (blocks (n_trace n)) bs r))"

definition sc_inv :: "env \<Rightarrow> nat \<Rightarrow> nat \<Rightarrow> region list \<Rightarrow> sc_state \<Rightarrow> bool" where
  "sc_inv env T M H s \<longleftrightarrow> heap_ok env (snd s) \<and> 4 < M \<and> (\<exists>bs ds. sc_shape T bs ds H s)"

lemma in_block_mono: "in_block B bs (p, k) \<Longrightarrow> p \<le> q \<Longrightarrow> q + j \<le> p + k \<Longrightarrow> in_block B bs (q, j)"
  unfolding in_block_def by (clarsimp, meson dual_order.trans le_add1)

lemma in_block_fits: "heap_ok env n \<Longrightarrow> in_block (blocks (n_trace n)) bs (p, k) \<Longrightarrow> 0 < k \<Longrightarrow> fits n p k"
  unfolding in_block_def using heap_okD fitsI by fastforce

text \<open>No region overlaps the head of a block.\<close>

lemma in_block_head:
  assumes "heap_ok env n" "in_block (blocks (n_trace n)) bs r" "b \<in> set bs"
    and "\<exists>m. blocks (n_trace n) b = Some m \<and> 4 \<le> m"
  shows "rng (b, 4) \<inter> rng r = {}"
proof -
  obtain p k where r: "r = (p, k)" by (cases r)
  show ?thesis
  proof (cases "k = 0")
    case False
    then obtain c m where c: "blocks (n_trace n) c = Some m" "c + 4 \<le> p" "p + k \<le> c + m"
      using assms(2) by (auto simp: in_block_def r)
    obtain l where l: "blocks (n_trace n) b = Some l" "4 \<le> l" using assms(4) by blast
    show ?thesis
    proof (cases "b = c")
      case True
      then show ?thesis using c r by auto
    next
      case False
      have "rng (b, l) \<inter> rng (c, m) = {}" by (rule heap_ok_apart [OF assms(1) l(1) c(1) False])
      moreover have "rng (b, 4) \<subseteq> rng (b, l)" "rng r \<subseteq> rng (c, m)" using l c r by auto
      ultimately show ?thesis by blast
    qed
  qed (simp add: r)
qed

text \<open>A fresh block meets no region of the old ones.\<close>

lemma in_block_fresh:
  assumes "heap_ok env n" "in_block (blocks (n_trace n)) bs r"
    and "\<And>q j. fits n q j \<Longrightarrow> rng (b, m) \<inter> rng (q, j) = {}"
  shows "rng (b, m) \<inter> rng r = {}"
proof -
  obtain p k where r: "r = (p, k)" by (cases r)
  show ?thesis
  proof (cases "k = 0")
    case False
    then show ?thesis using assms(3) [OF in_block_fits [OF assms(1) assms(2) [unfolded r]]] r by simp
  qed (simp add: r)
qed

lemma sc_regions:
  assumes "sc_inv env T M H s"
  shows "regions_ok (snd s) H"
proof -
  obtain sc n where s: "s = (sc, n)" by (cases s)
  obtain bs ds where sh: "heap_ok env n" "sc_shape T bs ds H (sc, n)" using assms by (auto simp: sc_inv_def s)
  then have "apart H" "\<forall>r \<in> set H. in_block (blocks (n_trace n)) bs r" by (auto simp: sc_shape_def sc_owned_def)
  then show ?thesis using in_block_fits [OF sh(1)] by (auto simp: regions_ok_def s)
qed

section \<open>The operations keep the invariant\<close>

lemma sc_cut:
  assumes "sc_shape T bs ds H (sc, n)" "k \<le> sc_end sc - sc_begin sc"
  shows "sc_shape T bs ds ((sc_end sc - k, k) # H) (sc\<lparr>sc_end := sc_end sc - k\<rparr>, n)"
proof -
  let ?sc = "sc\<lparr>sc_end := sc_end sc - k\<rparr>" and ?r = "(sc_begin sc, sc_end sc - sc_begin sc)"
  have sub: "rng (sc_begin sc, sc_end ?sc - sc_begin sc) \<subseteq> rng ?r" "rng (sc_end sc - k, k) \<subseteq> rng ?r"
    "rng (sc_begin sc, sc_end ?sc - sc_begin sc) \<inter> rng (sc_end sc - k, k) = {}"
    using assms(2) by auto
  have old: "apart (map (\<lambda>d. (d, 4 + T)) ds @ H)" "\<forall>s \<in> set (map (\<lambda>d. (d, 4 + T)) ds @ H). rng ?r \<inter> rng s = {}"
    using assms(1) by (auto simp: sc_shape_def sc_owned_def simp del: rng.simps)
  have "apart (sc_owned T ?sc ds ((sc_end sc - k, k) # H))"
    using old sub unfolding sc_owned_def apart_Cons apart_append set_append set_simps by (simp del: rng.simps) blast
  moreover have "in_block (blocks (n_trace n)) bs (sc_begin sc, sc_end ?sc - sc_begin sc)"
    "in_block (blocks (n_trace n)) bs (sc_end sc - k, k)"
    using assms by (auto simp: sc_shape_def sc_owned_def intro: in_block_mono)
  ultimately show ?thesis using assms unfolding sc_shape_def sc_owned_def by (auto simp: ChainHeader_def)
qed

text \<open>What a fresh block of \<open>m\<close> bytes does not touch.\<close>

lemma sc_fresh:
  assumes "heap_ok env n" "sc_shape T bs ds H (sc, n)" "CSLBasicHeapAlloc_allocate env m n = (p, n1)" "p \<noteq> NULL" "4 \<le> m"
  shows "heap_ok env n1" "n_bytes n1 = n_bytes n" "fits n1 p 4" "p < 2 ^ 32" "p \<notin> set bs"
    "blocks (n_trace n1) p = Some m" "\<And>b. b \<in> set bs \<Longrightarrow> blocks (n_trace n1) b = blocks (n_trace n) b"
    "\<And>r. in_block (blocks (n_trace n)) bs r \<Longrightarrow> rng (p, m) \<inter> rng r = {} \<and> in_block (blocks (n_trace n1)) (p # bs) r"
    "\<And>b. b \<in> set bs \<Longrightarrow> rng (p, m) \<inter> rng (b, 4) = {} \<and> b < 2 ^ 32 \<and> fits n1 b 4"
    "\<And>q j. fits n q j \<Longrightarrow> rng (p, m) \<inter> rng (q, j) = {}"
proof -
  note al = heap_alloc_ok [OF assms(1,3)]
  show n1: "heap_ok env n1" "n_bytes n1 = n_bytes n" using al by auto
  show p: "blocks (n_trace n1) p = Some m" using al(3) assms(4) by simp
  show "fits n1 p 4" by (rule fitsI [OF p]) (use assms(4,5) in auto)
  show "p < 2 ^ 32" using al(4) [OF assms(4)] assms(5) by auto
  have bl: "\<exists>m. blocks (n_trace n) b = Some m \<and> 4 \<le> m" if "b \<in> set bs" for b
    using assms(2) that by (auto simp: sc_shape_def)
  show new: "p \<notin> set bs" using bl [of p] al(4) [OF assms(4)] by auto
  show old: "blocks (n_trace n1) b = blocks (n_trace n) b" if "b \<in> set bs" for b
    using al(3) assms(4) new that by auto
  show fresh: "rng (p, m) \<inter> rng (q, j) = {}" if "fits n q j" for q j using al(4) [OF assms(4)] that by blast
  show "rng (p, m) \<inter> rng r = {} \<and> in_block (blocks (n_trace n1)) (p # bs) r" if r: "in_block (blocks (n_trace n)) bs r" for r
    using in_block_fresh [OF assms(1) r fresh] r old by (cases r) (fastforce simp: in_block_def simp del: rng.simps)
  show "rng (p, m) \<inter> rng (b, 4) = {} \<and> b < 2 ^ 32 \<and> fits n1 b 4" if b: "b \<in> set bs" for b
  proof -
    obtain l where l: "blocks (n_trace n) b = Some l" "4 \<le> l" using bl [OF b] by blast
    have "fits n b 4" by (rule fitsI [OF l(1)]) (use heap_okD [OF assms(1) l(1)] l(2) in auto)
    moreover have "fits n1 b 4"
      by (rule fitsI [of n1 b l]) (use old [OF b] heap_okD [OF assms(1) l(1)] l in auto)
    moreover have "rng (p, m) \<inter> rng (b, 4) = {}" by (rule fresh) fact
    ultimately show ?thesis using heap_okD [OF assms(1) l(1)] l(2) by (simp del: rng.simps)
  qed
qed

text \<open>Bytes that change in the heads of blocks only.\<close>

lemma sc_bytes:
  assumes "\<And>a. b' a \<noteq> n_bytes n a \<Longrightarrow> \<exists>w \<in> W. a \<in> rng (w, 4)"
    and "\<And>w r. w \<in> W \<Longrightarrow> r \<in> set (sc_owned T sc ds H) \<Longrightarrow> rng (w, 4) \<inter> rng r = {}"
    and "ptr_chain (n_bytes n) (sc_destroyChain sc) ds"
  shows "ptr_chain b' (sc_destroyChain sc) ds" "\<And>r a. r \<in> set H \<Longrightarrow> a \<in> rng r \<Longrightarrow> b' a = n_bytes n a"
proof -
  have keep: "b' a = n_bytes n a" if "r \<in> set (sc_owned T sc ds H)" "a \<in> rng r" for r a
    using assms(1) [of a] assms(2) that by blast
  then show "\<And>r a. r \<in> set H \<Longrightarrow> a \<in> rng r \<Longrightarrow> b' a = n_bytes n a" by (auto simp: sc_owned_def)
  show "ptr_chain b' (sc_destroyChain sc) ds"
  proof (rule ptr_chain_cong [OF assms(3)])
    fix d a assume d: "d \<in> set ds" "a \<in> rng (d, 4)"
    have "(d, 4 + T) \<in> set (sc_owned T sc ds H)" using d(1) by (auto simp: sc_owned_def)
    moreover have "a \<in> rng (d, 4 + T)" using d(2) by auto
    ultimately show "b' a = n_bytes n a" by (rule keep)
  qed
qed

lemma sc_next_block_ok:
  assumes "heap_ok env n" "4 < M" "sc_shape T bs ds H (sc, n)"
    and "CSLBasicHeapAlloc_allocate env M n = (p, n1)" "p \<noteq> NULL"
  shows "\<exists>n'. sc_next_block env M (sc, n) =
      Inr (sc\<lparr>sc_begin := p + HeaderSize, sc_end := p + HeaderSize + BlockSize M\<rparr>, n') \<and> heap_ok env n' \<and>
    sc_shape T (p # bs) ds H (sc\<lparr>sc_begin := p + HeaderSize, sc_end := p + HeaderSize + BlockSize M\<rparr>, n') \<and> same_bytes H n n'"
proof -
  let ?sc = "sc\<lparr>sc_begin := p + HeaderSize, sc_end := p + HeaderSize + BlockSize M\<rparr>"
  have m4: "4 \<le> M" using assms(2) by simp
  note fr = sc_fresh [OF assms(1,3-5) m4]
  have sh: "ptr_chain (n_bytes n) (ChainHeader sc) bs" "distinct bs" "ptr_chain (n_bytes n) (sc_destroyChain sc) ds"
    "apart (sc_owned T sc ds H)" "\<And>r. r \<in> set (sc_owned T sc ds H) \<Longrightarrow> in_block (blocks (n_trace n)) bs r"
    "\<forall>b \<in> set bs. \<exists>m. blocks (n_trace n) b = Some m \<and> 4 \<le> m"
    using assms(3) by (auto simp: sc_shape_def)
  let ?n = "n1\<lparr>n_bytes := mem_write (n_bytes n) p (le_bytes 4 (ChainHeader sc))\<rparr>"
  have st: "store_ptr p (ChainHeader sc) n1 = Inr ?n" using fr(2,3) assms(5) by (simp add: store_ptr_def)
  have p4: "rng (p, 4) \<subseteq> rng (p, M)" using m4 by auto
  have ch: "ptr_chain (n_bytes ?n) p (p # bs)"
  proof -
    have "ChainHeader sc < 2 ^ 32" using sh(1) fr(9) [of "ChainHeader sc"] by (cases bs) auto
    moreover have "rng (b, 4) \<inter> rng (p, 4) = {}" if "b \<in> set bs" for b using fr(9) [OF that] p4 by blast
    ultimately show ?thesis using ptr_chain_push [OF sh(1), of p] assms(5) by simp
  qed
  have w: "\<exists>w \<in> {p}. a \<in> rng (w, 4)" if "n_bytes ?n a \<noteq> n_bytes n a" for a
    using that mem_write_other [of a p "le_bytes 4 (ChainHeader sc)" "n_bytes n"] by auto
  note kept = sc_bytes [of "n_bytes ?n" n "{p}" T sc ds H, OF w _ sh(3)]
  have off: "rng (p, 4) \<inter> rng r = {}" if "r \<in> set (sc_owned T sc ds H)" for r
    using fr(8) [OF sh(5) [OF that]] p4 by blast
  have rest: "apart (map (\<lambda>d. (d, 4 + T)) ds @ H)" using sh(4) by (simp add: sc_owned_def)
  have new: "rng (p + 4, M - 4) \<inter> rng r = {}" if "r \<in> set (map (\<lambda>d. (d, 4 + T)) ds @ H)" for r
  proof -
    have "r \<in> set (sc_owned T sc ds H)" using that by (auto simp: sc_owned_def)
    moreover have "rng (p + 4, M - 4) \<subseteq> rng (p, M)" by auto
    ultimately show ?thesis using fr(8) [OF sh(5)] by blast
  qed
  have "apart (sc_owned T ?sc ds H)"
    using rest new unfolding sc_owned_def apart_Cons by (simp add: HeaderSize_def BlockSize_def del: rng.simps)
  moreover have "in_block (blocks (n_trace ?n)) (p # bs) r" if "r \<in> set (sc_owned T ?sc ds H)" for r
  proof -
    have "in_block (blocks (n_trace ?n)) (p # bs) (p + 4, M - 4)" using fr(6) by (auto simp: in_block_def)
    moreover have "r = (p + 4, M - 4) \<or> r \<in> set (sc_owned T sc ds H)"
      using that by (auto simp: sc_owned_def HeaderSize_def BlockSize_def)
    ultimately show ?thesis using fr(8) [OF sh(5), of r] by (auto simp del: rng.simps)
  qed
  moreover have "\<exists>m. blocks (n_trace ?n) b = Some m \<and> 4 \<le> m" if "b \<in> set (p # bs)" for b
    using that sh(6) fr(6,7) m4 by auto
  ultimately have "sc_shape T (p # bs) ds H (?sc, ?n)"
    using ch sh(2) fr(5) kept(1) off unfolding sc_shape_def ChainHeader_def HeaderSize_def
    by (auto simp del: ptr_chain.simps rng.simps)
  moreover have "same_bytes H n ?n" using kept(2) off unfolding same_bytes_def by blast
  moreover have "heap_ok env ?n" using heap_ok_same [OF fr(1)] by simp
  ultimately show ?thesis using st assms(4) by (simp add: sc_next_block_def)
qed

text \<open>A block for a large request.\<close>

lemma sc_big_ok:
  assumes "heap_ok env n" "4 < M" "sc_shape T bs ds H (sc, n)" "unat k + 4 < 2 ^ 32" "0 < unat k"
    and "sc_end sc - sc_begin sc < unat k"
    and "CSLBasicHeapAlloc_allocate env (unat (of_nat HeaderSize + k)) n = (p, n1)" "p \<noteq> NULL"
  shows "\<exists>sc' n'. sc_big env k (sc, n) = Inr (p + 4, sc', n') \<and>
    sc_inv env T M ((p + 4, unat k) # H) (sc', n') \<and> same_bytes H n n'"
proof -
  let ?m = "4 + unat k" and ?O = "sc_owned T sc ds H"
  have k4: "unat (of_nat HeaderSize + k) = ?m" using assms(4) by (simp add: HeaderSize_def unat_word_ariths(1))
  have m4: "4 \<le> ?m" by simp
  note fr = sc_fresh [OF assms(1,3) assms(7) [unfolded k4] assms(8) m4]
  have sh: "ptr_chain (n_bytes n) (ChainHeader sc) bs" "distinct bs" "ptr_chain (n_bytes n) (sc_destroyChain sc) ds"
    "apart ?O" "\<And>r. r \<in> set ?O \<Longrightarrow> in_block (blocks (n_trace n)) bs r"
    "\<forall>b \<in> set bs. \<exists>m. blocks (n_trace n) b = Some m \<and> 4 \<le> m" "4 \<le> sc_begin sc" "sc_begin sc \<le> sc_end sc"
    using assms(3) by (auto simp: sc_shape_def)
  have p4: "rng (p, 4) \<subseteq> rng (p, ?m)" "rng (p + 4, unat k) \<subseteq> rng (p, ?m)" by auto
  have newr: "rng (p + 4, unat k) \<inter> rng r = {}" "rng (p, 4) \<inter> rng r = {}" if "r \<in> set ?O" for r
    using fr(8) [OF sh(5) [OF that]] p4 by blast+
  have blk: "in_block (blocks (n_trace n1)) (p # bs) (p + 4, unat k)" using fr(6) by (auto simp: in_block_def)
  have live: "\<exists>m. blocks (n_trace n1) b = Some m \<and> 4 \<le> m" if "b \<in> set (p # bs)" for b
    using that sh(6) fr(6,7) by auto
  have inv: "sc_inv env T M ((p + 4, unat k) # H) (sc', n')"
    if t: "n_trace n' = n_trace n1" and ch: "ptr_chain (n_bytes n') (ChainHeader sc') bs'" "set bs' = set (p # bs)" "distinct bs'"
      and d: "ptr_chain (n_bytes n') (sc_destroyChain sc') ds"
      and own: "sc_owned T sc' ds H = ?O \<or> sc_end sc' = sc_begin sc' \<and> sc_destroyChain sc' = sc_destroyChain sc"
      and be: "4 \<le> sc_begin sc'" "sc_begin sc' \<le> sc_end sc'" for sc' n' bs'
  proof -
    have tl: "apart (map (\<lambda>d. (d, 4 + T)) ds @ H)" using sh(4) by (simp add: sc_owned_def)
    have hd: "r \<in> set ?O \<or> rng r = {} \<and> (\<exists>a. r = (a, 0))" if "r = (sc_begin sc', sc_end sc' - sc_begin sc')" for r
      using own that by (auto simp: sc_owned_def)
    have sub: "set (map (\<lambda>d. (d, 4 + T)) ds @ H) \<subseteq> set ?O" by (auto simp: sc_owned_def)
    have "apart (sc_owned T sc' ds H)"
    proof (cases "sc_owned T sc' ds H = ?O")
      case False
      then have "rng (sc_begin sc', sc_end sc' - sc_begin sc') = {}" using own by auto
      then show ?thesis using tl unfolding sc_owned_def apart_Cons by blast
    qed (use sh(4) in simp)
    moreover have "rng (p + 4, unat k) \<inter> rng r = {}" if "r \<in> set (sc_owned T sc' ds H)" for r
    proof -
      have "r = (sc_begin sc', sc_end sc' - sc_begin sc') \<or> r \<in> set ?O" using that sub by (auto simp: sc_owned_def)
      then show ?thesis using hd newr(1) by blast
    qed
    ultimately have ap: "apart (sc_owned T sc' ds ((p + 4, unat k) # H))"
      unfolding sc_owned_def apart_Cons apart_append set_append set_simps by blast
    have "in_block (blocks (n_trace n')) bs' r" if r: "r \<in> set (sc_owned T sc' ds ((p + 4, unat k) # H))" for r
    proof -
      have "r = (p + 4, unat k) \<or> r = (sc_begin sc', sc_end sc' - sc_begin sc') \<or> r \<in> set ?O"
        using r sub by (auto simp: sc_owned_def)
      then consider "r = (p + 4, unat k)" | "r \<in> set ?O" | a where "r = (a, 0)" using hd by blast
      then have "in_block (blocks (n_trace n1)) (p # bs) r"
        by cases (use blk fr(8) [OF sh(5)] in \<open>simp_all add: in_block_def del: rng.simps\<close>)
      then show ?thesis using t ch(2) by (simp add: in_block_def)
    qed
    moreover have "\<exists>m. blocks (n_trace n') b = Some m \<and> 4 \<le> m" if "b \<in> set bs'" for b
      using live [of b] that ch(2) t by simp
    ultimately have "sc_shape T bs' ds ((p + 4, unat k) # H) (sc', n')"
      unfolding sc_shape_def prod.case using ch(1,3) d ap be by blast
    moreover have "heap_ok env n'" by (rule heap_ok_same [OF fr(1) t])
    ultimately show ?thesis using assms(2) unfolding sc_inv_def snd_conv by blast
  qed
  show ?thesis
  proof (cases bs)
    case Nil
    then have h0: "ChainHeader sc = NULL" using sh(1) by simp
    let ?n = "n1\<lparr>n_bytes := mem_write (n_bytes n) p (le_bytes 4 NULL)\<rparr>"
    let ?sc = "sc\<lparr>sc_begin := p + HeaderSize, sc_end := p + HeaderSize\<rparr>"
    have st: "store_ptr p NULL n1 = Inr ?n" using fr(2,3) assms(8) by (simp add: store_ptr_def)
    have w: "\<exists>w \<in> {p}. a \<in> rng (w, 4)" if "n_bytes ?n a \<noteq> n_bytes n a" for a
      using that mem_write_other [of a p "le_bytes 4 NULL" "n_bytes n"] by auto
    note kept = sc_bytes [of "n_bytes ?n" n "{p}" T sc ds H, OF w _ sh(3)]
    have "ptr_chain (n_bytes ?n) p [p]" using assms(8) by simp
    then have "sc_inv env T M ((p + 4, unat k) # H) (?sc, ?n)"
      using kept(1) newr(2) Nil by (intro inv [of ?n ?sc "[p]"]) (auto simp: ChainHeader_def HeaderSize_def)
    moreover have "same_bytes H n ?n" using kept(2) newr(2) unfolding same_bytes_def by blast
    ultimately show ?thesis using st h0 assms(7) by (auto simp: sc_big_def Let_def HeaderSize_def)
  next
    case (Cons h bs')
    have h: "ChainHeader sc = h" "h \<noteq> NULL" "ptr_chain (n_bytes n) (ptr_at (n_bytes n) h) bs'" "h \<in> set bs"
      using sh(1) Cons by auto
    note hf = fr(9) [OF h(4)]
    let ?x = "ptr_at (n_bytes n) h"
    let ?b2 = "mem_write (n_bytes n) p (le_bytes 4 ?x)"
    let ?n2 = "n1\<lparr>n_bytes := ?b2\<rparr>"
    let ?n3 = "?n2\<lparr>n_bytes := mem_write ?b2 h (le_bytes 4 p)\<rparr>"
    have ld: "load_ptr h n1 = Inr ?x" using h(2) hf fr(2) by (simp add: load_ptr_def)
    have s2: "store_ptr p ?x n1 = Inr ?n2" using fr(2,3) assms(8) by (simp add: store_ptr_def)
    have "fits ?n2 h 4" using hf by (simp add: fits_def)
    then have s3: "store_ptr h p ?n2 = Inr ?n3" using h(2) by (simp add: store_ptr_def)
    have hd: "rng (h, 4) \<inter> rng r = {}" if "r \<in> set ?O" for r
      using in_block_head [OF assms(1) sh(5) [OF that] h(4)] sh(6) h(4) by blast
    have w: "\<exists>w \<in> {p, h}. a \<in> rng (w, 4)" if "n_bytes ?n3 a \<noteq> n_bytes n a" for a
    proof (rule ccontr)
      assume "\<not> ?thesis"
      then have "a \<notin> rng (p, 4)" "a \<notin> rng (h, 4)" by blast+
      then show False using that mem_write_other [of a p "le_bytes 4 ?x" "n_bytes n"]
        mem_write_other [of a h "le_bytes 4 p" ?b2] by (simp del: rng.simps)
    qed
    note kept = sc_bytes [of "n_bytes ?n3" n "{p, h}" T sc ds H, OF w _ sh(3)]
    have off: "rng (v, 4) \<inter> rng r = {}" if "v \<in> {p, h}" "r \<in> set ?O" for v r using that newr(2) hd by blast
    have rest: "rng (b, 4) \<inter> rng (h, 4) = {}" "rng (b, 4) \<inter> rng (p, 4) = {}" "b < 2 ^ 32" if b: "b \<in> set bs'" for b
    proof -
      have "b \<in> set bs" "b \<noteq> h" using b Cons sh(2) by auto
      then obtain l j where l: "blocks (n_trace n) b = Some l" "4 \<le> l" "blocks (n_trace n) h = Some j" "4 \<le> j"
        using sh(6) h(4) by blast
      have "rng (b, l) \<inter> rng (h, j) = {}" by (rule heap_ok_apart [OF assms(1) l(1,3)]) fact
      moreover have "rng (b, 4) \<subseteq> rng (b, l)" "rng (h, 4) \<subseteq> rng (h, j)" using l by auto
      ultimately show "rng (b, 4) \<inter> rng (h, 4) = {}" by blast
      show "rng (b, 4) \<inter> rng (p, 4) = {}" "b < 2 ^ 32" using fr(9) [of b] \<open>b \<in> set bs\<close> p4(1) by blast+
    qed
    have xs: "?x < 2 ^ 32" using h(3) rest(3) [of ?x] by (cases bs') auto
    have php: "rng (p, 4) \<inter> rng (h, 4) = {}" using hf p4(1) by blast
    have "ptr_chain ?b2 ?x bs'" using ptr_chain_write [OF h(3), of p "le_bytes 4 ?x"] rest(2) by simp
    then have c1: "ptr_chain ?b2 p (p # bs')" using assms(8) xs by simp
    have "ptr_chain (n_bytes ?n3) h (h # p # bs')"
      using ptr_chain_push [OF c1, of h] rest(1) php h(2) fr(4) by (auto simp del: rng.simps ptr_chain.simps)
    then have "sc_inv env T M ((p + 4, unat k) # H) (sc, ?n3)"
      using kept(1) off h(1) Cons sh(2,7,8) fr(5)
      by (intro inv [of ?n3 sc "h # p # bs'"]) (auto simp del: rng.simps ptr_chain.simps)
    moreover have "same_bytes H n ?n3" using kept(2) off unfolding same_bytes_def by blast
    ultimately show ?thesis using ld s2 s3 h(1,2) assms(7) by (auto simp: sc_big_def Let_def HeaderSize_def)
  qed
qed

lemma sc_allocate_ok:
  assumes "sc_inv env T M H s" "unat k + 4 < 2 ^ 32"
  shows "case CSLScopeMemoryPool_allocate env M k s of
      Inl e \<Rightarrow> heap_can_fail env
    | Inr (p, s') \<Rightarrow> p \<noteq> NULL \<and> sc_inv env T M ((p, unat k) # H) s' \<and> same_bytes H (snd s) (snd s')"
proof -
  obtain sc n where s: "s = (sc, n)" by (cases s)
  obtain bs ds where sh: "heap_ok env n" "4 < M" "sc_shape T bs ds H (sc, n)" using assms(1) by (auto simp: sc_inv_def s)
  have be: "4 \<le> sc_begin sc" "sc_begin sc \<le> sc_end sc" using sh(3) by (auto simp: sc_shape_def)
  consider (big) "sc_end sc - sc_begin sc < unat k" "BlockSize M \<le> unat k"
    | (more) "sc_end sc - sc_begin sc < unat k" "unat k < BlockSize M" | (cut) "unat k \<le> sc_end sc - sc_begin sc" by linarith
  then show ?thesis
  proof cases
    case big
    obtain p n1 where al: "CSLBasicHeapAlloc_allocate env (unat (of_nat HeaderSize + k)) n = (p, n1)" by fastforce
    show ?thesis
    proof (cases "p = NULL")
      case True
      have "\<exists>e. sc_big env k (sc, n) = Inl e"
        using al True by (cases "load_ptr (ChainHeader sc) n1") (auto simp: sc_big_def Let_def store_ptr_def)
      then show ?thesis using heap_alloc_null [of env] al True big by (auto simp: CSLScopeMemoryPool_allocate_def s)
    next
      case False
      have "0 < unat k" using big(1) by simp
      from sc_big_ok [OF sh assms(2) this big(1) al False] big show ?thesis
        by (auto simp: CSLScopeMemoryPool_allocate_def s)
    qed
  next
    case more
    obtain p n1 where al: "CSLBasicHeapAlloc_allocate env M n = (p, n1)" by fastforce
    show ?thesis
    proof (cases "p = NULL")
      case True
      then show ?thesis using heap_alloc_null [of env] al more
        by (auto simp: CSLScopeMemoryPool_allocate_def sc_next_block_def store_ptr_def s)
    next
      case False
      let ?sc = "sc\<lparr>sc_begin := p + HeaderSize, sc_end := p + HeaderSize + BlockSize M\<rparr>"
      obtain n' where n': "sc_next_block env M (sc, n) = Inr (?sc, n')" "heap_ok env n'"
          "sc_shape T (p # bs) ds H (?sc, n')" "same_bytes H n n'" using sc_next_block_ok [OF sh al False] by blast
      have "unat k \<le> sc_end ?sc - sc_begin ?sc" using more(2) by simp
      from sc_cut [OF n'(3) this] n' sh(2) more False show ?thesis
        by (auto simp: CSLScopeMemoryPool_allocate_def s sc_inv_def HeaderSize_def)
    qed
  next
    case cut
    from sc_cut [OF sh(3) cut] sh(1,2) cut be show ?thesis
      by (auto simp: CSLScopeMemoryPool_allocate_def s sc_inv_def same_bytes_def)
  qed
qed

lemma sc_forget:
  assumes "sc_inv env T M (H1 @ r # H2) s"
  shows "sc_inv env T M (H1 @ H2) s"
proof -
  have "sc_shape T bs ds (H1 @ r # H2) s \<Longrightarrow> sc_shape T bs ds (H1 @ H2) s" for bs ds
    by (cases s) (auto simp: sc_shape_def sc_owned_def simp del: rng.simps)
  then show ?thesis using assms unfolding sc_inv_def by blast
qed

text \<open>Writes to an owned region leave the lists alone.\<close>

lemma sc_owned_write:
  assumes "heap_ok env n" "sc_shape T bs ds H (sc, n)" "r \<in> set H \<or> (\<exists>d \<in> set ds. r = (d + 4, T))"
    and "\<And>a. a \<notin> rng r \<Longrightarrow> b' a = n_bytes n a"
  shows "sc_shape T bs ds H (sc, n\<lparr>n_bytes := b'\<rparr>)"
proof -
  let ?O = "sc_owned T sc ds H"
  have sh: "ptr_chain (n_bytes n) (ChainHeader sc) bs" "ptr_chain (n_bytes n) (sc_destroyChain sc) ds"
    "apart ?O" "\<And>r. r \<in> set ?O \<Longrightarrow> in_block (blocks (n_trace n)) bs r"
    "\<forall>b \<in> set bs. \<exists>m. blocks (n_trace n) b = Some m \<and> 4 \<le> m" using assms(2) by (auto simp: sc_shape_def)
  have inO: "\<exists>o' \<in> set ?O. rng r \<subseteq> rng o'"
    using assms(3)
  proof
    assume "r \<in> set H"
    then have "r \<in> set ?O" by (simp add: sc_owned_def)
    then show ?thesis by blast
  next
    assume "\<exists>d \<in> set ds. r = (d + 4, T)"
    then obtain d where d: "d \<in> set ds" "r = (d + 4, T)" by blast
    then have "(d, 4 + T) \<in> set ?O" "rng r \<subseteq> rng (d, 4 + T)" by (auto simp: sc_owned_def)
    then show ?thesis by blast
  qed
  have "ptr_chain b' (ChainHeader sc) bs"
  proof (rule ptr_chain_cong [OF sh(1)])
    fix b a assume b: "b \<in> set bs" "a \<in> rng (b, 4)"
    have "rng (b, 4) \<inter> rng o' = {}" if "o' \<in> set ?O" for o'
      using in_block_head [OF assms(1) sh(4) [OF that] b(1)] sh(5) b(1) by blast
    then show "b' a = n_bytes n a" using inO b(2) by (intro assms(4)) blast
  qed
  moreover have "ptr_chain b' (sc_destroyChain sc) ds"
  proof (rule ptr_chain_cong [OF sh(2)])
    fix d a assume d: "d \<in> set ds" "a \<in> rng (d, 4)"
    have "rng (d, 4) \<inter> rng r = {}"
      using assms(3)
    proof
      assume r: "r \<in> set H"
      have "rng (d, 4 + T) \<inter> rng r = {}" using sh(3) d(1) r unfolding sc_owned_def apart_Cons apart_append by auto
      moreover have "rng (d, 4) \<subseteq> rng (d, 4 + T)" by auto
      ultimately show ?thesis by blast
    next
      assume "\<exists>e \<in> set ds. r = (e + 4, T)"
      then obtain e where e: "e \<in> set ds" "r = (e + 4, T)" by blast
      show ?thesis
      proof (cases "e = d")
        case False
        obtain i j where ij: "i < length ds" "j < length ds" "ds ! i = d" "ds ! j = e"
          using d(1) e(1) by (auto simp: in_set_conv_nth)
        have "apart (map (\<lambda>d. (d, 4 + T)) ds)" using sh(3) by (simp add: sc_owned_def)
        from apart_nth [OF this, of i j] ij False have "rng (d, 4 + T) \<inter> rng (e, 4 + T) = {}" by auto
        moreover have "rng (d, 4) \<subseteq> rng (d, 4 + T)" "rng r \<subseteq> rng (e, 4 + T)" using e by auto
        ultimately show ?thesis by blast
      qed (use e in auto)
    qed
    then show "b' a = n_bytes n a" using d(2) by (intro assms(4)) blast
  qed
  ultimately show ?thesis using assms(2) by (simp add: sc_shape_def)
qed

lemma sc_write_ok:
  assumes "sc_inv env T M H s" "(p, k) \<in> set H" "off + length bs \<le> k"
  shows "sc_inv env T M H (put_bytes (p + off) bs s)"
proof -
  obtain sc n where s: "s = (sc, n)" by (cases s)
  obtain cs ds where sh: "heap_ok env n" "4 < M" "sc_shape T cs ds H (sc, n)" using assms(1) by (auto simp: sc_inv_def s)
  have "sc_shape T cs ds H (sc, n\<lparr>n_bytes := mem_write (n_bytes n) (p + off) bs\<rparr>)"
  proof (rule sc_owned_write [OF sh(1,3)])
    show "(p, k) \<in> set H \<or> (\<exists>d \<in> set ds. (p, k) = (d + 4, T))" using assms(2) by blast
    show "mem_write (n_bytes n) (p + off) bs a = n_bytes n a" if "a \<notin> rng (p, k)" for a
      using that assms(3) by (intro mem_write_other) auto
  qed
  then show ?thesis using sh heap_ok_same [OF sh(1)] by (auto simp: s sc_inv_def)
qed

definition sc_size_ok :: "u32 \<Rightarrow> bool" where
  "sc_size_ok k \<longleftrightarrow> k \<le> 4294967291"

interpretation sc: mem_pool "CSLScopeMemoryPool_allocate env M" CSLScopeMemoryPool_deallocate sc_size_ok
  "sc_inv env T M" "heap_can_fail env"
proof -
  have g: "sc_size_ok k \<Longrightarrow> unat k + 4 < 2 ^ 32" for k by (simp add: sc_size_ok_def word_le_nat_alt)
  show "mem_pool (CSLScopeMemoryPool_allocate env M) CSLScopeMemoryPool_deallocate sc_size_ok (sc_inv env T M)
      (heap_can_fail env)"
  proof (unfold_locales, goal_cases)
    case (1 H s w p s')
    then show ?case using sc_allocate_ok [of env T M H s w] g by simp
  next
    case (2 H s w e)
    then show ?case using sc_allocate_ok [of env T M H s w] g by simp
  next
    case (3 H1 p k H2 s)
    then show ?case using sc_forget by (auto simp: CSLScopeMemoryPool_deallocate_def same_bytes_def)
  qed (auto intro: sc_write_ok sc_regions)
qed

section \<open>Objects\<close>

text \<open>A constructor or destructor of an object of \<open>T\<close> bytes writes to the object only.\<close>

definition own_object :: "nat \<Rightarrow> (addr \<Rightarrow> net \<Rightarrow> cerror + net) \<Rightarrow> bool" where
  "own_object T f \<longleftrightarrow> (\<forall>p n. \<exists>n'. f p n = Inr n' \<and> n_trace n' = n_trace n \<and>
     (\<forall>a. a \<notin> rng (p, T) \<longrightarrow> n_bytes n' a = n_bytes n a))"

lemma own_objectD:
  assumes "own_object T f"
  obtains n' where "f p n = Inr n'" "n_trace n' = n_trace n" "\<And>a. a \<notin> rng (p, T) \<Longrightarrow> n_bytes n' a = n_bytes n a"
  using assms unfolding own_object_def by blast

lemma sc_destroy_all_ok:
  assumes "ptr_chain (n_bytes n) p ds" "apart (map (\<lambda>d. (d, 4 + T)) ds)" "\<forall>d \<in> set ds. fits n d 4" "own_object T dtor"
  shows "\<exists>n'. sc_destroy_all dtor p n = Some (Inr n') \<and> n_trace n' = n_trace n \<and>
    (\<forall>a. (\<forall>d \<in> set ds. a \<notin> rng (d + 4, T)) \<longrightarrow> n_bytes n' a = n_bytes n a)"
  using assms(1-3)
proof (induction ds arbitrary: p n)
  case Nil
  then show ?case by (subst sc_destroy_all.simps) simp
next
  case (Cons d ds)
  let ?x = "ptr_at (n_bytes n) d"
  have d: "p = d" "d \<noteq> NULL" "ptr_chain (n_bytes n) ?x ds" "fits n d 4" using Cons.prems by auto
  obtain n1 where n1: "dtor (d + 4) n = Inr n1" "n_trace n1 = n_trace n"
      "\<And>a. a \<notin> rng (d + 4, T) \<Longrightarrow> n_bytes n1 a = n_bytes n a" using own_objectD [OF assms(4), of "d + 4" n] by blast
  have "ptr_chain (n_bytes n1) ?x ds"
  proof (rule ptr_chain_cong [OF d(3)])
    fix e a assume e: "e \<in> set ds" "a \<in> rng (e, 4)"
    have "rng (d, 4 + T) \<inter> rng (e, 4 + T) = {}" using Cons.prems(2) e(1) by auto
    moreover have "a \<in> rng (e, 4 + T)" "rng (d + 4, T) \<subseteq> rng (d, 4 + T)" using e(2) by auto
    ultimately show "n_bytes n1 a = n_bytes n a" by (intro n1(3)) blast
  qed
  moreover have "\<forall>e \<in> set ds. fits n1 e 4" using Cons.prems(3) n1(2) by (simp add: fits_def)
  moreover have "apart (map (\<lambda>d. (d, 4 + T)) ds)" using Cons.prems(2) by simp
  ultimately obtain n' where n': "sc_destroy_all dtor ?x n1 = Some (Inr n')" "n_trace n' = n_trace n1"
      "\<forall>a. (\<forall>d \<in> set ds. a \<notin> rng (d + 4, T)) \<longrightarrow> n_bytes n' a = n_bytes n1 a"
    using Cons.IH [of n1 ?x] by blast
  have "sc_destroy_all dtor p n = sc_destroy_all dtor ?x n1"
    using d n1(1) by (subst sc_destroy_all.simps) (simp add: load_ptr_def)
  then show ?case using n' n1(2,3) by (intro exI [of _ n']) simp
qed

lemma sc_clear_ok:
  assumes "sc_inv env T M H (sc, n)" "own_object T dtor"
  shows "\<exists>n' bs. CSLScopeMemoryPool_clear env dtor (sc, n) = Some (Inr (CSLScopeMemoryPool_new, n')) \<and>
    sc_inv env T M [] (CSLScopeMemoryPool_new, n') \<and> ptr_chain (n_bytes n) (ChainHeader sc) bs \<and>
    (\<forall>q. blocks (n_trace n') q = (if q \<in> set bs then None else blocks (n_trace n) q))"
proof -
  obtain bs ds where sh: "heap_ok env n" "4 < M" "sc_shape T bs ds H (sc, n)" using assms(1) by (auto simp: sc_inv_def)
  have s: "ptr_chain (n_bytes n) (ChainHeader sc) bs" "distinct bs"
    "\<forall>b \<in> set bs. \<exists>m. blocks (n_trace n) b = Some m \<and> 4 \<le> m" "ptr_chain (n_bytes n) (sc_destroyChain sc) ds"
    "apart (map (\<lambda>d. (d, 4 + T)) ds)" "\<forall>d \<in> set ds. in_block (blocks (n_trace n)) bs (d, 4 + T)"
    using sh(3) by (auto simp: sc_shape_def sc_owned_def)
  have "\<forall>d \<in> set ds. fits n d 4"
  proof
    fix d assume "d \<in> set ds"
    then have "in_block (blocks (n_trace n)) bs (d, 4 + T)" using s(6) by blast
    then have "fits n d (4 + T)" by (rule in_block_fits [OF sh(1)]) simp
    then show "fits n d 4" by (rule fits_mono) auto
  qed
  from sc_destroy_all_ok [OF s(4,5) this assms(2)]
  obtain n1 where n1: "sc_destroy_all dtor (sc_destroyChain sc) n = Some (Inr n1)" "n_trace n1 = n_trace n"
      "\<forall>a. (\<forall>d \<in> set ds. a \<notin> rng (d + 4, T)) \<longrightarrow> n_bytes n1 a = n_bytes n a" by blast
  have "ptr_chain (n_bytes n1) (ChainHeader sc) bs"
  proof (rule ptr_chain_cong [OF s(1)])
    fix b a assume b: "b \<in> set bs" "a \<in> rng (b, 4)"
    have "a \<notin> rng (d + 4, T)" if d: "d \<in> set ds" for d
    proof -
      have "rng (b, 4) \<inter> rng (d, 4 + T) = {}" using in_block_head [OF sh(1) _ b(1)] s(3,6) b(1) d by blast
      moreover have "rng (d + 4, T) \<subseteq> rng (d, 4 + T)" by auto
      ultimately show ?thesis using b(2) by blast
    qed
    then show "n_bytes n1 a = n_bytes n a" using n1(3) by blast
  qed
  moreover have "heap_ok env n1" by (rule heap_ok_same [OF sh(1) n1(2)])
  ultimately obtain n' where n': "free_chain env (ChainHeader sc) n1 = Some (Inr n')" "heap_ok env n'"
      "\<forall>q. blocks (n_trace n') q = (if q \<in> set bs then None else blocks (n_trace n1) q)"
    using free_chain_ok [of env n1 "ChainHeader sc" bs] s(2,3) n1(2) by auto
  have "sc_shape T [] [] [] (CSLScopeMemoryPool_new, n')"
    by (simp add: sc_shape_def CSLScopeMemoryPool_new_def ChainHeader_def sc_owned_def HeaderSize_def in_block_def)
  then have "sc_inv env T M [] (CSLScopeMemoryPool_new, n')" using n'(2) sh(2) unfolding sc_inv_def snd_conv by blast
  then show ?thesis using n1(1,2) n'(1,3) s(1) by (auto simp: CSLScopeMemoryPool_clear_def)
qed

lemma sc_construct_ok:
  assumes "sc_inv env (unat T) M H s" "unat T + 8 < 2 ^ 32" "own_object (unat T) ctor"
  shows "case CSLScopeMemoryPool_construct env M T ctor s of
      Inl e \<Rightarrow> heap_can_fail env
    | Inr (p, s') \<Rightarrow> sc_inv env (unat T) M H s' \<and> same_bytes H (snd s) (snd s')"
proof -
  have T4: "unat (4 + T) = 4 + unat T" using assms(2) by (simp add: unat_word_ariths(1))
  have "unat (4 + T) + 4 < 2 ^ 32" using T4 assms(2) by simp
  note al = sc_allocate_ok [OF assms(1) this]
  show ?thesis
  proof (cases "CSLScopeMemoryPool_allocate env M (4 + T) s")
    case (Inl e)
    then show ?thesis using al by (simp add: CSLScopeMemoryPool_construct_def)
  next
    case (Inr x)
    obtain q sc n where x: "x = (q, sc, n)" by (metis prod.exhaust)
    have q: "q \<noteq> NULL" "sc_inv env (unat T) M ((q, 4 + unat T) # H) (sc, n)" "same_bytes H (snd s) n"
      using al Inr x T4 by auto
    obtain bs ds where sh: "heap_ok env n" "4 < M" "sc_shape (unat T) bs ds ((q, 4 + unat T) # H) (sc, n)"
      using q(2) by (auto simp: sc_inv_def)
    have O: "apart (sc_owned (unat T) sc ds ((q, 4 + unat T) # H))"
      "\<And>r. r \<in> set (sc_owned (unat T) sc ds ((q, 4 + unat T) # H)) \<Longrightarrow> in_block (blocks (n_trace n)) bs r"
      "ptr_chain (n_bytes n) (sc_destroyChain sc) ds" using sh(3) by (auto simp: sc_shape_def)
    let ?v = "sc_destroyChain sc"
    let ?b = "mem_write (n_bytes n) q (le_bytes 4 ?v)"
    let ?n1 = "n\<lparr>n_bytes := ?b\<rparr>"
    have "in_block (blocks (n_trace n)) bs (q, 4 + unat T)" by (rule O(2)) (simp add: sc_owned_def)
    then have "fits n q (4 + unat T)" by (rule in_block_fits [OF sh(1)]) simp
    then have "fits n q 4" by (rule fits_mono) auto
    then have st: "store_ptr q ?v n = Inr ?n1" using q(1) by (simp add: store_ptr_def)
    have sh1: "sc_shape (unat T) bs ds ((q, 4 + unat T) # H) (sc, ?n1)"
    proof (rule sc_owned_write [OF sh(1,3)])
      show "(q, 4 + unat T) \<in> set ((q, 4 + unat T) # H) \<or> (\<exists>d \<in> set ds. (q, 4 + unat T) = (d + 4, unat T))" by simp
      show "?b a = n_bytes n a" if "a \<notin> rng (q, 4 + unat T)" for a using that by (intro mem_write_other) auto
    qed
    have dq: "rng (d, 4 + unat T) \<inter> rng (q, 4 + unat T) = {}" if "d \<in> set ds" for d
      using O(1) that unfolding sc_owned_def apart_Cons apart_append by auto
    have small: "?v < 2 ^ 32"
    proof (cases ds)
      case (Cons d ds')
      then have v: "?v = d" using O(3) by simp
      have "in_block (blocks (n_trace n)) bs (d, 4 + unat T)" by (rule O(2)) (simp add: sc_owned_def Cons)
      then obtain b m where "blocks (n_trace n) b = Some m" "d + (4 + unat T) \<le> b + m" by (auto simp: in_block_def)
      then show ?thesis using heap_okD [OF sh(1)] v by fastforce
    qed (use O(3) in simp)
    have "rng (d, 4) \<inter> rng (q, 4) = {}" if "d \<in> set ds" for d
    proof -
      have "rng (d, 4) \<subseteq> rng (d, 4 + unat T)" "rng (q, 4) \<subseteq> rng (q, 4 + unat T)" by auto
      then show ?thesis using dq [OF that] by blast
    qed
    then have ch: "ptr_chain ?b q (q # ds)" using ptr_chain_push [OF O(3), of q] q(1) small by simp
    let ?sc = "sc\<lparr>sc_destroyChain := q\<rparr>"
    have sh2: "sc_shape (unat T) bs (q # ds) H (?sc, ?n1)"
      using sh1 ch dq unfolding sc_shape_def sc_owned_def
      by (auto simp: ChainHeader_def simp del: rng.simps ptr_chain.simps)
    have h1: "heap_ok env ?n1" using heap_ok_same [OF sh(1)] by simp
    obtain n2 where n2: "ctor (q + 4) ?n1 = Inr n2" "n_trace n2 = n_trace ?n1"
        "\<And>a. a \<notin> rng (q + 4, unat T) \<Longrightarrow> n_bytes n2 a = n_bytes ?n1 a" using own_objectD [OF assms(3), of "q + 4" ?n1] by blast
    have "sc_shape (unat T) bs (q # ds) H (?sc, ?n1\<lparr>n_bytes := n_bytes n2\<rparr>)"
      by (rule sc_owned_write [OF h1 sh2, of "(q + 4, unat T)"]) (use n2(3) in auto)
    then have "sc_shape (unat T) bs (q # ds) H (?sc, n2)" using n2(2) by (simp add: sc_shape_def)
    then have "sc_inv env (unat T) M H (?sc, n2)"
      using heap_ok_same [OF h1 n2(2)] sh(2) unfolding sc_inv_def snd_conv by blast
    moreover have "same_bytes H (snd s) n2"
      unfolding same_bytes_def
    proof (intro ballI)
      fix r a assume r: "r \<in> set H" "a \<in> rng r"
      have "rng (q, 4 + unat T) \<inter> rng r = {}" using O(1) r(1) unfolding sc_owned_def apart_Cons apart_append by auto
      then have "a \<notin> rng (q, 4 + unat T)" using r(2) by blast
      then have "a \<notin> rng (q + 4, unat T)" "a \<notin> rng (q, length (le_bytes 4 ?v))" by auto
      then have "n_bytes n2 a = n_bytes n a" using n2(3) mem_write_other by simp
      then show "n_bytes n2 a = n_bytes (snd s) a" using q(3) r by (auto simp: same_bytes_def)
    qed
    ultimately show ?thesis using Inr x st n2(1) by (simp add: CSLScopeMemoryPool_construct_def)
  qed
qed

section \<open>Properties\<close>


section \<open>Witnesses\<close>

definition sc_demo_ops :: "mem_op list" where
  "sc_demo_ops = MAlloc 9 # pool_demo_ops"

definition sc_demo :: "cerror + region list \<times> sc_state" where
  "sc_demo = mem_run (CSLScopeMemoryPool_allocate env32 12) CSLScopeMemoryPool_deallocate sc_demo_ops
     ([], CSLScopeMemoryPool_new, net0)"

lemma sc_demo_runs: "case sc_demo of Inl e \<Rightarrow> False | Inr (H, sc, n) \<Rightarrow> length H = 3"
  by code_simp


end
