(* ===== verification/Util.thy ===== *)
theory Util
  imports Prelude Complex_Main "HOL-Library.Signed_Division"
begin

text \<open>
  util/utility.h (\<open>gcd\<close> and \<open>lcm\<close>, for unsigned types of any width) and \<open>CRandom\<close> of
  util/Random.cpp. The generator \<open>rand\<close> of the C library is a parameter: a state and a function that
  gives the next number.
\<close>

section \<open>gcd and lcm\<close>

text \<open>The do-while loop: the remainder is taken before the test. A division by zero is a fault.\<close>

function UTIL_gcd :: "'a::len word \<Rightarrow> 'a word \<Rightarrow> cerror + 'a word" where
  "UTIL_gcd A B =
     (if B = 0 then Inl DivByZero
      else let r = A mod B in if r = 0 then Inr B else UTIL_gcd B r)"
  by auto

termination UTIL_gcd
proof (relation "measure (\<lambda>(A, B). unat B)")
  show "((B, r), A, B) \<in> measure (\<lambda>(A, B). unat B)" if "B \<noteq> 0" "r = A mod B" for A B r :: "'a word"
    using that by (simp add: unat_mod) (metis mod_less_divisor not_gr_zero unat_eq_zero)
qed simp

declare UTIL_gcd.simps [simp del]

definition UTIL_lcm :: "'a::len word \<Rightarrow> 'a word \<Rightarrow> cerror + 'a word" where
  "UTIL_lcm A B = rbind (UTIL_gcd A B) (\<lambda>g. if g = 0 then Inl DivByZero else Inr (A div g * B))"

lemma gcd_word:
  "B \<noteq> 0 \<Longrightarrow> \<exists>g. UTIL_gcd A B = Inr g \<and> unat g = gcd (unat A) (unat B)"
proof (induction A B rule: UTIL_gcd.induct)
  case (1 A B)
  show ?case
  proof (cases "A mod B = 0")
    case True
    then have "unat A mod unat B = 0" by (metis unat_0 unat_mod)
    then have "gcd (unat A) (unat B) = unat B" by (simp add: gcd_nat.absorb2 mod_eq_0_iff_dvd)
    then show ?thesis using True 1(2) by (subst UTIL_gcd.simps) (simp add: Let_def)
  next
    case False
    obtain g where "UTIL_gcd B (A mod B) = Inr g" "unat g = gcd (unat B) (unat (A mod B))"
      using 1(1) [OF 1(2) refl False False] by blast
    moreover have "gcd (unat B) (unat A mod unat B) = gcd (unat A) (unat B)"
      by (metis gcd.commute gcd_red_nat)
    ultimately show ?thesis using False 1(2) by (subst UTIL_gcd.simps) (simp add: Let_def unat_mod)
  qed
qed

section \<open>CRandom\<close>

definition RAND_MAX :: int where "RAND_MAX = 32767"

text \<open>\<open>rand\<close> gives a number of \<open>[0, RAND_MAX]\<close>.\<close>

definition rand_ok :: "('g \<Rightarrow> int \<times> 'g) \<Rightarrow> bool" where
  "rand_ok rand \<longleftrightarrow> (\<forall>g. 0 \<le> fst (rand g) \<and> fst (rand g) \<le> RAND_MAX)"

definition CRandom_Randomize :: "(u32 \<Rightarrow> 'g) \<Rightarrow> u32 \<Rightarrow> int \<Rightarrow> 'g" where
  "CRandom_Randomize srand now nSeed = (if nSeed = 0 then srand now else srand (to_u32 nSeed))"

definition CRandom_RandomInteger :: "('g \<Rightarrow> int \<times> 'g) \<Rightarrow> 'g \<Rightarrow> int \<times> 'g" where
  "CRandom_RandomInteger rand g = rand g"

text \<open>The quotient \<open>d\<close> is a multiple of $2^{-15}$, so \<open>d * (nHigh - nLow + 1)\<close> is exact in a
  \<open>double\<close>; the difference is one of \<open>int\<close>, which wraps, and so does the sum.\<close>

definition int32 :: "int \<Rightarrow> int" where
  "int32 k = sint (word_of_int k :: u32)"

definition CRandom_RandomInteger_range :: "('g \<Rightarrow> int \<times> 'g) \<Rightarrow> int \<Rightarrow> int \<Rightarrow> 'g \<Rightarrow> int \<times> 'g" where
  "CRandom_RandomInteger_range rand nLow nHigh g =
     (let (lo, hi) = (if nHigh < nLow then (nHigh, nLow) else (nLow, nHigh));
          (r, g1) = rand g;
          k = (r * int32 (hi - lo + 1)) sdiv (RAND_MAX + 1)
      in (int32 (lo + k), g1))"

definition CRandom_RandomReal :: "('g \<Rightarrow> int \<times> 'g) \<Rightarrow> 'g \<Rightarrow> rat \<times> 'g" where
  "CRandom_RandomReal rand g = (let (r, g1) = rand g in (of_int r / of_int (RAND_MAX + 1), g1))"

text \<open>\<open>RandomReal(0, 1)\<close> is \<open>0 + d * (1 - 0)\<close>, without rounding.\<close>

definition CRandom_RandomChance :: "('g \<Rightarrow> int \<times> 'g) \<Rightarrow> rat \<Rightarrow> 'g \<Rightarrow> bool \<times> 'g" where
  "CRandom_RandomChance rand p g = (let (d, g1) = CRandom_RandomReal rand g in (d < p, g1))"

lemma int32_id: "- (2 ^ 31) \<le> k \<Longrightarrow> k < 2 ^ 31 \<Longrightarrow> int32 k = k"
  unfolding int32_def by (simp add: signed_of_int signed_take_bit_int_eq_self)

lemma ceil_div:
  fixes a W :: int
  assumes "0 < W"
  shows "a \<le> (a + W - 1) div W * W" "(a + W - 1) div W * W < a + W"
proof -
  have "0 \<le> (a + W - 1) mod W" "(a + W - 1) mod W < W" using assms by simp_all
  moreover have "(a + W - 1) div W * W + (a + W - 1) mod W = a + W - 1" by (rule div_mult_mod_eq)
  ultimately show "a \<le> (a + W - 1) div W * W" "(a + W - 1) div W * W < a + W" by linarith+
qed

section \<open>Properties\<close>

text \<open>
  C31. For unsigned integers of any width \<open>gcd\<close> is the greatest common divisor and \<open>lcm\<close> the
  least common multiple, reduced modulo the width only if it does not fit; both divide by
  zero exactly when the second argument is 0.
\<close>

theorem util_gcd_lcm:
  fixes A B :: "'a::len word"
  shows "UTIL_gcd A B = (if B = 0 then Inl DivByZero else Inr (of_nat (gcd (unat A) (unat B)))) \<and>
    UTIL_lcm A B = (if B = 0 then Inl DivByZero else Inr (of_nat (lcm (unat A) (unat B))))"
proof
  show "UTIL_gcd A B = (if B = 0 then Inl DivByZero else Inr (of_nat (gcd (unat A) (unat B))))"
  proof (cases "B = 0")
    case False
    obtain d where d: "UTIL_gcd A B = Inr d" "unat d = gcd (unat A) (unat B)" using gcd_word [OF False] by blast
    have "of_nat (unat d) = d" by simp
    then show ?thesis using d False by simp
  qed (simp add: UTIL_gcd.simps)
  show "UTIL_lcm A B = (if B = 0 then Inl DivByZero else Inr (of_nat (lcm (unat A) (unat B))))"
  proof (cases "B = 0")
    case False
    obtain d where d: "UTIL_gcd A B = Inr d" "unat d = gcd (unat A) (unat B)" using gcd_word [OF False] by blast
    have "unat B \<noteq> 0" using False by (simp add: unat_eq_zero)
    then have "d \<noteq> 0" using d(2) by (metis gcd_eq_0_iff unat_0)
    moreover have "A div d * B = of_nat (unat A div unat d * unat B)"
    proof -
      have "of_nat (unat A div unat d) = A div d" "of_nat (unat B) = B" by (simp_all flip: unat_div)
      then show ?thesis by (metis of_nat_mult)
    qed
    moreover have "unat A div unat d * unat B = lcm (unat A) (unat B)"
      unfolding d(2) lcm_nat_def by (simp add: div_mult_swap mult.commute)
    ultimately show ?thesis using False d(1) by (simp add: UTIL_lcm_def)
  qed (simp add: UTIL_lcm_def UTIL_gcd.simps)
qed

text \<open>
  \<open>RandomInteger(nLow, nHigh)\<close> is a number between its arguments, in either order, when the
  range has fewer than $2^{31}$ numbers; every number of the range can come out exactly when it has at
  most 32768 of them.
\<close>

theorem random_integer_range:
  assumes "rand_ok rand" "- (2 ^ 31) \<le> nLow" "nLow \<le> nHigh" "nHigh < 2 ^ 31" "nHigh - nLow + 1 < 2 ^ 31"
  shows "nLow \<le> fst (CRandom_RandomInteger_range rand nLow nHigh g) \<and>
    fst (CRandom_RandomInteger_range rand nLow nHigh g) \<le> nHigh \<and>
    CRandom_RandomInteger_range rand nHigh nLow g = CRandom_RandomInteger_range rand nLow nHigh g \<and>
    ((\<forall>v \<in> {nLow..nHigh}. \<exists>r \<in> {0..RAND_MAX}. fst (CRandom_RandomInteger_range (\<lambda>u. (r, u)) nLow nHigh ()) = v) \<longleftrightarrow>
      nHigh - nLow + 1 \<le> 32768)"
proof (intro conjI)
  let ?w = "nHigh - nLow + 1"
  have val: "fst (CRandom_RandomInteger_range rd nLow nHigh y) = nLow + fst (rd y) * ?w div 32768 \<and>
      0 \<le> fst (rd y) * ?w div 32768 \<and> fst (rd y) * ?w div 32768 < ?w"
    if "0 \<le> fst (rd y)" "fst (rd y) \<le> RAND_MAX" for rd :: "'z \<Rightarrow> int \<times> 'z" and y
  proof -
    let ?r = "fst (rd y)" and ?k = "fst (rd y) * ?w div 32768"
    have w: "0 < ?w" "int32 ?w = ?w" using assms(3,5) by (simp_all add: int32_id)
    have "0 \<le> ?r * ?w" using that w by simp
    then have k0: "0 \<le> ?k" by simp
    have "?r * ?w \<le> 32767 * ?w" using that w mult_right_mono [of ?r 32767 ?w] by (simp add: RAND_MAX_def)
    moreover have "a \<le> 32767 * W \<Longrightarrow> 0 < W \<Longrightarrow> a div 32768 < W" for a W :: int by linarith
    ultimately have k1: "?k < ?w" using w(1) by blast
    have "(?r * ?w) sdiv 32768 = ?k" using \<open>0 \<le> ?r * ?w\<close>
      by (cases "?r * ?w = 0") (auto simp: signed_divide_int_def sgn_if)
    moreover have "int32 (nLow + ?k) = nLow + ?k" using k0 k1 assms(2,4) by (intro int32_id) auto
    ultimately show ?thesis using k0 k1 w(2) assms(3)
      by (simp add: CRandom_RandomInteger_range_def case_prod_unfold Let_def RAND_MAX_def)
  qed
  have r: "0 \<le> fst (rand g)" "fst (rand g) \<le> RAND_MAX" using assms(1) by (auto simp: rand_ok_def)
  from val [of rand g] r show "nLow \<le> fst (CRandom_RandomInteger_range rand nLow nHigh g)"
    "fst (CRandom_RandomInteger_range rand nLow nHigh g) \<le> nHigh" by auto
  show "CRandom_RandomInteger_range rand nHigh nLow g = CRandom_RandomInteger_range rand nLow nHigh g"
    using assms(3) by (cases "nLow = nHigh") (auto simp: CRandom_RandomInteger_range_def)
  let ?f = "\<lambda>r. fst (CRandom_RandomInteger_range (\<lambda>u. (r, u)) nLow nHigh ())"
  have f: "?f r = nLow + r * ?w div 32768" if "r \<in> {0..RAND_MAX}" for r
    using val [of "\<lambda>u. (r, u)" "()"] that by simp
  show "(\<forall>v \<in> {nLow..nHigh}. \<exists>r \<in> {0..RAND_MAX}. ?f r = v) \<longleftrightarrow> ?w \<le> 32768"
  proof
    assume onto: "\<forall>v \<in> {nLow..nHigh}. \<exists>r \<in> {0..RAND_MAX}. ?f r = v"
    then have "{nLow..nHigh} \<subseteq> ?f ` {0..RAND_MAX}" by force
    then have "card {nLow..nHigh} \<le> card {0..RAND_MAX}" by (rule surj_card_le [rotated]) simp
    then show "?w \<le> 32768" by (simp add: RAND_MAX_def)
  next
    assume w: "?w \<le> 32768"
    show "\<forall>v \<in> {nLow..nHigh}. \<exists>r \<in> {0..RAND_MAX}. ?f r = v"
    proof
      fix v assume v: "v \<in> {nLow..nHigh}"
      define k where "k = v - nLow"
      define r where "r = (k * 32768 + ?w - 1) div ?w"
      have k: "0 \<le> k" "k < ?w" using v by (auto simp: k_def)
      have w0: "0 < ?w" using assms(3) by simp
      have lo: "k * 32768 \<le> r * ?w" and hi: "r * ?w < k * 32768 + ?w"
        using ceil_div [OF w0, of "k * 32768"] by (simp_all only: r_def)
      have "k * 32768 \<le> X \<Longrightarrow> X < k * 32768 + 32768 \<Longrightarrow> X div 32768 = k" for X :: int by linarith
      then have "r * ?w div 32768 = k" using lo hi w by (meson add_left_mono less_le_trans)
      moreover have "0 \<le> r" using k w0 by (simp add: r_def pos_imp_zdiv_nonneg_iff)
      moreover have "r \<le> RAND_MAX"
      proof (rule ccontr)
        assume "\<not> r \<le> RAND_MAX"
        then have "32768 * ?w \<le> r * ?w" using w0 mult_right_mono [of 32768 r ?w] by (simp add: RAND_MAX_def)
        then have X: "32768 * ?w < k * 32768 + ?w" using hi by linarith
        have "False" if "k < W" "W \<le> 32768" "32768 * W < k * 32768 + W" for W :: int
          using that by linarith
        from this [OF k(2) w X] show False .
      qed
      ultimately show "\<exists>r \<in> {0..RAND_MAX}. ?f r = v" using f [of r] by (intro bexI [of _ r]) (auto simp: k_def)
    qed
  qed
qed

lemma random_integer_range_witness:
  "1 \<le> fst (CRandom_RandomInteger_range (\<lambda>g. (12345, g)) 1 6 ())"
  using random_integer_range [of "\<lambda>g. (12345, g)" 1 6 "()"] by (simp add: rand_ok_def RAND_MAX_def)

end
