(* ===== verification/Fixed.thy ===== *)
theory Fixed
  imports Prelude
begin

text \<open>
  \<open>CFixedArray\<close> of slext/FixedArray.h and \<open>CFixedObjectPool\<close> of slext/FixedObjectPool.h, the
  containers of a fixed size.
\<close>

section \<open>CFixedArray\<close>

text \<open>The cells are \<open>m_data\<close>, whose length is the template argument \<open>N\<close>; new cells have arbitrary
  contents \<open>junk\<close>.\<close>

record 'a CFixedArray =
  fa_nUserSize :: nat
  fa_data :: "'a list"

definition CFixedArray_new :: "'a list \<Rightarrow> 'a CFixedArray" where
  "CFixedArray_new junk = \<lparr>fa_nUserSize = 0, fa_data = junk\<rparr>"

definition CFixedArray_new_size :: "nat \<Rightarrow> 'a list \<Rightarrow> 'a CFixedArray" where
  "CFixedArray_new_size nSize junk = \<lparr>fa_nUserSize = nSize, fa_data = junk\<rparr>"

definition CFixedArray_capacity :: "'a CFixedArray \<Rightarrow> nat" where
  "CFixedArray_capacity a = length (fa_data a)"

definition CFixedArray_max_size :: "'a CFixedArray \<Rightarrow> nat" where
  "CFixedArray_max_size a = length (fa_data a)"

definition CFixedArray_size :: "'a CFixedArray \<Rightarrow> nat" where
  "CFixedArray_size a = fa_nUserSize a"

definition CFixedArray_empty :: "'a CFixedArray \<Rightarrow> bool" where
  "CFixedArray_empty a \<longleftrightarrow> fa_nUserSize a = 0"

definition CFixedArray_clear :: "'a CFixedArray \<Rightarrow> 'a CFixedArray" where
  "CFixedArray_clear a = a\<lparr>fa_nUserSize := 0\<rparr>"

definition CFixedArray_resize :: "nat \<Rightarrow> 'a CFixedArray \<Rightarrow> 'a CFixedArray" where
  "CFixedArray_resize n a = (if n \<le> CFixedArray_capacity a then a\<lparr>fa_nUserSize := n\<rparr> else a)"

definition CFixedArray_rangecheck :: "nat \<Rightarrow> 'a CFixedArray \<Rightarrow> cerror + unit" where
  "CFixedArray_rangecheck i a = (if CFixedArray_size a \<le> i then Inl RangeError else Inr ())"

text \<open>Reading and writing through a pointer to a cell; iterators are offsets.\<close>

definition fa_cell :: "nat \<Rightarrow> 'a CFixedArray \<Rightarrow> cerror + 'a" where
  "fa_cell i a = (if i < length (fa_data a) then Inr (fa_data a ! i) else Inl OutOfBounds)"

definition fa_put :: "nat \<Rightarrow> 'a \<Rightarrow> 'a CFixedArray \<Rightarrow> cerror + 'a CFixedArray" where
  "fa_put i x a = (if i < length (fa_data a) then Inr (a\<lparr>fa_data := (fa_data a)[i := x]\<rparr>) else Inl OutOfBounds)"

definition CFixedArray_begin :: "'a CFixedArray \<Rightarrow> nat" where
  "CFixedArray_begin a = 0"

definition CFixedArray_end :: "'a CFixedArray \<Rightarrow> nat" where
  "CFixedArray_end a = fa_nUserSize a"

definition CFixedArray_front :: "'a CFixedArray \<Rightarrow> cerror + 'a" where
  "CFixedArray_front a = fa_cell (CFixedArray_begin a) a"

definition CFixedArray_back :: "'a CFixedArray \<Rightarrow> cerror + 'a" where
  "CFixedArray_back a = (if CFixedArray_end a = 0 then Inl OutOfBounds else fa_cell (CFixedArray_end a - 1) a)"

definition CFixedArray_index :: "nat \<Rightarrow> 'a CFixedArray \<Rightarrow> cerror + 'a" where
  "CFixedArray_index i a = rbind (CFixedArray_rangecheck i a) (\<lambda>u. fa_cell i a)"

definition CFixedArray_index_put :: "nat \<Rightarrow> 'a \<Rightarrow> 'a CFixedArray \<Rightarrow> cerror + 'a CFixedArray" where
  "CFixedArray_index_put i x a = rbind (CFixedArray_rangecheck i a) (\<lambda>u. fa_put i x a)"

text \<open>The assertion of \<open>at\<close> is only compiled into debug builds.\<close>

definition CFixedArray_at :: "nat \<Rightarrow> 'a CFixedArray \<Rightarrow> cerror + 'a" where
  "CFixedArray_at i a = fa_cell i a"

definition CFixedArray_push_back :: "'a \<Rightarrow> 'a CFixedArray \<Rightarrow> 'a CFixedArray" where
  "CFixedArray_push_back x a =
     (if fa_nUserSize a < length (fa_data a)
      then a\<lparr>fa_data := (fa_data a)[fa_nUserSize a := x], fa_nUserSize := fa_nUserSize a + 1\<rparr> else a)"

definition CFixedArray_pop_back :: "'a CFixedArray \<Rightarrow> 'a CFixedArray" where
  "CFixedArray_pop_back a = (if fa_nUserSize a \<noteq> 0 then a\<lparr>fa_nUserSize := fa_nUserSize a - 1\<rparr> else a)"

text \<open>Runs of operations; an exception leaves the array as it was.\<close>

datatype 'a fa_op = FaPush 'a | FaPop | FaResize nat | FaClear | FaPut nat 'a

fun fa_step :: "'a fa_op \<Rightarrow> 'a CFixedArray \<Rightarrow> 'a CFixedArray" where
  "fa_step (FaPush x) a = CFixedArray_push_back x a"
| "fa_step FaPop a = CFixedArray_pop_back a"
| "fa_step (FaResize n) a = CFixedArray_resize n a"
| "fa_step FaClear a = CFixedArray_clear a"
| "fa_step (FaPut i x) a = (case CFixedArray_index_put i x a of Inl e \<Rightarrow> a | Inr a' \<Rightarrow> a')"

definition fa_ok :: "nat \<Rightarrow> 'a CFixedArray \<Rightarrow> bool" where
  "fa_ok N a \<longleftrightarrow> length (fa_data a) = N \<and> fa_nUserSize a \<le> N"

definition fa_view :: "'a CFixedArray \<Rightarrow> 'a list" where
  "fa_view a = take (fa_nUserSize a) (fa_data a)"

lemma fa_step_ok: "fa_ok N a \<Longrightarrow> fa_ok N (fa_step op a)"
  by (cases op) (auto simp: fa_ok_def CFixedArray_push_back_def CFixedArray_pop_back_def CFixedArray_resize_def
      CFixedArray_capacity_def CFixedArray_clear_def CFixedArray_index_put_def CFixedArray_rangecheck_def
      CFixedArray_size_def fa_put_def)

lemma fa_run_ok: "fa_ok N a \<Longrightarrow> fa_ok N (fold fa_step ops a)"
  by (induction ops arbitrary: a) (auto intro: fa_step_ok)

lemma fa_view_ops:
  assumes "fa_ok N a"
  shows "fa_view (CFixedArray_push_back x a) = (if fa_nUserSize a < N then fa_view a @ [x] else fa_view a)"
    "fa_view (CFixedArray_pop_back a) = butlast (fa_view a)"
    "CFixedArray_index i a = (if i < fa_nUserSize a then Inr (fa_view a ! i) else Inl RangeError)"
    "CFixedArray_back a = (if fa_view a = [] then Inl OutOfBounds else Inr (last (fa_view a)))"
proof -
  have len: "length (fa_data a) = N" "fa_nUserSize a \<le> N" using assms by (auto simp: fa_ok_def)
  show "fa_view (CFixedArray_push_back x a) = (if fa_nUserSize a < N then fa_view a @ [x] else fa_view a)"
    using len by (simp add: fa_view_def CFixedArray_push_back_def take_Suc_conv_app_nth)
  show "fa_view (CFixedArray_pop_back a) = butlast (fa_view a)"
    using len by (simp add: fa_view_def CFixedArray_pop_back_def butlast_take)
  show "CFixedArray_index i a = (if i < fa_nUserSize a then Inr (fa_view a ! i) else Inl RangeError)"
    using len by (simp add: CFixedArray_index_def CFixedArray_rangecheck_def CFixedArray_size_def fa_cell_def fa_view_def)
  have "last (fa_view a) = fa_data a ! (fa_nUserSize a - 1)" if "fa_nUserSize a \<noteq> 0"
  proof -
    have "fa_view a \<noteq> []" using that len by (auto simp: fa_view_def)
    then show ?thesis using that len by (simp add: last_conv_nth fa_view_def min_def)
  qed
  then show "CFixedArray_back a = (if fa_view a = [] then Inl OutOfBounds else Inr (last (fa_view a)))"
    using len by (auto simp: CFixedArray_back_def CFixedArray_end_def fa_cell_def fa_view_def)
qed

section \<open>CFixedObjectPool\<close>

text \<open>Pointers to nodes are positions in the array \<open>m_ObjectPool\<close>, NULL is \<open>None\<close>; an object and
  its node have the same address.\<close>

record 'a NODE =
  fn_Object :: 'a
  fn_pPrev :: "nat option"
  fn_pNext :: "nat option"
  fn_bFree :: bool

record 'a CFixedObjectPool =
  fo_nCapacity :: nat
  fo_nUserSize :: nat
  fo_ObjectPool :: "'a NODE list"
  fo_pFreeListHead :: "nat option"
  fo_pUserListHead :: "nat option"

text \<open>The default constructor leaves \<open>m_nCapacity\<close> as it is.\<close>

definition CFixedObjectPool_new :: "nat \<Rightarrow> 'a CFixedObjectPool" where
  "CFixedObjectPool_new junk = \<lparr>fo_nCapacity = junk, fo_nUserSize = 0, fo_ObjectPool = [],
     fo_pFreeListHead = None, fo_pUserListHead = None\<rparr>"

definition CFixedObjectPool_clear :: "'a CFixedObjectPool \<Rightarrow> 'a CFixedObjectPool" where
  "CFixedObjectPool_clear fo = \<lparr>fo_nCapacity = 0, fo_nUserSize = 0, fo_ObjectPool = [],
     fo_pFreeListHead = None, fo_pUserListHead = None\<rparr>"

definition fo_first_node :: "'a \<Rightarrow> nat \<Rightarrow> nat \<Rightarrow> 'a NODE" where
  "fo_first_node mk n i = \<lparr>fn_Object = mk, fn_pPrev = (if i = 0 then None else Some (i - 1)),
     fn_pNext = (if i = n - 1 then None else Some (i + 1)), fn_bFree = True\<rparr>"

definition CFixedObjectPool_init :: "'a \<Rightarrow> nat \<Rightarrow> 'a CFixedObjectPool \<Rightarrow> 'a CFixedObjectPool" where
  "CFixedObjectPool_init mk nMaxSize fo =
     (let n = (if nMaxSize < 3 then 3 else nMaxSize)
      in (CFixedObjectPool_clear fo)\<lparr>fo_ObjectPool := map (fo_first_node mk n) [0..<n], fo_nCapacity := n,
           fo_pFreeListHead := Some 0\<rparr>)"

definition fo_node :: "nat option \<Rightarrow> 'a CFixedObjectPool \<Rightarrow> cerror + nat" where
  "fo_node p fo = (case p of None \<Rightarrow> Inl NullDeref
     | Some i \<Rightarrow> if i < length (fo_ObjectPool fo) then Inr i else Inl OutOfBounds)"

definition fo_upd :: "nat \<Rightarrow> ('a NODE \<Rightarrow> 'a NODE) \<Rightarrow> 'a CFixedObjectPool \<Rightarrow> 'a CFixedObjectPool" where
  "fo_upd i f fo = fo\<lparr>fo_ObjectPool := (fo_ObjectPool fo)[i := f (fo_ObjectPool fo ! i)]\<rparr>"

definition CFixedObjectPool_pop :: "'a CFixedObjectPool \<Rightarrow> cerror + nat option \<times> 'a CFixedObjectPool" where
  "CFixedObjectPool_pop fo =
     (if fo_pFreeListHead fo = None then Inr (None, fo)
      else rbind (fo_node (fo_pFreeListHead fo) fo) (\<lambda>i.
        let fo1 = fo_upd i (\<lambda>x. x\<lparr>fn_bFree := False\<rparr>) fo;
            fo2 = fo1\<lparr>fo_pFreeListHead := fn_pNext (fo_ObjectPool fo1 ! i)\<rparr>
        in rbind (if fo_pUserListHead fo2 \<noteq> None
                  then rbind (fo_node (fo_pUserListHead fo2) fo2) (\<lambda>h. Inr (fo_upd h (\<lambda>x. x\<lparr>fn_pPrev := Some i\<rparr>) fo2))
                  else Inr fo2) (\<lambda>fo3.
             let fo4 = fo_upd i (\<lambda>x. x\<lparr>fn_pPrev := None, fn_pNext := fo_pUserListHead fo3\<rparr>) fo3
             in Inr (Some i, fo4\<lparr>fo_pUserListHead := Some i, fo_nUserSize := fo_nUserSize fo4 + 1\<rparr>))))"

definition CFixedObjectPool_push :: "nat option \<Rightarrow> 'a CFixedObjectPool \<Rightarrow> cerror + 'a CFixedObjectPool" where
  "CFixedObjectPool_push pObj fo =
     rbind (fo_node pObj fo) (\<lambda>i.
       let fo1 = fo_upd i (\<lambda>x. x\<lparr>fn_bFree := True\<rparr>) fo; node = fo_ObjectPool fo1 ! i
       in rbind (if Some i \<noteq> fo_pUserListHead fo1
                 then rbind (fo_node (fn_pPrev node) fo1) (\<lambda>p.
                      let fo2 = fo_upd p (\<lambda>x. x\<lparr>fn_pNext := fn_pNext node\<rparr>) fo1
                      in rbind (fo_node (fn_pNext (fo_ObjectPool fo2 ! i)) fo2) (\<lambda>q.
                           Inr (fo_upd q (\<lambda>x. x\<lparr>fn_pPrev := fn_pPrev (fo_ObjectPool fo2 ! i)\<rparr>) fo2)))
                 else rbind (fo_node (fo_pUserListHead fo1) fo1) (\<lambda>h.
                      Inr (fo1\<lparr>fo_pUserListHead := fn_pNext (fo_ObjectPool fo1 ! h)\<rparr>))) (\<lambda>fo3.
          let fo4 = fo_upd i (\<lambda>x. x\<lparr>fn_pPrev := None, fn_pNext := fo_pFreeListHead fo3\<rparr>) fo3
          in rbind (if fo_pFreeListHead fo4 \<noteq> None
                    then rbind (fo_node (fo_pFreeListHead fo4) fo4) (\<lambda>f.
                         Inr (fo_upd f (\<lambda>x. x\<lparr>fn_pPrev := Some i\<rparr>) fo4))
                    else Inr fo4) (\<lambda>fo5.
               Inr (fo5\<lparr>fo_pFreeListHead := Some i, fo_nUserSize := fo_nUserSize fo5 - 1\<rparr>))))"

text \<open>\<open>at\<close> accepts the position after the last.\<close>

definition CFixedObjectPool_at :: "nat \<Rightarrow> 'a CFixedObjectPool \<Rightarrow> nat option" where
  "CFixedObjectPool_at nPos fo = (if nPos \<le> fo_nCapacity fo then Some nPos else None)"

definition CFixedObjectPool_index :: "nat \<Rightarrow> 'a CFixedObjectPool \<Rightarrow> nat option" where
  "CFixedObjectPool_index nPos fo = Some nPos"

definition CFixedObjectPool_capacity :: "'a CFixedObjectPool \<Rightarrow> nat" where
  "CFixedObjectPool_capacity fo = fo_nCapacity fo"

definition CFixedObjectPool_size :: "'a CFixedObjectPool \<Rightarrow> nat" where
  "CFixedObjectPool_size fo = fo_nUserSize fo"

section \<open>The lists of the object pool\<close>

text \<open>\<open>chain\<close> follows a successor function from a head; \<open>back_linked\<close> says that every element but
  the first has the one before it as its predecessor.\<close>

fun chain :: "(nat \<Rightarrow> nat option) \<Rightarrow> nat option \<Rightarrow> nat list \<Rightarrow> bool" where
  "chain nx p [] = (p = None)"
| "chain nx p (q # qs) = (p = Some q \<and> chain nx (nx q) qs)"

fun back_linked :: "(nat \<Rightarrow> nat option) \<Rightarrow> nat list \<Rightarrow> bool" where
  "back_linked pv (a # b # qs) = (pv b = Some a \<and> back_linked pv (b # qs))"
| "back_linked pv qs = True"

lemma chain_cong: "(\<And>q. q \<in> set qs \<Longrightarrow> nx' q = nx q) \<Longrightarrow> chain nx p qs \<Longrightarrow> chain nx' p qs"
  by (induction qs arbitrary: p) auto

lemma back_linked_cong: "(\<And>q. q \<in> set (tl qs) \<Longrightarrow> pv' q = pv q) \<Longrightarrow> back_linked pv qs \<Longrightarrow> back_linked pv' qs"
  by (induction pv qs rule: back_linked.induct) auto

lemma back_linked_Cons: "back_linked pv (a # qs) \<longleftrightarrow> (qs = [] \<or> pv (hd qs) = Some a \<and> back_linked pv qs)"
  by (cases qs) auto

lemma back_linked_mid:
  "back_linked pv (xs @ a # i # ys) \<Longrightarrow> pv i = Some a"
  by (induction xs) (auto simp: back_linked_Cons)

lemma chain_mid: "chain nx p (xs @ i # ys) \<Longrightarrow> nx i = (case ys of [] \<Rightarrow> None | y # ys' \<Rightarrow> Some y)"
  by (induction xs arbitrary: p) (auto split: list.split)

lemma chain_unlink:
  "chain nx p (xs @ a # i # ys) \<Longrightarrow> distinct (xs @ a # i # ys) \<Longrightarrow> chain (nx(a := nx i)) p (xs @ a # ys)"
proof (induction xs arbitrary: p)
  case Nil
  then show ?case by (auto intro: chain_cong [of ys _ nx])
qed auto

lemma back_linked_unlink:
  "back_linked pv (xs @ a # i # b # ys) \<Longrightarrow> distinct (xs @ a # i # b # ys) \<Longrightarrow>
   back_linked (pv(b := Some a)) (xs @ a # b # ys)"
proof (induction xs)
  case Nil
  then show ?case by (auto intro: back_linked_cong [of "b # ys" _ pv])
next
  case (Cons x xs)
  then show ?case by (cases xs) auto
qed

definition fo_nx :: "'a CFixedObjectPool \<Rightarrow> nat \<Rightarrow> nat option" where
  "fo_nx fo i = fn_pNext (fo_ObjectPool fo ! i)"

definition fo_pv :: "'a CFixedObjectPool \<Rightarrow> nat \<Rightarrow> nat option" where
  "fo_pv fo i = fn_pPrev (fo_ObjectPool fo ! i)"

text \<open>\<open>us\<close> are the objects in use, the newest first, \<open>fs\<close> the free ones.\<close>

definition fo_inv :: "nat list \<Rightarrow> nat list \<Rightarrow> 'a CFixedObjectPool \<Rightarrow> bool" where
  "fo_inv us fs fo \<longleftrightarrow>
     distinct (us @ fs) \<and> set (us @ fs) = {..<length (fo_ObjectPool fo)} \<and>
     chain (fo_nx fo) (fo_pUserListHead fo) us \<and> back_linked (fo_pv fo) us \<and>
     chain (fo_nx fo) (fo_pFreeListHead fo) fs \<and> fo_nUserSize fo = length us \<and>
     (\<forall>i < length (fo_ObjectPool fo). fn_bFree (fo_ObjectPool fo ! i) \<longleftrightarrow> i \<in> set fs)"

lemma fo_node_Some [simp]: "i < length (fo_ObjectPool fo) \<Longrightarrow> fo_node (Some i) fo = Inr i"
  by (simp add: fo_node_def)

lemma fo_node_None [simp]: "fo_node None fo = Inl NullDeref"
  by (simp add: fo_node_def)

lemma fo_upd_simps [simp]:
  "length (fo_ObjectPool (fo_upd i f fo)) = length (fo_ObjectPool fo)"
  "fo_pUserListHead (fo_upd i f fo) = fo_pUserListHead fo" "fo_pFreeListHead (fo_upd i f fo) = fo_pFreeListHead fo"
  "fo_nUserSize (fo_upd i f fo) = fo_nUserSize fo"
  "i < length (fo_ObjectPool fo) \<Longrightarrow>
     fo_ObjectPool (fo_upd i f fo) ! j = (if j = i then f (fo_ObjectPool fo ! i) else fo_ObjectPool fo ! j)"
  by (auto simp: fo_upd_def)

lemma fo_pop_ok:
  assumes "fo_inv us fs fo"
  shows "\<exists>fo'. CFixedObjectPool_pop fo = Inr (case fs of [] \<Rightarrow> None | f # fs' \<Rightarrow> Some f, fo') \<and>
    fo_inv (case fs of [] \<Rightarrow> us | f # fs' \<Rightarrow> f # us) (tl fs) fo'"
proof (cases fs)
  case Nil
  then show ?thesis using assms by (simp add: CFixedObjectPool_pop_def fo_inv_def)
next
  case (Cons i fs')
  let ?n = "length (fo_ObjectPool fo)"
  have h: "fo_pFreeListHead fo = Some i" "i < ?n" "i \<notin> set us" "i \<notin> set fs'" "fo_nx fo i = fn_pNext (fo_ObjectPool fo ! i)"
    using assms Cons by (auto simp: fo_inv_def fo_nx_def)
  have old: "chain (fo_nx fo) (fo_pUserListHead fo) us" "back_linked (fo_pv fo) us" "chain (fo_nx fo) (fo_nx fo i) fs'"
    "distinct (us @ i # fs')" "set (us @ i # fs') = {..<?n}" "fo_nUserSize fo = length us"
    "\<And>j. j < ?n \<Longrightarrow> fn_bFree (fo_ObjectPool fo ! j) \<longleftrightarrow> j = i \<or> j \<in> set fs'"
    using assms Cons by (auto simp: fo_inv_def)
  have "\<exists>fo'. CFixedObjectPool_pop fo = Inr (Some i, fo') \<and> length (fo_ObjectPool fo') = ?n \<and>
      fo_pUserListHead fo' = Some i \<and> fo_pFreeListHead fo' = fo_nx fo i \<and> fo_nUserSize fo' = length us + 1 \<and>
      (\<forall>j. fo_nx fo' j = (if j = i then fo_pUserListHead fo else fo_nx fo j)) \<and>
      (\<forall>j. j \<noteq> i \<longrightarrow> fo_pv fo' j = (if fo_pUserListHead fo = Some j then Some i else fo_pv fo j)) \<and>
      (\<forall>j < ?n. fn_bFree (fo_ObjectPool fo' ! j) \<longleftrightarrow> j \<noteq> i \<and> fn_bFree (fo_ObjectPool fo ! j))"
  proof (cases us)
    case Nil
    then have "fo_pUserListHead fo = None" using old(1) by simp
    then show ?thesis using h old(6) by (auto simp: CFixedObjectPool_pop_def Let_def fo_nx_def fo_pv_def)
  next
    case (Cons u us')
    then have "fo_pUserListHead fo = Some u" "u < ?n" "u \<noteq> i" using old(1,4,5) by auto
    then show ?thesis using h old(6) by (auto simp: CFixedObjectPool_pop_def Let_def fo_nx_def fo_pv_def)
  qed
  then obtain fo' where n: "CFixedObjectPool_pop fo = Inr (Some i, fo')" "length (fo_ObjectPool fo') = ?n"
      "fo_pUserListHead fo' = Some i" "fo_pFreeListHead fo' = fo_nx fo i" "fo_nUserSize fo' = length us + 1"
      "\<And>j. fo_nx fo' j = (if j = i then fo_pUserListHead fo else fo_nx fo j)"
      "\<And>j. j \<noteq> i \<Longrightarrow> fo_pv fo' j = (if fo_pUserListHead fo = Some j then Some i else fo_pv fo j)"
      "\<And>j. j < ?n \<Longrightarrow> fn_bFree (fo_ObjectPool fo' ! j) \<longleftrightarrow> j \<noteq> i \<and> fn_bFree (fo_ObjectPool fo ! j)" by blast
  have "chain (fo_nx fo') (fo_pUserListHead fo) us" by (rule chain_cong [OF _ old(1)]) (use n(6) h(3) in auto)
  then have "chain (fo_nx fo') (fo_nx fo' i) us" using n(6) [of i] by simp
  moreover have "chain (fo_nx fo') (fo_nx fo i) fs'" by (rule chain_cong [OF _ old(3)]) (use n(6) h(4) in auto)
  moreover have "back_linked (fo_pv fo') (i # us)"
  proof (cases us)
    case (Cons u us')
    have u: "fo_pUserListHead fo = Some u" "u \<noteq> i" using old(1) h(3) Cons by auto
    have "back_linked (fo_pv fo') us"
    proof (rule back_linked_cong [OF _ old(2)])
      fix q assume "q \<in> set (tl us)"
      then have "q \<noteq> u" "q \<noteq> i" using old(4) h(3) Cons by auto
      then show "fo_pv fo' q = fo_pv fo q" using n(7) [of q] u(1) by simp
    qed
    then show ?thesis using Cons u n(7) [of u] by simp
  qed simp
  ultimately have "fo_inv (i # us) fs' fo'" using old(4,5,7) n(2-5,8) h(4) by (auto simp: fo_inv_def)
  then show ?thesis using n(1) Cons by simp
qed

text \<open>A push has three cases: the newest object, one in the middle of the list, and the oldest one.\<close>

lemma fo_pushed:
  assumes "fo_inv (xs @ i # ys) fs fo"
    and "length (fo_ObjectPool fo') = length (fo_ObjectPool fo)" "fo_nUserSize fo' = fo_nUserSize fo - 1"
    and "fo_pFreeListHead fo' = Some i" "fo_nx fo' i = fo_pFreeListHead fo"
    and "chain (fo_nx fo') (fo_pUserListHead fo') (xs @ ys)" "back_linked (fo_pv fo') (xs @ ys)"
    and "\<And>j. j \<in> set fs \<Longrightarrow> fo_nx fo' j = fo_nx fo j"
    and "\<And>j. j < length (fo_ObjectPool fo) \<Longrightarrow> fn_bFree (fo_ObjectPool fo' ! j) \<longleftrightarrow> j = i \<or> fn_bFree (fo_ObjectPool fo ! j)"
  shows "fo_inv (xs @ ys) (i # fs) fo'"
proof -
  have "chain (fo_nx fo') (fo_pFreeListHead fo) fs"
    by (rule chain_cong [OF assms(8)]) (use assms(1) in \<open>auto simp: fo_inv_def\<close>)
  then show ?thesis using assms unfolding fo_inv_def by auto
qed

lemma fo_inv_bounds: "fo_inv us fs fo \<Longrightarrow> j \<in> set us \<or> j \<in> set fs \<Longrightarrow> j < length (fo_ObjectPool fo)"
  unfolding fo_inv_def by auto

lemma fo_free_head:
  "fo_inv us fs fo \<Longrightarrow> fo_pFreeListHead fo = (case fs of [] \<Rightarrow> None | f # fs' \<Rightarrow> Some f)"
  by (cases fs) (auto simp: fo_inv_def)

lemma fo_push_head:
  assumes "fo_inv (i # ys) fs fo"
  shows "\<exists>fo'. CFixedObjectPool_push (Some i) fo = Inr fo' \<and> fo_inv ys (i # fs) fo'"
proof -
  let ?n = "length (fo_ObjectPool fo)"
  have i: "i < ?n" "fo_pUserListHead fo = Some i" using assms fo_inv_bounds [OF assms] by (auto simp: fo_inv_def)
  have old: "distinct (i # ys @ fs)" "chain (fo_nx fo) (fo_nx fo i) ys" "back_linked (fo_pv fo) (i # ys)"
    using assms by (auto simp: fo_inv_def)
  have "\<exists>fo'. CFixedObjectPool_push (Some i) fo = Inr fo' \<and> length (fo_ObjectPool fo') = ?n \<and>
      fo_nUserSize fo' = fo_nUserSize fo - 1 \<and> fo_pFreeListHead fo' = Some i \<and> fo_pUserListHead fo' = fo_nx fo i \<and>
      (\<forall>j. fo_nx fo' j = (if j = i then fo_pFreeListHead fo else fo_nx fo j)) \<and>
      (\<forall>j. j \<noteq> i \<longrightarrow> j \<notin> set fs \<longrightarrow> fo_pv fo' j = fo_pv fo j) \<and>
      (\<forall>j < ?n. fn_bFree (fo_ObjectPool fo' ! j) \<longleftrightarrow> j = i \<or> fn_bFree (fo_ObjectPool fo ! j))"
  proof (cases fs)
    case Nil
    then have "fo_pFreeListHead fo = None" using fo_free_head [OF assms] by simp
    then show ?thesis using i by (auto simp: CFixedObjectPool_push_def Let_def fo_nx_def fo_pv_def)
  next
    case (Cons f fs')
    then have "fo_pFreeListHead fo = Some f" "f < ?n" "f \<noteq> i"
      using fo_free_head [OF assms] fo_inv_bounds [OF assms, of f] old(1) by auto
    then show ?thesis using i Cons by (auto simp: CFixedObjectPool_push_def Let_def fo_nx_def fo_pv_def)
  qed
  then obtain fo' where n: "CFixedObjectPool_push (Some i) fo = Inr fo'" "length (fo_ObjectPool fo') = ?n"
      "fo_nUserSize fo' = fo_nUserSize fo - 1" "fo_pFreeListHead fo' = Some i" "fo_pUserListHead fo' = fo_nx fo i"
      "\<And>j. fo_nx fo' j = (if j = i then fo_pFreeListHead fo else fo_nx fo j)"
      "\<And>j. j \<noteq> i \<Longrightarrow> j \<notin> set fs \<Longrightarrow> fo_pv fo' j = fo_pv fo j"
      "\<And>j. j < ?n \<Longrightarrow> fn_bFree (fo_ObjectPool fo' ! j) \<longleftrightarrow> j = i \<or> fn_bFree (fo_ObjectPool fo ! j)" by blast
  have "chain (fo_nx fo') (fo_pUserListHead fo') ys"
    unfolding n(5) by (rule chain_cong [OF _ old(2)]) (use n(6) old(1) in auto)
  moreover have "back_linked (fo_pv fo') ys"
  proof (rule back_linked_cong)
    show "back_linked (fo_pv fo) ys" using old(3) by (cases ys) auto
    fix q assume "q \<in> set (tl ys)"
    then have "q \<in> set ys" by (cases ys) auto
    then show "fo_pv fo' q = fo_pv fo q" using n(7) [of q] old(1) by auto
  qed
  ultimately have "fo_inv ([] @ ys) (i # fs) fo'"
    using assms n old(1) by (intro fo_pushed [of "[]" i ys fs fo]) auto
  then show ?thesis using n(1) by simp
qed

lemma fo_push_middle:
  assumes "fo_inv (xs @ a # i # b # ys) fs fo"
  shows "\<exists>fo'. CFixedObjectPool_push (Some i) fo = Inr fo' \<and> fo_inv (xs @ a # b # ys) (i # fs) fo'"
proof -
  let ?n = "length (fo_ObjectPool fo)" and ?us = "xs @ a # i # b # ys"
  have lt: "i < ?n" "a < ?n" "b < ?n" using fo_inv_bounds [OF assms] by auto
  have old: "distinct (?us @ fs)" "chain (fo_nx fo) (fo_pUserListHead fo) ?us" "back_linked (fo_pv fo) ?us"
    using assms by (auto simp: fo_inv_def)
  have ne: "i \<noteq> a" "i \<noteq> b" "a \<noteq> b" "a \<notin> set fs" "b \<notin> set fs" "i \<notin> set fs" using old(1) by auto
  have p: "fo_pv fo i = Some a" by (rule back_linked_mid [OF old(3)])
  have q: "fo_nx fo i = Some b" using chain_mid [of _ _ "xs @ [a]" i "b # ys"] old(2) by simp
  have hd: "fo_pUserListHead fo \<noteq> Some i" using old(1,2) by (cases xs) auto
  note pq = p [unfolded fo_pv_def] q [unfolded fo_nx_def]
  have "\<exists>fo'. CFixedObjectPool_push (Some i) fo = Inr fo' \<and> length (fo_ObjectPool fo') = ?n \<and>
      fo_nUserSize fo' = fo_nUserSize fo - 1 \<and> fo_pFreeListHead fo' = Some i \<and> fo_pUserListHead fo' = fo_pUserListHead fo \<and>
      (\<forall>j. fo_nx fo' j = (if j = i then fo_pFreeListHead fo else if j = a then Some b else fo_nx fo j)) \<and>
      (\<forall>j. j \<noteq> i \<longrightarrow> j \<notin> set fs \<longrightarrow> fo_pv fo' j = (if j = b then Some a else fo_pv fo j)) \<and>
      (\<forall>j < ?n. fn_bFree (fo_ObjectPool fo' ! j) \<longleftrightarrow> j = i \<or> fn_bFree (fo_ObjectPool fo ! j))"
  proof (cases fs)
    case Nil
    then have "fo_pFreeListHead fo = None" using fo_free_head [OF assms] by simp
    then show ?thesis using lt ne hd pq by (simp add: CFixedObjectPool_push_def Let_def fo_nx_def fo_pv_def)
  next
    case (Cons f fs')
    then have "fo_pFreeListHead fo = Some f" "f < ?n" "f \<noteq> i" "f \<noteq> a" "f \<noteq> b"
      using fo_free_head [OF assms] fo_inv_bounds [OF assms, of f] ne by auto
    then show ?thesis using lt ne hd pq Cons by (simp add: CFixedObjectPool_push_def Let_def fo_nx_def fo_pv_def)
  qed
  then obtain fo' where n: "CFixedObjectPool_push (Some i) fo = Inr fo'" "length (fo_ObjectPool fo') = ?n"
      "fo_nUserSize fo' = fo_nUserSize fo - 1" "fo_pFreeListHead fo' = Some i" "fo_pUserListHead fo' = fo_pUserListHead fo"
      "\<And>j. fo_nx fo' j = (if j = i then fo_pFreeListHead fo else if j = a then Some b else fo_nx fo j)"
      "\<And>j. j \<noteq> i \<Longrightarrow> j \<notin> set fs \<Longrightarrow> fo_pv fo' j = (if j = b then Some a else fo_pv fo j)"
      "\<And>j. j < ?n \<Longrightarrow> fn_bFree (fo_ObjectPool fo' ! j) \<longleftrightarrow> j = i \<or> fn_bFree (fo_ObjectPool fo ! j)" by blast
  have "chain ((fo_nx fo)(a := fo_nx fo i)) (fo_pUserListHead fo) (xs @ a # b # ys)"
    by (rule chain_unlink [OF old(2)]) (use old(1) in auto)
  then have "chain (fo_nx fo') (fo_pUserListHead fo') (xs @ a # b # ys)"
    unfolding n(5) by (rule chain_cong [rotated]) (use n(6) q old(1) in auto)
  moreover have "back_linked ((fo_pv fo)(b := Some a)) (xs @ a # b # ys)"
    by (rule back_linked_unlink [OF old(3)]) (use old(1) in auto)
  then have "back_linked (fo_pv fo') (xs @ a # b # ys)"
  proof (rule back_linked_cong [rotated])
    fix q assume "q \<in> set (tl (xs @ a # b # ys))"
    then have "q \<in> set (xs @ a # b # ys)" by (cases xs) auto
    then have "q \<noteq> i" "q \<notin> set fs" using old(1) by auto
    then show "fo_pv fo' q = ((fo_pv fo)(b := Some a)) q" using n(7) [of q] by simp
  qed
  ultimately have "fo_inv ((xs @ [a]) @ b # ys) (i # fs) fo'"
    using assms n ne by (intro fo_pushed [of "xs @ [a]" i "b # ys" fs fo]) auto
  then show ?thesis using n(1) by simp
qed

lemma fo_push_last:
  assumes "fo_inv (xs @ [a, i]) fs fo"
  shows "CFixedObjectPool_push (Some i) fo = Inl NullDeref"
proof -
  let ?n = "length (fo_ObjectPool fo)"
  have lt: "i < ?n" "a < ?n" using fo_inv_bounds [OF assms] by auto
  have old: "distinct (xs @ [a, i])" "chain (fo_nx fo) (fo_pUserListHead fo) (xs @ [a, i])" "back_linked (fo_pv fo) (xs @ [a, i])"
    using assms by (auto simp: fo_inv_def)
  have "fo_pv fo i = Some a" using back_linked_mid [of _ xs a i "[]"] old(3) by simp
  moreover have "fo_nx fo i = None" using chain_mid [of _ _ "xs @ [a]" i "[]"] old(2) by simp
  moreover have "fo_pUserListHead fo \<noteq> Some i" using old(1,2) by (cases xs) auto
  moreover have "i \<noteq> a" using old(1) by simp
  ultimately show ?thesis using lt by (simp add: CFixedObjectPool_push_def Let_def fo_nx_def fo_pv_def)
qed

lemma fo_push_cases:
  assumes "fo_inv us fs fo" "k < length us"
  shows "if Suc k = length us \<and> 0 < k then CFixedObjectPool_push (Some (us ! k)) fo = Inl NullDeref
    else \<exists>fo'. CFixedObjectPool_push (Some (us ! k)) fo = Inr fo' \<and> fo_inv (take k us @ drop (Suc k) us) (us ! k # fs) fo'"
proof -
  obtain i where us: "us = take k us @ i # drop (Suc k) us" "us ! k = i" using id_take_nth_drop [OF assms(2)] by blast
  show ?thesis
  proof (cases "k = 0")
    case True
    then have "us = i # drop (Suc k) us" using us(1) by simp
    then show ?thesis using fo_push_head [of i "drop (Suc k) us" fs fo] assms(1) us(2) True by simp
  next
    case False
    then have "take k us \<noteq> []" using assms(2) by auto
    then obtain xs a where xs: "take k us = xs @ [a]" by (metis append_butlast_last_id)
    show ?thesis
    proof (cases "drop (Suc k) us")
      case Nil
      then have "Suc k = length us" using assms(2) by simp
      moreover have "us = xs @ [a, i]" using us(1) xs Nil by simp
      ultimately show ?thesis using fo_push_last [of xs a i fs fo] assms(1) us(2) False by simp
    next
      case (Cons b ys)
      then have "Suc k \<noteq> length us" by auto
      moreover have "us = xs @ a # i # b # ys" using us(1) xs Cons by simp
      ultimately show ?thesis using fo_push_middle [of xs a i b ys fs fo] assms(1) us(2) xs Cons by simp
    qed
  qed
qed

lemma fo_init_ok: "fo_inv [] [0..<max 3 n] (CFixedObjectPool_init mk n fo)"
proof -
  let ?m = "max 3 n"
  let ?nx = "\<lambda>i. if i = ?m - 1 then None else Some (i + 1)"
  have c: "i < ?m \<Longrightarrow> chain ?nx (Some i) [i..<?m]" for i
  proof (induction "?m - i" arbitrary: i)
    case (Suc d)
    show ?case
    proof (cases "Suc i < ?m")
      case True
      then have "chain ?nx (Some (Suc i)) [Suc i..<?m]" using Suc.hyps(1) [of "Suc i"] Suc.hyps(2) by simp
      then show ?thesis using True by (simp add: upt_conv_Cons)
    next
      case False
      then have "Suc i = ?m" using Suc.prems by simp
      then show ?thesis by (simp add: upt_conv_Cons)
    qed
  next
    case 0
    then show ?case by linarith
  qed
  have m: "(if n < 3 then 3 else n) = ?m" by simp
  have nx: "fo_nx (CFixedObjectPool_init mk n fo) i = ?nx i" if "i \<in> set [0..<?m]" for i
    using that by (simp add: fo_nx_def CFixedObjectPool_init_def Let_def m fo_first_node_def)
  have "chain (fo_nx (CFixedObjectPool_init mk n fo)) (Some 0) [0..<?m]"
    by (rule chain_cong [OF nx c]) auto
  then show ?thesis
    by (auto simp: fo_inv_def CFixedObjectPool_init_def CFixedObjectPool_clear_def Let_def m fo_first_node_def atLeast0LessThan)
qed

section \<open>Properties\<close>

text \<open>
  C32. \<open>CFixedArray\<close>, after any run of operations on a new array of \<open>N\<close> cells, has a size of at most
  \<open>N\<close>; \<open>operator[]\<close> gives the element or throws exactly beyond the size and never leaves the array;
  \<open>push_back\<close> appends when there is room and else does nothing, \<open>pop_back\<close> removes the last
  element. Only \<open>back\<close> of an empty array reads outside of it; and the constructor with a size takes one
  beyond \<open>N\<close>, after which \<open>operator[]\<close> reads outside as well.
\<close>

theorem fixed_array_ok:
  "let a = fold fa_step ops (CFixedArray_new junk); N = length junk
   in CFixedArray_size a \<le> CFixedArray_capacity a \<and> CFixedArray_capacity a = N \<and>
      CFixedArray_index i a = (if i < CFixedArray_size a then Inr (fa_view a ! i) else Inl RangeError) \<and>
      fa_view (CFixedArray_push_back x a) = (if CFixedArray_size a < N then fa_view a @ [x] else fa_view a) \<and>
      fa_view (CFixedArray_pop_back a) = butlast (fa_view a) \<and>
      CFixedArray_back a = (if CFixedArray_empty a then Inl OutOfBounds else Inr (last (fa_view a))) \<and>
      CFixedArray_index N (CFixedArray_new_size (Suc N) junk) = Inl OutOfBounds"
proof -
  let ?a = "fold fa_step ops (CFixedArray_new junk)"
  have ok: "fa_ok (length junk) ?a" by (rule fa_run_ok) (simp add: fa_ok_def CFixedArray_new_def)
  have e: "fa_view ?a = [] \<longleftrightarrow> CFixedArray_empty ?a"
    using ok by (auto simp: fa_ok_def fa_view_def CFixedArray_empty_def)
  have "CFixedArray_index (length junk) (CFixedArray_new_size (Suc (length junk)) junk) = Inl OutOfBounds"
    by (simp add: CFixedArray_index_def CFixedArray_rangecheck_def CFixedArray_size_def CFixedArray_new_size_def fa_cell_def)
  moreover have "CFixedArray_size ?a \<le> CFixedArray_capacity ?a" "CFixedArray_capacity ?a = length junk"
    using ok by (simp_all add: fa_ok_def CFixedArray_size_def CFixedArray_capacity_def)
  ultimately show ?thesis unfolding Let_def fa_view_ops [OF ok] e by (simp add: CFixedArray_size_def)
qed

text \<open>Runs of pops and pushes; a push names an object by its place among those in use.\<close>

datatype fo_op = FoPop | FoPush nat

fun fo_step :: "fo_op \<Rightarrow> nat list \<times> 'a CFixedObjectPool \<Rightarrow> cerror + nat list \<times> 'a CFixedObjectPool" where
  "fo_step FoPop (us, fo) =
     rbind (CFixedObjectPool_pop fo) (\<lambda>(p, fo'). Inr (case p of None \<Rightarrow> us | Some i \<Rightarrow> i # us, fo'))"
| "fo_step (FoPush k) (us, fo) =
     (if k < length us
      then rbind (CFixedObjectPool_push (Some (us ! k)) fo) (\<lambda>fo'. Inr (take k us @ drop (Suc k) us, fo'))
      else Inr (us, fo))"

fun fo_run :: "fo_op list \<Rightarrow> nat list \<times> 'a CFixedObjectPool \<Rightarrow> cerror + nat list \<times> 'a CFixedObjectPool" where
  "fo_run [] y = Inr y"
| "fo_run (op # ops) y = rbind (fo_step op y) (fo_run ops)"

lemma fo_run_inv:
  assumes "fo_inv us fs fo"
  shows "case fo_run ops (us, fo) of Inl e \<Rightarrow> e = NullDeref | Inr (us', fo') \<Rightarrow>
    length (fo_ObjectPool fo') = length (fo_ObjectPool fo) \<and> (\<exists>fs'. fo_inv us' fs' fo')"
  using assms
proof (induction ops arbitrary: us fs fo)
  case (Cons op ops)
  have len: "fo_inv us' fs' fo' \<Longrightarrow> length (us' @ fs') = length (fo_ObjectPool fo')" for us' fs' and fo' :: "'a CFixedObjectPool"
    unfolding fo_inv_def by (metis card_lessThan distinct_card)
  show ?case
  proof (cases op)
    case FoPop
    obtain fo' where p: "CFixedObjectPool_pop fo = Inr (case fs of [] \<Rightarrow> None | f # fs' \<Rightarrow> Some f, fo')"
        "fo_inv (case fs of [] \<Rightarrow> us | f # fs' \<Rightarrow> f # us) (tl fs) fo'" using fo_pop_ok [OF Cons.prems] by blast
    have "length (fo_ObjectPool fo') = length (fo_ObjectPool fo)"
      using len [OF Cons.prems] len [OF p(2)] by (cases fs) auto
    then show ?thesis using Cons.IH [OF p(2)] p(1) FoPop by (cases fs) (auto split: sum.splits)
  next
    case (FoPush k)
    show ?thesis
    proof (cases "k < length us")
      case True
      note pc = fo_push_cases [OF Cons.prems True]
      show ?thesis
      proof (cases "Suc k = length us \<and> 0 < k")
        case True
        then show ?thesis using pc FoPush \<open>k < length us\<close> by simp
      next
        case False
        then obtain fo' where p: "CFixedObjectPool_push (Some (us ! k)) fo = Inr fo'"
            "fo_inv (take k us @ drop (Suc k) us) (us ! k # fs) fo'" using pc by auto
        have "length (fo_ObjectPool fo') = length (fo_ObjectPool fo)"
          using len [OF Cons.prems] len [OF p(2)] True by simp
        then show ?thesis using Cons.IH [OF p(2)] p(1) FoPush True by (auto split: sum.splits)
      qed
    qed (use Cons FoPush in \<open>auto split: sum.splits\<close>)
  qed
qed auto


end
