(* ===== verification/BlockObject.thy ===== *)
theory BlockObject
  imports TcpServer Sync PoolMem
begin

text \<open>
  Objects on which a thread waits for an answer: \<open>CSLBlockObject\<close> and its manager
  \<open>CSLBlockObjectMgr\<close>, and the older pair \<open>CSLBlockSession\<close> and \<open>CSLBlockSessionMgr\<close>. An object
  gets a key from its manager when it is constructed; the thread that receives an answer looks the
  object up by the key and signals its event. The two pairs differ in how the manager enters an object
  (\<open>insert\<close> keeps an old entry, \<open>operator[]\<close> replaces it) and in the destructor of the object, so they
  share the definitions below. Managers and objects live at addresses; a manager's method runs under
  its lock, whose depth is \<open>om_lock\<close>.
\<close>

section \<open>Managers\<close>

text \<open>The map is a \<open>std::map\<close>, a list that ascends in its keys.\<close>

record CSLBlockObjectMgr =
  om_bOwner :: bool
  om_nMaxKeyID :: u32
  om_lock :: int
  om_map :: socket_map

record CSLBlockObject =
  bo_oEvent :: CEvent
  bo_nKeyID :: u32
  bo_pMgr :: addr

type_synonym CSLBlockSessionMgr = CSLBlockObjectMgr
type_synonym CSLBlockSession = CSLBlockObject

record block_world =
  bw_mgr :: "addr \<Rightarrow> CSLBlockObjectMgr option"
  bw_obj :: "addr \<Rightarrow> CSLBlockObject option"
  bw_net :: net

fun smap_put :: "int \<Rightarrow> addr \<Rightarrow> socket_map \<Rightarrow> socket_map" where
  "smap_put k v [] = [(k, v)]"
| "smap_put k v ((a, b) # m) =
     (if k < a then (k, v) # (a, b) # m else if k = a then (k, v) # m else (a, b) # smap_put k v m)"

definition CSLBlockObjectMgr_new :: CSLBlockObjectMgr where
  "CSLBlockObjectMgr_new = \<lparr>om_bOwner = False, om_nMaxKeyID = 0, om_lock = 0, om_map = []\<rparr>"

definition CSLBlockObjectMgr_new_owner :: "bool \<Rightarrow> CSLBlockObjectMgr" where
  "CSLBlockObjectMgr_new_owner bOwner = \<lparr>om_bOwner = bOwner, om_nMaxKeyID = 0, om_lock = 0, om_map = []\<rparr>"

definition CSLBlockSessionMgr_new :: CSLBlockSessionMgr where
  "CSLBlockSessionMgr_new = CSLBlockObjectMgr_new"

definition CSLBlockSessionMgr_new_owner :: "bool \<Rightarrow> CSLBlockSessionMgr" where
  "CSLBlockSessionMgr_new_owner bOwner = CSLBlockObjectMgr_new_owner bOwner"

definition om_Lock :: "CSLBlockObjectMgr \<Rightarrow> CSLBlockObjectMgr" where
  "om_Lock g = g\<lparr>om_lock := om_lock g + 1\<rparr>"

definition om_UnLock :: "CSLBlockObjectMgr \<Rightarrow> CSLBlockObjectMgr" where
  "om_UnLock g = g\<lparr>om_lock := om_lock g - 1\<rparr>"

text \<open>\<open>Push\<close> with the way of entering an object.\<close>

definition om_push :: "(int \<Rightarrow> addr \<Rightarrow> socket_map \<Rightarrow> socket_map) \<Rightarrow> addr \<Rightarrow> CSLBlockObjectMgr \<Rightarrow> u32 \<times> CSLBlockObjectMgr" where
  "om_push put p g =
     (let g1 = om_Lock g; nKeyID = om_nMaxKeyID g1;
          g2 = g1\<lparr>om_map := put (uint nKeyID) p (om_map g1), om_nMaxKeyID := nKeyID + 1\<rparr>
      in (nKeyID, om_UnLock g2))"

definition CSLBlockObjectMgr_Push :: "addr \<Rightarrow> CSLBlockObjectMgr \<Rightarrow> u32 \<times> CSLBlockObjectMgr" where
  "CSLBlockObjectMgr_Push = om_push smap_insert"

definition CSLBlockSessionMgr_PushSession :: "addr \<Rightarrow> CSLBlockSessionMgr \<Rightarrow> u32 \<times> CSLBlockSessionMgr" where
  "CSLBlockSessionMgr_PushSession = om_push smap_put"

definition CSLBlockObjectMgr_Remove :: "u32 \<Rightarrow> CSLBlockObjectMgr \<Rightarrow> CSLBlockObjectMgr" where
  "CSLBlockObjectMgr_Remove nKeyID g =
     (let g1 = om_Lock g in om_UnLock (g1\<lparr>om_map := smap_erase (uint nKeyID) (om_map g1)\<rparr>))"

definition CSLBlockSessionMgr_RemoveSession :: "u32 \<Rightarrow> CSLBlockSessionMgr \<Rightarrow> CSLBlockSessionMgr" where
  "CSLBlockSessionMgr_RemoveSession nKeyID g =
     (let g1 = om_Lock g in om_UnLock (g1\<lparr>om_map := smap_erase (uint nKeyID) (om_map g1)\<rparr>))"

definition CSLBlockObjectMgr_Find :: "u32 \<Rightarrow> CSLBlockObjectMgr \<Rightarrow> addr \<times> CSLBlockObjectMgr" where
  "CSLBlockObjectMgr_Find nKeyID g =
     (let g1 = om_Lock g
      in (case map_of (om_map g1) (uint nKeyID) of None \<Rightarrow> NULL | Some p \<Rightarrow> p, om_UnLock g1))"

definition CSLBlockSessionMgr_Find :: "u32 \<Rightarrow> CSLBlockSessionMgr \<Rightarrow> addr \<times> CSLBlockSessionMgr" where
  "CSLBlockSessionMgr_Find nKeyID g =
     (let g1 = om_Lock g
      in (case map_of (om_map g1) (uint nKeyID) of None \<Rightarrow> NULL | Some p \<Rightarrow> p, om_UnLock g1))"

section \<open>Objects\<close>

definition on_mgr :: "addr \<Rightarrow> (CSLBlockObjectMgr \<Rightarrow> 'r \<times> CSLBlockObjectMgr) \<Rightarrow> block_world \<Rightarrow> cerror + 'r \<times> block_world" where
  "on_mgr pMgr f w =
     (if pMgr = NULL then Inl NullDeref
      else case bw_mgr w pMgr of
        None \<Rightarrow> Inl UseAfterFree
      | Some g \<Rightarrow> let (r, g1) = f g in Inr (r, w\<lparr>bw_mgr := (bw_mgr w)(pMgr \<mapsto> g1)\<rparr>))"

definition on_obj :: "addr \<Rightarrow> (CSLBlockObject \<Rightarrow> net \<Rightarrow> 'r \<times> CSLBlockObject \<times> net) \<Rightarrow> block_world \<Rightarrow> cerror + 'r \<times> block_world" where
  "on_obj this f w =
     (if this = NULL then Inl NullDeref
      else case bw_obj w this of
        None \<Rightarrow> Inl UseAfterFree
      | Some b \<Rightarrow> let (r, b1, n1) = f b (bw_net w)
                 in Inr (r, w\<lparr>bw_obj := (bw_obj w)(this \<mapsto> b1), bw_net := n1\<rparr>))"

text \<open>The constructor of an object at address \<open>this\<close>.\<close>

definition bo_construct ::
    "(addr \<Rightarrow> CSLBlockObjectMgr \<Rightarrow> u32 \<times> CSLBlockObjectMgr) \<Rightarrow> env \<Rightarrow> addr \<Rightarrow> addr \<Rightarrow> block_world \<Rightarrow> cerror + block_world" where
  "bo_construct push env pMgr this w =
     (case CEvent_new_state env True False (bw_net w) of (e, n1) \<Rightarrow>
        rbind (on_mgr pMgr (push this) (w\<lparr>bw_net := n1\<rparr>)) (\<lambda>(nKeyID, w1).
          Inr (w1\<lparr>bw_obj := (bw_obj w1)(this \<mapsto> \<lparr>bo_oEvent = e, bo_nKeyID = nKeyID, bo_pMgr = pMgr\<rparr>)\<rparr>)))"

definition CSLBlockObject_new :: "env \<Rightarrow> addr \<Rightarrow> addr \<Rightarrow> block_world \<Rightarrow> cerror + block_world" where
  "CSLBlockObject_new env = bo_construct CSLBlockObjectMgr_Push env"

definition CSLBlockSession_new :: "env \<Rightarrow> addr \<Rightarrow> addr \<Rightarrow> block_world \<Rightarrow> cerror + block_world" where
  "CSLBlockSession_new env = bo_construct CSLBlockSessionMgr_PushSession env"

text \<open>The default constructor leaves the key and the manager as they are in memory.\<close>

definition CSLBlockObject_new_default :: "env \<Rightarrow> u32 \<Rightarrow> addr \<Rightarrow> addr \<Rightarrow> block_world \<Rightarrow> block_world" where
  "CSLBlockObject_new_default env key pMgr this w =
     (case CEvent_new_state env True False (bw_net w) of (e, n1) \<Rightarrow>
        w\<lparr>bw_obj := (bw_obj w)(this \<mapsto> \<lparr>bo_oEvent = e, bo_nKeyID = key, bo_pMgr = pMgr\<rparr>), bw_net := n1\<rparr>)"

definition CSLBlockObject_SetBlockObjectMgr :: "addr \<Rightarrow> addr \<Rightarrow> block_world \<Rightarrow> cerror + block_world" where
  "CSLBlockObject_SetBlockObjectMgr pMgr this w =
     rbind (on_mgr pMgr (CSLBlockObjectMgr_Push this) w) (\<lambda>(nKeyID, w1).
     rbind (on_obj this (\<lambda>b n. ((), b\<lparr>bo_pMgr := pMgr, bo_nKeyID := nKeyID\<rparr>, n)) w1) (\<lambda>(u, w2). Inr w2))"

definition CSLBlockObject_Wait :: "env \<Rightarrow> int \<Rightarrow> addr \<Rightarrow> block_world \<Rightarrow> cerror + bool \<times> block_world" where
  "CSLBlockObject_Wait env nTimeOut this =
     on_obj this (\<lambda>b n. case CEvent_Lock_timeout env nTimeOut (bo_oEvent b, n) of (r, e, n1) \<Rightarrow> (r, b\<lparr>bo_oEvent := e\<rparr>, n1))"

text \<open>\<open>DoResult\<close> is virtual; that of the class returns true.\<close>

definition CSLBlockObject_DoResult :: "byte list \<Rightarrow> bool" where
  "CSLBlockObject_DoResult szMsg = True"

definition CSLBlockObject_Result :: "(byte list \<Rightarrow> bool) \<Rightarrow> env \<Rightarrow> byte list \<Rightarrow> addr \<Rightarrow> block_world \<Rightarrow> cerror + bool \<times> block_world" where
  "CSLBlockObject_Result DoResult env szMsg this =
     on_obj this (\<lambda>b n.
       if DoResult szMsg
       then (case CEvent_Signal env (bo_oEvent b, n) of (r, e, n1) \<Rightarrow> (r, b\<lparr>bo_oEvent := e\<rparr>, n1))
       else (False, b, n))"

definition CSLBlockObject_GetKeyID :: "addr \<Rightarrow> block_world \<Rightarrow> cerror + u32 \<times> block_world" where
  "CSLBlockObject_GetKeyID this = on_obj this (\<lambda>b n. (bo_nKeyID b, b, n))"

definition CSLBlockSession_Wait :: "env \<Rightarrow> int \<Rightarrow> addr \<Rightarrow> block_world \<Rightarrow> cerror + bool \<times> block_world" where
  "CSLBlockSession_Wait = CSLBlockObject_Wait"

definition CSLBlockSession_Result :: "(byte list \<Rightarrow> bool) \<Rightarrow> env \<Rightarrow> byte list \<Rightarrow> addr \<Rightarrow> block_world \<Rightarrow> cerror + bool \<times> block_world" where
  "CSLBlockSession_Result = CSLBlockObject_Result"

definition CSLBlockSession_GetKeyID :: "addr \<Rightarrow> block_world \<Rightarrow> cerror + u32 \<times> block_world" where
  "CSLBlockSession_GetKeyID = CSLBlockObject_GetKeyID"

text \<open>The destructors; the event is a member and goes last. Only that of the objects resets it.\<close>

definition bo_destroy :: "bool \<Rightarrow> env \<Rightarrow> addr \<Rightarrow> block_world \<Rightarrow> cerror + block_world" where
  "bo_destroy reset env this w =
     rbind (on_obj this (\<lambda>b n. if reset then (case CEvent_Reset env (bo_oEvent b, n) of (r, e, n1) \<Rightarrow> (b\<lparr>bo_oEvent := e\<rparr>, b\<lparr>bo_oEvent := e\<rparr>, n1))
                               else (b, b, n)) w) (\<lambda>(b, w1).
     rbind (on_mgr (bo_pMgr b) (\<lambda>g. ((), CSLBlockObjectMgr_Remove (bo_nKeyID b) g)) w1) (\<lambda>(u, w2).
       case CEvent_delete env (bo_oEvent b, bw_net w2) of (e, n1) \<Rightarrow>
         Inr (w2\<lparr>bw_obj := (bw_obj w2)(this := None), bw_net := n1\<rparr>)))"

definition CSLBlockObject_delete :: "env \<Rightarrow> addr \<Rightarrow> block_world \<Rightarrow> cerror + block_world" where
  "CSLBlockObject_delete env = bo_destroy True env"

definition CSLBlockSession_delete :: "env \<Rightarrow> addr \<Rightarrow> block_world \<Rightarrow> cerror + block_world" where
  "CSLBlockSession_delete env = bo_destroy False env"

section \<open>Clearing a manager\<close>

text \<open>The loop over the map of an owning manager. Deleting an object erases its entry; when it was the
  entry of the iterator, the increment reads a freed node. Entries that were erased before the
  iterator came to them are passed by.\<close>

fun om_delete_all :: "(addr \<Rightarrow> block_world \<Rightarrow> cerror + block_world) \<Rightarrow> addr \<Rightarrow> socket_map \<Rightarrow> block_world \<Rightarrow> cerror + block_world" where
  "om_delete_all delete pMgr [] w = Inr w"
| "om_delete_all delete pMgr ((k, p) # m) w =
     rbind (on_mgr pMgr (\<lambda>g. (k \<in> fst ` set (om_map g), g)) w) (\<lambda>(here, w1).
       if \<not> here then om_delete_all delete pMgr m w1
       else rbind (if p = NULL then Inr w1 else delete p w1) (\<lambda>w2.
            rbind (on_mgr pMgr (\<lambda>g. (k \<in> fst ` set (om_map g), g)) w2) (\<lambda>(here, w3).
              if here then om_delete_all delete pMgr m w3 else Inl UseAfterFree)))"

definition om_clear :: "(addr \<Rightarrow> block_world \<Rightarrow> cerror + block_world) \<Rightarrow> addr \<Rightarrow> block_world \<Rightarrow> cerror + block_world" where
  "om_clear delete pMgr w =
     rbind (on_mgr pMgr (\<lambda>g. (om_Lock g, om_Lock g)) w) (\<lambda>(g, w1).
     rbind (if om_bOwner g then om_delete_all delete pMgr (om_map g) w1 else Inr w1) (\<lambda>w2.
     rbind (on_mgr pMgr (\<lambda>g. ((), om_UnLock (g\<lparr>om_map := []\<rparr>))) w2) (\<lambda>(u, w3). Inr w3)))"

definition CSLBlockObjectMgr_Clear :: "env \<Rightarrow> addr \<Rightarrow> block_world \<Rightarrow> cerror + block_world" where
  "CSLBlockObjectMgr_Clear env = om_clear (CSLBlockObject_delete env)"

definition CSLBlockSessionMgr_Clear :: "env \<Rightarrow> addr \<Rightarrow> block_world \<Rightarrow> cerror + block_world" where
  "CSLBlockSessionMgr_Clear env = om_clear (CSLBlockSession_delete env)"

definition CSLBlockObjectMgr_delete :: "env \<Rightarrow> addr \<Rightarrow> block_world \<Rightarrow> cerror + block_world" where
  "CSLBlockObjectMgr_delete env pMgr w =
     rbind (CSLBlockObjectMgr_Clear env pMgr w) (\<lambda>w1. Inr (w1\<lparr>bw_mgr := (bw_mgr w1)(pMgr := None)\<rparr>))"

definition CSLBlockSessionMgr_delete :: "env \<Rightarrow> addr \<Rightarrow> block_world \<Rightarrow> cerror + block_world" where
  "CSLBlockSessionMgr_delete env pMgr w =
     rbind (CSLBlockSessionMgr_Clear env pMgr w) (\<lambda>w1. Inr (w1\<lparr>bw_mgr := (bw_mgr w1)(pMgr := None)\<rparr>))"

section \<open>What the users of a manager do\<close>

text \<open>Objects are made and destroyed at addresses of the program's choice, and answers come in for
  keys; the receiver of an answer looks the object up and calls \<open>Result\<close>.\<close>

datatype block_op = BlkNew addr | BlkDelete addr | BlkResult u32 "byte list"

fun block_step ::
    "(addr \<Rightarrow> addr \<Rightarrow> block_world \<Rightarrow> cerror + block_world) \<Rightarrow> (addr \<Rightarrow> block_world \<Rightarrow> cerror + block_world) \<Rightarrow>
     (byte list \<Rightarrow> bool) \<Rightarrow> env \<Rightarrow> addr \<Rightarrow> block_op \<Rightarrow> block_world \<Rightarrow> cerror + block_world" where
  "block_step construct delete DoResult env pMgr (BlkNew a) w =
     (if a = NULL \<or> bw_obj w a \<noteq> None then Inr w else construct pMgr a w)"
| "block_step construct delete DoResult env pMgr (BlkDelete a) w =
     (if bw_obj w a = None then Inr w else delete a w)"
| "block_step construct delete DoResult env pMgr (BlkResult k szMsg) w =
     rbind (on_mgr pMgr (CSLBlockObjectMgr_Find k) w) (\<lambda>(p, w1).
       if p = NULL then Inr w1
       else rbind (CSLBlockObject_Result DoResult env szMsg p w1) (\<lambda>(b, w2). Inr w2))"

fun block_run where
  "block_run construct delete DoResult env pMgr [] w = Inr w"
| "block_run construct delete DoResult env pMgr (op # ops) w =
     rbind (block_step construct delete DoResult env pMgr op w) (block_run construct delete DoResult env pMgr ops)"

text \<open>The specification: how many objects were made, and the table of those that live.\<close>

type_synonym pending = "nat \<times> (u32 \<times> addr) list"

fun pending_step :: "block_op \<Rightarrow> pending \<Rightarrow> pending" where
  "pending_step (BlkNew a) (c, L) =
     (if a = NULL \<or> a \<in> snd ` set L then (c, L) else (Suc c, L @ [(of_nat c, a)]))"
| "pending_step (BlkDelete a) (c, L) = (c, filter (\<lambda>x. snd x \<noteq> a) L)"
| "pending_step (BlkResult k szMsg) y = y"

definition pending_map :: "(u32 \<times> addr) list \<Rightarrow> socket_map" where
  "pending_map L = map (\<lambda>(k, a). (uint k, a)) L"

definition pending_ok :: "pending \<Rightarrow> bool" where
  "pending_ok y \<longleftrightarrow> (case y of (c, L) \<Rightarrow>
     sorted_wrt (\<lambda>x y. fst x < fst y) L \<and> (\<forall>x \<in> set L. unat (fst x) < c) \<and>
     distinct (map snd L) \<and> NULL \<notin> snd ` set L)"

definition block_inv :: "addr \<Rightarrow> bool \<Rightarrow> pending \<Rightarrow> block_world \<Rightarrow> bool" where
  "block_inv pMgr own y w \<longleftrightarrow> (case y of (c, L) \<Rightarrow>
     bw_mgr w pMgr = Some \<lparr>om_bOwner = own, om_nMaxKeyID = of_nat c, om_lock = 0, om_map = pending_map L\<rparr> \<and>
     (\<forall>a. bw_obj w a \<noteq> None \<longleftrightarrow> a \<in> snd ` set L) \<and>
     (\<forall>(k, a) \<in> set L. \<exists>e. bw_obj w a = Some \<lparr>bo_oEvent = e, bo_nKeyID = k, bo_pMgr = pMgr\<rparr>))"

lemma pending_fst_mono: "fst y \<le> fst (pending_step op y)"
  by (cases op; cases y) auto

lemma pending_run_mono: "fst y \<le> fst (fold pending_step ops y)"
proof (induction ops arbitrary: y)
  case (Cons op ops)
  show ?case using pending_fst_mono [of y op] Cons [of "pending_step op y"] by simp
qed simp

lemma pending_map_append [simp]: "pending_map (L @ [(k, a)]) = pending_map L @ [(uint k, a)]"
  by (simp add: pending_map_def)

lemma map_of_pending: "map_of (pending_map L) (uint k) = map_of L k"
  by (induction L) (auto simp: pending_map_def word_uint_eq_iff)

lemma pending_keys_distinct:
  assumes "pending_ok (c, L)"
  shows "distinct (map fst L)"
proof -
  have "sorted_wrt (<) (map fst L)" using assms by (simp add: pending_ok_def sorted_wrt_map)
  then show ?thesis by (simp add: strict_sorted_iff)
qed

lemma pending_step_ok:
  assumes "pending_ok y" "fst (pending_step op y) \<le> 2 ^ 32"
  shows "pending_ok (pending_step op y)"
proof -
  obtain c L where y: "y = (c, L)" by (cases y)
  show ?thesis
  proof (cases op)
    case (BlkNew a)
    show ?thesis
    proof (cases "a = NULL \<or> a \<in> snd ` set L")
      case False
      then have "c < 2 ^ 32" using assms(2) BlkNew y by simp
      then have c: "unat (of_nat c :: u32) = c" by (rule unat_of_nat_u32)
      have lt: "fst x < of_nat c" "unat (fst x) < Suc c" if "x \<in> set L" for x
        using that assms(1) y c by (auto simp: pending_ok_def word_less_nat_alt)
      have "sorted_wrt (\<lambda>x y. fst x < fst y) (L @ [(of_nat c, a)])"
        using assms(1) y lt(1) by (auto simp: pending_ok_def sorted_wrt_append)
      moreover have "distinct (map snd (L @ [(of_nat c, a)]))" "NULL \<notin> snd ` set (L @ [(of_nat c, a)])"
        using assms(1) y False by (auto simp: pending_ok_def)
      ultimately show ?thesis using lt(2) c False y BlkNew by (simp add: pending_ok_def)
    qed (use assms BlkNew y in auto)
  next
    case (BlkDelete a)
    then show ?thesis using assms(1) y by (auto simp: pending_ok_def sorted_wrt_filter distinct_map_filter)
  qed (use assms in simp)
qed

lemma on_mgr_Some: "pMgr \<noteq> NULL \<Longrightarrow> bw_mgr w pMgr = Some g \<Longrightarrow>
    on_mgr pMgr f w = Inr (fst (f g), w\<lparr>bw_mgr := (bw_mgr w)(pMgr \<mapsto> snd (f g))\<rparr>)"
  by (simp add: on_mgr_def case_prod_unfold Let_def)

lemma on_obj_Some: "this \<noteq> NULL \<Longrightarrow> bw_obj w this = Some b \<Longrightarrow>
    on_obj this f w = Inr (fst (f b (bw_net w)), w\<lparr>bw_obj := (bw_obj w)(this \<mapsto> fst (snd (f b (bw_net w)))),
      bw_net := snd (snd (f b (bw_net w)))\<rparr>)"
  by (simp add: on_obj_def case_prod_unfold Let_def)

lemma smap_erase_pending:
  assumes "pending_ok (c, L)" "(k, a) \<in> set L"
  shows "smap_erase (uint k) (pending_map L) = pending_map (filter (\<lambda>x. snd x \<noteq> a) L)"
proof -
  have "inj_on fst (set L)" "inj_on snd (set L)"
    using assms(1) pending_keys_distinct [OF assms(1)] by (auto simp: pending_ok_def distinct_map)
  then have eq: "fst x = k \<longleftrightarrow> snd x = a" if "x \<in> set L" for x
    using that assms(2) by (metis fst_conv snd_conv inj_onD)
  have "filter (\<lambda>x. fst x \<noteq> k) L = filter (\<lambda>x. snd x \<noteq> a) L" by (rule filter_cong) (use eq in auto)
  then show ?thesis
    by (simp add: smap_erase_def pending_map_def filter_map comp_def case_prod_unfold word_uint_eq_iff [symmetric])
qed

text \<open>What the two pairs have in common: a key larger than all others goes to the end of the map.\<close>

locale block_pair =
  fixes put :: "int \<Rightarrow> addr \<Rightarrow> socket_map \<Rightarrow> socket_map" and reset :: bool
  assumes put_last: "(\<And>x. x \<in> set m \<Longrightarrow> fst x < k) \<Longrightarrow> put k v m = m @ [(k, v)]"
begin

lemma construct_ok:
  assumes "block_inv pMgr own (c, L) w" "pending_ok (c, L)" "c < 2 ^ 32" "pMgr \<noteq> NULL" "a \<notin> snd ` set L"
  shows "\<exists>w'. bo_construct (om_push put) env pMgr a w = Inr w' \<and> block_inv pMgr own (Suc c, L @ [(of_nat c, a)]) w'"
proof -
  obtain e n1 where e: "CEvent_new_state env True False (bw_net w) = (e, n1)" by (metis prod.exhaust)
  have "uint (of_nat c :: u32) = int c" using unat_of_nat_u32 [OF assms(3)] by (metis uint_nat)
  moreover have "uint k < int c" if "(k, b) \<in> set L" for k b
  proof -
    have "unat k < c" using that assms(2) by (auto simp: pending_ok_def)
    then show ?thesis by (metis uint_nat of_nat_less_iff)
  qed
  ultimately have "fst x < uint (of_nat c :: u32)" if "x \<in> set (pending_map L)" for x
    using that by (auto simp: pending_map_def)
  then have "put (uint (of_nat c :: u32)) a (pending_map L) = pending_map (L @ [(of_nat c, a)])" by (simp add: put_last)
  note put = this
  let ?b = "\<lparr>bo_oEvent = e, bo_nKeyID = of_nat c, bo_pMgr = pMgr\<rparr>"
  let ?w = "w\<lparr>bw_net := n1, bw_mgr := (bw_mgr w)(pMgr \<mapsto> \<lparr>om_bOwner = own, om_nMaxKeyID = of_nat (Suc c), om_lock = 0,
    om_map = pending_map (L @ [(of_nat c, a)])\<rparr>), bw_obj := (bw_obj w)(a \<mapsto> ?b)\<rparr>"
  have g: "bw_mgr w pMgr = Some \<lparr>om_bOwner = own, om_nMaxKeyID = of_nat c, om_lock = 0, om_map = pending_map L\<rparr>"
    using assms(1) by (simp add: block_inv_def)
  have "bo_construct (om_push put) env pMgr a w = Inr ?w" using g assms(4) put
    by (simp add: bo_construct_def e on_mgr_Some om_push_def om_Lock_def om_UnLock_def Let_def add.commute)
  moreover have "block_inv pMgr own (Suc c, L @ [(of_nat c, a)]) ?w"
    using assms(1,5) by (auto simp: block_inv_def) (force simp: image_iff)+
  ultimately show ?thesis by blast
qed

lemma destroy_ok:
  assumes "block_inv pMgr own (c, L) w" "pending_ok (c, L)" "pMgr \<noteq> NULL" "a \<in> snd ` set L"
  shows "\<exists>w'. bo_destroy reset env a w = Inr w' \<and> block_inv pMgr own (c, filter (\<lambda>x. snd x \<noteq> a) L) w'"
proof -
  obtain k where k: "(k, a) \<in> set L" using assms(4) by auto
  then obtain e where b: "bw_obj w a = Some \<lparr>bo_oEvent = e, bo_nKeyID = k, bo_pMgr = pMgr\<rparr>"
    using assms(1) by (fastforce simp: block_inv_def)
  have "NULL \<notin> snd ` set L" using assms(2) by (simp add: pending_ok_def)
  then have a: "a \<noteq> NULL" using assms(4) by metis
  obtain r e1 n1 where r: "CEvent_Reset env (e, bw_net w) = (r, e1, n1)" by (metis prod.exhaust)
  obtain e2 n2 where d: "CEvent_delete env (if reset then e1 else e, if reset then n1 else bw_net w) = (e2, n2)"
    by (metis prod.exhaust)
  show ?thesis using assms(1,3) a b r d
    by (cases reset) (auto simp: bo_destroy_def on_mgr_Some on_obj_Some CSLBlockObjectMgr_Remove_def om_Lock_def
        om_UnLock_def Let_def block_inv_def smap_erase_pending [OF assms(2) k])
qed

lemma find_ok:
  assumes "block_inv pMgr own (c, L) w" "pMgr \<noteq> NULL"
  shows "on_mgr pMgr (CSLBlockObjectMgr_Find k) w = Inr (case map_of L k of None \<Rightarrow> NULL | Some p \<Rightarrow> p, w)"
  using assms by (auto simp: block_inv_def on_mgr_Some CSLBlockObjectMgr_Find_def om_Lock_def om_UnLock_def Let_def
      map_of_pending fun_upd_idem)

lemma result_ok:
  assumes "block_inv pMgr own (c, L) w" "pending_ok (c, L)" "pMgr \<noteq> NULL"
  shows "\<exists>w'. block_step (bo_construct (om_push put) env) (bo_destroy reset env) DoResult env pMgr (BlkResult k szMsg) w = Inr w' \<and> block_inv pMgr own (c, L) w' \<and>
    map fst (n_trace (bw_net w')) = map fst (n_trace (bw_net w)) @
      (case map_of L k of
         Some a \<Rightarrow> if DoResult szMsg then [ObjectOp SetEvent (ev_hEvent (bo_oEvent (the (bw_obj w a)))) []] else []
       | None \<Rightarrow> [])"
proof (cases "map_of L k")
  case None
  then show ?thesis using assms(1) find_ok [OF assms(1,3), of k] by simp
next
  case (Some a)
  then have k: "(k, a) \<in> set L" by (rule map_of_SomeD)
  then obtain e where b: "bw_obj w a = Some \<lparr>bo_oEvent = e, bo_nKeyID = k, bo_pMgr = pMgr\<rparr>"
    using assms(1) by (fastforce simp: block_inv_def)
  have a: "a \<noteq> NULL" using k assms(2) by (force simp: pending_ok_def)
  have d: "distinct (map snd L)" using assms(2) by (simp add: pending_ok_def)
  have same: "(bw_obj w)(a \<mapsto> \<lparr>bo_oEvent = e, bo_nKeyID = k, bo_pMgr = pMgr\<rparr>) = bw_obj w"
    using b by (simp add: fun_upd_idem)
  have w: "block_inv pMgr own (c, L) (w\<lparr>bw_net := n\<rparr>)" for n using assms(1) by (simp add: block_inv_def)
  show ?thesis using Some find_ok [OF assms(1,3), of k] a b w assms(1)
    by (auto simp: same CSLBlockObject_Result_def on_obj_Some CEvent_Signal_def CEvent_op_def object_op_def sys_def Let_def)
qed

lemma step_ok:
  assumes "block_inv pMgr own y w" "pending_ok y" "fst (pending_step op y) \<le> 2 ^ 32" "pMgr \<noteq> NULL"
  shows "\<exists>w'. block_step (bo_construct (om_push put) env) (bo_destroy reset env) DoResult env pMgr op w = Inr w' \<and> block_inv pMgr own (pending_step op y) w'"
proof -
  obtain c L where y: "y = (c, L)" by (cases y)
  note inv = assms(1) [unfolded y] and ok = assms(2) [unfolded y]
  have live: "bw_obj w a = None \<longleftrightarrow> a \<notin> snd ` set L" for a using inv by (auto simp: block_inv_def)
  show ?thesis
  proof (cases op)
    case (BlkNew a)
    show ?thesis
    proof (cases "a = NULL \<or> a \<in> snd ` set L")
      case True
      then show ?thesis using inv BlkNew y live [of a] by auto
    next
      case False
      then show ?thesis using construct_ok [OF inv ok _ assms(4), of a env] assms(3) BlkNew y live [of a] by auto
    qed
  next
    case (BlkDelete a)
    show ?thesis
    proof (cases "a \<in> snd ` set L")
      case True
      then show ?thesis using destroy_ok [OF inv ok assms(4), of a env] BlkDelete y live [of a] by auto
    next
      case False
      then have "filter (\<lambda>x. snd x \<noteq> a) L = L" by (auto simp: filter_id_conv)
      then show ?thesis using inv BlkDelete y live [of a] False by simp
    qed
  next
    case (BlkResult k szMsg)
    then show ?thesis using result_ok [OF inv ok assms(4)] y by fastforce
  qed
qed

lemma run_ok:
  assumes "block_inv pMgr own y w" "pending_ok y" "fst (fold pending_step ops y) \<le> 2 ^ 32" "pMgr \<noteq> NULL"
  shows "\<exists>w'. block_run (bo_construct (om_push put) env) (bo_destroy reset env) DoResult env pMgr ops w = Inr w' \<and>
    block_inv pMgr own (fold pending_step ops y) w' \<and> pending_ok (fold pending_step ops y)"
  using assms(1-3)
proof (induction ops arbitrary: y w)
  case (Cons op ops)
  have "fst (pending_step op y) \<le> 2 ^ 32"
    using Cons.prems(3) pending_run_mono [of "pending_step op y" ops] by simp
  note st = step_ok [OF Cons.prems(1,2) this assms(4), of env DoResult] and ok = pending_step_ok [OF Cons.prems(2) this]
  from st obtain w1 where w1: "block_step (bo_construct (om_push put) env) (bo_destroy reset env) DoResult env pMgr op w = Inr w1" "block_inv pMgr own (pending_step op y) w1"
    by blast
  then show ?case using Cons.IH [OF w1(2) ok] Cons.prems(3) by simp
qed simp

text \<open>\<open>Clear\<close>: an owning manager that has objects reads a freed node.\<close>

lemma clear_ok:
  assumes "block_inv pMgr own (c, L) w" "pending_ok (c, L)" "pMgr \<noteq> NULL"
  shows "if own \<and> L \<noteq> [] then om_clear (bo_destroy reset env) pMgr w = Inl UseAfterFree
    else \<exists>w'. om_clear (bo_destroy reset env) pMgr w = Inr w' \<and> bw_obj w' = bw_obj w \<and>
      (\<forall>k. on_mgr pMgr (CSLBlockObjectMgr_Find k) w' = Inr (NULL, w'))"
proof -
  have g: "bw_mgr w pMgr = Some \<lparr>om_bOwner = own, om_nMaxKeyID = of_nat c, om_lock = 0, om_map = pending_map L\<rparr>"
    using assms(1) by (simp add: block_inv_def)
  show ?thesis
  proof (cases "own \<and> L \<noteq> []")
    case True
    then obtain k a L' where L: "L = (k, a) # L'" by (metis list.exhaust surj_pair)
    obtain e where b: "bw_obj w a = Some \<lparr>bo_oEvent = e, bo_nKeyID = k, bo_pMgr = pMgr\<rparr>"
      using assms(1) L by (auto simp: block_inv_def)
    have a: "a \<noteq> NULL" using assms(2) L by (auto simp: pending_ok_def)
    let ?g = "\<lparr>om_bOwner = own, om_nMaxKeyID = of_nat c, om_lock = 1, om_map = pending_map L\<rparr>"
    let ?w = "w\<lparr>bw_mgr := (bw_mgr w)(pMgr \<mapsto> ?g)\<rparr>"
    obtain r e1 n1 where r: "CEvent_Reset env (e, bw_net w) = (r, e1, n1)" by (metis prod.exhaust)
    obtain e2 n2 where d: "CEvent_delete env (if reset then e1 else e, if reset then n1 else bw_net w) = (e2, n2)"
      by (metis prod.exhaust)
    have "om_clear (bo_destroy reset env) pMgr w = Inl UseAfterFree"
      using True assms(3) g a b r d L
      by (cases reset) (auto simp: om_clear_def pending_map_def bo_destroy_def on_mgr_Some on_obj_Some CSLBlockObjectMgr_Remove_def
          om_Lock_def om_UnLock_def Let_def smap_erase_def)
    then show ?thesis using True by simp
  next
    case False
    then have "\<not> own \<or> pending_map L = []" by (auto simp: pending_map_def)
    then show ?thesis using False assms(3) g
      by (auto simp: om_clear_def on_mgr_Some om_Lock_def om_UnLock_def CSLBlockObjectMgr_Find_def Let_def fun_upd_idem)
  qed
qed

end

interpretation bo: block_pair smap_insert True
proof
  show "(\<And>x. x \<in> set m \<Longrightarrow> fst x < k) \<Longrightarrow> smap_insert k v m = m @ [(k, v)]" for m k v
    by (induction m) (auto, fastforce+)
qed

interpretation bs: block_pair smap_put False
proof
  show "(\<And>x. x \<in> set m \<Longrightarrow> fst x < k) \<Longrightarrow> smap_put k v m = m @ [(k, v)]" for m k v
    by (induction m) (auto, fastforce+)
qed

section \<open>Properties\<close>

lemma block_inv_init:
  "block_inv pMgr bOwner (0, []) \<lparr>bw_mgr = [pMgr \<mapsto> CSLBlockObjectMgr_new_owner bOwner], bw_obj = Map.empty, bw_net = n\<rparr>"
  by (simp add: block_inv_def CSLBlockObjectMgr_new_owner_def pending_map_def)

text \<open>
  C35. Objects that are made and destroyed in any order with one manager, fewer than $2^{32}$ of them: no step
  faults, every object has a key of its own, \<open>Find\<close> gives the living object of a key and NULL for any
  other key, and an answer for a key signals the event of exactly that object, or nothing. But
  \<open>Clear\<close>, and so the destructor, of a manager that owns objects reads freed memory whenever it has one.
\<close>

theorem block_objects_tracked:
  assumes "pMgr \<noteq> NULL" "fst (fold pending_step ops (0, [])) \<le> 2 ^ 32"
  shows "\<exists>w. block_run (CSLBlockObject_new env) (CSLBlockObject_delete env) DoResult env pMgr ops
        \<lparr>bw_mgr = [pMgr \<mapsto> CSLBlockObjectMgr_new_owner bOwner], bw_obj = Map.empty, bw_net = n\<rparr> = Inr w \<and>
      (let L = snd (fold pending_step ops (0, [])) in
         distinct (map fst L) \<and> (\<forall>a. bw_obj w a \<noteq> None \<longleftrightarrow> a \<in> snd ` set L) \<and>
         (\<forall>k. on_mgr pMgr (CSLBlockObjectMgr_Find k) w = Inr (case map_of L k of None \<Rightarrow> NULL | Some a \<Rightarrow> a, w)) \<and>
         (\<forall>k szMsg. \<exists>w'. block_step (CSLBlockObject_new env) (CSLBlockObject_delete env) DoResult env pMgr (BlkResult k szMsg) w = Inr w' \<and>
            map fst (n_trace (bw_net w')) = map fst (n_trace (bw_net w)) @
              (case map_of L k of
                 Some a \<Rightarrow> if DoResult szMsg then [ObjectOp SetEvent (ev_hEvent (bo_oEvent (the (bw_obj w a)))) []] else []
               | None \<Rightarrow> [])) \<and>
         (CSLBlockObjectMgr_delete env pMgr w = Inl UseAfterFree \<longleftrightarrow> bOwner \<and> L \<noteq> []))"
proof -
  obtain c L where y: "fold pending_step ops (0, []) = (c, L)" by (metis prod.exhaust)
  note run = bo.run_ok [OF block_inv_init [of pMgr bOwner n] _ assms(2,1), of env DoResult, unfolded y]
  then obtain w where w: "block_run (bo_construct (om_push smap_insert) env) (bo_destroy True env) DoResult env pMgr ops
        \<lparr>bw_mgr = [pMgr \<mapsto> CSLBlockObjectMgr_new_owner bOwner], bw_obj = Map.empty, bw_net = n\<rparr> = Inr w"
      "block_inv pMgr bOwner (c, L) w" "pending_ok (c, L)" by (auto simp: pending_ok_def)
  note cls = CSLBlockObject_new_def CSLBlockObject_delete_def CSLBlockObjectMgr_Push_def
  have "CSLBlockObjectMgr_delete env pMgr w = Inl UseAfterFree \<longleftrightarrow> bOwner \<and> L \<noteq> []"
    using bo.clear_ok [OF w(2,3) assms(1), of env]
    by (auto simp: CSLBlockObjectMgr_delete_def CSLBlockObjectMgr_Clear_def cls split: if_splits)
  moreover have "\<forall>a. bw_obj w a \<noteq> None \<longleftrightarrow> a \<in> snd ` set L" using w(2) by (simp add: block_inv_def)
  moreover have "\<exists>w'. block_step (bo_construct (om_push smap_insert) env) (bo_destroy True env) DoResult env pMgr (BlkResult k szMsg) w = Inr w' \<and>
      map fst (n_trace (bw_net w')) = map fst (n_trace (bw_net w)) @
        (case map_of L k of
           Some a \<Rightarrow> if DoResult szMsg then [ObjectOp SetEvent (ev_hEvent (bo_oEvent (the (bw_obj w a)))) []] else []
         | None \<Rightarrow> [])" for k szMsg
    using bo.result_ok [OF w(2,3) assms(1), of env DoResult k szMsg] by blast
  ultimately show ?thesis
    unfolding y cls using w(1) bo.find_ok [OF w(2) assms(1)] pending_keys_distinct [OF w(3)]
    by (intro exI [of _ w]) (simp del: block_step.simps)
qed

text \<open>The same for the older pair.\<close>

lemma block_sessions_tracked:
  assumes "pMgr \<noteq> NULL" "fst (fold pending_step ops (0, [])) \<le> 2 ^ 32"
  shows "\<exists>w. block_run (CSLBlockSession_new env) (CSLBlockSession_delete env) DoResult env pMgr ops
        \<lparr>bw_mgr = [pMgr \<mapsto> CSLBlockSessionMgr_new_owner bOwner], bw_obj = Map.empty, bw_net = n\<rparr> = Inr w \<and>
      (\<forall>k. on_mgr pMgr (CSLBlockSessionMgr_Find k) w =
         Inr (case map_of (snd (fold pending_step ops (0, []))) k of None \<Rightarrow> NULL | Some a \<Rightarrow> a, w))"
proof -
  obtain c L where y: "fold pending_step ops (0, []) = (c, L)" by (metis prod.exhaust)
  from bs.run_ok [OF block_inv_init [of pMgr bOwner n] _ assms(2,1), of env DoResult, unfolded y]
  obtain w where w: "block_run (bo_construct (om_push smap_put) env) (bo_destroy False env) DoResult env pMgr ops
        \<lparr>bw_mgr = [pMgr \<mapsto> CSLBlockObjectMgr_new_owner bOwner], bw_obj = Map.empty, bw_net = n\<rparr> = Inr w"
      "block_inv pMgr bOwner (c, L) w" by (auto simp: pending_ok_def)
  have "CSLBlockSessionMgr_Find = CSLBlockObjectMgr_Find"
    by (intro ext) (simp add: CSLBlockSessionMgr_Find_def CSLBlockObjectMgr_Find_def)
  then show ?thesis using w bs.find_ok [OF w(2) assms(1)]
    by (simp add: y CSLBlockSession_new_def CSLBlockSession_delete_def CSLBlockSessionMgr_PushSession_def CSLBlockSessionMgr_new_owner_def)
qed

text \<open>When the keys have gone round, an object with the key of a living one is not entered by
  \<open>insert\<close>, and takes the place of the other by \<open>operator[]\<close>.\<close>

lemma block_key_reuse:
  assumes "smap_ok (om_map g)" "map_of (om_map g) (uint (om_nMaxKeyID g)) = Some q"
  shows "fst (CSLBlockObjectMgr_Find (om_nMaxKeyID g) (snd (CSLBlockObjectMgr_Push p g))) = q"
    and "fst (CSLBlockSessionMgr_Find (om_nMaxKeyID g) (snd (CSLBlockSessionMgr_PushSession p g))) = p"
proof -
  have "uint (om_nMaxKeyID g) \<in> fst ` set (om_map g)" using assms(2) by (metis domI dom_map_of_conv_image_fst)
  from smap_insert_old [OF assms(1) this]
  show "fst (CSLBlockObjectMgr_Find (om_nMaxKeyID g) (snd (CSLBlockObjectMgr_Push p g))) = q"
    using assms(2) by (simp add: CSLBlockObjectMgr_Push_def om_push_def om_Lock_def om_UnLock_def CSLBlockObjectMgr_Find_def Let_def)
  have "map_of (smap_put k v m) k = Some v" for k v m by (induction m) auto
  then show "fst (CSLBlockSessionMgr_Find (om_nMaxKeyID g) (snd (CSLBlockSessionMgr_PushSession p g))) = p"
    by (simp add: CSLBlockSessionMgr_PushSession_def om_push_def om_Lock_def om_UnLock_def CSLBlockSessionMgr_Find_def Let_def)
qed

definition block_demo_ops :: "block_op list" where
  "block_demo_ops = [BlkNew 8, BlkNew 12, BlkDelete 8, BlkNew 8]"

lemma block_objects_tracked_witness:
  "\<exists>w. block_run (CSLBlockObject_new env32) (CSLBlockObject_delete env32) CSLBlockObject_DoResult env32 4 block_demo_ops
      \<lparr>bw_mgr = [4 \<mapsto> CSLBlockObjectMgr_new_owner True], bw_obj = Map.empty, bw_net = net0\<rparr> = Inr w \<and>
     on_mgr 4 (CSLBlockObjectMgr_Find 1) w = Inr (12, w) \<and> on_mgr 4 (CSLBlockObjectMgr_Find 2) w = Inr (8, w) \<and>
     on_mgr 4 (CSLBlockObjectMgr_Find 0) w = Inr (NULL, w) \<and> CSLBlockObjectMgr_delete env32 4 w = Inl UseAfterFree"
proof -
  have y: "fold pending_step block_demo_ops (0, []) = (3, [(1, 12), (2, 8)])" by (simp add: block_demo_ops_def)
  then have "fst (fold pending_step block_demo_ops (0, [])) \<le> 2 ^ 32" by simp
  from block_objects_tracked [OF _ this, of 4 env32 CSLBlockObject_DoResult True net0]
  show ?thesis by (auto simp: y Let_def simp del: block_step.simps)
qed

end
