(* ===== verification/BlockTcp.thy ===== *)
theory BlockTcp
  imports SocketAPI ThreadGroup NetFacts
begin

text \<open>
  The blocking TCP classes: \<open>CSLBlockTcpClient\<close>, a socket with blocking calls; \<open>CSLBlockTcpRunner\<close>, a
  queue of sockets and the threads that serve them; \<open>CSLBlockTcpServer\<close>, the thread that accepts
  connections and hands them to the runner; and the callbacks of \<open>CSLBlockTcpEvent\<close>.
  \<open>socket\<close>, \<open>connect\<close>, \<open>accept\<close>, \<open>send\<close> and \<open>recv\<close> are the calls \<open>WSASocketTcp\<close>, \<open>WSAConnect\<close>,
  \<open>WSAAccept\<close>, \<open>WSASend\<close> without a structure and \<open>WSARecv\<close> of the environment. What a receive writes is
  \<open>rx t\<close>, where \<open>t\<close> is the trace that ends with it. Logging is left out.
\<close>

section \<open>CSLBlockTcpClient\<close>

record CSLBlockTcpClient =
  bc_hSocket :: int

definition CSLBlockTcpClient_new :: "env \<Rightarrow> net \<Rightarrow> CSLBlockTcpClient with_net" where
  "CSLBlockTcpClient_new env n =
     (let (r, n1) = sys env WSASocketTcp n
      in (\<lparr>bc_hSocket = (case r of Ok h \<Rightarrow> h | Err e \<Rightarrow> INVALID_SOCKET)\<rparr>, n1))"

definition CSLBlockTcpClient_new_socket :: "int \<Rightarrow> CSLBlockTcpClient" where
  "CSLBlockTcpClient_new_socket hSocket = \<lparr>bc_hSocket = hSocket\<rparr>"

definition CSLBlockTcpClient_Close :: "env \<Rightarrow> CSLBlockTcpClient with_net \<Rightarrow> bool \<times> CSLBlockTcpClient with_net" where
  "CSLBlockTcpClient_Close env s =
     (case s of (bc, n) \<Rightarrow>
        if bc_hSocket bc \<noteq> 0
        then let n1 = snd (sys env (Shutdown (bc_hSocket bc)) n);
                 n2 = snd (sys env (Closesocket (bc_hSocket bc)) n1)
             in (True, bc\<lparr>bc_hSocket := 0\<rparr>, n2)
        else (True, bc, n))"

definition CSLBlockTcpClient_delete :: "env \<Rightarrow> CSLBlockTcpClient with_net \<Rightarrow> CSLBlockTcpClient with_net" where
  "CSLBlockTcpClient_delete env s = snd (CSLBlockTcpClient_Close env s)"

text \<open>The result of \<open>inet_addr\<close> is not checked and the local port is not used.\<close>

definition CSLBlockTcpClient_Open ::
    "env \<Rightarrow> byte list \<Rightarrow> u16 \<Rightarrow> int \<Rightarrow> CSLBlockTcpClient with_net \<Rightarrow> bool \<times> CSLBlockTcpClient with_net" where
  "CSLBlockTcpClient_Open env szServerName nServerPort nLocalPort s =
     (case s of (bc, n) \<Rightarrow>
        let (ra, n1) = sys env (InetAddr szServerName) n;
            addr = le_bytes 4 (nat (case ra of Ok v \<Rightarrow> v | Err e \<Rightarrow> INADDR_NONE));
            (rc, n2) = sys env (WSAConnect (bc_hSocket bc) addr (uint nServerPort)) n1
        in (is_ok rc, bc, n2))"

definition CSLBlockTcpClient_SetTimeOut :: "env \<Rightarrow> int \<Rightarrow> int \<Rightarrow> CSLBlockTcpClient with_net \<Rightarrow> bool \<times> CSLBlockTcpClient with_net" where
  "CSLBlockTcpClient_SetTimeOut env nRecvTimeOut nSendTimeOut s =
     (case s of (bc, n) \<Rightarrow> (True, bc, snd (CSocketAPI_SetTimeOut env (bc_hSocket bc) nRecvTimeOut nSendTimeOut n)))"

definition CSLBlockTcpClient_SetBufferSize :: "env \<Rightarrow> int \<Rightarrow> int \<Rightarrow> CSLBlockTcpClient with_net \<Rightarrow> bool \<times> CSLBlockTcpClient with_net" where
  "CSLBlockTcpClient_SetBufferSize env nRecvBufferSize nSendBufferSize s =
     (case s of (bc, n) \<Rightarrow> (True, bc, snd (CSocketAPI_SetBufferSize env (bc_hSocket bc) nRecvBufferSize nSendBufferSize n)))"

definition SOCKET_ERROR :: int where "SOCKET_ERROR = -1"

definition CSLBlockTcpClient_Recv ::
    "env \<Rightarrow> (trace \<Rightarrow> byte list) \<Rightarrow> addr \<Rightarrow> int \<Rightarrow> CSLBlockTcpClient with_net \<Rightarrow> int \<times> CSLBlockTcpClient with_net" where
  "CSLBlockTcpClient_Recv env rx szData nLen s =
     (case s of (bc, n) \<Rightarrow>
        let (r, n1) = sys env (WSARecv (bc_hSocket bc) szData nLen) n
        in (case r of Ok v \<Rightarrow> (v, bc, n1\<lparr>n_bytes := mem_write (n_bytes n1) szData (rx (n_trace n1))\<rparr>)
            | Err e \<Rightarrow> (SOCKET_ERROR, bc, n1)))"

text \<open>The loop of the other \<open>Recv\<close>: every call receives to the start of the buffer.\<close>

partial_function (option) bc_recv_loop ::
    "env \<Rightarrow> (trace \<Rightarrow> byte list) \<Rightarrow> addr \<Rightarrow> int \<Rightarrow> int \<Rightarrow> int \<Rightarrow> CSLBlockTcpClient with_net \<Rightarrow> (int \<times> CSLBlockTcpClient with_net) option" where
  "bc_recv_loop env rx szData nLen nRecvLen nSum s =
     (if nSum < nRecvLen
      then let s1 = snd (CSLBlockTcpClient_Recv env rx szData nLen s);
               nSingle = fst (CSLBlockTcpClient_Recv env rx szData nLen s)
           in if SOCKET_ERROR = nSingle then Some (nSum, s1)
              else bc_recv_loop env rx szData nLen nRecvLen (nSum + nSingle) s1
      else Some (nSum, s))"

definition CSLBlockTcpClient_Recv_all ::
    "env \<Rightarrow> (trace \<Rightarrow> byte list) \<Rightarrow> addr \<Rightarrow> int \<Rightarrow> int \<Rightarrow> CSLBlockTcpClient with_net \<Rightarrow> (int \<times> CSLBlockTcpClient with_net) option" where
  "CSLBlockTcpClient_Recv_all env rx szData nLen nRecvLen s =
     (if nLen < nRecvLen then Some (0, s) else bc_recv_loop env rx szData nLen nRecvLen 0 s)"

partial_function (option) bc_send_loop :: "env \<Rightarrow> int \<Rightarrow> addr \<Rightarrow> int \<Rightarrow> int \<Rightarrow> net \<Rightarrow> (int \<times> net) option" where
  "bc_send_loop env h szData nLen nSum n =
     (if nSum < nLen
      then let buf = mem_read (n_bytes n) (szData + nat nSum) (nat (nLen - nSum));
               n1 = snd (sys env (WSASend h buf NULL) n)
           in (case fst (sys env (WSASend h buf NULL) n) of
                 Err e \<Rightarrow> Some (nSum, n1)
               | Ok nSingle \<Rightarrow> bc_send_loop env h szData nLen (nSum + nSingle) n1)
      else Some (nLen, n))"

definition CSLBlockTcpClient_Send :: "env \<Rightarrow> addr \<Rightarrow> int \<Rightarrow> CSLBlockTcpClient with_net \<Rightarrow> (int \<times> CSLBlockTcpClient with_net) option" where
  "CSLBlockTcpClient_Send env szData nLen s =
     (case s of (bc, n) \<Rightarrow>
        map_option (\<lambda>(r, n1). (r, bc, n1)) (bc_send_loop env (bc_hSocket bc) szData nLen 0 n))"

definition CSLBlockTcpClient_Attach :: "env \<Rightarrow> int \<Rightarrow> CSLBlockTcpClient with_net \<Rightarrow> CSLBlockTcpClient with_net" where
  "CSLBlockTcpClient_Attach env hSocket s =
     (case snd (CSLBlockTcpClient_Close env s) of (bc, n) \<Rightarrow> (bc\<lparr>bc_hSocket := hSocket\<rparr>, n))"

definition CSLBlockTcpClient_Detach :: "CSLBlockTcpClient \<Rightarrow> int \<times> CSLBlockTcpClient" where
  "CSLBlockTcpClient_Detach bc = (bc_hSocket bc, bc\<lparr>bc_hSocket := 0\<rparr>)"

definition CSLBlockTcpClient_GetSocketHandle :: "CSLBlockTcpClient \<Rightarrow> int" where
  "CSLBlockTcpClient_GetSocketHandle bc = bc_hSocket bc"

section \<open>CSLBlockTcpEvent\<close>

text \<open>The callbacks of the class itself; an application overrides them.\<close>

definition CSLBlockTcpEvent_OnAccept :: "int \<Rightarrow> bool" where
  "CSLBlockTcpEvent_OnAccept hClientSocket = True"

definition CSLBlockTcpEvent_OnProcess :: "CSLBlockTcpClient with_net \<Rightarrow> int \<times> CSLBlockTcpClient with_net" where
  "CSLBlockTcpEvent_OnProcess s = (-1, s)"

section \<open>CSLBlockTcpRunner\<close>

text \<open>\<open>Push\<close> and \<open>Pop\<close> run under the runner's lock, so each is one step.\<close>

record CSLBlockTcpRunner =
  br_threadGroup :: CThreadGroup
  br_semaphore :: CSemaphore
  br_lstSocket :: "int list"
  br_nQueueMaxSize :: u32
  br_pBlockEvent :: addr

definition CSLBlockTcpRunner_new :: "addr \<Rightarrow> CSLBlockTcpRunner" where
  "CSLBlockTcpRunner_new junk =
     \<lparr>br_threadGroup = CThreadGroup_new, br_semaphore = CSemaphore_new, br_lstSocket = [], br_nQueueMaxSize = 200,
      br_pBlockEvent = junk\<rparr>"

definition CSLBlockTcpRunner_SetInterface :: "addr \<Rightarrow> CSLBlockTcpRunner \<Rightarrow> CSLBlockTcpRunner" where
  "CSLBlockTcpRunner_SetInterface pBlockEvent br = br\<lparr>br_pBlockEvent := pBlockEvent\<rparr>"

definition br_on_semaphore :: "(CSemaphore with_net \<Rightarrow> bool \<times> CSemaphore with_net) \<Rightarrow> CSLBlockTcpRunner with_net \<Rightarrow> CSLBlockTcpRunner with_net" where
  "br_on_semaphore f s = (case s of (br, n) \<Rightarrow> case f (br_semaphore br, n) of (b, m, n1) \<Rightarrow> (br\<lparr>br_semaphore := m\<rparr>, n1))"

definition br_on_threads :: "(CThreadGroup with_net \<Rightarrow> 'r \<times> CThreadGroup with_net) \<Rightarrow> CSLBlockTcpRunner with_net \<Rightarrow> 'r \<times> CSLBlockTcpRunner with_net" where
  "br_on_threads f s = (case s of (br, n) \<Rightarrow> case f (br_threadGroup br, n) of (r, g, n1) \<Rightarrow> (r, br\<lparr>br_threadGroup := g\<rparr>, n1))"

text \<open>\<open>run\<close> is the address of the thread procedure and \<open>this\<close> that of the runner.\<close>

definition CSLBlockTcpRunner_Open ::
    "env \<Rightarrow> addr \<Rightarrow> addr \<Rightarrow> u16 \<Rightarrow> u16 \<Rightarrow> u32 \<Rightarrow> CSLBlockTcpRunner with_net \<Rightarrow> bool \<times> CSLBlockTcpRunner with_net" where
  "CSLBlockTcpRunner_Open env run this nMaxThreadNum nDefaultThreadNum nQueueMaxSize s =
     (case s of (br, n) \<Rightarrow>
        let s1 = br_on_semaphore (CSemaphore_Create env 0 (sint nQueueMaxSize)) (br\<lparr>br_nQueueMaxSize := nQueueMaxSize\<rparr>, n)
        in br_on_threads (CThreadGroup_Start env run this (uint nMaxThreadNum) 0) s1)"

definition CSLBlockTcpRunner_GetThreadNum :: "CSLBlockTcpRunner \<Rightarrow> int" where
  "CSLBlockTcpRunner_GetThreadNum br = CThreadGroup_GetThreadCount (br_threadGroup br)"

definition CSLBlockTcpRunner_GetQueueSize :: "CSLBlockTcpRunner \<Rightarrow> int" where
  "CSLBlockTcpRunner_GetQueueSize br = int (length (br_lstSocket br))"

fun br_unlocks :: "env \<Rightarrow> nat \<Rightarrow> CSLBlockTcpRunner with_net \<Rightarrow> CSLBlockTcpRunner with_net" where
  "br_unlocks env 0 s = s"
| "br_unlocks env (Suc k) s = br_unlocks env k (br_on_semaphore (CSemaphore_UnLock env) s)"

text \<open>\<open>Close\<close> drops the sockets that are still in the queue.\<close>

definition CSLBlockTcpRunner_Close :: "env \<Rightarrow> CSLBlockTcpRunner with_net \<Rightarrow> bool \<times> CSLBlockTcpRunner with_net" where
  "CSLBlockTcpRunner_Close env s =
     (let s1 = br_unlocks env (nat (CSLBlockTcpRunner_GetThreadNum (fst s))) s;
          s2 = br_on_semaphore (CSemaphore_Clear env) s1;
          s3 = snd (br_on_threads (CThreadGroup_Stop env 200) s2);
          s4 = snd (br_on_threads (CThreadGroup_Kill env) s3)
      in (True, (fst s4)\<lparr>br_lstSocket := []\<rparr>, snd s4))"

definition CSLBlockTcpRunner_delete :: "env \<Rightarrow> CSLBlockTcpRunner with_net \<Rightarrow> CSLBlockTcpRunner with_net" where
  "CSLBlockTcpRunner_delete env s = snd (CSLBlockTcpRunner_Close env s)"

definition CSLBlockTcpRunner_Push :: "env \<Rightarrow> int \<Rightarrow> CSLBlockTcpRunner with_net \<Rightarrow> bool \<times> CSLBlockTcpRunner with_net" where
  "CSLBlockTcpRunner_Push env hSocket s =
     (case s of (br, n) \<Rightarrow>
        if unat (br_nQueueMaxSize br) > length (br_lstSocket br)
        then (True, br_on_semaphore (CSemaphore_UnLock env) (br\<lparr>br_lstSocket := br_lstSocket br @ [hSocket]\<rparr>, n))
        else (False, br, n))"

definition CSLBlockTcpRunner_Pop :: "CSLBlockTcpRunner \<Rightarrow> int \<times> CSLBlockTcpRunner" where
  "CSLBlockTcpRunner_Pop br =
     (case br_lstSocket br of [] \<Rightarrow> (0, br) | h # rest \<Rightarrow> (h, br\<lparr>br_lstSocket := rest\<rparr>))"

text \<open>A worker thread, cut where others can come in: before the test for the end, before \<open>Pop\<close>,
  before the socket is served. When the thread returns, its client is destroyed.\<close>

datatype block_pc = BwTop | BwPop | BwServe int | BwExit

definition CSLBlockTcpRunner_Run_step ::
    "env \<Rightarrow> (CSLBlockTcpClient with_net \<Rightarrow> int \<times> CSLBlockTcpClient with_net) \<Rightarrow> block_pc \<times> CSLBlockTcpClient \<Rightarrow>
     CSLBlockTcpRunner with_net \<Rightarrow> (block_pc \<times> CSLBlockTcpClient) \<times> CSLBlockTcpRunner with_net" where
  "CSLBlockTcpRunner_Run_step env OnProcess w s =
     (case (w, s) of ((pc, oBlockClient), br, n) \<Rightarrow>
        case pc of
          BwTop \<Rightarrow>
            if CThreadGroup_IsStop (br_threadGroup br)
            then (case CSLBlockTcpClient_delete env (oBlockClient, n) of (bc, n1) \<Rightarrow> ((BwExit, bc), br, n1))
            else ((BwPop, oBlockClient), br_on_semaphore (CSemaphore_Lock env) (br, n))
        | BwPop \<Rightarrow>
            (case CSLBlockTcpRunner_Pop br of (hSocket, br1) \<Rightarrow>
               ((if hSocket \<noteq> 0 then BwServe hSocket else BwTop, oBlockClient), br1, n))
        | BwServe hSocket \<Rightarrow>
            (case OnProcess (CSLBlockTcpClient_Attach env hSocket (oBlockClient, n)) of (r, bc, n1) \<Rightarrow>
               if r < 0 then (case CSLBlockTcpClient_Close env (bc, n1) of (b, bc1, n2) \<Rightarrow> ((BwTop, bc1), br, n2))
               else ((BwTop, bc), br, n1))
        | BwExit \<Rightarrow> ((BwExit, oBlockClient), br, n))"

section \<open>CSLBlockTcpServer\<close>

record CSLBlockTcpServer =
  bs_pAppLog :: addr
  bs_pBlockEvent :: addr
  bs_pBlockRunner :: addr
  bs_threadListen :: CThread
  bs_hListenSocket :: int
  bs_nRecvTimeOut :: int
  bs_nSendTimeOut :: int
  bs_nRecvBufferSize :: int
  bs_nSendBufferSize :: int

text \<open>The constructor leaves the interfaces as they are in memory.\<close>

definition CSLBlockTcpServer_new :: "addr \<Rightarrow> addr \<Rightarrow> addr \<Rightarrow> CThread \<Rightarrow> CSLBlockTcpServer" where
  "CSLBlockTcpServer_new junk1 junk2 junk3 thread =
     \<lparr>bs_pAppLog = junk1, bs_pBlockEvent = junk2, bs_pBlockRunner = junk3, bs_threadListen = thread,
      bs_hListenSocket = 0, bs_nRecvTimeOut = 10000, bs_nSendTimeOut = 10000,
      bs_nRecvBufferSize = 1024, bs_nSendBufferSize = 1024\<rparr>"

definition CSLBlockTcpServer_SetInterface :: "addr \<Rightarrow> addr \<Rightarrow> addr \<Rightarrow> CSLBlockTcpServer \<Rightarrow> CSLBlockTcpServer" where
  "CSLBlockTcpServer_SetInterface pAppLog pBlockEvent pBlockRunner bs =
     bs\<lparr>bs_pAppLog := pAppLog, bs_pBlockEvent := pBlockEvent, bs_pBlockRunner := pBlockRunner\<rparr>"

definition CSLBlockTcpServer_SetTimeOut :: "int \<Rightarrow> int \<Rightarrow> CSLBlockTcpServer \<Rightarrow> CSLBlockTcpServer" where
  "CSLBlockTcpServer_SetTimeOut nRecvTimeOut nSendTimeOut bs =
     bs\<lparr>bs_nRecvTimeOut := nRecvTimeOut, bs_nSendTimeOut := nSendTimeOut\<rparr>"

definition CSLBlockTcpServer_SetBufferSize :: "int \<Rightarrow> int \<Rightarrow> CSLBlockTcpServer \<Rightarrow> CSLBlockTcpServer" where
  "CSLBlockTcpServer_SetBufferSize nRecvBufferSize nSendBufferSize bs =
     bs\<lparr>bs_nRecvBufferSize := nRecvBufferSize, bs_nSendBufferSize := nSendBufferSize\<rparr>"

definition bs_on_thread :: "(CThread with_net \<Rightarrow> 'r \<times> CThread with_net) \<Rightarrow> CSLBlockTcpServer with_net \<Rightarrow> 'r \<times> CSLBlockTcpServer with_net" where
  "bs_on_thread f s = (case s of (bs, n) \<Rightarrow> case f (bs_threadListen bs, n) of (r, t, n1) \<Rightarrow> (r, bs\<lparr>bs_threadListen := t\<rparr>, n1))"

definition CSLBlockTcpServer_Close :: "env \<Rightarrow> CSLBlockTcpServer with_net \<Rightarrow> bool \<times> CSLBlockTcpServer with_net" where
  "CSLBlockTcpServer_Close env s =
     (case s of (bs, n) \<Rightarrow>
        if bs_hListenSocket bs = 0 then (False, bs, n)
        else let n1 = snd (sys env (Shutdown (bs_hListenSocket bs)) n);
                 n2 = snd (sys env (Closesocket (bs_hListenSocket bs)) n1);
                 s1 = snd (bs_on_thread (CThread_Stop env 200) (bs\<lparr>bs_hListenSocket := 0\<rparr>, n2))
             in (True, snd (bs_on_thread (CThread_Kill env) s1)))"

definition CSLBlockTcpServer_delete :: "env \<Rightarrow> CSLBlockTcpServer with_net \<Rightarrow> CSLBlockTcpServer with_net" where
  "CSLBlockTcpServer_delete env s = snd (CSLBlockTcpServer_Close env s)"

text \<open>\<open>szLocalIP\<close> is not used: the socket is bound to any address.\<close>

definition CSLBlockTcpServer_Open ::
    "env \<Rightarrow> addr \<Rightarrow> addr \<Rightarrow> byte list option \<Rightarrow> u16 \<Rightarrow> int \<Rightarrow> CSLBlockTcpServer with_net \<Rightarrow> bool \<times> CSLBlockTcpServer with_net" where
  "CSLBlockTcpServer_Open env listenProc this szLocalIP nPort nBacklog s =
     (case snd (CSLBlockTcpServer_Close env s) of (bs, n) \<Rightarrow>
        let (rs, n1) = sys env WSASocketTcp n
        in (case rs of
              Err e \<Rightarrow> (False, bs\<lparr>bs_hListenSocket := INVALID_SOCKET\<rparr>, n1)
            | Ok h \<Rightarrow>
                let bs1 = bs\<lparr>bs_hListenSocket := h\<rparr>; (rb, n2) = sys env (Bind h [] (uint nPort)) n1
                in if \<not> is_ok rb then (False, bs1, n2)
                   else let (rl, n3) = sys env (Listen h nBacklog) n2
                        in if \<not> is_ok rl then (False, bs1, n3)
                           else (True, snd (bs_on_thread (CThread_Start env listenProc this False 0) (bs1, n3)))))"

text \<open>One turn of the listening thread, with whether it ends. The callback is a call of the environment.\<close>

definition CSLBlockTcpServer_ListenProc_turn ::
    "env \<Rightarrow> CSLBlockTcpServer \<Rightarrow> CSLBlockTcpRunner with_net \<Rightarrow> bool \<times> CSLBlockTcpRunner with_net" where
  "CSLBlockTcpServer_ListenProc_turn env bs s =
     (case s of (br, n) \<Rightarrow>
        if CThread_IsStop (bs_threadListen bs) then (True, br, n)
        else let (ra, n1) = sys env (WSAAccept (bs_hListenSocket bs)) n
             in (case ra of
                   Err e \<Rightarrow> (False, br, n1)
                 | Ok h \<Rightarrow>
                     let (ro, n2) = sys env (OnAccept h) n1
                     in if \<not> is_true ro then (False, br, snd (sys env (Closesocket h) n2))
                        else let n3 = snd (CSocketAPI_SetTimeOut env h (bs_nRecvTimeOut bs) (bs_nSendTimeOut bs) n2);
                                 n4 = snd (CSocketAPI_SetBufferSize env h (bs_nRecvBufferSize bs) (bs_nSendBufferSize bs) n3)
                             in (case CSLBlockTcpRunner_Push env h (br, n4) of (b, br1, n5) \<Rightarrow>
                                   (False, br1, if b then n5 else snd (sys env (Closesocket h) n5)))))"

end
