(* ===== verification/BlockTcpProps.thy ===== *)
theory BlockTcpProps
  imports BlockTcp TcpServerProps "HOL-Library.Multiset" "HOL-Library.Sublist"
begin

text \<open>
  What the blocking classes do: the client's sending loop delivers what it reports, its receiving
  loop does not; and in the system of the listening thread and the worker threads, every connection that
  was accepted is in exactly one place, and connections are served in the order in which they came.
\<close>

section \<open>The client\<close>

text \<open>A blocking send is never pending.\<close>

definition blocking_env :: "env \<Rightarrow> bool" where
  "blocking_env env \<longleftrightarrow> (\<forall>t h bs. env t (WSASend h bs NULL) \<noteq> Err WSA_IO_PENDING)"

text \<open>The loop is that of \<open>send_block\<close> with packets of whatever is left.\<close>

lemma bc_send_loop_block:
  assumes "send_env_ok env" "blocking_env env" "nLen < 2 ^ 31"
  shows "0 \<le> a \<Longrightarrow> a \<le> nLen \<Longrightarrow> bc_send_loop env h p nLen a n =
    map_option (\<lambda>(f, r, n1). (if f then r else nLen, n1)) (send_block env (WSASend h) p nLen nLen a n)"
proof (induction "nat (nLen - a)" arbitrary: a n rule: less_induct)
  case less
  show ?case
  proof (cases "a < nLen")
    case False
    then show ?thesis by (subst bc_send_loop.simps, subst send_block.simps) simp
  next
    case True
    have seg: "0 < nLen" using True less.prems by simp
    have k: "nPacketSize nLen a nLen = nLen - a" using less.prems by (simp add: nPacketSize_def)
    have u: "unat (to_u32 (nLen - a)) = nat (nLen - a)"
      using nPacketSize_bounds(4) [OF seg True less.prems(1) assms(3)] unfolding k .
    define c where "c = WSASend h (mem_read (n_bytes n) (p + nat a) (nat (nLen - a))) NULL"
    show ?thesis
    proof (cases "env (n_trace n) c")
      case (Ok v)
      have "0 < nLen - a" using True by simp
      note v = ws.accepted_packet [OF assms(1) Ok [unfolded c_def] this]
      have "nat (nLen - (a + v)) < nat (nLen - a)" "0 \<le> a + v" "a + v \<le> nLen" using v(2,3) less.prems True by auto
      from less.hyps [OF this] show ?thesis using True Ok
        by (subst bc_send_loop.simps, subst send_block.simps) (simp add: k u c_def sys_def Let_def)
    next
      case (Err e)
      then have "e \<noteq> WSA_IO_PENDING" using assms(2) by (auto simp: blocking_env_def c_def)
      then show ?thesis using True Err
        by (subst bc_send_loop.simps, subst send_block.simps) (simp add: k u c_def sys_def Let_def)
    qed
  qed
qed

lemma bc_send_ok:
  assumes "send_env_ok env" "blocking_env env" "0 \<le> nLen" "nLen < 2 ^ 31"
  shows "\<exists>r n' t. CSLBlockTcpClient_Send env p nLen (bc, n) = Some (r, bc, n') \<and> 0 \<le> r \<and> r \<le> nLen \<and>
    n_trace n' = n_trace n @ t \<and> sent_bytes t = mem_read (n_bytes n) p (nat r) \<and>
    (r < nLen \<longrightarrow> (\<exists>y \<in> set t. call_failed y))"
proof (cases "nLen = 0")
  case True
  then show ?thesis
    by (simp add: CSLBlockTcpClient_Send_def bc_send_loop.simps mem_read_def)
next
  case False
  then have seg: "0 < nLen" using assms(3) by simp
  obtain f r n' t where b: "send_block env (WSASend (bc_hSocket bc)) p nLen nLen 0 n = Some (f, r, n')" "0 \<le> r" "r \<le> nLen"
      "if f then \<exists>y \<in> set t. call_failed y else r = nLen" "n' = n\<lparr>n_trace := n_trace n @ t\<rparr>"
      "sent_bytes t = mem_read (n_bytes n) (p + nat 0) (nat (r - 0))"
    using ws.send_block_total [OF assms(1) seg assms(4), of 0 "bc_hSocket bc" p n] assms(3) by blast
  then show ?thesis using bc_send_loop_block [OF assms(1,2,4), of 0 "bc_hSocket bc" p n] assms(3)
    by (auto simp: CSLBlockTcpClient_Send_def intro!: exI [of _ t])
qed

text \<open>The receiving loop when the other side has closed the connection: every call gives 0.\<close>

lemma bc_recv_loop_stuck:
  assumes "bc_recv_loop env rx szData nLen nRecvLen nSum s = Some y"
  shows "(\<And>t. env t (WSARecv (bc_hSocket (fst s)) szData nLen) = Ok 0) \<Longrightarrow> \<not> nSum < nRecvLen"
  using assms
proof (induction env rx szData nLen nRecvLen nSum s y rule: bc_recv_loop.raw_induct [rotated, consumes 1, case_names step])
  case (step f env rx szData nLen nRecvLen nSum s y)
  let ?r = "CSLBlockTcpClient_Recv env rx szData nLen s"
  have r: "fst ?r = 0" "fst (snd ?r) = fst s"
    using step(3) by (cases s; simp add: CSLBlockTcpClient_Recv_def sys_def Let_def)+
  show ?case
  proof (rule notI)
    assume lt: "nSum < nRecvLen"
    then have "f env rx szData nLen nRecvLen nSum (snd ?r) = Some y"
      using step(2) r(1) by (simp add: SOCKET_ERROR_def Let_def)
    from step(1) [OF this] step(3) r(2) lt show False by simp
  qed
qed

text \<open>
  C36. \<open>Recv(szData, nLen, nRecvLen)\<close> does not do what \<open>Send\<close> does. When the other side closes the connection, it
  never returns. And a message that comes in two pieces is not in the buffer when it returns: the second
  piece is received over the first, and as many bytes are asked for as for the first, so that the result can
  be more than \<open>nRecvLen\<close>.
\<close>

theorem block_client_recv:
  assumes "0 < nRecvLen" "nRecvLen \<le> nLen"
  shows "((\<forall>t. env t (WSARecv (bc_hSocket bc) szData nLen) = Ok 0) \<longrightarrow>
      CSLBlockTcpClient_Recv_all env rx szData nLen nRecvLen (bc, n) = None) \<and>
    (let c = WSARecv (bc_hSocket bc) szData nLen; t1 = n_trace n @ [(c, Ok (int (length a)))];
         t2 = t1 @ [(c, Ok (int (length b)))]
     in env (n_trace n) c = Ok (int (length a)) \<longrightarrow> rx t1 = a \<longrightarrow> env t1 c = Ok (int (length b)) \<longrightarrow> rx t2 = b \<longrightarrow>
        int (length a) < nRecvLen \<longrightarrow> nRecvLen \<le> int (length a + length b) \<longrightarrow>
        (\<exists>n'. CSLBlockTcpClient_Recv_all env rx szData nLen nRecvLen (bc, n) = Some (int (length a + length b), bc, n') \<and>
           mem_read (n_bytes n') szData (length b) = b))"
proof (intro conjI impI)
  assume "\<forall>t. env t (WSARecv (bc_hSocket bc) szData nLen) = Ok 0"
  then show "CSLBlockTcpClient_Recv_all env rx szData nLen nRecvLen (bc, n) = None"
    using bc_recv_loop_stuck [of env rx szData nLen nRecvLen 0 "(bc, n)"] assms
    by (cases "bc_recv_loop env rx szData nLen nRecvLen 0 (bc, n)") (auto simp: CSLBlockTcpClient_Recv_all_def)
next
  have pos: "int (length xs) \<noteq> SOCKET_ERROR" "SOCKET_ERROR \<noteq> int (length xs)" for xs :: "byte list"
    by (simp_all add: SOCKET_ERROR_def)
  show "let c = WSARecv (bc_hSocket bc) szData nLen; t1 = n_trace n @ [(c, Ok (int (length a)))];
         t2 = t1 @ [(c, Ok (int (length b)))]
     in env (n_trace n) c = Ok (int (length a)) \<longrightarrow> rx t1 = a \<longrightarrow> env t1 c = Ok (int (length b)) \<longrightarrow> rx t2 = b \<longrightarrow>
        int (length a) < nRecvLen \<longrightarrow> nRecvLen \<le> int (length a + length b) \<longrightarrow>
        (\<exists>n'. CSLBlockTcpClient_Recv_all env rx szData nLen nRecvLen (bc, n) = Some (int (length a + length b), bc, n') \<and>
           mem_read (n_bytes n') szData (length b) = b)"
    unfolding Let_def
  proof (intro impI)
    let ?c = "WSARecv (bc_hSocket bc) szData nLen"
    let ?t1 = "n_trace n @ [(?c, Ok (int (length a)))]"
    let ?t2 = "?t1 @ [(?c, Ok (int (length b)))]"
    assume e: "env (n_trace n) ?c = Ok (int (length a))" "rx ?t1 = a" "env ?t1 ?c = Ok (int (length b))" "rx ?t2 = b"
      and l: "int (length a) < nRecvLen" "nRecvLen \<le> int (length a + length b)"
    let ?n1 = "n\<lparr>n_trace := ?t1, n_bytes := mem_write (n_bytes n) szData a\<rparr>"
    let ?n2 = "?n1\<lparr>n_trace := ?t2, n_bytes := mem_write (n_bytes ?n1) szData b\<rparr>"
    have r1: "CSLBlockTcpClient_Recv env rx szData nLen (bc, n) = (int (length a), bc, ?n1)"
      using e(1,2) by (simp add: CSLBlockTcpClient_Recv_def sys_def Let_def)
    have r2: "CSLBlockTcpClient_Recv env rx szData nLen (bc, ?n1) = (int (length b), bc, ?n2)"
      using e(3,4) by (simp add: CSLBlockTcpClient_Recv_def sys_def Let_def)
    have "bc_recv_loop env rx szData nLen nRecvLen (int (length a + length b)) (bc, ?n2) = Some (int (length a + length b), bc, ?n2)"
      using l(2) by (subst bc_recv_loop.simps) simp
    then have "bc_recv_loop env rx szData nLen nRecvLen (int (length a)) (bc, ?n1) = Some (int (length a + length b), bc, ?n2)"
      using l(1) by (subst bc_recv_loop.simps) (simp add: r2 pos Let_def)
    then have "bc_recv_loop env rx szData nLen nRecvLen 0 (bc, n) = Some (int (length a + length b), bc, ?n2)"
      using assms(1) by (subst bc_recv_loop.simps) (simp add: r1 pos Let_def)
    then show "\<exists>n'. CSLBlockTcpClient_Recv_all env rx szData nLen nRecvLen (bc, n) = Some (int (length a + length b), bc, n') \<and>
        mem_read (n_bytes n') szData (length b) = b"
      using assms(2) by (intro exI [of _ ?n2]) (simp add: CSLBlockTcpClient_Recv_all_def mem_read_write_same)
  qed
qed

section \<open>Listening and serving\<close>

text \<open>The system: the server, the runner and its worker threads. \<open>bk_served\<close> are the sockets that the
  threads have taken from the queue, in order; no code depends on it.\<close>

record blk_sys =
  bk_srv :: CSLBlockTcpServer
  bk_run :: CSLBlockTcpRunner
  bk_workers :: "(block_pc \<times> CSLBlockTcpClient) list"
  bk_net :: net
  bk_served :: "int list"

datatype blk_ev = EvListen | EvWorker nat | EvStop int

fun blk_step :: "env \<Rightarrow> (CSLBlockTcpClient with_net \<Rightarrow> int \<times> CSLBlockTcpClient with_net) \<Rightarrow> blk_ev \<Rightarrow> blk_sys \<Rightarrow> blk_sys" where
  "blk_step env OnProcess EvListen y =
     (case CSLBlockTcpServer_ListenProc_turn env (bk_srv y) (bk_run y, bk_net y) of (e, br, n) \<Rightarrow>
        y\<lparr>bk_run := br, bk_net := n\<rparr>)"
| "blk_step env OnProcess (EvWorker i) y =
     (if i < length (bk_workers y)
      then (case CSLBlockTcpRunner_Run_step env OnProcess (bk_workers y ! i) (bk_run y, bk_net y) of (w, br, n) \<Rightarrow>
              y\<lparr>bk_run := br, bk_workers := (bk_workers y)[i := w], bk_net := n,
                bk_served := bk_served y @ (case fst w of BwServe h \<Rightarrow> [h] | _ \<Rightarrow> [])\<rparr>)
      else y)"
| "blk_step env OnProcess (EvStop nTimeOut) y =
     (case br_on_threads (CThreadGroup_Stop env nTimeOut) (bk_run y, bk_net y) of (r, br, n) \<Rightarrow> y\<lparr>bk_run := br, bk_net := n\<rparr>)"

fun accepted_sockets :: "trace \<Rightarrow> int list" where
  "accepted_sockets [] = []"
| "accepted_sockets ((WSAAccept l, Ok h) # t) = h # accepted_sockets t"
| "accepted_sockets (x # t) = accepted_sockets t"

lemma accepted_sockets_append [simp]: "accepted_sockets (t @ t') = accepted_sockets t @ accepted_sockets t'"
  by (induction t rule: accepted_sockets.induct) auto

text \<open>The sockets of a worker: that of its client and the one that it has taken and not yet attached.\<close>

definition held :: "block_pc \<times> CSLBlockTcpClient \<Rightarrow> int list" where
  "held w = (if bc_hSocket (snd w) = 0 then [] else [bc_hSocket (snd w)]) @ (case fst w of BwServe h \<Rightarrow> [h] | _ \<Rightarrow> [])"

text \<open>An application that serves a connection and leaves its socket in the client.\<close>

definition serves :: "(CSLBlockTcpClient with_net \<Rightarrow> int \<times> CSLBlockTcpClient with_net) \<Rightarrow> bool" where
  "serves OnProcess \<longleftrightarrow> (\<forall>bc n. \<exists>r n' t. OnProcess (bc, n) = (r, bc, n') \<and> n_trace n' = n_trace n @ t \<and>
     accepted_sockets t = [] \<and> closed_sockets t = [])"

definition accepts_handles :: "env \<Rightarrow> bool" where
  "accepts_handles env \<longleftrightarrow> (\<forall>t l h. env t (WSAAccept l) = Ok h \<longrightarrow> h \<noteq> 0)"

text \<open>Calls that neither accept nor close.\<close>

definition quiet :: "net \<Rightarrow> net \<Rightarrow> bool" where
  "quiet n n' \<longleftrightarrow> (\<exists>t. n_trace n' = n_trace n @ t \<and> accepted_sockets t = [] \<and> closed_sockets t = [])"

lemma quiet_refl [simp]: "quiet n n"
  by (simp add: quiet_def)

lemma quiet_trans: "quiet n n1 \<Longrightarrow> quiet n1 n2 \<Longrightarrow> quiet n n2"
  by (fastforce simp: quiet_def)

fun quiet_call :: "api_call \<Rightarrow> bool" where
  "quiet_call (WSAAccept l) = False"
| "quiet_call (Closesocket h) = False"
| "quiet_call c = True"

lemma quiet_sys: "quiet_call c \<Longrightarrow> quiet n (snd (sys env c n))"
  by (cases c) (auto simp: quiet_def sys_def)

lemma quiet_object_op: "quiet n (snd (object_op env k h args n))"
  using quiet_sys [of "ObjectOp k h args" n env] by (simp add: object_op_def Let_def case_prod_unfold)

lemma quiet_wait: "quiet n (snd (wait_object env h nTimeOut n))"
  using quiet_sys [of "WaitObject h nTimeOut" n env] by (simp add: wait_object_def Let_def case_prod_unfold)

lemma quiet_wait_threads: "quiet n (wait_threads env hs nTimeOut n)"
  by (induction hs arbitrary: n) (auto intro: quiet_trans quiet_wait)

lemma quiet_unlock:
  "br_on_semaphore (CSemaphore_UnLock env) (br, n) = (br', n') \<Longrightarrow> quiet n n' \<and> br_lstSocket br' = br_lstSocket br \<and>
     br_nQueueMaxSize br' = br_nQueueMaxSize br"
  using quiet_object_op [of n env ReleaseSemaphore "sem_hSemaphore (br_semaphore br)" "[1]"]
  by (auto simp: br_on_semaphore_def CSemaphore_UnLock_def CSemaphore_Release_def case_prod_unfold Let_def)

lemma quiet_lock:
  "br_on_semaphore (CSemaphore_Lock env) (br, n) = (br', n') \<Longrightarrow> quiet n n' \<and> br_lstSocket br' = br_lstSocket br \<and>
     br_nQueueMaxSize br' = br_nQueueMaxSize br"
  using quiet_wait [of n env "sem_hSemaphore (br_semaphore br)" INFINITE]
  by (auto simp: br_on_semaphore_def CSemaphore_Lock_def CSemaphore_Lock_timeout_def CSemaphore_Wait_def case_prod_unfold Let_def)

lemma quiet_options:
  "quiet n (snd (CSocketAPI_SetTimeOut env h a b n))" "quiet n (snd (CSocketAPI_SetBufferSize env h a b n))"
  by (auto simp: CSocketAPI_SetTimeOut_def CSocketAPI_SetBufferSize_def Let_def intro!: quiet_trans [OF quiet_sys quiet_sys])

text \<open>One turn of the listening thread: nothing, a connection that is refused and closed, or one that
  goes to the end of the queue.\<close>

lemma listen_turn_cases:
  assumes "CSLBlockTcpServer_ListenProc_turn env bs (br, n) = (e, br', n')" "accepts_handles env"
  shows "br_nQueueMaxSize br' = br_nQueueMaxSize br \<and>
    (quiet n n' \<and> br_lstSocket br' = br_lstSocket br \<or>
     (\<exists>h. h \<noteq> 0 \<and> accepted_sockets (n_trace n') = accepted_sockets (n_trace n) @ [h] \<and>
        (closed_sockets (n_trace n') = closed_sockets (n_trace n) @ [h] \<and> br_lstSocket br' = br_lstSocket br \<or>
         closed_sockets (n_trace n') = closed_sockets (n_trace n) \<and> br_lstSocket br' = br_lstSocket br @ [h] \<and>
         length (br_lstSocket br) < unat (br_nQueueMaxSize br))))"
proof (cases "CThread_IsStop (bs_threadListen bs)")
  case True
  then show ?thesis using assms(1) by (simp add: CSLBlockTcpServer_ListenProc_turn_def)
next
  case False
  define l where "l = bs_hListenSocket bs"
  define n1 where "n1 = snd (sys env (WSAAccept l) n)"
  show ?thesis
  proof (cases "env (n_trace n) (WSAAccept l)")
    case (Err x)
    then show ?thesis using False assms(1)
      by (auto simp: CSLBlockTcpServer_ListenProc_turn_def l_def sys_def Let_def quiet_def)
  next
    case (Ok h)
    then have h: "h \<noteq> 0" using assms(2) by (auto simp: accepts_handles_def)
    have n1: "accepted_sockets (n_trace n1) = accepted_sockets (n_trace n) @ [h]" "closed_sockets (n_trace n1) = closed_sockets (n_trace n)"
      using Ok by (simp_all add: n1_def sys_def)
    define n2 where "n2 = snd (sys env (OnAccept h) n1)"
    define n4 where "n4 = snd (CSocketAPI_SetBufferSize env h (bs_nRecvBufferSize bs) (bs_nSendBufferSize bs)
        (snd (CSocketAPI_SetTimeOut env h (bs_nRecvTimeOut bs) (bs_nSendTimeOut bs) n2)))"
    have q2: "quiet n1 n2" unfolding n2_def by (rule quiet_sys) simp
    have q4: "quiet n1 n4" unfolding n4_def by (rule quiet_trans [OF q2 quiet_trans [OF quiet_options(1) quiet_options(2)]])
    have sel: "accepted_sockets (n_trace m) = accepted_sockets (n_trace n) @ [h] \<and> closed_sockets (n_trace m) = closed_sockets (n_trace n)"
      if "quiet n1 m" for m using that n1 by (auto simp: quiet_def)
    have turn: "CSLBlockTcpServer_ListenProc_turn env bs (br, n) =
        (if \<not> is_true (fst (sys env (OnAccept h) n1)) then (False, br, snd (sys env (Closesocket h) n2))
         else case CSLBlockTcpRunner_Push env h (br, n4) of (b, br1, n5) \<Rightarrow>
           (False, br1, if b then n5 else snd (sys env (Closesocket h) n5)))"
      using False Ok by (simp add: CSLBlockTcpServer_ListenProc_turn_def l_def [symmetric] n1_def n2_def n4_def sys_def Let_def)
    show ?thesis
    proof (cases "is_true (fst (sys env (OnAccept h) n1))")
      case False
      then show ?thesis using assms(1) turn sel [OF q2] h by (auto simp: sys_def)
    next
      case True
      note acc = this
      show ?thesis
      proof (cases "length (br_lstSocket br) < unat (br_nQueueMaxSize br)")
        case True
        obtain br1 n5 where p: "br_on_semaphore (CSemaphore_UnLock env) (br\<lparr>br_lstSocket := br_lstSocket br @ [h]\<rparr>, n4) = (br1, n5)"
          by (metis prod.exhaust)
        have u: "quiet n4 n5" "br_lstSocket br1 = br_lstSocket br @ [h]" "br_nQueueMaxSize br1 = br_nQueueMaxSize br"
          using quiet_unlock [OF p] by simp_all
        have "br' = br1" "n' = n5" using assms(1) turn acc True p by (auto simp: CSLBlockTcpRunner_Push_def)
        then show ?thesis using u(2,3) sel [OF quiet_trans [OF q4 u(1)]] True h by simp
      next
        case False
        then have "br' = br" "n' = snd (sys env (Closesocket h) n4)"
          using assms(1) turn acc by (auto simp: CSLBlockTcpRunner_Push_def)
        then show ?thesis using sel [OF q4] h by (simp add: sys_def)
      qed
    qed
  qed
qed

lemma client_Close_sockets:
  assumes "CSLBlockTcpClient_Close env (bc, n) = (b, bc', n')"
  shows "bc_hSocket bc' = 0" "accepted_sockets (n_trace n') = accepted_sockets (n_trace n)"
    "closed_sockets (n_trace n') = closed_sockets (n_trace n) @ (if bc_hSocket bc = 0 then [] else [bc_hSocket bc])"
  using assms by (auto simp: CSLBlockTcpClient_Close_def sys_def Let_def split: if_splits)

text \<open>A step of a worker: what it held and the queue are what it holds and the queue afterwards and
  what it has closed.\<close>

lemma worker_step_cases:
  assumes "CSLBlockTcpRunner_Run_step env OnProcess w (br, n) = (w', br', n')" "serves OnProcess"
    and "\<And>h. fst w = BwServe h \<Longrightarrow> h \<noteq> 0" "fst w = BwExit \<Longrightarrow> bc_hSocket (snd w) = 0" "0 \<notin> set (br_lstSocket br)"
  shows "br_nQueueMaxSize br' = br_nQueueMaxSize br \<and> accepted_sockets (n_trace n') = accepted_sockets (n_trace n) \<and>
    br_lstSocket br = (case fst w' of BwServe h \<Rightarrow> [h] | _ \<Rightarrow> []) @ br_lstSocket br' \<and>
    (\<forall>h. fst w' = BwServe h \<longrightarrow> h \<noteq> 0) \<and> (fst w' = BwExit \<longrightarrow> bc_hSocket (snd w') = 0) \<and>
    (\<exists>cs. closed_sockets (n_trace n') = closed_sockets (n_trace n) @ cs \<and>
       mset (held w) + mset (br_lstSocket br) = mset (held w') + mset (br_lstSocket br') + mset cs)"
proof -
  obtain pc bc where w: "w = (pc, bc)" by (cases w)
  show ?thesis
  proof (cases pc)
    case BwTop
    show ?thesis
    proof (cases "CThreadGroup_IsStop (br_threadGroup br)")
      case True
      obtain b bc1 n1 where c: "CSLBlockTcpClient_Close env (bc, n) = (b, bc1, n1)" by (metis prod.exhaust)
      note cl = client_Close_sockets [OF c]
      show ?thesis using assms(1) w BwTop True c cl
        by (auto simp: CSLBlockTcpRunner_Run_step_def CSLBlockTcpClient_delete_def held_def)
    next
      case False
      obtain br1 n1 where c: "br_on_semaphore (CSemaphore_Lock env) (br, n) = (br1, n1)" by (metis prod.exhaust)
      from quiet_lock [OF c] show ?thesis using assms(1) w BwTop False c
        by (auto simp: CSLBlockTcpRunner_Run_step_def held_def quiet_def)
    qed
  next
    case BwPop
    show ?thesis
    proof (cases "br_lstSocket br")
      case Nil
      then show ?thesis using assms(1) w BwPop
        by (auto simp: CSLBlockTcpRunner_Run_step_def CSLBlockTcpRunner_Pop_def held_def)
    next
      case (Cons h rest)
      then have "h \<noteq> 0" using assms(5) by auto
      then show ?thesis using assms(1) w BwPop Cons
        by (auto simp: CSLBlockTcpRunner_Run_step_def CSLBlockTcpRunner_Pop_def held_def)
    qed
  next
    case (BwServe h)
    then have h: "h \<noteq> 0" using assms(3) w by simp
    obtain b bc1 n1 where c: "CSLBlockTcpClient_Close env (bc, n) = (b, bc1, n1)" by (metis prod.exhaust)
    note cl = client_Close_sockets [OF c]
    let ?bc = "bc1\<lparr>bc_hSocket := h\<rparr>"
    obtain r n2 t where o: "OnProcess (?bc, n1) = (r, ?bc, n2)" "n_trace n2 = n_trace n1 @ t" "accepted_sockets t = []" "closed_sockets t = []"
      using assms(2) by (metis serves_def)
    obtain b2 bc3 n3 where c2: "CSLBlockTcpClient_Close env (?bc, n2) = (b2, bc3, n3)" by (metis prod.exhaust)
    note cl2 = client_Close_sockets [OF c2]
    have a: "CSLBlockTcpClient_Attach env h (bc, n) = (?bc, n1)" using c by (simp add: CSLBlockTcpClient_Attach_def)
    show ?thesis using assms(1) w BwServe h o cl cl2 c2 a
      by (cases "r < 0") (auto simp: CSLBlockTcpRunner_Run_step_def held_def)
  next
    case BwExit
    then show ?thesis using assms(1,4) w by (auto simp: CSLBlockTcpRunner_Run_step_def held_def)
  qed
qed

section \<open>The system\<close>

definition blk_inv :: "u32 \<Rightarrow> blk_sys \<Rightarrow> bool" where
  "blk_inv m y \<longleftrightarrow>
     br_nQueueMaxSize (bk_run y) = m \<and> length (br_lstSocket (bk_run y)) \<le> unat m \<and> 0 \<notin> set (br_lstSocket (bk_run y)) \<and>
     mset (accepted_sockets (n_trace (bk_net y))) =
       mset (closed_sockets (n_trace (bk_net y))) + mset (br_lstSocket (bk_run y)) + mset (concat (map held (bk_workers y))) \<and>
     subseq (bk_served y @ br_lstSocket (bk_run y)) (accepted_sockets (n_trace (bk_net y))) \<and>
     (\<forall>w \<in> set (bk_workers y). (\<forall>h. fst w = BwServe h \<longrightarrow> h \<noteq> 0) \<and> (fst w = BwExit \<longrightarrow> bc_hSocket (snd w) = 0))"

lemma mset_concat_update:
  "i < length ws \<Longrightarrow> mset (concat (map f (ws[i := w]))) + mset (f (ws ! i)) = mset (concat (map f ws)) + mset (f w)"
proof -
  assume i: "i < length ws"
  have "mset (concat (map f ws)) = mset (f (ws ! i)) + mset (concat (map f (take i ws @ drop (Suc i) ws)))"
    by (subst id_take_nth_drop [OF i]) simp
  then show ?thesis by (simp add: upd_conv_take_nth_drop [OF i])
qed

lemma blk_step_inv:
  assumes "blk_inv m y" "accepts_handles env" "serves OnProcess"
  shows "blk_inv m (blk_step env OnProcess ev y)"
proof (cases ev)
  case EvListen
  obtain e br n where t: "CSLBlockTcpServer_ListenProc_turn env (bk_srv y) (bk_run y, bk_net y) = (e, br, n)" by (metis prod.exhaust)
  have y: "blk_step env OnProcess ev y = y\<lparr>bk_run := br, bk_net := n\<rparr>" using t EvListen by simp
  from listen_turn_cases [OF t assms(2)] have m: "br_nQueueMaxSize br = br_nQueueMaxSize (bk_run y)"
    and c: "quiet (bk_net y) n \<and> br_lstSocket br = br_lstSocket (bk_run y) \<or>
     (\<exists>h. h \<noteq> 0 \<and> accepted_sockets (n_trace n) = accepted_sockets (n_trace (bk_net y)) @ [h] \<and>
        (closed_sockets (n_trace n) = closed_sockets (n_trace (bk_net y)) @ [h] \<and> br_lstSocket br = br_lstSocket (bk_run y) \<or>
         closed_sockets (n_trace n) = closed_sockets (n_trace (bk_net y)) \<and> br_lstSocket br = br_lstSocket (bk_run y) @ [h] \<and>
         length (br_lstSocket (bk_run y)) < unat (br_nQueueMaxSize (bk_run y))))" by blast+
  from c consider "quiet (bk_net y) n" "br_lstSocket br = br_lstSocket (bk_run y)"
    | h where "h \<noteq> 0" "accepted_sockets (n_trace n) = accepted_sockets (n_trace (bk_net y)) @ [h]"
        "closed_sockets (n_trace n) = closed_sockets (n_trace (bk_net y)) @ [h]" "br_lstSocket br = br_lstSocket (bk_run y)"
    | h where "h \<noteq> 0" "accepted_sockets (n_trace n) = accepted_sockets (n_trace (bk_net y)) @ [h]"
        "closed_sockets (n_trace n) = closed_sockets (n_trace (bk_net y))" "br_lstSocket br = br_lstSocket (bk_run y) @ [h]"
        "length (br_lstSocket (bk_run y)) < unat (br_nQueueMaxSize (bk_run y))" by blast
  then show ?thesis
  proof cases
    case 1
    then show ?thesis using assms(1) m unfolding y by (auto simp: blk_inv_def quiet_def)
  next
    case (2 h)
    then show ?thesis using assms(1) m unfolding y by (auto simp: blk_inv_def intro: subseq_order.order_trans)
  next
    case (3 h)
    have "subseq ((bk_served y @ br_lstSocket (bk_run y)) @ [h]) (accepted_sockets (n_trace (bk_net y)) @ [h])"
      using assms(1) by (intro list_emb_append_mono) (auto simp: blk_inv_def)
    then show ?thesis using 3 assms(1) m unfolding y by (auto simp: blk_inv_def)
  qed
next
  case (EvWorker i)
  show ?thesis
  proof (cases "i < length (bk_workers y)")
    case False
    then show ?thesis using assms(1) EvWorker by simp
  next
    case True
    let ?w = "bk_workers y ! i"
    obtain w br n where t: "CSLBlockTcpRunner_Run_step env OnProcess ?w (bk_run y, bk_net y) = (w, br, n)" by (metis prod.exhaust)
    have y: "blk_step env OnProcess ev y = y\<lparr>bk_run := br, bk_workers := (bk_workers y)[i := w], bk_net := n,
        bk_served := bk_served y @ (case fst w of BwServe h \<Rightarrow> [h] | _ \<Rightarrow> [])\<rparr>" using t EvWorker True by simp
    have old: "\<And>h. fst ?w = BwServe h \<Longrightarrow> h \<noteq> 0" "fst ?w = BwExit \<Longrightarrow> bc_hSocket (snd ?w) = 0" "0 \<notin> set (br_lstSocket (bk_run y))"
      using assms(1) nth_mem [OF True] by (auto simp: blk_inv_def)
    from worker_step_cases [OF t assms(3) old] obtain cs where st: "br_nQueueMaxSize br = br_nQueueMaxSize (bk_run y)"
      "accepted_sockets (n_trace n) = accepted_sockets (n_trace (bk_net y))"
      "br_lstSocket (bk_run y) = (case fst w of BwServe h \<Rightarrow> [h] | _ \<Rightarrow> []) @ br_lstSocket br"
      "\<forall>h. fst w = BwServe h \<longrightarrow> h \<noteq> 0" "fst w = BwExit \<longrightarrow> bc_hSocket (snd w) = 0"
      "closed_sockets (n_trace n) = closed_sockets (n_trace (bk_net y)) @ cs"
      "mset (held ?w) + mset (br_lstSocket (bk_run y)) = mset (held w) + mset (br_lstSocket br) + mset cs" by blast
    have len: "length (br_lstSocket br) \<le> length (br_lstSocket (bk_run y))" "set (br_lstSocket br) \<subseteq> set (br_lstSocket (bk_run y))"
      using st(3) by auto
    have "mset (accepted_sockets (n_trace n)) + mset (held ?w) =
        mset (closed_sockets (n_trace n)) + mset (br_lstSocket br) + mset (concat (map held ((bk_workers y)[i := w]))) + mset (held ?w)"
      using assms(1) st(2,6,7) mset_concat_update [OF True, of held w] by (simp add: blk_inv_def ac_simps)
    then have bal: "mset (accepted_sockets (n_trace n)) =
        mset (closed_sockets (n_trace n)) + mset (br_lstSocket br) + mset (concat (map held ((bk_workers y)[i := w])))" by simp
    have ws: "\<forall>v \<in> set ((bk_workers y)[i := w]). (\<forall>h. fst v = BwServe h \<longrightarrow> h \<noteq> 0) \<and> (fst v = BwExit \<longrightarrow> bc_hSocket (snd v) = 0)"
      using assms(1) st(4,5) set_update_subset_insert [of "bk_workers y" i w] unfolding blk_inv_def by blast
    have sub: "subseq (bk_served y @ br_lstSocket (bk_run y)) (accepted_sockets (n_trace n))"
      and q: "br_nQueueMaxSize (bk_run y) = m" "length (br_lstSocket (bk_run y)) \<le> unat m" "0 \<notin> set (br_lstSocket (bk_run y))"
      using assms(1) st(2) by (simp_all add: blk_inv_def)
    then show ?thesis unfolding y blk_inv_def using st(1) len bal ws st(3) by (auto simp del: map_update)
  qed
next
  case (EvStop k)
  then show ?thesis using assms(1) quiet_wait_threads [of "bk_net y" env "tg_vecThreads (br_threadGroup (bk_run y))" k]
    by (auto simp: br_on_threads_def CThreadGroup_Stop_def blk_inv_def quiet_def)
qed

lemma quiet_close_handle: "quiet n (close_handle env h n)"
  using quiet_sys [of "CloseHandle h" n env] by (simp add: close_handle_def)

lemma quiet_terminate: "quiet n (terminate_threads env hs n)"
proof (induction hs arbitrary: n)
  case (Cons h hs)
  let ?n1 = "snd (object_op env TerminateThread h [0] n)"
  have "quiet ?n1 (snd (sys env (CloseHandle h) ?n1))" by (rule quiet_sys) simp
  from quiet_trans [OF quiet_object_op quiet_trans [OF this Cons]] show ?case by simp
qed simp

lemma quiet_unlocks: "quiet (snd s) (snd (br_unlocks env k s))"
proof (induction k arbitrary: s)
  case (Suc k)
  obtain br n where s: "s = (br, n)" by (cases s)
  obtain br' n' where u: "br_on_semaphore (CSemaphore_UnLock env) (br, n) = (br', n')" by (metis prod.exhaust)
  from quiet_unlock [OF u] Suc [of "(br', n')"] show ?case using u s by (auto intro: quiet_trans)
qed simp

text \<open>\<open>Close\<close> of the runner closes no socket.\<close>

lemma runner_Close_quiet: "quiet n (snd (snd (CSLBlockTcpRunner_Close env (br, n)))) \<and>
    br_lstSocket (fst (snd (CSLBlockTcpRunner_Close env (br, n)))) = []"
proof -
  obtain br1 n1 where u: "br_unlocks env (nat (CSLBlockTcpRunner_GetThreadNum br)) (br, n) = (br1, n1)" by (metis prod.exhaust)
  have q1: "quiet n n1" using quiet_unlocks [of "(br, n)" env "nat (CSLBlockTcpRunner_GetThreadNum br)"] u by simp
  let ?n2 = "snd (snd (CSemaphore_Clear env (br_semaphore br1, n1)))"
  have q2: "quiet n1 ?n2" by (simp add: CSemaphore_Clear_def quiet_close_handle)
  let ?hs = "tg_vecThreads (br_threadGroup br1)"
  have "snd (snd (CSLBlockTcpRunner_Close env (br, n))) = terminate_threads env ?hs (wait_threads env ?hs 200 ?n2)"
    using u by (simp add: CSLBlockTcpRunner_Close_def br_on_semaphore_def br_on_threads_def CThreadGroup_Stop_def
        CThreadGroup_Kill_def CThreadGroup_Clear_def CSemaphore_Clear_def Let_def)
  moreover have "quiet n (terminate_threads env ?hs (wait_threads env ?hs 200 ?n2))"
    by (rule quiet_trans [OF q1 quiet_trans [OF q2 quiet_trans [OF quiet_wait_threads quiet_terminate]]])
  ultimately show ?thesis by (simp add: CSLBlockTcpRunner_Close_def Let_def)
qed

section \<open>Properties\<close>

text \<open>
  C34. The blocking server, with any interleaving of its listening thread and of \<open>k\<close> worker threads
  whose application leaves the socket in the client: every socket that was accepted is in exactly one place, closed
  (once), in the queue, or held by one worker; the queue is no longer than its bound; connections are taken
  from the queue in the order in which they were accepted; and when all threads have ended, what is not in
  the queue is closed. \<open>Close\<close> of the runner empties the queue without closing a socket.
\<close>

theorem block_server_sockets:
  fixes evs :: "blk_ev list"
  assumes "accepts_handles env" "serves OnProcess" "n_trace n = []" "br_lstSocket br = []"
  shows "let y = fold (blk_step env OnProcess) evs
           \<lparr>bk_srv = bs, bk_run = br, bk_workers = replicate k (BwTop, CSLBlockTcpClient_new_socket 0), bk_net = n, bk_served = []\<rparr>;
         acc = accepted_sockets (n_trace (bk_net y)); closed = closed_sockets (n_trace (bk_net y));
         queue = br_lstSocket (bk_run y); end = snd (CSLBlockTcpRunner_Close env (bk_run y, bk_net y))
     in mset acc = mset closed + mset queue + mset (concat (map held (bk_workers y))) \<and>
        length queue \<le> unat (br_nQueueMaxSize br) \<and> subseq (bk_served y @ queue) acc \<and>
        (list_all (\<lambda>w. fst w = BwExit) (bk_workers y) \<longrightarrow> mset acc = mset closed + mset queue) \<and>
        br_lstSocket (fst end) = [] \<and> closed_sockets (n_trace (snd end)) = closed"
proof -
  let ?y0 = "\<lparr>bk_srv = bs, bk_run = br, bk_workers = replicate k (BwTop, CSLBlockTcpClient_new_socket 0), bk_net = n, bk_served = []\<rparr>"
  have "concat (map held (replicate k (BwTop, CSLBlockTcpClient_new_socket 0))) = []"
    by (simp add: held_def CSLBlockTcpClient_new_socket_def)
  then have "blk_inv (br_nQueueMaxSize br) ?y0" using assms(3,4) by (simp add: blk_inv_def)
  then have inv: "blk_inv (br_nQueueMaxSize br) (fold (blk_step env OnProcess) evs ?y0)"
    by (induction evs arbitrary: rule: rev_induct) (simp_all add: blk_step_inv [OF _ assms(1,2)])
  define y where "y = fold (blk_step env OnProcess) evs ?y0"
  note i = inv [folded y_def, unfolded blk_inv_def]
  have "concat (map held (bk_workers y)) = []" if "list_all (\<lambda>w. fst w = BwExit) (bk_workers y)"
    using that i by (auto simp: held_def list_all_iff)
  then have e: "list_all (\<lambda>w. fst w = BwExit) (bk_workers y) \<longrightarrow>
      mset (accepted_sockets (n_trace (bk_net y))) = mset (closed_sockets (n_trace (bk_net y))) + mset (br_lstSocket (bk_run y))"
    using i by simp
  show ?thesis unfolding Let_def y_def [symmetric]
    using i e runner_Close_quiet [of "bk_net y" env "bk_run y"] by (auto simp: quiet_def)
qed

section \<open>Witnesses\<close>

definition blk_env :: env where
  "blk_env t c = (case c of WSAAccept l \<Rightarrow> Ok (7 + int (length (accepted_sockets t))) | OnAccept h \<Rightarrow> Ok 1
     | WSARecv h p k \<Rightarrow> Ok (if \<exists>y \<in> set t. fst y = WSARecv h p k then 2 else 1) | _ \<Rightarrow> Ok 1)"

definition blk_br :: CSLBlockTcpRunner where
  "blk_br = CSLBlockTcpRunner_new 0"

definition blk_bs :: CSLBlockTcpServer where
  "blk_bs = CSLBlockTcpServer_SetTimeOut 1 1 (CSLBlockTcpServer_SetBufferSize 1 1 (CSLBlockTcpServer_new 0 0 0 (CThread_new 0 0)))"

definition blk_demo_evs :: "blk_ev list" where
  "blk_demo_evs = [EvListen, EvListen, EvListen, EvWorker 0, EvWorker 0, EvWorker 1, EvWorker 0, EvWorker 1]"

lemma blk_demo_env: "accepts_handles blk_env" "serves CSLBlockTcpEvent_OnProcess"
proof -
  show "accepts_handles blk_env" by (auto simp: accepts_handles_def blk_env_def)
  have "\<exists>r n' t. CSLBlockTcpEvent_OnProcess (bc, n) = (r, bc, n') \<and> n_trace n' = n_trace n @ t \<and>
      accepted_sockets t = [] \<and> closed_sockets t = []" for bc n
    by (intro exI [of _ "-1"] exI [of _ n] exI [of _ "[]"]) (simp add: CSLBlockTcpEvent_OnProcess_def)
  then show "serves CSLBlockTcpEvent_OnProcess" by (simp add: serves_def)
qed

definition blk_demo :: blk_sys where
  "blk_demo = fold (blk_step blk_env CSLBlockTcpEvent_OnProcess) blk_demo_evs
     \<lparr>bk_srv = blk_bs, bk_run = blk_br, bk_workers = replicate 2 (BwTop, CSLBlockTcpClient_new_socket 0), bk_net = net0, bk_served = []\<rparr>"

lemma blk_demo_runs: "(accepted_sockets (n_trace (bk_net blk_demo)), bk_served blk_demo, closed_sockets (n_trace (bk_net blk_demo))) =
    ([7, 8, 9], [7, 8], [7])"
  by code_simp

lemma block_server_sockets_witness:
  "mset [7, 8, 9] = mset [7 :: int] + mset (br_lstSocket (bk_run blk_demo)) + mset (concat (map held (bk_workers blk_demo))) \<and>
   subseq ([7, 8] @ br_lstSocket (bk_run blk_demo)) [7, 8, 9 :: int]"
proof -
  have "n_trace net0 = []" "br_lstSocket blk_br = []"
    by (simp_all add: net0_def blk_br_def CSLBlockTcpRunner_new_def)
  from block_server_sockets [OF blk_demo_env this, of blk_demo_evs blk_bs 2] show ?thesis
    using blk_demo_runs unfolding Let_def blk_demo_def [symmetric] by simp
qed

text \<open>A connection that gives one byte and then two, for a message of three.\<close>

lemma block_client_recv_witness:
  "\<exists>n'. CSLBlockTcpClient_Recv_all blk_env (\<lambda>t. if length t = 1 then [65] else [66, 67]) 100 8 3 (CSLBlockTcpClient_new_socket 5, net0) =
      Some (3, CSLBlockTcpClient_new_socket 5, n') \<and> mem_read (n_bytes n') 100 (Suc (Suc 0)) = [66, 67]"
proof -
  let ?rx = "\<lambda>t :: trace. if length t = 1 then [65] else [66, 67 :: byte]"
  have "(0 :: int) < 3" "(3 :: int) \<le> 8" by simp_all
  from block_client_recv [OF this, of blk_env "CSLBlockTcpClient_new_socket 5" 100 ?rx net0 "[65]" "[66, 67]"]
  show ?thesis by (simp add: Let_def blk_env_def net0_def)
qed

end
