(* ===== verification/ActiveList.thy ===== *)
theory ActiveList
  imports NetFacts Sync "HOL-Library.Multiset" "HOL-Library.Sublist"
begin

text \<open>
  \<open>CSLSession\<close> (SLSession.h) and \<open>CSLSession_ActiveList\<close> (SLSession_ActiveList.h): a list of sessions and a
  thread that asks them in turn for events. \<open>GetEventID\<close> and \<open>OnEvent\<close> are virtual functions of the
  session, arguments here; \<open>OnUninitSocket\<close> is a call of the environment. The thread holds the lock
  only while it erases, so it is cut into steps between which other threads can append.
\<close>

section \<open>The classes\<close>

definition CSLSession_GetEventID :: "addr \<Rightarrow> 's \<Rightarrow> int \<times> 's" where
  "CSLSession_GetEventID this s = (0, s)"

definition CSLSession_OnEvent :: "addr \<Rightarrow> int \<Rightarrow> 's \<Rightarrow> int \<times> 's" where
  "CSLSession_OnEvent this nEventID s = (0, s)"

record CSLSession_ActiveList =
  al_pSocketEvent :: addr
  al_lstSession :: "addr list"
  al_threadScan :: CThread
  al_nScanTimesSleepTime :: u32
  al_nScanGroupCount :: u32
  al_nScanGroupSleepTime :: u32

definition CSLSession_ActiveList_new :: "addr \<Rightarrow> CThread \<Rightarrow> CSLSession_ActiveList" where
  "CSLSession_ActiveList_new junk thread =
     \<lparr>al_pSocketEvent = junk, al_lstSession = [], al_threadScan = thread, al_nScanTimesSleepTime = 50,
      al_nScanGroupCount = 20, al_nScanGroupSleepTime = 20\<rparr>"

fun uninit_all :: "env \<Rightarrow> addr list \<Rightarrow> net \<Rightarrow> net" where
  "uninit_all env [] n = n"
| "uninit_all env (p # ps) n = uninit_all env ps (snd (sys env (OnUninitSocket p) n))"

definition al_on_thread :: "(CThread with_net \<Rightarrow> 'r \<times> CThread with_net) \<Rightarrow> CSLSession_ActiveList with_net \<Rightarrow> 'r \<times> CSLSession_ActiveList with_net" where
  "al_on_thread f s = (case s of (al, n) \<Rightarrow> case f (al_threadScan al, n) of (r, t, n1) \<Rightarrow> (r, al\<lparr>al_threadScan := t\<rparr>, n1))"

definition CSLSession_ActiveList_Close :: "env \<Rightarrow> CSLSession_ActiveList with_net \<Rightarrow> bool \<times> CSLSession_ActiveList with_net" where
  "CSLSession_ActiveList_Close env s =
     (let s1 = snd (al_on_thread (CThread_Stop env 200) s);
          s2 = snd (al_on_thread (CThread_Kill env) s1)
      in (True, (fst s2)\<lparr>al_lstSession := []\<rparr>, uninit_all env (al_lstSession (fst s2)) (snd s2)))"

definition CSLSession_ActiveList_delete :: "env \<Rightarrow> CSLSession_ActiveList with_net \<Rightarrow> CSLSession_ActiveList with_net" where
  "CSLSession_ActiveList_delete env s = snd (CSLSession_ActiveList_Close env s)"

definition CSLSession_ActiveList_Activate ::
    "env \<Rightarrow> addr \<Rightarrow> addr \<Rightarrow> addr \<Rightarrow> u32 \<Rightarrow> u32 \<Rightarrow> u32 \<Rightarrow> CSLSession_ActiveList with_net \<Rightarrow> bool \<times> CSLSession_ActiveList with_net" where
  "CSLSession_ActiveList_Activate env scanProc this pSocketEvent nScanTimesSleepTime nScanGroupCount nScanGroupSleepTime s =
     (case s of (al, n) \<Rightarrow>
        al_on_thread (CThread_Start env scanProc this False 0)
          (al\<lparr>al_pSocketEvent := pSocketEvent, al_nScanTimesSleepTime := nScanTimesSleepTime,
              al_nScanGroupCount := nScanGroupCount, al_nScanGroupSleepTime := nScanGroupSleepTime\<rparr>, n))"

definition CSLSession_ActiveList_AppendSession :: "addr \<Rightarrow> CSLSession_ActiveList \<Rightarrow> int \<times> CSLSession_ActiveList" where
  "CSLSession_ActiveList_AppendSession pSession al = (0, al\<lparr>al_lstSession := al_lstSession al @ [pSession]\<rparr>)"

section \<open>The scanning thread\<close>

text \<open>\<open>AlAt i c\<close>: the iterator is at place \<open>i\<close>, and \<open>c\<close> is \<open>nScanCount\<close>; \<open>AlUninit p i c\<close>: the session \<open>p\<close> has
  been erased, and \<open>OnUninitSocket\<close> comes next.\<close>

datatype al_pc = AlTop | AlAt nat u32 | AlUninit addr nat u32 | AlExit

text \<open>The end of an iteration: a pause after each group.\<close>

definition al_count :: "env \<Rightarrow> CSLSession_ActiveList \<Rightarrow> u32 \<Rightarrow> net \<Rightarrow> cerror + u32 \<times> net" where
  "al_count env al nScanCount n =
     (if al_nScanGroupCount al = 0 then Inl DivByZero
      else if nScanCount mod al_nScanGroupCount al = 0
      then Inr (1, snd (sys env (Sleep (uint (al_nScanGroupSleepTime al))) n))
      else Inr (nScanCount + 1, n))"

definition CSLSession_ActiveList_ScanProc_step ::
    "env \<Rightarrow> (addr \<Rightarrow> net \<Rightarrow> int \<times> net) \<Rightarrow> (addr \<Rightarrow> int \<Rightarrow> net \<Rightarrow> int \<times> net) \<Rightarrow> al_pc \<Rightarrow> CSLSession_ActiveList with_net \<Rightarrow>
     cerror + al_pc \<times> CSLSession_ActiveList with_net" where
  "CSLSession_ActiveList_ScanProc_step env GetEventID OnEvent pc s =
     (case s of (al, n) \<Rightarrow>
        case pc of
          AlTop \<Rightarrow> Inr (if CThread_IsStop (al_threadScan al) then AlExit else AlAt 0 1, al, n)
        | AlAt i c \<Rightarrow>
            if i < length (al_lstSession al)
            then let pSession = al_lstSession al ! i; (nEventID, n1) = GetEventID pSession n
                 in if nEventID < 0
                    then Inr (AlUninit pSession i c,
                           al\<lparr>al_lstSession := take i (al_lstSession al) @ drop (Suc i) (al_lstSession al)\<rparr>, n1)
                    else let n2 = (if nEventID > 0 then snd (OnEvent pSession nEventID n1) else n1)
                         in rbind (al_count env al c n2) (\<lambda>(c1, n3). Inr (AlAt (Suc i) c1, al, n3))
            else Inr (AlTop, al, snd (sys env (Sleep (uint (al_nScanTimesSleepTime al))) n))
        | AlUninit pSession i c \<Rightarrow>
            rbind (al_count env al c (snd (sys env (OnUninitSocket pSession) n))) (\<lambda>(c1, n1). Inr (AlAt i c1, al, n1))
        | AlExit \<Rightarrow> Inr (AlExit, al, n))"

section \<open>The thread and the threads that append\<close>

datatype al_ev = AlScan | AlAppend addr

fun al_step where
  "al_step env GetEventID OnEvent AlScan (pc, s) = CSLSession_ActiveList_ScanProc_step env GetEventID OnEvent pc s"
| "al_step env GetEventID OnEvent (AlAppend p) (pc, al, n) =
     Inr (pc, snd (CSLSession_ActiveList_AppendSession p al), n)"

fun al_run where
  "al_run env GetEventID OnEvent [] y = Inr y"
| "al_run env GetEventID OnEvent (e # es) y = rbind (al_step env GetEventID OnEvent e y) (al_run env GetEventID OnEvent es)"

fun appended :: "al_ev list \<Rightarrow> addr list" where
  "appended [] = []"
| "appended (AlScan # es) = appended es"
| "appended (AlAppend p # es) = p # appended es"

fun uninit_sockets :: "trace \<Rightarrow> addr list" where
  "uninit_sockets [] = []"
| "uninit_sockets ((OnUninitSocket p, r) # t) = p # uninit_sockets t"
| "uninit_sockets (x # t) = uninit_sockets t"

lemma uninit_append [simp]: "uninit_sockets (t @ t') = uninit_sockets t @ uninit_sockets t'"
  by (induction t rule: uninit_sockets.induct) auto

fun al_pending :: "al_pc \<Rightarrow> addr list" where
  "al_pending (AlUninit p i c) = [p]"
| "al_pending pc = []"

text \<open>Sessions that do not take sessions out of the list themselves.\<close>

definition session_ok :: "(net \<Rightarrow> int \<times> net) \<Rightarrow> bool" where
  "session_ok f \<longleftrightarrow> (\<forall>n. uninit_sockets (n_trace (snd (f n))) = uninit_sockets (n_trace n))"

definition al_inv :: "addr list \<Rightarrow> al_pc \<times> CSLSession_ActiveList with_net \<Rightarrow> bool" where
  "al_inv ps y \<longleftrightarrow> (case y of (pc, al, n) \<Rightarrow>
     mset ps = mset (al_lstSession al) + mset (uninit_sockets (n_trace n)) + mset (al_pending pc) \<and>
     subseq (al_lstSession al) ps \<and> al_nScanGroupCount al \<noteq> 0)"

lemma al_count_ok:
  "al_nScanGroupCount al \<noteq> 0 \<Longrightarrow> \<exists>c1 n1. al_count env al c n = Inr (c1, n1) \<and> uninit_sockets (n_trace n1) = uninit_sockets (n_trace n)"
  by (simp add: al_count_def sys_def)

lemma al_scan_inv:
  assumes "al_inv ps (pc, al, n)" "\<And>p. session_ok (GetEventID p)" "\<And>p e. session_ok (OnEvent p e)"
  shows "\<exists>y. CSLSession_ActiveList_ScanProc_step env GetEventID OnEvent pc (al, n) = Inr y \<and> al_inv ps y"
proof -
  have g: "al_nScanGroupCount al \<noteq> 0" using assms(1) by (simp add: al_inv_def)
  show ?thesis
  proof (cases pc)
    case (AlAt i c)
    show ?thesis
    proof (cases "i < length (al_lstSession al)")
      case True
      let ?p = "al_lstSession al ! i"
      obtain e n1 where e: "GetEventID ?p n = (e, n1)" by (metis prod.exhaust)
      have u1: "uninit_sockets (n_trace n1) = uninit_sockets (n_trace n)"
        using assms(2) [of ?p] e by (auto simp: session_ok_def) (metis snd_conv)
      have split: "al_lstSession al = take i (al_lstSession al) @ ?p # drop (Suc i) (al_lstSession al)"
        using id_take_nth_drop [OF True] .
      have "mset (al_lstSession al) = add_mset ?p (mset (take i (al_lstSession al) @ drop (Suc i) (al_lstSession al)))"
        by (subst split) simp
      moreover have "subseq (take i (al_lstSession al) @ drop (Suc i) (al_lstSession al)) (al_lstSession al)"
        by (subst (3) split) (auto intro: list_emb_append_mono)
      moreover have "subseq (al_lstSession al) ps" using assms(1) by (simp add: al_inv_def)
      ultimately have del: "mset (al_lstSession al) = add_mset ?p (mset (take i (al_lstSession al) @ drop (Suc i) (al_lstSession al)))"
        "subseq (take i (al_lstSession al) @ drop (Suc i) (al_lstSession al)) ps"
        by (auto intro: subseq_order.order_trans)
      show ?thesis
      proof (cases "e < 0")
        case neg: True
        then show ?thesis using assms(1) AlAt True e u1 del
          by (simp add: CSLSession_ActiveList_ScanProc_step_def al_inv_def Let_def)
      next
        case False
        define n2 where "n2 = (if e > 0 then snd (OnEvent ?p e n1) else n1)"
        have u2: "uninit_sockets (n_trace n2) = uninit_sockets (n_trace n)"
          using assms(3) [of ?p e] u1 by (simp add: n2_def session_ok_def)
        obtain c1 n3 where c: "al_count env al c n2 = Inr (c1, n3)" "uninit_sockets (n_trace n3) = uninit_sockets (n_trace n2)"
          using al_count_ok [OF g] by blast
        show ?thesis using assms(1) AlAt True e False u2 c n2_def [symmetric]
          by (simp add: CSLSession_ActiveList_ScanProc_step_def al_inv_def Let_def)
      qed
    next
      case False
      then show ?thesis using assms(1) AlAt by (simp add: CSLSession_ActiveList_ScanProc_step_def al_inv_def sys_def)
    qed
  next
    case (AlUninit p i c)
    let ?n = "snd (sys env (OnUninitSocket p) n)"
    obtain c1 n1 where c: "al_count env al c ?n = Inr (c1, n1)" "uninit_sockets (n_trace n1) = uninit_sockets (n_trace ?n)"
      using al_count_ok [OF g] by blast
    have "uninit_sockets (n_trace ?n) = uninit_sockets (n_trace n) @ [p]" by (simp add: sys_def)
    then show ?thesis using assms(1) AlUninit c by (simp add: CSLSession_ActiveList_ScanProc_step_def al_inv_def)
  qed (use assms(1) in \<open>auto simp: CSLSession_ActiveList_ScanProc_step_def al_inv_def\<close>)
qed

lemma al_run_inv:
  assumes "\<And>p. session_ok (GetEventID p)" "\<And>p e. session_ok (OnEvent p e)"
  shows "al_inv ps y \<Longrightarrow> \<exists>y'. al_run env GetEventID OnEvent es y = Inr y' \<and> al_inv (ps @ appended es) y'"
proof (induction es arbitrary: ps y)
  case (Cons e es)
  obtain pc al n where y: "y = (pc, al, n)" by (metis prod.exhaust)
  show ?case
  proof (cases e)
    case AlScan
    obtain y1 where "al_step env GetEventID OnEvent e y = Inr y1" "al_inv ps y1"
      using al_scan_inv [of ps pc al n GetEventID OnEvent env, OF Cons.prems [unfolded y] assms] AlScan y by auto
    then show ?thesis using Cons.IH [of ps y1] AlScan by simp
  next
    case (AlAppend p)
    let ?y1 = "(pc, al\<lparr>al_lstSession := al_lstSession al @ [p]\<rparr>, n)"
    have "al_inv (ps @ [p]) ?y1" using Cons.prems y
      by (auto simp: al_inv_def intro: list_emb_append_mono)
    then show ?thesis using Cons.IH [of "ps @ [p]" ?y1] AlAppend y
      by (simp add: CSLSession_ActiveList_AppendSession_def)
  qed
qed simp

lemma uninit_all_sockets: "uninit_sockets (n_trace (uninit_all env ps n)) = uninit_sockets (n_trace n) @ ps"
proof (induction ps arbitrary: n)
  case (Cons p ps)
  show ?case using Cons [of "snd (sys env (OnUninitSocket p) n)"] by (simp add: sys_def)
qed simp

lemma al_Close_sockets:
  "al_lstSession (fst (snd (CSLSession_ActiveList_Close env (al, n)))) = []"
  "uninit_sockets (n_trace (snd (snd (CSLSession_ActiveList_Close env (al, n))))) = uninit_sockets (n_trace n) @ al_lstSession al"
proof -
  have "uninit_sockets (n_trace (snd (wait_object env h k m))) = uninit_sockets (n_trace m)"
    "uninit_sockets (n_trace (snd (object_op env TerminateThread h a m))) = uninit_sockets (n_trace m)" for h k a m
    by (simp_all add: wait_object_def object_op_def sys_def Let_def)
  then show "uninit_sockets (n_trace (snd (snd (CSLSession_ActiveList_Close env (al, n))))) = uninit_sockets (n_trace n) @ al_lstSession al"
    by (simp add: CSLSession_ActiveList_Close_def al_on_thread_def CThread_Stop_def CThread_Kill_def Let_def case_prod_unfold
        uninit_all_sockets)
qed (simp add: CSLSession_ActiveList_Close_def Let_def)

text \<open>
  C37. In every interleaving of the scanning thread with threads that append sessions, with a group count
  other than 0 and sessions that do not take sessions out themselves: no step faults, the sessions in the
  list are in the order in which they were appended, and every session is in the list or was given to
  \<open>OnUninitSocket\<close> once, except for the one that the thread has just erased. \<open>Close\<close> then gives the rest to
  \<open>OnUninitSocket\<close>, so one session is missed exactly when the thread is killed at that point. With the group
  count 0 the first session makes the thread divide by zero.
\<close>

theorem active_list_sessions:
  assumes "\<And>p. session_ok (GetEventID p)" "\<And>p e. session_ok (OnEvent p e)" "n_trace n = []"
    and "al_lstSession al = []" "al_nScanGroupCount al \<noteq> 0"
  shows "\<exists>pc al' n'. al_run env GetEventID OnEvent es (AlTop, al, n) = Inr (pc, al', n') \<and>
      subseq (al_lstSession al') (appended es) \<and>
      mset (appended es) = mset (al_lstSession al') + mset (uninit_sockets (n_trace n')) + mset (al_pending pc) \<and>
      (let done = snd (snd (CSLSession_ActiveList_Close env (al', n')))
       in mset (appended es) = mset (uninit_sockets (n_trace done)) + mset (al_pending pc)) \<and>
      (\<forall>c p. al_lstSession al' = [p] \<longrightarrow> 0 \<le> fst (GetEventID p n') \<longrightarrow>
         CSLSession_ActiveList_ScanProc_step env GetEventID OnEvent (AlAt 0 c) (al'\<lparr>al_nScanGroupCount := 0\<rparr>, n') = Inl DivByZero)"
proof -
  have "al_inv [] (AlTop, al, n)" using assms(3-5) by (simp add: al_inv_def)
  from al_run_inv [of GetEventID OnEvent "[]" "(AlTop, al, n)" env es, OF assms(1,2) this] obtain pc al' n' where
    r: "al_run env GetEventID OnEvent es (AlTop, al, n) = Inr (pc, al', n')" "al_inv (appended es) (pc, al', n')" by auto
  have "CSLSession_ActiveList_ScanProc_step env GetEventID OnEvent (AlAt 0 c) (al'\<lparr>al_nScanGroupCount := 0\<rparr>, n') = Inl DivByZero"
    if "al_lstSession al' = [p]" "0 \<le> fst (GetEventID p n')" for c p
    using that by (simp add: CSLSession_ActiveList_ScanProc_step_def al_count_def Let_def case_prod_unfold)
  then show ?thesis using r al_Close_sockets(2) [of env al' n'] unfolding Let_def by (auto simp: al_inv_def ac_simps)
qed

section \<open>Witness\<close>

text \<open>Session 8 ends at the first question, session 12 never.\<close>

definition al_env :: env where
  "al_env t c = Ok 1"

definition al_events :: "addr \<Rightarrow> net \<Rightarrow> int \<times> net" where
  "al_events p n = (if p = 8 then -1 else 0, n)"

definition al_demo_evs :: "al_ev list" where
  "al_demo_evs = [AlAppend 8, AlScan, AlAppend 12, AlScan, AlScan, AlScan]"

definition al_demo :: CSLSession_ActiveList where
  "al_demo = CSLSession_ActiveList_new 0 (CThread_new 0 0)"

lemma al_demo_runs:
  "case al_run al_env al_events CSLSession_OnEvent al_demo_evs (AlTop, al_demo, net0) of
     Inl e \<Rightarrow> False
   | Inr (pc, al, n) \<Rightarrow> al_lstSession al = [12] \<and> al_pending pc = []"
  by code_simp

lemma active_list_sessions_witness:
  "\<exists>pc al n. al_run al_env al_events CSLSession_OnEvent al_demo_evs (AlTop, al_demo, net0) = Inr (pc, al, n) \<and>
     mset [8, 12] = mset [12] + mset (uninit_sockets (n_trace n))"
proof -
  have "session_ok (al_events p)" "session_ok (CSLSession_OnEvent p e)" for p e
    by (simp_all add: session_ok_def al_events_def CSLSession_OnEvent_def)
  moreover have "n_trace net0 = []" "al_lstSession al_demo = []" "al_nScanGroupCount al_demo \<noteq> 0"
    by (simp_all add: net0_def al_demo_def CSLSession_ActiveList_new_def)
  ultimately have "\<exists>pc al' n'. al_run al_env al_events CSLSession_OnEvent al_demo_evs (AlTop, al_demo, net0) = Inr (pc, al', n') \<and>
      mset (appended al_demo_evs) = mset (al_lstSession al') + mset (uninit_sockets (n_trace n')) + mset (al_pending pc)"
    using active_list_sessions [of al_events CSLSession_OnEvent net0 al_demo al_env al_demo_evs] by blast
  then show ?thesis using al_demo_runs by (auto simp: al_demo_evs_def)
qed

end
