(* ===== verification/AppLog.thy ===== *)
theory AppLog
  imports Prelude
begin

text \<open>
  \<open>CAppLog\<close> of AppLog.cpp: a log in several files a day. Streams and files belong to the C library: a
  stream is open on a file until \<open>fclose\<close>, after which its pointer must not be used, and what is
  printed goes to the end of the file (mode \<open>a+\<close>). The clock is an argument: the date, the hour and the time
  as \<open>strftime\<close> formats them. Whether a file can be opened and whether \<open>fclose\<close> reports an error are
  arguments too.
\<close>

section \<open>Streams\<close>

record stdio =
  io_stream :: "addr \<Rightarrow> string option"
  io_next :: addr
  io_text :: "string \<Rightarrow> string"

record clib =
  can_open :: "string \<Rightarrow> bool"
  fclose_error :: "addr \<Rightarrow> bool"

definition fopen :: "clib \<Rightarrow> string \<Rightarrow> stdio \<Rightarrow> addr \<times> stdio" where
  "fopen L name s =
     (if can_open L name
      then (io_next s, s\<lparr>io_stream := (io_stream s)(io_next s \<mapsto> name), io_next := Suc (io_next s)\<rparr>)
      else (NULL, s))"

text \<open>The answer is 0 for a success; the stream is gone in either case.\<close>

definition fclose :: "clib \<Rightarrow> addr \<Rightarrow> stdio \<Rightarrow> cerror + int \<times> stdio" where
  "fclose L p s =
     (if io_stream s p = None then Inl DoubleFree
      else Inr (if fclose_error L p then -1 else 0, s\<lparr>io_stream := (io_stream s)(p := None)\<rparr>))"

definition fprintf :: "addr \<Rightarrow> string \<Rightarrow> stdio \<Rightarrow> cerror + stdio" where
  "fprintf p x s =
     (case io_stream s p of
        None \<Rightarrow> Inl UseAfterFree
      | Some f \<Rightarrow> Inr (s\<lparr>io_text := (io_text s)(f := io_text s f @ x)\<rparr>))"

fun decimal :: "nat \<Rightarrow> string" where
  "decimal n = (if n < 10 then [] else decimal (n div 10)) @ [char_of (48 + n mod 10)]"

declare decimal.simps [simp del]

definition decimal_int :: "int \<Rightarrow> string" where
  "decimal_int k = (if k < 0 then ''-'' else []) @ decimal (nat \<bar>k\<bar>)"

section \<open>CAppLog\<close>

datatype LOG_LEVEL = LOG_LEVEL_0 | LOG_LEVEL_1 | LOG_LEVEL_2 | LOG_LEVEL_3 | LOG_LEVEL_4 | LOG_LEVEL_5
  | LOG_LEVEL_6 | LOG_LEVEL_7 | LOG_LEVEL_8 | LOG_LEVEL_LAST

primrec level_number :: "LOG_LEVEL \<Rightarrow> nat" where
  "level_number LOG_LEVEL_0 = 0"
| "level_number LOG_LEVEL_1 = 1"
| "level_number LOG_LEVEL_2 = 2"
| "level_number LOG_LEVEL_3 = 3"
| "level_number LOG_LEVEL_4 = 4"
| "level_number LOG_LEVEL_5 = 5"
| "level_number LOG_LEVEL_6 = 6"
| "level_number LOG_LEVEL_7 = 7"
| "level_number LOG_LEVEL_8 = 8"
| "level_number LOG_LEVEL_LAST = 9"

lemma level_number_inject: "level_number a = level_number b \<Longrightarrow> a = b"
  by (cases a; cases b) simp_all

instantiation LOG_LEVEL :: linorder
begin

definition less_eq_LOG_LEVEL :: "LOG_LEVEL \<Rightarrow> LOG_LEVEL \<Rightarrow> bool" where
  "less_eq_LOG_LEVEL a b \<longleftrightarrow> level_number a \<le> level_number b"

definition less_LOG_LEVEL :: "LOG_LEVEL \<Rightarrow> LOG_LEVEL \<Rightarrow> bool" where
  "less_LOG_LEVEL a b \<longleftrightarrow> level_number a < level_number b"

instance
  by standard (auto simp: less_eq_LOG_LEVEL_def less_LOG_LEVEL_def intro: level_number_inject)

end

record CAppLog =
  lg_pFile :: addr
  lg_strLogPath :: string
  lg_strLogFileNamePrefix :: string
  lg_strLogLastFileName :: string
  lg_nLogLevel :: LOG_LEVEL
  lg_nEverydayLogFileNum :: u16

type_synonym lg_state = "CAppLog \<times> stdio"

record clock =
  ck_date :: string
  ck_hour :: nat
  ck_time :: string

definition CAppLog_new :: CAppLog where
  "CAppLog_new = \<lparr>lg_pFile = NULL, lg_strLogPath = [], lg_strLogFileNamePrefix = [], lg_strLogLastFileName = [],
     lg_nLogLevel = LOG_LEVEL_0, lg_nEverydayLogFileNum = 1\<rparr>"

text \<open>The test of the answer of \<open>fclose\<close> is the wrong way round.\<close>

definition CAppLog_CloseLog :: "clib \<Rightarrow> lg_state \<Rightarrow> cerror + bool \<times> lg_state" where
  "CAppLog_CloseLog L st =
     (case st of (lg, s) \<Rightarrow>
        if lg_pFile lg \<noteq> NULL
        then rbind (fclose L (lg_pFile lg) s) (\<lambda>(r, s1).
               if r = 0 then Inr (False, lg, s1) else Inr (True, lg\<lparr>lg_pFile := NULL\<rparr>, s1))
        else Inr (True, lg, s))"

definition CAppLog_delete :: "clib \<Rightarrow> lg_state \<Rightarrow> cerror + bool \<times> lg_state" where
  "CAppLog_delete L st =
     (case st of (lg, s) \<Rightarrow>
        CAppLog_CloseLog L (lg\<lparr>lg_strLogPath := [], lg_strLogFileNamePrefix := [], lg_strLogLastFileName := []\<rparr>, s))"

definition CAppLog_OpenLog ::
    "clib \<Rightarrow> string \<Rightarrow> string \<Rightarrow> LOG_LEVEL \<Rightarrow> u16 \<Rightarrow> lg_state \<Rightarrow> cerror + bool \<times> lg_state" where
  "CAppLog_OpenLog L pszLogPath pszLogFileNamePrefix nLogLevel nEverydayLogFileNum st =
     (case st of (lg, s) \<Rightarrow>
        let lg1 = lg\<lparr>lg_strLogPath := pszLogPath, lg_strLogFileNamePrefix := pszLogFileNamePrefix,
              lg_nLogLevel := nLogLevel,
              lg_nEverydayLogFileNum :=
                (if nEverydayLogFileNum \<le> 0 then 1 else if nEverydayLogFileNum > 24 then 2 else nEverydayLogFileNum)\<rparr>
        in rbind (CAppLog_CloseLog L (lg1, s)) (\<lambda>(b, st1). Inr (True, st1)))"

text \<open>The number of the file of an hour, and its name; the buffer of the number has 3 bytes.\<close>

definition nLogFileID :: "nat \<Rightarrow> CAppLog \<Rightarrow> u16" where
  "nLogFileID tm_hour lg = of_nat (tm_hour * unat (lg_nEverydayLogFileNum lg) div 24 + 1)"

definition log_name :: "clock \<Rightarrow> CAppLog \<Rightarrow> string" where
  "log_name ck lg =
     lg_strLogFileNamePrefix lg @ ck_date ck @ ''_'' @ decimal (unat (nLogFileID (ck_hour ck) lg)) @ ''.log''"

definition CAppLog_BuildFile :: "clib \<Rightarrow> clock \<Rightarrow> lg_state \<Rightarrow> cerror + bool \<times> lg_state" where
  "CAppLog_BuildFile L ck st =
     (case st of (lg, s) \<Rightarrow>
        if 3 \<le> length (decimal (unat (nLogFileID (ck_hour ck) lg))) then Inl OutOfBounds
        else rbind
          (if lg_pFile lg = NULL
           then let lg1 = lg\<lparr>lg_strLogLastFileName := log_name ck lg\<rparr>;
                    (p, s1) = fopen L (lg_strLogPath lg1 @ lg_strLogLastFileName lg1) s
                in Inr (lg1\<lparr>lg_pFile := p\<rparr>, s1)
           else if lg_strLogLastFileName lg \<noteq> log_name ck lg
           then rbind (CAppLog_CloseLog L (lg, s)) (\<lambda>(b, lg1, s1).
                  let lg2 = lg1\<lparr>lg_strLogLastFileName := log_name ck lg\<rparr>;
                      (p, s2) = fopen L (lg_strLogPath lg2 @ lg_strLogLastFileName lg2) s1
                  in Inr (lg2\<lparr>lg_pFile := p\<rparr>, s2))
           else Inr (lg, s))
          (\<lambda>(lg3, s3). Inr (lg_pFile lg3 \<noteq> NULL, lg3, s3)))"

text \<open>Whether a message is written at all.\<close>

definition level_passes :: "LOG_LEVEL \<Rightarrow> bool \<Rightarrow> CAppLog \<Rightarrow> bool" where
  "level_passes nLevel bLevelEqual lg =
     (if lg_nLogLevel lg = LOG_LEVEL_0 then False
      else if bLevelEqual then \<not> lg_nLogLevel lg \<noteq> nLevel
      else \<not> lg_nLogLevel lg > nLevel)"

definition source_line :: "clock \<Rightarrow> nat \<Rightarrow> string \<Rightarrow> int \<Rightarrow> string" where
  "source_line ck tid pszFileName nLine =
     ck_time ck @ ''; Thread ID:'' @ decimal tid @ ''; Source:'' @ pszFileName @ '','' @ decimal_int nLine @ '' '' @ [char_of (10 :: nat)]"

definition CAppLog_WriteLog_source ::
    "clib \<Rightarrow> clock \<Rightarrow> nat \<Rightarrow> string \<Rightarrow> string \<Rightarrow> int \<Rightarrow> LOG_LEVEL \<Rightarrow> bool \<Rightarrow> lg_state \<Rightarrow> cerror + bool \<times> lg_state" where
  "CAppLog_WriteLog_source L ck tid pszLog pszFileName nLine nLevel bLevelEqual st =
     (if \<not> level_passes nLevel bLevelEqual (fst st) then Inr (False, st)
      else rbind (CAppLog_BuildFile L ck st) (\<lambda>(b, lg, s).
             if \<not> b then Inr (False, lg, s)
             else rbind (fprintf (lg_pFile lg) (source_line ck tid pszFileName nLine) s) (\<lambda>s1.
                  rbind (fprintf (lg_pFile lg) (pszLog @ [char_of (10 :: nat)]) s1) (\<lambda>s2. Inr (True, lg, s2)))))"

definition CAppLog_WriteLog ::
    "clib \<Rightarrow> clock \<Rightarrow> string \<Rightarrow> LOG_LEVEL \<Rightarrow> bool \<Rightarrow> lg_state \<Rightarrow> cerror + bool \<times> lg_state" where
  "CAppLog_WriteLog L ck pszLog nLevel bLevelEqual st =
     (if \<not> level_passes nLevel bLevelEqual (fst st) then Inr (False, st)
      else rbind (CAppLog_BuildFile L ck st) (\<lambda>(b, lg, s).
             if \<not> b then Inr (False, lg, s)
             else rbind (fprintf (lg_pFile lg) (pszLog @ '', '' @ ck_time ck @ [char_of (10 :: nat)]) s)
                    (\<lambda>s1. Inr (True, lg, s1))))"

section \<open>The files of a day\<close>

lemma file_id_bounds:
  assumes "h < 24" "1 \<le> m" "m \<le> (24 :: nat)"
  shows "h * m div 24 + 1 \<le> m"
proof -
  have "h * m \<le> 23 * m" using assms(1) by simp
  then have "h * m div 24 \<le> 23 * m div 24" by (rule div_le_mono)
  moreover have "23 * m div 24 < m" using assms(2) by (simp add: less_mult_imp_div_less)
  ultimately show ?thesis by simp
qed

text \<open>Every file gets an hour: file \<open>i + 1\<close> the first whole hour after \<open>i * 24 / m\<close>.\<close>

lemma file_id_onto:
  assumes "i < m" "m \<le> (24 :: nat)"
  shows "\<exists>h < 24. h * m div 24 = i"
proof -
  let ?h = "(24 * i + m - 1) div m"
  have m: "0 < m" using assms(1) by simp
  have "?h * m + (24 * i + m - 1) mod m = 24 * i + m - 1" by (rule div_mult_mod_eq)
  moreover have "(24 * i + m - 1) mod m < m" using m by simp
  ultimately have b: "24 * i \<le> ?h * m" "?h * m < 24 * i + m" using m by linarith+
  have "?h * m < 24 * i + 24" using b(2) assms(2) by linarith
  then have "?h * m div 24 = i" using b(1) by (metis (no_types, opaque_lifting) add.commute div_nat_eqI mult.commute mult_Suc_right)
  moreover have "?h < 24"
  proof -
    have "24 * i + m \<le> 24 * m" using assms by linarith
    then have "?h * m < 24 * m" using b(2) by linarith
    then show ?thesis by simp
  qed
  ultimately show ?thesis by blast
qed

lemma length_decimal_small: "n < 100 \<Longrightarrow> length (decimal n) \<le> 2"
  by (subst decimal.simps, subst decimal.simps) auto

lemma CAppLog_OpenLog_num:
  assumes "CAppLog_OpenLog L path pre lev k st = Inr (b, lg, s)"
  shows "1 \<le> unat (lg_nEverydayLogFileNum lg) \<and> unat (lg_nEverydayLogFileNum lg) \<le> 24"
proof -
  let ?m = "if k \<le> 0 then 1 else if k > 24 then 2 else k"
  have "lg_nEverydayLogFileNum lg = ?m"
    using assms by (cases st) (auto simp: CAppLog_OpenLog_def CAppLog_CloseLog_def res_simps Let_def split: if_splits)
  moreover have "1 \<le> unat ?m \<and> unat ?m \<le> 24"
  proof (cases "k = 0 \<or> k > 24")
    case False
    then have "unat k \<noteq> 0" "unat k \<le> unat (24 :: u16)" by (auto simp: unat_eq_zero word_le_nat_alt not_less)
    then show ?thesis using False by auto
  qed auto
  ultimately show ?thesis by simp
qed

section \<open>A run of messages\<close>

definition log_num_ok :: "CAppLog \<Rightarrow> bool" where
  "log_num_ok lg \<longleftrightarrow> 1 \<le> unat (lg_nEverydayLogFileNum lg) \<and> unat (lg_nEverydayLogFileNum lg) \<le> 24"

lemma nLogFileID_bounds:
  assumes "log_num_ok lg" "h < 24"
  shows "unat (nLogFileID h lg) = h * unat (lg_nEverydayLogFileNum lg) div 24 + 1"
    "unat (nLogFileID h lg) \<le> unat (lg_nEverydayLogFileNum lg)"
proof -
  let ?m = "unat (lg_nEverydayLogFileNum lg)"
  have b: "h * ?m div 24 + 1 \<le> ?m" "?m \<le> 24"
    using file_id_bounds [OF assms(2), of ?m] assms(1) by (simp_all add: log_num_ok_def)
  then have "h * ?m div 24 + 1 < 65536" by linarith
  then show e: "unat (nLogFileID h lg) = h * ?m div 24 + 1"
    by (simp add: nLogFileID_def unsigned_of_nat take_bit_nat_eq_self del: of_nat_add of_nat_Suc)
  show "unat (nLogFileID h lg) \<le> ?m" using b(1) e by simp
qed

datatype log_call = LogSource clock nat string string int LOG_LEVEL bool | LogPlain clock string LOG_LEVEL bool

fun call_clock :: "log_call \<Rightarrow> clock" where
  "call_clock (LogSource ck tid x f l lev eq) = ck"
| "call_clock (LogPlain ck x lev eq) = ck"

fun call_passes :: "log_call \<Rightarrow> CAppLog \<Rightarrow> bool" where
  "call_passes (LogSource ck tid x f l lev eq) lg = level_passes lev eq lg"
| "call_passes (LogPlain ck x lev eq) lg = level_passes lev eq lg"

fun call_text :: "log_call \<Rightarrow> string" where
  "call_text (LogSource ck tid x f l lev eq) = source_line ck tid f l @ x @ [char_of (10 :: nat)]"
| "call_text (LogPlain ck x lev eq) = x @ '', '' @ ck_time ck @ [char_of (10 :: nat)]"

fun log_step :: "clib \<Rightarrow> log_call \<Rightarrow> lg_state \<Rightarrow> cerror + bool \<times> lg_state" where
  "log_step L (LogSource ck tid x f l lev eq) st = CAppLog_WriteLog_source L ck tid x f l lev eq st"
| "log_step L (LogPlain ck x lev eq) st = CAppLog_WriteLog L ck x lev eq st"

fun log_run :: "clib \<Rightarrow> log_call list \<Rightarrow> lg_state \<Rightarrow> cerror + lg_state" where
  "log_run L [] st = Inr st"
| "log_run L (c # cs) st = rbind (log_step L c st) (\<lambda>(b, st1). log_run L cs st1)"

text \<open>What the settings of a log say of a call: the file it goes to.\<close>

definition call_file :: "CAppLog \<Rightarrow> log_call \<Rightarrow> string" where
  "call_file lg c = lg_strLogPath lg @ log_name (call_clock c) lg"

text \<open>The stream, if any, is open on the file of the last name.\<close>

definition log_ok :: "lg_state \<Rightarrow> bool" where
  "log_ok st \<longleftrightarrow> (case st of (lg, s) \<Rightarrow> log_num_ok lg \<and> 0 < io_next s \<and>
     (lg_pFile lg \<noteq> NULL \<longrightarrow> io_stream s (lg_pFile lg) = Some (lg_strLogPath lg @ lg_strLogLastFileName lg)))"

definition same_settings :: "CAppLog \<Rightarrow> CAppLog \<Rightarrow> bool" where
  "same_settings lg lg' \<longleftrightarrow> lg_strLogPath lg' = lg_strLogPath lg \<and> lg_strLogFileNamePrefix lg' = lg_strLogFileNamePrefix lg \<and>
     lg_nLogLevel lg' = lg_nLogLevel lg \<and> lg_nEverydayLogFileNum lg' = lg_nEverydayLogFileNum lg"

lemma same_settings_refl [simp]: "same_settings lg lg"
  by (simp add: same_settings_def)

lemma same_settings_cong:
  "same_settings lg lg' \<Longrightarrow> call_file lg' = call_file lg \<and> (\<lambda>c. call_passes c lg') = (\<lambda>c. call_passes c lg) \<and> log_num_ok lg' = log_num_ok lg"
  by (intro conjI ext) (auto simp: same_settings_def call_file_def log_name_def nLogFileID_def log_num_ok_def
      level_passes_def elim!: call_passes.elims)

lemma BuildFile_ok:
  assumes "log_ok (lg, s)" "\<And>f. can_open L f" "ck_hour ck < 24"
  shows "\<exists>lg' s'. CAppLog_BuildFile L ck (lg, s) = Inr (True, lg', s') \<and> log_ok (lg', s') \<and> same_settings lg lg' \<and>
    lg_pFile lg' \<noteq> NULL \<and> lg_strLogLastFileName lg' = log_name ck lg \<and> io_text s' = io_text s"
proof -
  have m: "log_num_ok lg" "unat (lg_nEverydayLogFileNum lg) \<le> 24" using assms(1) by (simp_all add: log_ok_def log_num_ok_def)
  have "length (decimal (unat (nLogFileID (ck_hour ck) lg))) \<le> 2"
    using nLogFileID_bounds(2) [OF m(1) assms(3)] m(2) by (intro length_decimal_small) linarith
  then have len: "\<not> 3 \<le> length (decimal (unat (nLogFileID (ck_hour ck) lg)))" by simp
  have nx: "0 < io_next s" using assms(1) by (simp add: log_ok_def)
  show ?thesis
  proof (cases "lg_pFile lg = NULL")
    case True
    then show ?thesis using len nx m(1) assms(2)
      by (auto simp: CAppLog_BuildFile_def fopen_def log_ok_def same_settings_def log_num_ok_def Let_def)
  next
    case False
    then have st: "io_stream s (lg_pFile lg) = Some (lg_strLogPath lg @ lg_strLogLastFileName lg)"
      using assms(1) by (simp add: log_ok_def)
    show ?thesis
    proof (cases "lg_strLogLastFileName lg = log_name ck lg")
      case True
      then show ?thesis using False len assms(1) by (simp add: CAppLog_BuildFile_def)
    next
      case name: False
      let ?s1 = "s\<lparr>io_stream := (io_stream s)(lg_pFile lg := None)\<rparr>"
      have "\<exists>b lg1. CAppLog_CloseLog L (lg, s) = Inr (b, lg1, ?s1) \<and> same_settings lg lg1"
        using False st by (auto simp: CAppLog_CloseLog_def fclose_def same_settings_def)
      then obtain b lg1 where c: "CAppLog_CloseLog L (lg, s) = Inr (b, lg1, ?s1)" "same_settings lg lg1" by blast
      then show ?thesis using False name len nx m(1) assms(2)
        by (auto simp: CAppLog_BuildFile_def fopen_def log_ok_def same_settings_def log_num_ok_def Let_def)
    qed
  qed
qed

lemma log_step_ok:
  assumes "log_ok (lg, s)" "\<And>f. can_open L f" "ck_hour (call_clock c) < 24"
  shows "\<exists>lg' s'. log_step L c (lg, s) = Inr (call_passes c lg, lg', s') \<and> log_ok (lg', s') \<and> same_settings lg lg' \<and>
    io_text s' = (if call_passes c lg then (io_text s)(call_file lg c := io_text s (call_file lg c) @ call_text c) else io_text s)"
proof (cases "call_passes c lg")
  case False
  then show ?thesis using assms(1)
    by (cases c) (auto simp: CAppLog_WriteLog_def CAppLog_WriteLog_source_def)
next
  case True
  from BuildFile_ok [OF assms] obtain lg' s' where
    b: "CAppLog_BuildFile L (call_clock c) (lg, s) = Inr (True, lg', s')" "log_ok (lg', s')" "same_settings lg lg'"
       "lg_pFile lg' \<noteq> NULL" "lg_strLogLastFileName lg' = log_name (call_clock c) lg" "io_text s' = io_text s" by blast
  have st: "io_stream s' (lg_pFile lg') = Some (call_file lg c)"
    using b(2-5) by (simp add: log_ok_def call_file_def same_settings_def)
  let ?s2 = "s'\<lparr>io_text := (io_text s)(call_file lg c := io_text s (call_file lg c) @ call_text c)\<rparr>"
  have "log_step L c (lg, s) = Inr (True, lg', ?s2)"
    using True b(1,6) st by (cases c) (simp_all add: CAppLog_WriteLog_def CAppLog_WriteLog_source_def fprintf_def)
  moreover have "log_ok (lg', ?s2)" using b(2) by (simp add: log_ok_def)
  ultimately show ?thesis using b(3) True by auto
qed

lemma log_run_ok:
  assumes "\<And>f. can_open L f"
  shows "log_ok (lg, s) \<Longrightarrow> \<forall>c \<in> set cs. ck_hour (call_clock c) < 24 \<Longrightarrow>
    \<exists>lg' s'. log_run L cs (lg, s) = Inr (lg', s') \<and> log_ok (lg', s') \<and> same_settings lg lg' \<and>
      (\<forall>f. io_text s' f = io_text s f @ concat (map call_text (filter (\<lambda>c. call_passes c lg \<and> call_file lg c = f) cs)))"
proof (induction cs arbitrary: lg s)
  case (Cons c cs)
  obtain lg1 s1 where st: "log_step L c (lg, s) = Inr (call_passes c lg, lg1, s1)" "log_ok (lg1, s1)" "same_settings lg lg1"
    "io_text s1 = (if call_passes c lg then (io_text s)(call_file lg c := io_text s (call_file lg c) @ call_text c) else io_text s)"
    using log_step_ok [OF Cons.prems(1) assms, of c] Cons.prems(2) by auto
  from Cons.IH [OF st(2)] Cons.prems(2) obtain lg2 s2 where ih: "log_run L cs (lg1, s1) = Inr (lg2, s2)" "log_ok (lg2, s2)"
    "same_settings lg1 lg2"
    "\<forall>f. io_text s2 f = io_text s1 f @ concat (map call_text (filter (\<lambda>c. call_passes c lg1 \<and> call_file lg1 c = f) cs))" by auto
  have "call_file lg1 = call_file lg" "call_passes d lg1 = call_passes d lg" for d
    using same_settings_cong [OF st(3)] by (auto dest: fun_cong)
  moreover have "same_settings lg lg2" using st(3) ih(3) by (simp add: same_settings_def)
  ultimately show ?case using st(1,4) ih(1,2,4) by auto
qed simp

text \<open>After a successful \<open>CloseLog\<close> of an open log, whatever uses the log faults.\<close>

lemma closed_log_faults:
  assumes "log_ok (lg, s)" "lg_pFile lg \<noteq> NULL" "\<not> fclose_error L (lg_pFile lg)"
  shows "\<exists>s1. CAppLog_CloseLog L (lg, s) = Inr (False, lg, s1) \<and> CAppLog_CloseLog L (lg, s1) = Inl DoubleFree \<and>
    CAppLog_delete L (lg, s1) = Inl DoubleFree \<and>
    (ck_hour ck < 24 \<longrightarrow> level_passes lev eq lg \<longrightarrow> CAppLog_WriteLog L ck x lev eq (lg, s1) =
       Inl (if lg_strLogLastFileName lg = log_name ck lg then UseAfterFree else DoubleFree))"
proof -
  let ?s1 = "s\<lparr>io_stream := (io_stream s)(lg_pFile lg := None)\<rparr>"
  have "io_stream s (lg_pFile lg) \<noteq> None" using assms(1,2) by (simp add: log_ok_def)
  then have "CAppLog_CloseLog L (lg, s) = Inr (False, lg, ?s1)" using assms(2,3)
    by (simp add: CAppLog_CloseLog_def fclose_def)
  moreover have c: "CAppLog_CloseLog L (lg, ?s1) = Inl DoubleFree" "CAppLog_delete L (lg, ?s1) = Inl DoubleFree"
    using assms(2) by (simp_all add: CAppLog_CloseLog_def CAppLog_delete_def fclose_def)
  moreover have "CAppLog_WriteLog L ck x lev eq (lg, ?s1) =
      Inl (if lg_strLogLastFileName lg = log_name ck lg then UseAfterFree else DoubleFree)"
    if h: "ck_hour ck < 24" "level_passes lev eq lg"
  proof -
    have m: "log_num_ok lg" "unat (lg_nEverydayLogFileNum lg) \<le> 24" using assms(1) by (simp_all add: log_ok_def log_num_ok_def)
    have "length (decimal (unat (nLogFileID (ck_hour ck) lg))) \<le> 2"
      using nLogFileID_bounds(2) [OF m(1) h(1)] m(2) by (intro length_decimal_small) linarith
    then show ?thesis using h(2) assms(2) c(1)
      by (simp add: CAppLog_WriteLog_def CAppLog_BuildFile_def fprintf_def)
  qed
  ultimately show ?thesis by blast
qed

section \<open>Properties\<close>


section \<open>Witness\<close>

definition log_clib :: clib where
  "log_clib = \<lparr>can_open = (\<lambda>f. True), fclose_error = (\<lambda>p. False)\<rparr>"

definition log_io :: stdio where
  "log_io = \<lparr>io_stream = Map.empty, io_next = 1, io_text = (\<lambda>f. [])\<rparr>"

definition log_demo :: "log_call list" where
  "log_demo = [LogPlain \<lparr>ck_date = ''d'', ck_hour = 11, ck_time = ''t''\<rparr> ''one'' LOG_LEVEL_7 False,
     LogPlain \<lparr>ck_date = ''d'', ck_hour = 12, ck_time = ''t''\<rparr> ''two'' LOG_LEVEL_7 False]"


end
