(* ===== verification/ServiceApi.thy ===== *)
theory ServiceApi
  imports Prelude
begin

text \<open>
  What NTService.cpp is built on: strings of 16-bit characters (the project is built with UNICODE), buffers of bytes
  that are read and written as such strings, the object with the calls of the system that it makes, and the sequencing of
  its statements. A call of the system is answered by an environment, a function of the calls and answers so far.
\<close>

section \<open>Characters and buffers\<close>

type_synonym TCHAR = u16
type_synonym tstr = "TCHAR list"

text \<open>A literal.\<close>

definition TEXT :: "string \<Rightarrow> tstr" where
  "TEXT s = map (\<lambda>c. of_nat (of_char c)) s"

lemma TEXT_simps: "TEXT [] = []" "TEXT (c # s) = of_nat (of_char c) # TEXT s"
  by (simp_all add: TEXT_def)

lemma length_TEXT [simp]: "length (TEXT s) = length s"
  by (simp add: TEXT_def)

fun tbytes :: "tstr \<Rightarrow> byte list" where
  "tbytes [] = []"
| "tbytes (c # cs) = ucast c # ucast (drop_bit 8 c) # tbytes cs"

text \<open>The whole characters of a buffer; a last odd byte is none.\<close>

fun tchars :: "byte list \<Rightarrow> tstr" where
  "tchars (a # b # bs) = (ucast a + push_bit 8 (ucast b)) # tchars bs"
| "tchars bs = []"

text \<open>The string at character \<open>p\<close>: reading goes on to the first 0, which must be in the buffer.\<close>

definition tstr_at :: "byte list \<Rightarrow> nat \<Rightarrow> cerror + tstr" where
  "tstr_at buf p =
     (let s = takeWhile (\<lambda>c. c \<noteq> 0) (drop p (tchars buf))
      in if p + length s < length (tchars buf) then Inr s else Inl OutOfBounds)"

text \<open>\<open>_tcscpy\<close> to character \<open>p\<close>.\<close>

definition tcscpy_at :: "byte list \<Rightarrow> nat \<Rightarrow> tstr \<Rightarrow> cerror + byte list" where
  "tcscpy_at buf p s =
     (if 2 * (p + length s + 1) \<le> length buf
      then Inr (take (2 * p) buf @ tbytes (s @ [0]) @ drop (2 * (p + length s + 1)) buf)
      else Inl OutOfBounds)"

lemma length_tbytes [simp]: "length (tbytes s) = 2 * length s"
  by (induction s) auto

lemma tbytes_append [simp]: "tbytes (s @ t) = tbytes s @ tbytes t"
  by (induction s) auto

lemma ucast_byte_pair: "ucast (ucast (c :: TCHAR) :: byte) + push_bit 8 (ucast (ucast (drop_bit 8 c) :: byte)) = c"
proof -
  have "ucast (ucast c :: byte) AND push_bit 8 (ucast (ucast (drop_bit 8 c) :: byte)) = (0 :: TCHAR)"
    by (rule bit_eqI) (auto simp: bit_simps)
  then have "ucast (ucast c :: byte) + push_bit 8 (ucast (ucast (drop_bit 8 c) :: byte)) =
      (ucast (ucast c :: byte) OR push_bit 8 (ucast (ucast (drop_bit 8 c) :: byte)) :: TCHAR)"
    by (rule disjunctive_add_eq_or)
  also have "\<dots> = c"
    by (rule bit_eqI) (auto simp: bit_simps)
  finally show ?thesis .
qed

lemma tchars_tbytes [simp]: "tchars (tbytes s @ bs) = s @ tchars bs"
  by (induction s) (auto simp: ucast_byte_pair)

lemma tchars_tbytes_only [simp]: "tchars (tbytes s) = s"
  using tchars_tbytes [of s "[]"] by simp

lemma length_tchars [simp]: "length (tchars bs) = length bs div 2"
  by (induction bs rule: tchars.induct) auto

lemma drop_tchars: "drop p (tchars bs) = tchars (drop (2 * p) bs)"
proof (induction bs arbitrary: p rule: tchars.induct)
  case (1 a b bs)
  then show ?case by (cases p) auto
qed (simp_all add: drop_Cons')

lemma takeWhile_zero [simp]: "(0 :: TCHAR) \<notin> set s \<Longrightarrow> takeWhile (\<lambda>c. c \<noteq> 0) (s @ 0 # r) = s"
  by (induction s) auto

lemma tstr_at_less: "tstr_at buf p = Inr s \<Longrightarrow> 2 * (p + length s) < length buf"
  by (auto simp: tstr_at_def Let_def split: if_splits)

lemma tstr_at_Inr:
  assumes "drop p (tchars buf) = s @ 0 # rest" "0 \<notin> set s"
  shows "tstr_at buf p = Inr s"
proof -
  have "takeWhile (\<lambda>c. c \<noteq> 0) (drop p (tchars buf)) = s"
    using assms by simp
  moreover have "length (drop p (tchars buf)) = length s + Suc (length rest)" using assms(1) by simp
  then have "p + length s < length (tchars buf)" by (simp only: length_drop)
  ultimately show ?thesis by (simp add: tstr_at_def)
qed

section \<open>Strings ended by an empty one\<close>

text \<open>The layout of a value of type \<open>REG_MULTI_SZ\<close>, and the strings that a reader of such a value finds: up to the first
  empty one, or to the end.\<close>

definition multi_sz :: "tstr list \<Rightarrow> tstr" where
  "multi_sz ss = concat (map (\<lambda>s. s @ [0]) ss) @ [0]"

function read_multi :: "tstr \<Rightarrow> tstr list" where
  "read_multi cs =
     (let s = takeWhile (\<lambda>c. c \<noteq> 0) cs
      in if s = [] then [] else s # read_multi (drop (Suc (length s)) cs))"
  by auto

termination
  by (relation "measure length") (auto simp: Let_def takeWhile_eq_Nil_iff)

declare read_multi.simps [simp del]

definition good_str :: "tstr \<Rightarrow> bool" where
  "good_str s \<longleftrightarrow> s \<noteq> [] \<and> 0 \<notin> set s"

lemma read_multi_Nil [simp]: "read_multi [] = []" "read_multi (0 # cs) = []"
  by (subst read_multi.simps, simp)+

lemma read_multi_str: "good_str s \<Longrightarrow> read_multi (s @ 0 # cs) = s # read_multi cs"
  by (subst read_multi.simps) (simp add: good_str_def Let_def)

lemma read_multi_strs:
  "\<forall>s \<in> set ss. good_str s \<Longrightarrow> read_multi (concat (map (\<lambda>s. s @ [0]) ss) @ cs) = ss @ read_multi cs"
  by (induction ss) (auto simp: read_multi_str)

lemma read_multi_sz: "\<forall>s \<in> set ss. good_str s \<Longrightarrow> read_multi (multi_sz ss) = ss"
  by (simp add: multi_sz_def read_multi_strs)

section \<open>The system\<close>

record SERVICE_STATUS =
  dwServiceType :: u32
  dwCurrentState :: u32
  dwControlsAccepted :: u32
  dwWin32ExitCode :: u32
  dwServiceSpecificExitCode :: u32
  dwCheckPoint :: u32
  dwWaitHint :: u32

text \<open>The arguments of \<open>CreateService\<close>; NULL is \<open>None\<close>, and \<open>cf_tag\<close> says whether an address for the tag is given.\<close>

record svc_config =
  cf_name :: tstr
  cf_display :: tstr
  cf_access :: u32
  cf_type :: u32
  cf_start :: u32
  cf_error :: u32
  cf_path :: tstr
  cf_group :: "tstr option"
  cf_tag :: bool
  cf_depend :: "tstr option"
  cf_account :: "tstr option"
  cf_password :: "tstr option"

datatype reg_type = REG_SZ | REG_EXPAND_SZ | REG_DWORD | REG_MULTI_SZ | REG_OTHER u32

datatype nt_call =
    GetVersionEx | GetUserName | LookupAccountName tstr | IsValidSid "byte list" | GetLengthSid "byte list"
  | GetModuleFileName | CommandLineToArgvW | GlobalFree_argv nat
  | OpenSCManager | OpenService u32 tstr | CreateService u32 svc_config | CloseServiceHandle u32
  | ControlService u32 u32 | QueryServiceStatus u32 | DeleteService u32 | StartService u32
  | StartServiceCtrlDispatcher tstr | RegisterServiceCtrlHandler tstr | SetServiceStatus u32 SERVICE_STATUS
  | Sleep u32 | Tprintf string "tstr list" | GetLastError | FormatMessage u32 | LocalFree u32
  | RegisterEventSource tstr | ReportEvent u32 u16 u32 "byte list option" tstr | DeregisterEventSource u32
  | RegCreateKey tstr | RegOpenKeyEx tstr | RegCloseKey u32 | RegDeleteKey tstr | RegDeleteValue u32 tstr
  | RegSetValueEx u32 tstr reg_type "byte list" | RegQueryValueEx u32 tstr "u32 option" | GlobalAlloc u32 | GlobalFree u32
  | AllocConsole | GetStdHandle u32 | Open_osfhandle u32 | Fdopen u32 string | SetStream nat u32 | Setvbuf u32
  | SetConsoleCtrlHandler | RegisterClass | CreateWindow | GetProcAddress | RegisterServiceProcess u32
  | DestroyWindow | DefWindowProc u32 u32
  | LoadSocketLib | UnloadSocketLib | DoRun | DoStop | SignalStop | LockStop

text \<open>An answer: the value, an output number, an output string, output data and its type, an output list of strings, and the status that was filled
  in, if any.\<close>

record nt_answer =
  an_num :: u32
  an_out :: u32
  an_text :: tstr
  an_data :: "byte list"
  an_type :: reg_type
  an_args :: "tstr list"
  an_status :: "SERVICE_STATUS option"

type_synonym nt_trace = "(nt_call \<times> nt_answer) list"
type_synonym nt_env = "nt_trace \<Rightarrow> nt_call \<Rightarrow> nt_answer"

section \<open>The object and its statements\<close>

record CNTService =
  m_lpServiceName :: tstr
  m_lpDisplayName :: tstr
  m_dwCheckPoint :: u32
  m_dwErr :: u32
  m_bDebug :: bool
  m_ssStatus :: SERVICE_STATUS
  m_sshStatusHandle :: u32
  m_dwControlsAccepted :: u32
  m_pUserSID :: "byte list option"
  m_bWinNT :: bool
  m_fConsoleReady :: bool
  m_dwDesiredAccess :: u32
  m_dwServiceType :: u32
  m_dwStartType :: u32
  m_dwErrorControl :: u32
  m_pszLoadOrderGroup :: "tstr option"
  m_dwTagID :: u32
  m_pszDependencies :: "tstr option"
  m_pszStartName :: "tstr option"
  m_pszPassword :: "tstr option"

text \<open>The one object of the program, the globals \<open>m_bInstance\<close> and \<open>gpTheService\<close> (whether it points to the object), and the calls
  so far.\<close>

record nt_world =
  nw_this :: CNTService
  nw_bInstance :: bool
  nw_gpTheService :: bool
  nw_trace :: nt_trace

text \<open>A statement may fault, and may not end (\<open>None\<close>).\<close>

type_synonym 'a nt = "nt_world \<Rightarrow> (cerror + 'a \<times> nt_world) option"

definition nret :: "'a \<Rightarrow> 'a nt" where
  "nret x = (\<lambda>w. Some (Inr (x, w)))"

definition nfault :: "cerror \<Rightarrow> 'a nt" where
  "nfault e = (\<lambda>w. Some (Inl e))"

definition nbind :: "'a nt \<Rightarrow> ('a \<Rightarrow> 'b nt) \<Rightarrow> 'b nt" where
  "nbind m f = (\<lambda>w. case m w of None \<Rightarrow> None | Some (Inl e) \<Rightarrow> Some (Inl e) | Some (Inr (x, w1)) \<Rightarrow> f x w1)"

definition nthen :: "'a nt \<Rightarrow> 'b nt \<Rightarrow> 'b nt" where
  "nthen m k = nbind m (\<lambda>x. k)"

definition nskip :: "unit nt" where
  "nskip = nret ()"

definition nlift :: "cerror + 'a \<Rightarrow> 'a nt" where
  "nlift r = (\<lambda>w. Some (rbind r (\<lambda>x. Inr (x, w))))"

definition this :: "(CNTService \<Rightarrow> 'a) \<Rightarrow> 'a nt" where
  "this f = (\<lambda>w. Some (Inr (f (nw_this w), w)))"

definition nset :: "(CNTService \<Rightarrow> CNTService) \<Rightarrow> unit nt" where
  "nset f = (\<lambda>w. Some (Inr ((), w\<lparr>nw_this := f (nw_this w)\<rparr>)))"

definition nsys :: "nt_env \<Rightarrow> nt_call \<Rightarrow> nt_answer nt" where
  "nsys env c = (\<lambda>w. Some (Inr (env (nw_trace w) c, w\<lparr>nw_trace := nw_trace w @ [(c, env (nw_trace w) c)]\<rparr>)))"

text \<open>The calls that a statement makes, when it ends without a fault.\<close>

fun nt_calls :: "(cerror + 'a \<times> nt_world) option \<Rightarrow> nt_call list" where
  "nt_calls (Some (Inr (x, w))) = map fst (nw_trace w)"
| "nt_calls r = []"

lemmas nt_simps = nret_def nfault_def nbind_def nthen_def nskip_def nlift_def this_def nset_def nsys_def

lemma nbind_simps [simp]:
  "nbind (nret x) f = f x" "nbind (nfault e) f = nfault e" "nbind (nbind m f) g = nbind m (\<lambda>x. nbind (f x) g)"
  by (auto simp: nt_simps fun_eq_iff split: option.split sum.split)

section \<open>Reasoning about a run\<close>

text \<open>\<open>nt_run m w Q\<close>: the statement ends from \<open>w\<close>, and \<open>Q\<close> holds of its result, a fault or a value with the new state.\<close>

definition nt_run :: "'a nt \<Rightarrow> nt_world \<Rightarrow> (cerror + 'a \<times> nt_world \<Rightarrow> bool) \<Rightarrow> bool" where
  "nt_run m w Q \<longleftrightarrow> (\<exists>r. m w = Some r \<and> Q r)"

named_theorems nt_norm

lemma nbind_norm [nt_norm]:
  "nthen m k = nbind m (\<lambda>x. k)"
  by (simp add: nthen_def)

lemma nbind_cases [nt_norm]:
  "nbind nskip g = g ()"
  "nbind (if b then m1 else m2) f = (if b then nbind m1 f else nbind m2 f)"
  "nbind (nlift (Inr x)) f = f x" "nbind (nlift (Inl e)) f = nfault e"
  by (auto simp: nt_simps fun_eq_iff)

lemma nt_run_ends [nt_norm]:
  "nt_run nskip w R = R (Inr ((), w))" "nt_run (nret x) w Q = Q (Inr (x, w))" "nt_run (nfault e) w Q = Q (Inl e)"
  "nt_run (nset h) w R = R (Inr ((), w\<lparr>nw_this := h (nw_this w)\<rparr>))"
  by (simp_all add: nt_run_def nt_simps)

lemma nt_run_this [nt_norm]: "nt_run (nbind (this g) f) w Q = nt_run (f (g (nw_this w))) w Q"
  by (simp add: nt_run_def nt_simps)

lemma nt_run_set [nt_norm]: "nt_run (nbind (nset h) f) w Q = nt_run (f ()) (w\<lparr>nw_this := h (nw_this w)\<rparr>) Q"
  by (simp add: nt_run_def nt_simps)

text \<open>A call of the system: its answer is one of the environment to the call, and it is put on record.\<close>

lemma nt_run_sys:
  assumes "\<And>tr w'. w' = w\<lparr>nw_trace := nw_trace w @ [(c, env tr c)]\<rparr> \<Longrightarrow> nt_run (f (env tr c)) w' Q"
  shows "nt_run (nbind (nsys env c) f) w Q"
  using assms [of "w\<lparr>nw_trace := nw_trace w @ [(c, env (nw_trace w) c)]\<rparr>" "nw_trace w"] by (simp add: nt_run_def nt_simps)

lemma nt_run_bind:
  "nt_run m w (\<lambda>r. case r of Inl e \<Rightarrow> Q (Inl e) | Inr (x, w1) \<Rightarrow> nt_run (f x) w1 Q) \<Longrightarrow> nt_run (nbind m f) w Q"
  unfolding nt_run_def nbind_def by (elim exE conjE) (simp split: sum.splits prod.splits)

lemma nt_run_mono: "nt_run m w Q \<Longrightarrow> (\<And>r. Q r \<Longrightarrow> R r) \<Longrightarrow> nt_run m w R"
  by (auto simp: nt_run_def)

section \<open>Error texts\<close>

text \<open>The error text behind a failed call; the last two characters are cut off. \<open>dwSize\<close> is the size of the buffer.\<close>

definition CNTService_GetLastErrorText :: "nt_env \<Rightarrow> u32 \<Rightarrow> tstr nt" where
  "CNTService_GetLastErrorText env dwSize =
     nbind (nsys env GetLastError) (\<lambda>e.
     nbind (nsys env (FormatMessage (an_num e))) (\<lambda>a.
       let dwRet = of_nat (length (an_text a)) :: u32
       in nbind
            (if dwRet = 0 \<or> dwSize < dwRet + 14 then nret []
             else if length (an_text a) < 2 then nfault OutOfBounds
             else nret (take (length (an_text a) - 2) (an_text a)))
            (\<lambda>t. nthen (if an_num a \<noteq> 0 then nthen (nsys env (LocalFree (an_num a))) nskip else nskip) (nret t))))"

end
