(* ===== verification/EventSources.thy ===== *)
theory EventSources
  imports ServiceApi
begin

text \<open>
  The registration of a service as a source of the event log, of NTService.cpp: a key with the message file, and the name of the
  service in the value \<open>Sources\<close>, a list of strings ended by an empty one. The buffers of this value are byte
  buffers, as the code allocates them. What a registry call answers is up to the environment; a successful query never
  delivers more bytes than it was allowed.
\<close>

section \<open>The operations\<close>

definition key_path :: "string list \<Rightarrow> tstr" where
  "key_path ps = concat (map (\<lambda>x. TEXT x @ [92]) ps)"

definition gszAppRegKey :: tstr where
  "gszAppRegKey = key_path [''SYSTEM'', ''CurrentControlSet'', ''Services'', ''EventLog'', ''Application'']"

text \<open>The key of the service, built in a buffer of 256 characters.\<close>

definition szKey :: "tstr \<Rightarrow> cerror + tstr" where
  "szKey name = (if 256 \<le> length gszAppRegKey + length name then Inl OutOfBounds else Inr (gszAppRegKey @ name))"

text \<open>The search for the service in the strings of the buffer: where it is, or the end of the list.\<close>

function find_source :: "byte list \<Rightarrow> tstr \<Rightarrow> nat \<Rightarrow> cerror + nat" where
  "find_source buf name p =
     rbind (tstr_at buf p) (\<lambda>s.
       if s = [] then Inr p
       else if s = name then Inr p
       else find_source buf name (p + (length s + 1)))"
  by auto

termination
  by (relation "measure (\<lambda>(buf, name, p). length buf - p)") (auto dest: tstr_at_less)

declare find_source.simps [simp del]

text \<open>The new list, if the service is not in it; it is copied to the end, into the same buffer.\<close>

definition add_source :: "byte list \<Rightarrow> tstr \<Rightarrow> cerror + byte list option" where
  "add_source buf name =
     rbind (find_source buf name 0) (\<lambda>p.
     rbind (tstr_at buf p) (\<lambda>s.
       if s = [] then rbind (tcscpy_at buf p name) (\<lambda>b. Inr (Some b)) else Inr None))"

text \<open>The loop of \<open>DeregisterApplicationLog\<close>: \<open>pNew\<close> advances by the string that it points to, also when nothing was copied.\<close>

function drop_source ::
    "byte list \<Rightarrow> tstr \<Rightarrow> nat \<Rightarrow> byte list \<Rightarrow> nat \<Rightarrow> bool \<Rightarrow> u32 \<Rightarrow> cerror + bool \<times> byte list \<times> u32" where
  "drop_source buf name p nbuf pNew bNeedSave dwSize =
     rbind (tstr_at buf p) (\<lambda>s.
       if s = [] then Inr (bNeedSave, nbuf, dwSize)
       else rbind (if s \<noteq> name then rbind (tcscpy_at nbuf pNew s) (\<lambda>b. Inr (b, bNeedSave, dwSize))
                   else Inr (nbuf, True, dwSize - of_nat (length s + 1)))
              (\<lambda>(nbuf1, need1, size1).
                 rbind (tstr_at nbuf1 pNew) (\<lambda>t.
                   drop_source buf name (p + (length s + 1)) nbuf1 (pNew + (length t + 1)) need1 size1)))"
  by pat_completeness auto

termination
  by (relation "measure (\<lambda>(buf, name, p, rest). length buf - p)") (auto dest: tstr_at_less)

declare drop_source.simps [simp del]

text \<open>Memory from \<open>GlobalAlloc(GPTR, n)\<close> is zero; a buffer that could not be had is \<open>None\<close>.\<close>

definition global_buffer :: "nt_env \<Rightarrow> u32 \<Rightarrow> (u32 \<times> byte list option) nt" where
  "global_buffer env n =
     nbind (nsys env (GlobalAlloc n)) (\<lambda>a.
       nret (an_num a, if an_num a = 0 then None else Some (replicate (unat n) 0)))"

definition buffer_of :: "byte list option \<Rightarrow> cerror + byte list" where
  "buffer_of b = (case b of None \<Rightarrow> Inl NullDeref | Some x \<Rightarrow> Inr x)"

text \<open>A query with a buffer: the new content of the buffer.\<close>

definition query_into :: "nt_answer \<Rightarrow> u32 \<Rightarrow> byte list option \<Rightarrow> byte list option" where
  "query_into a n b = map_option (\<lambda>x. let d = take (unat n) (an_data a) in d @ drop (length d) x) b"

text \<open>The loop over the two buffers; the new one is not looked at when there is no string.\<close>

definition remove_source :: "byte list option \<Rightarrow> byte list option \<Rightarrow> tstr \<Rightarrow> u32 \<Rightarrow> cerror + bool \<times> byte list \<times> u32" where
  "remove_source Buffer NewBuffer name dwSize =
     rbind (buffer_of Buffer) (\<lambda>b.
       if tstr_at b 0 = Inr [] then Inr (False, [], dwSize)
       else rbind (buffer_of NewBuffer) (\<lambda>nb. drop_source b name 0 nb 0 False dwSize))"

definition Sources :: tstr where
  "Sources = TEXT ''Sources''"

definition CNTService_RegisterApplicationLog :: "nt_env \<Rightarrow> tstr \<Rightarrow> u32 \<Rightarrow> unit nt" where
  "CNTService_RegisterApplicationLog env lpszFileName dwTypes =
     nbind (this m_lpServiceName) (\<lambda>name.
     nbind (nlift (szKey name)) (\<lambda>key.
     nbind (nsys env (RegCreateKey key)) (\<lambda>a.
     nthen (if an_num a = 0
            then nthen (nsys env (RegSetValueEx (an_out a) (TEXT ''EventMessageFile'') REG_EXPAND_SZ
                          (take (length lpszFileName + 1) (tbytes (lpszFileName @ [0])))))
                (nthen (nsys env (RegSetValueEx (an_out a) (TEXT ''TypesSupported'') REG_DWORD (le_bytes 4 (unat dwTypes))))
                (nthen (nsys env (RegCloseKey (an_out a))) nskip))
            else nskip)
     (nbind (nsys env (RegOpenKeyEx gszAppRegKey)) (\<lambda>o1.
        if an_num o1 \<noteq> 0 then nskip
        else
          nbind (nsys env (RegQueryValueEx (an_out o1) Sources None)) (\<lambda>q.
          nthen
            (if an_num q \<noteq> 0 then nskip
             else
               let dwSize = an_out q; dwNewSize = dwSize + of_nat (length name) + 1
               in nbind (global_buffer env dwNewSize) (\<lambda>(g, Buffer).
                  nbind (nsys env (RegQueryValueEx (an_out o1) Sources (Some dwSize))) (\<lambda>r.
                  nthen
                    (if an_num r \<noteq> 0 then nskip
                     else
                       nbind (nlift (rbind (buffer_of (query_into r dwSize Buffer)) (\<lambda>b. add_source b name))) (\<lambda>res.
                         case res of
                           None \<Rightarrow> nskip
                         | Some b \<Rightarrow> nthen (nsys env (RegSetValueEx (an_out o1) Sources (an_type r) b)) nskip))
                    (nthen (nsys env (GlobalFree g)) nskip))))
            (nthen (nsys env (RegCloseKey (an_out o1))) nskip)))))))"

definition CNTService_DeregisterApplicationLog :: "nt_env \<Rightarrow> unit nt" where
  "CNTService_DeregisterApplicationLog env =
     nbind (this m_lpServiceName) (\<lambda>name.
     nbind (nlift (szKey name)) (\<lambda>key.
     nthen (nsys env (RegDeleteKey key))
     (nbind (nsys env (RegOpenKeyEx gszAppRegKey)) (\<lambda>o1.
        if an_num o1 \<noteq> 0 then nskip
        else
          nbind (nsys env (RegQueryValueEx (an_out o1) Sources None)) (\<lambda>q.
          nthen
            (if an_num q \<noteq> 0 then nskip
             else
               nbind (global_buffer env (an_out q)) (\<lambda>(g, Buffer).
               nbind (global_buffer env (an_out q)) (\<lambda>(ng, NewBuffer).
               nbind (nsys env (RegQueryValueEx (an_out o1) Sources (Some (an_out q)))) (\<lambda>r.
               nthen
                 (if an_num r \<noteq> 0 then nskip
                  else
                    nbind (nlift (remove_source (query_into r (an_out q) Buffer) NewBuffer name (an_out r))) (\<lambda>(need, nb, size).
                      if \<not> need then nskip
                      else if length nb < unat size then nfault OutOfBounds
                      else nthen (nsys env (RegSetValueEx (an_out o1) Sources (an_type r) (take (unat size) nb))) nskip))
                 (nthen (nsys env (GlobalFree g)) (nthen (nsys env (GlobalFree ng)) nskip))))))
            (nthen (nsys env (RegCloseKey (an_out o1))) nskip))))))"

section \<open>Lists of strings in a buffer\<close>

abbreviation strs :: "tstr list \<Rightarrow> tstr" where
  "strs ss \<equiv> concat (map (\<lambda>s. s @ [0]) ss)"

abbreviation zeros :: "nat \<Rightarrow> tstr" where
  "zeros k \<equiv> replicate k 0"

lemma tbytes_zeros: "replicate (2 * k) 0 = tbytes (zeros k)"
  by (induction k) auto

lemma tstr_at_strs:
  assumes "0 \<notin> set s"
  shows "tstr_at (tbytes (pre @ s @ 0 # post) @ bs) (length pre) = Inr s"
  by (rule tstr_at_Inr [OF _ assms]) simp

lemma tstr_at_end: "tstr_at (tbytes (pre @ 0 # post) @ bs) (length pre) = Inr []"
  using tstr_at_strs [of "[]" pre post bs] by simp

text \<open>The search ends at the service, or at the empty string.\<close>

lemma find_source_strs:
  assumes "\<forall>s \<in> set ss. good_str s"
  shows "find_source (tbytes (strs pre @ multi_sz ss) @ bs) name (length (strs pre)) =
    Inr (length (strs (pre @ takeWhile (\<lambda>s. s \<noteq> name) ss)))"
  using assms
proof (induction ss arbitrary: pre)
  case Nil
  then show ?case using tstr_at_end [of "strs pre" "[]" bs]
    by (subst find_source.simps) (simp add: multi_sz_def)
next
  case (Cons s ss)
  have s: "s \<noteq> []" "0 \<notin> set s" using Cons.prems by (simp_all add: good_str_def)
  have at: "tstr_at (tbytes (strs pre @ multi_sz (s # ss)) @ bs) (length (strs pre)) = Inr s"
    using tstr_at_strs [OF s(2), of "strs pre" "multi_sz ss" bs] by (simp add: multi_sz_def)
  show ?case
  proof (cases "s = name")
    case False
    have "find_source (tbytes (strs (pre @ [s]) @ multi_sz ss) @ bs) name (length (strs (pre @ [s]))) =
        Inr (length (strs ((pre @ [s]) @ takeWhile (\<lambda>s. s \<noteq> name) ss)))"
      using Cons.prems by (intro Cons.IH) simp
    then show ?thesis using False s(1) at
      by (subst find_source.simps) (simp add: multi_sz_def ac_simps)
  qed (use at s(1) in \<open>subst find_source.simps, simp\<close>)
qed

lemma takeWhile_absent: "name \<notin> set ss \<Longrightarrow> takeWhile (\<lambda>s. s \<noteq> name) ss = ss"
  by (induction ss) auto

lemma split_known:
  "name \<in> set ss \<Longrightarrow> \<exists>rest. ss = takeWhile (\<lambda>s. s \<noteq> name) ss @ name # rest"
  by (induction ss) auto

text \<open>A known source is left alone. A new one needs two bytes for each character, and the buffer has one.\<close>

lemma add_source_result:
  assumes "\<forall>s \<in> set ss. good_str s" "good_str name"
  shows "add_source (tbytes (multi_sz ss) @ replicate (length name + 1) 0) name =
    (if name \<in> set ss then Inr None
     else if 1 < length name then Inl OutOfBounds
     else Inr (Some (tbytes (strs ss @ name @ [0]))))"
proof (cases "name \<in> set ss")
  case True
  from split_known [OF True] obtain rest where r: "ss = takeWhile (\<lambda>s. s \<noteq> name) ss @ name # rest" ..
  let ?pre = "takeWhile (\<lambda>s. s \<noteq> name) ss"
  have "tstr_at (tbytes (strs ?pre @ name @ 0 # (strs rest @ [0])) @ replicate (length name + 1) 0) (length (strs ?pre)) = Inr name"
    using assms(2) by (intro tstr_at_strs) (simp add: good_str_def)
  moreover have "multi_sz ss = strs ?pre @ name @ 0 # (strs rest @ [0])"
    by (subst r) (simp add: multi_sz_def)
  moreover have "find_source (tbytes (multi_sz ss) @ replicate (length name + 1) 0) name 0 = Inr (length (strs ?pre))"
    using find_source_strs [OF assms(1), of "[]"] by simp
  ultimately show ?thesis using True assms(2) by (simp add: add_source_def good_str_def)
next
  case False
  have f: "find_source (tbytes (multi_sz ss) @ replicate (length name + 1) 0) name 0 = Inr (length (strs ss))"
    using find_source_strs [OF assms(1), of "[]"] by (simp add: takeWhile_absent [OF False])
  have e: "tstr_at (tbytes (multi_sz ss) @ replicate (length name + 1) 0) (length (strs ss)) = Inr []"
    using tstr_at_end [of "strs ss" "[]"] by (simp add: multi_sz_def)
  let ?buf = "tbytes (multi_sz ss) @ replicate (length name + 1) 0"
  have len: "length ?buf = 2 * length (strs ss) + length name + 3" by (simp add: multi_sz_def)
  have "add_source ?buf name = rbind (tcscpy_at ?buf (length (strs ss)) name) (\<lambda>b. Inr (Some b))"
    using f e by (simp add: add_source_def)
  also have "\<dots> = (if 1 < length name then Inl OutOfBounds else Inr (Some (tbytes (strs ss @ name @ [0]))))"
  proof (cases "1 < length name")
    case True
    moreover have "\<not> 2 * (a + b + 1) \<le> 2 * a + b + 3" if "1 < b" for a b :: nat using that by simp
    ultimately have "\<not> 2 * (length (strs ss) + length name + 1) \<le> length ?buf" unfolding len by blast
    then show ?thesis using True by (simp only: tcscpy_at_def) simp
  next
    case F: False
    then have 1: "length name = 1" using assms(2) by (cases name) (auto simp: good_str_def)
    have "take (2 * length (strs ss)) ?buf = tbytes (strs ss)" by (simp add: multi_sz_def)
    moreover have "2 * (length (strs ss) + length name + 1) = length ?buf" using len 1 by simp
    ultimately show ?thesis using F 1 by (simp only: tcscpy_at_def) (simp add: multi_sz_def)
  qed
  finally show ?thesis using False by simp
qed

section \<open>Taking a source off the list\<close>

text \<open>What becomes of each string: this service leaves an empty one.\<close>

definition blank :: "tstr \<Rightarrow> tstr \<Rightarrow> tstr" where
  "blank name s = (if s = name then [] else s)"

definition hits :: "tstr \<Rightarrow> tstr list \<Rightarrow> nat" where
  "hits name ss = length (filter (\<lambda>s. s = name) ss)"

lemma tcscpy_at_zeros:
  assumes "length s < k"
  shows "tcscpy_at (tbytes (pre @ zeros k)) (length pre) s = Inr (tbytes (pre @ s @ zeros (k - length s)))"
proof -
  obtain j where k: "k = length s + Suc j" using assms less_iff_Suc_add by auto
  have "drop (2 * (length pre + length s + 1)) (tbytes (pre @ zeros k)) = tbytes (zeros j)"
    by (simp add: k flip: tbytes_zeros)
  then show ?thesis by (simp add: tcscpy_at_def k replicate_app_Cons_same)
qed

lemma drop_source_strs:
  assumes "\<forall>s \<in> set ss. good_str s" "length (strs ss) < k"
  shows "drop_source (tbytes (strs pre @ multi_sz ss) @ bs) name (length (strs pre))
      (tbytes (strs (map (blank name) pre) @ zeros k)) (length (strs (map (blank name) pre))) need sz =
    Inr (need \<or> name \<in> set ss,
      tbytes (strs (map (blank name) (pre @ ss)) @ zeros (k - length (strs (map (blank name) ss)))),
      sz - of_nat (hits name ss * (length name + 1)))"
  using assms
proof (induction ss arbitrary: pre k need sz)
  case Nil
  have "tstr_at (tbytes (strs pre @ multi_sz []) @ bs) (length (strs pre)) = Inr []"
    using tstr_at_end [of "strs pre" "[]" bs] by (simp add: multi_sz_def)
  then show ?case by (subst drop_source.simps) (simp add: hits_def)
next
  case (Cons s ss)
  let ?nb = "tbytes (strs (map (blank name) pre) @ zeros k)" and ?q = "length (strs (map (blank name) pre))"
  let ?b = "blank name s" and ?buf = "tbytes (strs pre @ multi_sz (s # ss)) @ bs"
  let ?nb1 = "tbytes (strs (map (blank name) pre) @ ?b @ zeros (k - length ?b))"
  have s: "s \<noteq> []" "0 \<notin> set s" using Cons.prems(1) by (simp_all add: good_str_def)
  have k: "length (strs ss) < k - length ?b - 1" "length s < k" "length ?b < k" using Cons.prems(2) by (auto simp: blank_def)
  have at: "tstr_at ?buf (length (strs pre)) = Inr s"
    using tstr_at_strs [OF s(2), of "strs pre" "multi_sz ss" bs] by (simp add: multi_sz_def)
  have cp: "tcscpy_at ?nb ?q s = Inr (tbytes (strs (map (blank name) pre) @ s @ zeros (k - length s)))"
    by (rule tcscpy_at_zeros [OF k(2)])
  have z: "zeros (k - length ?b) = 0 # zeros (k - length ?b - 1)"
    using k(3) by (cases "k - length ?b") auto
  have "0 \<notin> set ?b" using s(2) by (simp add: blank_def)
  from tstr_at_strs [OF this, of "strs (map (blank name) pre)" "zeros (k - length ?b - 1)" "[]"]
  have at1: "tstr_at ?nb1 ?q = Inr ?b" unfolding z by simp
  have IH: "drop_source (tbytes (strs (pre @ [s]) @ multi_sz ss) @ bs) name (length (strs (pre @ [s])))
      (tbytes (strs (map (blank name) (pre @ [s])) @ zeros (k - length ?b - 1))) (length (strs (map (blank name) (pre @ [s])))) need' sz' =
    Inr (need' \<or> name \<in> set ss,
      tbytes (strs (map (blank name) ((pre @ [s]) @ ss)) @ zeros (k - length ?b - 1 - length (strs (map (blank name) ss)))),
      sz' - of_nat (hits name ss * (length name + 1)))" for need' sz'
    using Cons.prems(1) by (intro Cons.IH [OF _ k(1)]) simp
  have step: "drop_source ?buf name (length (strs pre)) ?nb ?q need sz =
      drop_source ?buf name (length (strs pre) + (length s + 1)) ?nb1 (?q + (length ?b + 1)) (need \<or> s = name)
        (sz - of_nat (if s = name then length name + 1 else 0))"
    using at at1 cp s(1) by (subst drop_source.simps) (cases "s = name"; simp add: blank_def)
  also have "\<dots> = drop_source (tbytes (strs (pre @ [s]) @ multi_sz ss) @ bs) name (length (strs (pre @ [s])))
      (tbytes (strs (map (blank name) (pre @ [s])) @ zeros (k - length ?b - 1))) (length (strs (map (blank name) (pre @ [s]))))
      (need \<or> s = name) (sz - of_nat (if s = name then length name + 1 else 0))"
    unfolding z by (simp add: multi_sz_def)
  also note IH
  finally show ?case
    by (auto simp: hits_def algebra_simps)
qed

text \<open>What is stored is long enough for the strings before this service, and an empty one behind them.\<close>

lemma strs_blank_split:
  assumes "name \<in> set ss"
  shows "\<exists>post. strs (map (blank name) ss) = strs (takeWhile (\<lambda>s. s \<noteq> name) ss) @ 0 # post"
proof -
  let ?pre = "takeWhile (\<lambda>s. s \<noteq> name) ss"
  from split_known [OF assms] obtain rest where r: "ss = ?pre @ name # rest" ..
  have "map (blank name) ?pre = ?pre"
    by (rule map_idI) (auto simp: blank_def dest: set_takeWhileD)
  then have "strs (map (blank name) (?pre @ name # rest)) = strs ?pre @ 0 # strs (map (blank name) rest)"
    by (simp add: blank_def)
  then show ?thesis using r by metis
qed

lemma strs_hits: "length (strs (map (blank name) ss)) + hits name ss * length name = length (strs ss)"
  by (induction ss) (auto simp: blank_def hits_def)

lemma hits_pos: "name \<in> set ss \<Longrightarrow> 1 \<le> hits name ss"
  by (induction ss) (auto simp: hits_def)

lemma strs_blank_hits: "length (strs (takeWhile (\<lambda>s. s \<noteq> name) ss)) + hits name ss \<le> length (strs (map (blank name) ss))"
  by (induction ss) (auto simp: blank_def hits_def intro: trans_le_add1 le_trans [OF length_filter_le] split: if_splits)

lemma tchars_take_tbytes: "tchars (take n (tbytes cs)) = take (n div 2) cs @ tchars (take (n mod 2) (tbytes (drop (n div 2) cs)))"
proof (induction cs arbitrary: n)
  case (Cons c cs)
  consider "n = 0" | "n = 1" | m where "n = Suc (Suc m)" by (metis One_nat_def not0_implies_Suc)
  then show ?case by cases (simp_all add: Cons.IH ucast_byte_pair)
qed simp

lemma stored_sources:
  assumes "\<forall>s \<in> set ss. good_str s" "name \<in> set ss" "2 * length (strs (takeWhile (\<lambda>s. s \<noteq> name) ss)) + 2 \<le> n"
  shows "read_multi (tchars (take n (tbytes (strs (map (blank name) ss) @ zs)))) = takeWhile (\<lambda>s. s \<noteq> name) ss"
proof -
  let ?pre = "takeWhile (\<lambda>s. s \<noteq> name) ss"
  obtain post where "strs (map (blank name) ss) = strs ?pre @ 0 # post" using strs_blank_split [OF assms(2)] ..
  moreover have "length (strs ?pre) < n div 2" using assms(3) by simp
  then obtain j where "n div 2 - length (strs ?pre) = Suc j" by (metis Suc_diff_Suc)
  ultimately have "\<exists>more. tchars (take n (tbytes (strs (map (blank name) ss) @ zs))) = strs ?pre @ 0 # more"
    by (subst tchars_take_tbytes) simp
  moreover have "\<forall>s \<in> set ?pre. good_str s" using assms(1) by (auto dest: set_takeWhileD)
  ultimately show ?thesis using read_multi_strs [of ?pre] by (auto simp del: concat_append map_append)
qed

section \<open>The calls\<close>

text \<open>The registry has the value \<open>data\<close>, and there is memory.\<close>

definition registry_has :: "nt_env \<Rightarrow> byte list \<Rightarrow> bool" where
  "registry_has env data \<longleftrightarrow>
     (\<forall>tr. an_num (env tr (RegOpenKeyEx gszAppRegKey)) = 0) \<and>
     (\<forall>tr h. an_num (env tr (RegQueryValueEx h Sources None)) = 0 \<and>
        an_out (env tr (RegQueryValueEx h Sources None)) = of_nat (length data)) \<and>
     (\<forall>tr h n. an_num (env tr (RegQueryValueEx h Sources (Some n))) = 0 \<and>
        an_out (env tr (RegQueryValueEx h Sources (Some n))) = of_nat (length data) \<and>
        an_data (env tr (RegQueryValueEx h Sources (Some n))) = data) \<and>
     (\<forall>tr n. an_num (env tr (GlobalAlloc n)) \<noteq> 0)"

text \<open>What was stored as the list of sources.\<close>

fun stored :: "nt_trace \<Rightarrow> byte list list" where
  "stored [] = []"
| "stored ((RegSetValueEx h v t d, a) # tr) = (if v = Sources then [d] else []) @ stored tr"
| "stored (c # tr) = stored tr"

lemma stored_append [simp]: "stored (tr @ tr') = stored tr @ stored tr'"
  by (induction tr rule: stored.induct) auto

lemma texts_differ [simp]:
  "TEXT ''EventMessageFile'' \<noteq> Sources" "TEXT ''TypesSupported'' \<noteq> Sources"
  by (auto simp: Sources_def dest: arg_cong [where f = length])

lemma nt_run_stored:
  assumes "\<And>tr w'. nw_this w' = nw_this w \<Longrightarrow> stored (nw_trace w') = stored (nw_trace w) @ stored [(c, env tr c)] \<Longrightarrow>
    nt_run (f (env tr c)) w' Q"
  shows "nt_run (nbind (nsys env c) f) w Q"
  by (rule nt_run_sys, rule assms) simp_all

lemma registry_hasD:
  assumes "registry_has env data"
  shows "an_num (env tr (RegOpenKeyEx gszAppRegKey)) = 0"
    "an_num (env tr (RegQueryValueEx h Sources None)) = 0"
    "an_out (env tr (RegQueryValueEx h Sources None)) = of_nat (length data)"
    "an_num (env tr (RegQueryValueEx h Sources (Some n))) = 0"
    "an_out (env tr (RegQueryValueEx h Sources (Some n))) = of_nat (length data)"
    "an_data (env tr (RegQueryValueEx h Sources (Some n))) = data"
    "an_num (env tr (GlobalAlloc n)) \<noteq> 0"
  using assms by (simp_all add: registry_has_def)

text \<open>The effect of the loop: the size goes down by the strings of this service, and by their ends.\<close>

lemma remove_source_result:
  assumes "\<forall>s \<in> set ss. good_str s" "2 * length (multi_sz ss) < 2 ^ 32"
  shows "\<exists>nb size. remove_source (Some (tbytes (multi_sz ss))) (Some (replicate (2 * length (multi_sz ss)) 0)) name
      (of_nat (2 * length (multi_sz ss))) = Inr (name \<in> set ss, nb, size) \<and>
    (name \<in> set ss \<longrightarrow> unat size \<le> length nb \<and> read_multi (tchars (take (unat size) nb)) = takeWhile (\<lambda>s. s \<noteq> name) ss)"
proof (cases ss)
  case Nil
  then show ?thesis using tstr_at_end [of "[]" "[]" "[]"] by (simp add: multi_sz_def remove_source_def buffer_of_def)
next
  case (Cons s ss')
  let ?N = "2 * length (multi_sz ss)" and ?pre = "takeWhile (\<lambda>s. s \<noteq> name) ss"
  define nb where "nb = tbytes (strs (map (blank name) ss) @ zeros (Suc (length (strs ss)) - length (strs (map (blank name) ss))))"
  define size where "size = (of_nat ?N - of_nat (hits name ss * (length name + 1)) :: u32)"
  have ln: "?N = 2 * Suc (length (strs ss))" by (simp add: multi_sz_def)
  have loop: "drop_source (tbytes (multi_sz ss)) name 0 (replicate ?N 0) 0 False (of_nat ?N) = Inr (name \<in> set ss, nb, size)"
    using drop_source_strs [OF assms(1) lessI, of "[]" "[]" name False "of_nat ?N"] tbytes_zeros [of "Suc (length (strs ss))"]
    unfolding nb_def size_def ln by simp
  have s: "s \<noteq> []" "0 \<notin> set s" using assms(1) Cons by (simp_all add: good_str_def)
  from tstr_at_strs [OF s(2), of "[]" "multi_sz ss'" "[]"] have "tstr_at (tbytes (multi_sz ss)) 0 = Inr s"
    using Cons by (simp add: multi_sz_def)
  then have r: "remove_source (Some (tbytes (multi_sz ss))) (Some (replicate ?N 0)) name (of_nat ?N) = Inr (name \<in> set ss, nb, size)"
    using loop s(1) by (simp add: remove_source_def buffer_of_def)
  have h: "length (strs ?pre) + hits name ss + hits name ss * length name \<le> length (strs ss)"
    using strs_blank_hits [of name ss] strs_hits [of name ss] by linarith
  have le: "hits name ss * (length name + 1) \<le> ?N" using h ln by (simp add: algebra_simps)
  then have "size = of_nat (?N - hits name ss * (length name + 1))" unfolding size_def by (simp only: of_nat_diff)
  then have u: "unat size = ?N - hits name ss * (length name + 1)" using assms(2) by (simp only: unat_of_nat_u32)
  have big: "2 * length (strs ?pre) + 2 \<le> unat size" using h ln unfolding u by (simp add: algebra_simps)
  have "length nb = ?N" using strs_hits [of name ss] ln unfolding nb_def by simp
  moreover have "read_multi (tchars (take (unat size) nb)) = ?pre" if "name \<in> set ss"
    unfolding nb_def by (rule stored_sources [OF assms(1) that big])
  ultimately show ?thesis using r u by auto
qed

lemma deregister_result:
  assumes "registry_has env (tbytes (multi_sz ss))" "\<forall>s \<in> set ss. good_str s"
    and "length gszAppRegKey + length (m_lpServiceName (nw_this w)) < 256" "2 * length (multi_sz ss) < 2 ^ 32"
  shows "\<exists>w2 ds. CNTService_DeregisterApplicationLog env w = Some (Inr ((), w2)) \<and> stored (nw_trace w2) = stored (nw_trace w) @ ds \<and>
    (if m_lpServiceName (nw_this w) \<in> set ss
     then \<exists>d. ds = [d] \<and> read_multi (tchars d) = takeWhile (\<lambda>s. s \<noteq> m_lpServiceName (nw_this w)) ss else ds = [])"
proof -
  let ?name = "m_lpServiceName (nw_this w)" and ?N = "2 * length (multi_sz ss)"
  obtain nb size where r: "remove_source (Some (tbytes (multi_sz ss))) (Some (replicate ?N 0)) ?name (of_nat ?N) = Inr (?name \<in> set ss, nb, size)"
    and s: "?name \<in> set ss \<longrightarrow> unat size \<le> length nb \<and> read_multi (tchars (take (unat size) nb)) = takeWhile (\<lambda>s. s \<noteq> ?name) ss"
    using remove_source_result [OF assms(2,4), of ?name] by blast
  have n: "unat (of_nat ?N :: u32) = ?N" by (rule unat_of_nat_u32 [OF assms(4)])
  note R = registry_hasD [OF assms(1), unfolded length_tbytes]
  note defs = CNTService_DeregisterApplicationLog_def szKey_def global_buffer_def query_into_def nt_simps R n Let_def
  show ?thesis
  proof (cases "?name \<in> set ss")
    case True
    then have "\<not> length nb < unat size" using s by simp
    then show ?thesis using True r s assms(3)
      by (simp add: defs del: of_nat_mult of_nat_numeral)
  next
    case False
    then show ?thesis using r assms(3)
      by (simp add: defs del: of_nat_mult of_nat_numeral)
  qed
qed

lemma register_result:
  assumes "registry_has env (tbytes (multi_sz ss))" "\<forall>s \<in> set ss. good_str s" "good_str (m_lpServiceName (nw_this w))"
    and "length gszAppRegKey + length (m_lpServiceName (nw_this w)) < 256" "2 * length (multi_sz ss) + 256 < 2 ^ 32"
  shows "if m_lpServiceName (nw_this w) \<notin> set ss \<and> 1 < length (m_lpServiceName (nw_this w))
    then CNTService_RegisterApplicationLog env file types w = Some (Inl OutOfBounds)
    else \<exists>w1. CNTService_RegisterApplicationLog env file types w = Some (Inr ((), w1)) \<and>
      stored (nw_trace w1) = stored (nw_trace w) @
        (if m_lpServiceName (nw_this w) \<in> set ss then [] else [tbytes (strs ss @ m_lpServiceName (nw_this w) @ [0])])"
proof -
  let ?name = "m_lpServiceName (nw_this w)" and ?N = "2 * length (multi_sz ss)"
  define new where "new = (of_nat ?N + of_nat (length ?name) + 1 :: u32)"
  have "new = of_nat (?N + (length ?name + 1))" unfolding new_def by simp
  moreover have "?N + (length ?name + 1) < 2 ^ 32" using assms(4,5) by linarith
  ultimately have u: "unat new = ?N + (length ?name + 1)" by (simp only: unat_of_nat_u32)
  have n: "unat (of_nat ?N :: u32) = ?N" using assms(5) by (intro unat_of_nat_u32) linarith
  have d: "drop ?N (replicate (?N + (length ?name + 1)) (0 :: byte)) = replicate (length ?name + 1) 0"
    by (simp only: drop_replicate) simp
  note add = add_source_result [OF assms(2,3)]
  note R = registry_hasD [OF assms(1), unfolded length_tbytes]
  let ?fault = "?name \<notin> set ss \<and> 1 < length ?name"
  define Q where "Q = (\<lambda>r :: cerror + unit \<times> nt_world. if ?fault then r = Inl OutOfBounds else \<exists>w1. r = Inr ((), w1) \<and>
    stored (nw_trace w1) = stored (nw_trace w) @ (if ?name \<in> set ss then [] else [tbytes (strs ss @ ?name @ [0])]))"
  have res: "rbind (buffer_of (query_into a (of_nat ?N) (Some (replicate (unat new) 0)))) (\<lambda>b. add_source b ?name) =
      (if ?name \<in> set ss then Inr None else if 1 < length ?name then Inl OutOfBounds else Inr (Some (tbytes (strs ss @ ?name @ [0]))))"
    if "an_data a = tbytes (multi_sz ss)" for a
    using add unfolding query_into_def that n u Let_def by (simp add: buffer_of_def d del: replicate_Suc)
  have "nt_run (CNTService_RegisterApplicationLog env file types) w Q"
    using assms(4) unfolding CNTService_RegisterApplicationLog_def szKey_def global_buffer_def
    by (simp add: nt_norm)
      ((intro conjI impI nt_run_stored; simp add: nt_norm R Let_def new_def [symmetric] res Q_def
          del: of_nat_mult of_nat_numeral split: if_split)+)
  then show ?thesis by (auto simp: nt_run_def Q_def split: if_splits)
qed

section \<open>Property\<close>

text \<open>
  C39. The list of event sources. Registering a service whose name is not in the list writes the name behind a buffer that has one byte for
  each of its two-byte characters, unless the name has one character only; a service that is in the list is left alone.
  Deregistering keeps the buffers' bounds and stores a new list exactly when the service was in it, but leaves an empty string in
  its place, so that a reader finds the sources before it only: all behind it are lost.
\<close>

theorem service_sources:
  assumes "registry_has env (tbytes (multi_sz ss))" "\<forall>s \<in> set ss. good_str s" "good_str (m_lpServiceName (nw_this w))"
    and "length gszAppRegKey + length (m_lpServiceName (nw_this w)) < 256" "2 * length (multi_sz ss) + 256 < 2 ^ 32"
  shows "(if m_lpServiceName (nw_this w) \<notin> set ss \<and> 1 < length (m_lpServiceName (nw_this w))
     then CNTService_RegisterApplicationLog env file types w = Some (Inl OutOfBounds)
     else \<exists>w1. CNTService_RegisterApplicationLog env file types w = Some (Inr ((), w1)) \<and>
       stored (nw_trace w1) = stored (nw_trace w) @
         (if m_lpServiceName (nw_this w) \<in> set ss then [] else [tbytes (strs ss @ m_lpServiceName (nw_this w) @ [0])])) \<and>
    (\<exists>w2 ds. CNTService_DeregisterApplicationLog env w = Some (Inr ((), w2)) \<and> stored (nw_trace w2) = stored (nw_trace w) @ ds \<and>
       (if m_lpServiceName (nw_this w) \<in> set ss
        then \<exists>d. ds = [d] \<and> read_multi (tchars d) = takeWhile (\<lambda>s. s \<noteq> m_lpServiceName (nw_this w)) ss else ds = []))"
proof -
  have "2 * length (multi_sz ss) < 2 ^ 32" using assms(5) by linarith
  then show ?thesis using register_result [OF assms] deregister_result [OF assms(1,2,4)] by blast
qed

section \<open>Witness\<close>

definition src_answer :: nt_answer where
  "src_answer = \<lparr>an_num = 0, an_out = 0, an_text = [], an_data = [], an_type = REG_MULTI_SZ, an_args = [], an_status = None\<rparr>"

definition src_env :: "byte list \<Rightarrow> nt_env" where
  "src_env data tr c =
     (case c of
        RegQueryValueEx h v n \<Rightarrow> src_answer\<lparr>an_out := of_nat (length data), an_data := data\<rparr>
      | GlobalAlloc n \<Rightarrow> src_answer\<lparr>an_num := 1\<rparr>
      | _ \<Rightarrow> src_answer)"

lemma src_env_has: "registry_has (src_env data) data"
  by (simp add: registry_has_def src_env_def src_answer_def)

definition src_status :: SERVICE_STATUS where
  "src_status = \<lparr>dwServiceType = 16, dwCurrentState = 0, dwControlsAccepted = 0, dwWin32ExitCode = 0,
     dwServiceSpecificExitCode = 0, dwCheckPoint = 0, dwWaitHint = 0\<rparr>"

definition src_service :: "tstr \<Rightarrow> CNTService" where
  "src_service name = \<lparr>m_lpServiceName = name, m_lpDisplayName = name, m_dwCheckPoint = 0, m_dwErr = 0, m_bDebug = False,
     m_ssStatus = src_status, m_sshStatusHandle = 0, m_dwControlsAccepted = 3, m_pUserSID = None, m_bWinNT = True,
     m_fConsoleReady = False, m_dwDesiredAccess = 0, m_dwServiceType = 16, m_dwStartType = 2, m_dwErrorControl = 1,
     m_pszLoadOrderGroup = None, m_dwTagID = 0, m_pszDependencies = None, m_pszStartName = None, m_pszPassword = None\<rparr>"

definition src_world :: "tstr \<Rightarrow> nt_world" where
  "src_world name = \<lparr>nw_this = src_service name, nw_bInstance = True, nw_gpTheService = True, nw_trace = []\<rparr>"

definition src_list :: "tstr list" where
  "src_list = [TEXT ''a'', TEXT ''me'', TEXT ''b'']"

text \<open>Of three sources, the second is taken off: the third goes too. A fourth source cannot be registered.\<close>

lemma service_sources_witness:
  "(\<exists>w2 d. CNTService_DeregisterApplicationLog (src_env (tbytes (multi_sz src_list))) (src_world (TEXT ''me'')) = Some (Inr ((), w2)) \<and>
      stored (nw_trace w2) = [d] \<and> read_multi (tchars d) = [TEXT ''a'']) \<and>
   CNTService_RegisterApplicationLog (src_env (tbytes (multi_sz src_list))) [] 7 (src_world (TEXT ''you'')) = Some (Inl OutOfBounds)"
proof -
  let ?env = "src_env (tbytes (multi_sz src_list))"
  have n: "m_lpServiceName (nw_this (src_world x)) = x" "nw_trace (src_world x) = []" for x
    by (simp_all add: src_world_def src_service_def)
  have key: "length gszAppRegKey = 55" by (simp add: gszAppRegKey_def key_path_def)
  have good: "\<forall>s \<in> set src_list. good_str s" "good_str (TEXT ''me'')" "good_str (TEXT ''you'')"
    by (simp_all add: TEXT_simps src_list_def good_str_def)
  have size: "2 * length (multi_sz src_list) + 256 < 2 ^ 32" by (simp add: TEXT_simps src_list_def multi_sz_def)
  have pre: "takeWhile (\<lambda>s. s \<noteq> TEXT ''me'') src_list = [TEXT ''a'']" by (simp add: TEXT_simps src_list_def)
  have mem: "TEXT ''me'' \<in> set src_list" "TEXT ''you'' \<notin> set src_list" "1 < length (TEXT ''you'')"
    by (simp_all add: TEXT_simps src_list_def)
  have len: "length gszAppRegKey + length (TEXT ''me'') < 256" "length gszAppRegKey + length (TEXT ''you'') < 256"
    unfolding key by simp_all
  note me = service_sources [where w = "src_world (TEXT ''me'')", unfolded n, OF src_env_has good(1,2) len(1) size]
  note you = service_sources [where w = "src_world (TEXT ''you'')", unfolded n, OF src_env_has good(1,3) len(2) size]
  have "\<exists>w2 d. CNTService_DeregisterApplicationLog ?env (src_world (TEXT ''me'')) = Some (Inr ((), w2)) \<and>
      stored (nw_trace w2) = [d] \<and> read_multi (tchars d) = [TEXT ''a'']"
    using me [of "[]" 7] mem(1) unfolding pre by auto
  moreover have "CNTService_RegisterApplicationLog ?env [] 7 (src_world (TEXT ''you'')) = Some (Inl OutOfBounds)"
    using you [of "[]" 7] mem(2,3) by simp
  ultimately show ?thesis by blast
qed

end
