(* ===== verification/NTService.thy ===== *)
theory NTService
  imports EventSources
begin

text \<open>
  \<open>CNTService\<close> of NTService.h and NTService.cpp: a program that is a Windows service, or installs, removes, starts and
  stops it. The two pure virtual functions are arguments; the other virtual functions are those of the class. The waiting
  loops ask the service control manager for as long as it answers a pending state, so they may not end.
\<close>

section \<open>Constants\<close>

abbreviation (input) SERVICE_STOPPED :: u32 where "SERVICE_STOPPED \<equiv> 1"
abbreviation (input) SERVICE_START_PENDING :: u32 where "SERVICE_START_PENDING \<equiv> 2"
abbreviation (input) SERVICE_STOP_PENDING :: u32 where "SERVICE_STOP_PENDING \<equiv> 3"
abbreviation (input) SERVICE_RUNNING :: u32 where "SERVICE_RUNNING \<equiv> 4"
abbreviation (input) SERVICE_CONTINUE_PENDING :: u32 where "SERVICE_CONTINUE_PENDING \<equiv> 5"
abbreviation (input) SERVICE_PAUSE_PENDING :: u32 where "SERVICE_PAUSE_PENDING \<equiv> 6"
abbreviation (input) SERVICE_PAUSED :: u32 where "SERVICE_PAUSED \<equiv> 7"

abbreviation (input) SERVICE_CONTROL_STOP :: u32 where "SERVICE_CONTROL_STOP \<equiv> 1"
abbreviation (input) SERVICE_CONTROL_PAUSE :: u32 where "SERVICE_CONTROL_PAUSE \<equiv> 2"
abbreviation (input) SERVICE_CONTROL_CONTINUE :: u32 where "SERVICE_CONTROL_CONTINUE \<equiv> 3"
abbreviation (input) SERVICE_CONTROL_INTERROGATE :: u32 where "SERVICE_CONTROL_INTERROGATE \<equiv> 4"
abbreviation (input) SERVICE_CONTROL_SHUTDOWN :: u32 where "SERVICE_CONTROL_SHUTDOWN \<equiv> 5"

abbreviation (input) SERVICE_ACCEPT_STOP :: u32 where "SERVICE_ACCEPT_STOP \<equiv> 1"
abbreviation (input) SERVICE_ACCEPT_PAUSE_CONTINUE :: u32 where "SERVICE_ACCEPT_PAUSE_CONTINUE \<equiv> 2"

abbreviation (input) EVENTLOG_ERROR_TYPE :: u16 where "EVENTLOG_ERROR_TYPE \<equiv> 1"
abbreviation (input) EVENTLOG_WARNING_TYPE :: u16 where "EVENTLOG_WARNING_TYPE \<equiv> 2"
abbreviation (input) EVENTLOG_INFORMATION_TYPE :: u16 where "EVENTLOG_INFORMATION_TYPE \<equiv> 4"

definition MSG_INFO_1 :: u32 where "MSG_INFO_1 = 0x40000000"
definition MSG_WARNING_1 :: u32 where "MSG_WARNING_1 = 0x80000001"
definition MSG_ERROR_1 :: u32 where "MSG_ERROR_1 = 0xC0000002"

section \<open>Construction\<close>

text \<open>The security identifier of the user, copied from a buffer of 4096 bytes.\<close>

definition user_sid :: "nt_env \<Rightarrow> byte list option nt" where
  "user_sid env =
     nbind (nsys env GetUserName) (\<lambda>u.
     nbind (nsys env (LookupAccountName (an_text u))) (\<lambda>a.
       if an_num a = 0 then nret None
       else nbind (nsys env (IsValidSid (an_data a))) (\<lambda>v.
         if an_num v = 0 then nret None
         else nbind (nsys env (GetLengthSid (an_data a))) (\<lambda>l.
           if 4096 < unat (an_num l) then nfault OutOfBounds
           else nret (Some (take (unat (an_num l)) (an_data a @ replicate 4096 0)))))))"

text \<open>The state that the object begins with; \<open>junk\<close> is what its memory held.\<close>

definition CNTService_init :: "tstr \<Rightarrow> tstr option \<Rightarrow> bool \<Rightarrow> SERVICE_STATUS \<Rightarrow> CNTService" where
  "CNTService_init lpServiceName lpDisplayName winNT junk =
     \<lparr>m_lpServiceName = lpServiceName,
      m_lpDisplayName = (case lpDisplayName of Some d \<Rightarrow> d | None \<Rightarrow> lpServiceName),
      m_dwCheckPoint = 0, m_dwErr = 0, m_bDebug = False,
      m_ssStatus = junk\<lparr>dwServiceType := 0x10, dwServiceSpecificExitCode := 0\<rparr>,
      m_sshStatusHandle = 0, m_dwControlsAccepted = SERVICE_ACCEPT_STOP OR SERVICE_ACCEPT_PAUSE_CONTINUE,
      m_pUserSID = None, m_bWinNT = winNT, m_fConsoleReady = False,
      m_dwDesiredAccess = 0xF01FF, m_dwServiceType = 0x10, m_dwStartType = 2, m_dwErrorControl = 1,
      m_pszLoadOrderGroup = None, m_dwTagID = 0, m_pszDependencies = None, m_pszStartName = None, m_pszPassword = None\<rparr>"

definition nt_global :: "bool \<Rightarrow> unit nt" where
  "nt_global b = (\<lambda>w. Some (Inr ((), w\<lparr>nw_bInstance := b, nw_gpTheService := b\<rparr>)))"

definition CNTService_new :: "nt_env \<Rightarrow> tstr \<Rightarrow> tstr option \<Rightarrow> SERVICE_STATUS \<Rightarrow> unit nt" where
  "CNTService_new env lpServiceName lpDisplayName junk =
     nbind (nsys env GetVersionEx) (\<lambda>v.
     nthen (nset (\<lambda>s. CNTService_init lpServiceName lpDisplayName (an_num v = 2) junk))
     (nthen (nt_global True)
     (if an_num v = 2
      then nbind (user_sid env) (\<lambda>sid. nset (\<lambda>s. s\<lparr>m_pUserSID := sid\<rparr>))
      else nskip)))"

definition CNTService_delete :: "unit nt" where
  "CNTService_delete = nt_global False"

definition AfxGetService :: "bool nt" where
  "AfxGetService = (\<lambda>w. Some (Inr (nw_gpTheService w, w)))"

definition CNTService_OsIsWin95 :: "CNTService \<Rightarrow> bool" where
  "CNTService_OsIsWin95 s = (\<not> m_bWinNT s)"

section \<open>Helpers\<close>

definition default_event_id :: "u16 \<Rightarrow> u32 \<Rightarrow> u32" where
  "default_event_id wEventType dwEventID =
     (if dwEventID = - 1
      then if wEventType = EVENTLOG_ERROR_TYPE then MSG_ERROR_1
           else if wEventType = EVENTLOG_WARNING_TYPE then MSG_WARNING_1
           else MSG_INFO_1
      else dwEventID)"

definition CNTService_AddToMessageLog :: "nt_env \<Rightarrow> tstr \<Rightarrow> u16 \<Rightarrow> u32 \<Rightarrow> unit nt" where
  "CNTService_AddToMessageLog env lpszMsg wEventType dwEventID =
     nbind (nsys env GetLastError) (\<lambda>e.
     nthen (nset (\<lambda>s. s\<lparr>m_dwErr := an_num e\<rparr>))
     (nbind (this m_lpServiceName) (\<lambda>name.
      nbind (nsys env (RegisterEventSource name)) (\<lambda>h.
        if an_num h = 0 then nskip
        else nbind (this m_pUserSID) (\<lambda>sid.
             nthen (nsys env (ReportEvent (an_num h) wEventType (default_event_id wEventType dwEventID) sid lpszMsg))
             (nthen (nsys env (DeregisterEventSource (an_num h))) nskip))))))"

text \<open>The report of a state, and the status that is sent.\<close>

definition report_status :: "u32 \<Rightarrow> u32 \<Rightarrow> u32 \<Rightarrow> CNTService \<Rightarrow> CNTService" where
  "report_status dwCurrentState' dwWaitHint' dwErrExit s =
     (let s1 = (if dwCurrentState' = SERVICE_RUNNING \<or> dwCurrentState' = SERVICE_STOPPED then s
                else s\<lparr>m_dwCheckPoint := m_dwCheckPoint s + 1\<rparr>)
      in s1\<lparr>m_ssStatus := (m_ssStatus s1)\<lparr>
           dwControlsAccepted := (if dwCurrentState' = SERVICE_START_PENDING then 0 else m_dwControlsAccepted s),
           dwCurrentState := dwCurrentState',
           dwWin32ExitCode := (if dwErrExit \<noteq> 0 then 1066 else 0),
           dwWaitHint := dwWaitHint',
           dwServiceSpecificExitCode := dwErrExit,
           dwCheckPoint := (if dwCurrentState' = SERVICE_RUNNING \<or> dwCurrentState' = SERVICE_STOPPED then 0
                            else m_dwCheckPoint s1)\<rparr>\<rparr>)"

definition CNTService_ReportStatus :: "nt_env \<Rightarrow> u32 \<Rightarrow> u32 \<Rightarrow> u32 \<Rightarrow> bool nt" where
  "CNTService_ReportStatus env dwCurrentState' dwWaitHint' dwErrExit =
     nbind (this m_bDebug) (\<lambda>debug.
       if debug then nret True
       else
         nthen (nset (report_status dwCurrentState' dwWaitHint' dwErrExit))
         (nbind (this (\<lambda>s. (m_sshStatusHandle s, m_ssStatus s))) (\<lambda>(h, st).
          nbind (nsys env (SetServiceStatus h st)) (\<lambda>r.
            if an_num r = 0
            then nthen (CNTService_AddToMessageLog env (TEXT ''SetServiceStatus() failed'') EVENTLOG_ERROR_TYPE (- 1)) (nret False)
            else nret True))))"

text \<open>The three standard streams get the new console; the numbers are those of \<open>GetStdHandle\<close>.\<close>

fun redirect :: "nt_env \<Rightarrow> (nat \<times> u32) list \<Rightarrow> unit nt" where
  "redirect env [] = nskip"
| "redirect env ((i, std) # rest) =
     nbind (nsys env (GetStdHandle std)) (\<lambda>hand.
     nthen
       (if an_num hand = - 1 then nskip
        else nbind (nsys env (Open_osfhandle (an_num hand))) (\<lambda>osf.
          if an_num osf = - 1 then nskip
          else nbind (nsys env (Fdopen (an_num osf) (if std = - 10 then ''r'' else ''w''))) (\<lambda>fp.
            if an_num fp = 0 then nskip
            else nthen (nsys env (SetStream i (an_num fp))) (nthen (nsys env (Setvbuf (an_num fp))) nskip))))
       (redirect env rest))"

definition CNTService_SetupConsole :: "nt_env \<Rightarrow> unit nt" where
  "CNTService_SetupConsole env =
     nbind (this m_fConsoleReady) (\<lambda>ready.
       if ready then nskip
       else
         nthen (nsys env AllocConsole)
         (nthen (redirect env [(1, - 11), (2, - 12), (0, - 10)])
         (nset (\<lambda>s. s\<lparr>m_fConsoleReady := True\<rparr>))))"

section \<open>The service control manager\<close>

definition Print :: "nt_env \<Rightarrow> string \<Rightarrow> tstr list \<Rightarrow> unit nt" where
  "Print env fmt args = nthen (nsys env (Tprintf fmt args)) nskip"

definition Print_error :: "nt_env \<Rightarrow> string \<Rightarrow> tstr list \<Rightarrow> unit nt" where
  "Print_error env fmt args = nbind (CNTService_GetLastErrorText env 256) (\<lambda>e. Print env fmt (args @ [e]))"

text \<open>Line ends in the texts are left out.\<close>

text \<open>A status that a call has filled in.\<close>

definition fill_status :: "nt_answer \<Rightarrow> unit nt" where
  "fill_status a = nset (\<lambda>s. case an_status a of None \<Rightarrow> s | Some st \<Rightarrow> s\<lparr>m_ssStatus := st\<rparr>)"

text \<open>The frame of the operations: the manager and the service are opened, and closed again; \<open>quiet\<close> stands for an operation
  that prints nothing when there is no manager.\<close>

definition with_service :: "nt_env \<Rightarrow> bool \<Rightarrow> (u32 \<Rightarrow> bool nt) \<Rightarrow> bool nt" where
  "with_service env quiet body =
     nbind (nsys env OpenSCManager) (\<lambda>m.
       if an_num m = 0
       then nthen (if quiet then nskip else Print_error env ''OpenSCManager failed - %s'' []) (nret False)
       else
         nbind (this m_lpServiceName) (\<lambda>name.
         nbind (nsys env (OpenService (an_num m) name)) (\<lambda>sv.
         nbind
           (if an_num sv = 0 then nthen (Print_error env ''OpenService failed - %s'' []) (nret False)
            else nbind (body (an_num sv)) (\<lambda>r. nthen (nsys env (CloseServiceHandle (an_num sv))) (nret r)))
           (\<lambda>r. nthen (nsys env (CloseServiceHandle (an_num m))) (nret r)))))"

text \<open>The loop that waits for the end of a pending state.\<close>

partial_function (option) poll_state :: "nt_env \<Rightarrow> u32 \<Rightarrow> u32 \<Rightarrow> nt_world \<Rightarrow> (cerror + unit \<times> nt_world) option" where
  "poll_state env h pending w =
     (let a = env (nw_trace w) (QueryServiceStatus h);
          w1 = w\<lparr>nw_trace := nw_trace w @ [(QueryServiceStatus h, a)]\<rparr>
      in if an_num a = 0 then Some (Inr ((), w1))
         else
           let w2 = (case an_status a of None \<Rightarrow> w1 | Some st \<Rightarrow> w1\<lparr>nw_this := (nw_this w1)\<lparr>m_ssStatus := st\<rparr>\<rparr>)
           in if dwCurrentState (m_ssStatus (nw_this w2)) = pending
              then
                let p = env (nw_trace w2) (Tprintf ''.'' []);
                    w3 = w2\<lparr>nw_trace := nw_trace w2 @ [(Tprintf ''.'' [], p)]\<rparr>;
                    z = env (nw_trace w3) (Sleep 1000)
                in poll_state env h pending (w3\<lparr>nw_trace := nw_trace w3 @ [(Sleep 1000, z)]\<rparr>)
              else Some (Inr ((), w2)))"

definition wait_state :: "nt_env \<Rightarrow> u32 \<Rightarrow> u32 \<Rightarrow> u32 \<Rightarrow> string \<Rightarrow> string \<Rightarrow> bool nt" where
  "wait_state env h pending goal good bad =
     nthen (nsys env (Sleep 1000))
     (nthen (poll_state env h pending)
     (nbind (this (\<lambda>s. (dwCurrentState (m_ssStatus s), m_lpDisplayName s))) (\<lambda>(c, name).
        if c = goal then nthen (Print env good [name]) (nret True) else nthen (Print env bad [name]) (nret False))))"

definition control_and_wait ::
    "nt_env \<Rightarrow> u32 \<Rightarrow> u32 \<Rightarrow> string \<Rightarrow> u32 \<Rightarrow> u32 \<Rightarrow> string \<Rightarrow> string \<Rightarrow> bool nt" where
  "control_and_wait env h code doing pending goal good bad =
     nbind (nsys env (ControlService h code)) (\<lambda>a.
     nthen (fill_status a)
     (if an_num a = 0 then nret False
      else nbind (this m_lpDisplayName) (\<lambda>name.
           nthen (Print env doing [name]) (wait_state env h pending goal good bad))))"

definition CNTService_EndService :: "nt_env \<Rightarrow> bool nt" where
  "CNTService_EndService env =
     with_service env False (\<lambda>h.
       control_and_wait env h SERVICE_CONTROL_STOP ''Stopping %s.'' SERVICE_STOP_PENDING SERVICE_STOPPED
         ''%s stopped.'' ''%s failed to stop.'')"

definition CNTService_StartupService :: "nt_env \<Rightarrow> bool nt" where
  "CNTService_StartupService env =
     with_service env False (\<lambda>h.
       nbind (this m_lpDisplayName) (\<lambda>name.
       nthen (Print env ''Starting up %s.'' [name])
       (nbind (nsys env (StartService h)) (\<lambda>a.
          if an_num a \<noteq> 0
          then wait_state env h SERVICE_START_PENDING SERVICE_RUNNING ''%s started.'' ''%s failed to start.''
          else nthen (Print_error env ''%s failed to start: %s'' [name]) (nret False)))))"

definition CNTService_Pause :: "nt_env \<Rightarrow> unit nt" where
  "CNTService_Pause env =
     nthen (with_service env False (\<lambda>h.
       control_and_wait env h SERVICE_CONTROL_PAUSE ''pausing %s.'' SERVICE_PAUSE_PENDING SERVICE_PAUSED
         ''%s paused.'' ''%s failed to pause.'')) nskip"

text \<open>The text is that of a stop.\<close>

definition CNTService_Continue :: "nt_env \<Rightarrow> unit nt" where
  "CNTService_Continue env =
     nthen (with_service env False (\<lambda>h.
       control_and_wait env h SERVICE_CONTROL_CONTINUE ''Stopping %s.'' SERVICE_CONTINUE_PENDING SERVICE_RUNNING
         ''%s started.'' ''%s failed to continue.'')) nskip"

definition CNTService_Shutdown :: "unit nt" where
  "CNTService_Shutdown = nskip"

section \<open>Installation\<close>

definition gszWin95ServKey :: tstr where
  "gszWin95ServKey = key_path [''Software'', ''Microsoft'', ''Windows'', ''CurrentVersion''] @ TEXT ''RunServices''"

definition install_config :: "CNTService \<Rightarrow> tstr \<Rightarrow> svc_config" where
  "install_config s szPath =
     \<lparr>cf_name = m_lpServiceName s, cf_display = m_lpDisplayName s, cf_access = m_dwDesiredAccess s, cf_type = m_dwServiceType s,
      cf_start = m_dwStartType s, cf_error = m_dwErrorControl s, cf_path = szPath, cf_group = m_pszLoadOrderGroup s,
      cf_tag = ((m_dwServiceType s = 1 \<or> m_dwServiceType s = 2) \<and> (m_dwStartType s = 0 \<or> m_dwStartType s = 1)),
      cf_depend = m_pszDependencies s, cf_account = m_pszStartName s, cf_password = m_pszPassword s\<rparr>"

text \<open>The entry for Windows 95: the size of the path is given in characters, not in bytes.\<close>

definition install_95 :: "nt_env \<Rightarrow> tstr \<Rightarrow> bool nt" where
  "install_95 env szPath =
     nbind (nsys env (RegCreateKey gszWin95ServKey)) (\<lambda>k.
       if an_num k \<noteq> 0 then nret False
       else nbind (this m_lpServiceName) (\<lambda>name.
            nthen (nsys env (RegSetValueEx (an_out k) name REG_SZ (take (length szPath + 1) (tbytes (szPath @ [0])))))
            (nthen (nsys env (RegCloseKey (an_out k))) (nret True))))"

definition install_nt :: "nt_env \<Rightarrow> tstr \<Rightarrow> bool nt" where
  "install_nt env szPath =
     nbind
       (nbind (nsys env OpenSCManager) (\<lambda>m.
          if an_num m = 0 then nthen (Print_error env ''OpenSCManager failed - %s'' []) (nret False)
          else nbind (this (\<lambda>s. install_config s szPath)) (\<lambda>cf.
               nbind (nsys env (CreateService (an_num m) cf)) (\<lambda>sv.
               nthen (nset (\<lambda>s. if cf_tag cf \<and> an_num sv \<noteq> 0 then s\<lparr>m_dwTagID := an_out sv\<rparr> else s))
               (nbind (if an_num sv \<noteq> 0 then nthen (nsys env (CloseServiceHandle (an_num sv))) (nret True)
                       else nthen (CNTService_GetLastErrorText env 256) (nret False)) (\<lambda>r.
                nthen (nsys env (CloseServiceHandle (an_num m))) (nret r)))))))
       (\<lambda>r. if r
            then nthen (CNTService_RegisterApplicationLog env szPath 7)
                   (nthen (CNTService_AddToMessageLog env (TEXT ''Service installed'') EVENTLOG_INFORMATION_TYPE (- 1)) (nret True))
            else nret False)"

definition CNTService_InstallService :: "nt_env \<Rightarrow> bool nt" where
  "CNTService_InstallService env =
     nbind (nsys env GetModuleFileName) (\<lambda>f.
     nbind (this (\<lambda>s. (m_lpDisplayName s, CNTService_OsIsWin95 s))) (\<lambda>(name, win95).
       if an_num f = 0 then nthen (Print_error env ''Unable to install %s - %s'' [name]) (nret False)
       else if win95 then install_95 env (an_text f)
       else install_nt env (an_text f)))"

definition CNTService_RemoveService :: "nt_env \<Rightarrow> bool nt" where
  "CNTService_RemoveService env =
     nthen (CNTService_SetupConsole env)
     (nbind (this (\<lambda>s. (m_lpServiceName s, m_lpDisplayName s, CNTService_OsIsWin95 s))) (\<lambda>(name, display, win95).
        if win95
        then nbind (nsys env (RegCreateKey gszWin95ServKey)) (\<lambda>k.
             if an_num k \<noteq> 0 then nret False
             else nthen (nsys env (RegDeleteValue (an_out k) name)) (nthen (nsys env (RegCloseKey (an_out k))) (nret True)))
        else
          nbind (with_service env True (\<lambda>h.
            nthen (control_and_wait env h SERVICE_CONTROL_STOP ''Stopping %s.'' SERVICE_STOP_PENDING SERVICE_STOPPED
                     ''%s stopped.'' ''%s failed to stop.'')
            (nbind (nsys env (DeleteService h)) (\<lambda>d.
               if an_num d \<noteq> 0 then nthen (Print env ''%s removed.'' [display]) (nret True)
               else nthen (Print_error env ''DeleteService failed - %s'' []) (nret False)))))
          (\<lambda>r. if r then nthen (CNTService_DeregisterApplicationLog env) (nret True) else nret False)))"

section \<open>The program\<close>

text \<open>What a derived class overrides.\<close>

record service_class =
  vt_Run :: "tstr list \<Rightarrow> unit nt"
  vt_Stop :: "unit nt"

definition CNTService_StartDispatcher :: "nt_env \<Rightarrow> bool nt" where
  "CNTService_StartDispatcher env =
     nbind (this m_lpServiceName) (\<lambda>name.
     nbind (nsys env (StartServiceCtrlDispatcher name)) (\<lambda>r.
       if an_num r = 0
       then nbind (CNTService_GetLastErrorText env 255) (\<lambda>t.
            nthen (CNTService_AddToMessageLog env t EVENTLOG_ERROR_TYPE (- 1)) (nret False))
       else nret True))"

definition need_service :: "unit nt" where
  "need_service = nbind AfxGetService (\<lambda>p. if p then nskip else nfault NullDeref)"

definition FacelessWndProc :: "nt_env \<Rightarrow> service_class \<Rightarrow> u32 \<Rightarrow> u32 \<Rightarrow> u32 nt" where
  "FacelessWndProc env cls uMsg lParam =
     (if (uMsg = 0x11 \<or> uMsg = 0x16 \<or> uMsg = 0x12) \<and> (lParam = 0 \<or> uMsg = 0x12)
      then nthen (nsys env DestroyWindow)
           (nbind AfxGetService (\<lambda>p. nthen (if p then vt_Stop cls else nskip) (nret 1)))
      else nbind (nsys env (DefWindowProc uMsg lParam)) (\<lambda>r. nret (an_num r)))"

definition CNTService_DebugService :: "nt_env \<Rightarrow> service_class \<Rightarrow> bool \<Rightarrow> bool nt" where
  "CNTService_DebugService env cls faceless =
     nbind (nsys env CommandLineToArgvW) (\<lambda>args.
     nbind (this m_lpDisplayName) (\<lambda>name.
     nthen (if faceless then nskip
            else nthen (CNTService_SetupConsole env)
                 (nthen (Print env ''Debugging %s.'' [name]) (nthen (nsys env SetConsoleCtrlHandler) nskip)))
     (nbind
       (if \<not> faceless then nret 0
        else nthen (nsys env RegisterClass)
             (nthen (nsys env CreateWindow)
             (nbind (nsys env GetProcAddress) (\<lambda>f.
              nthen (if an_num f \<noteq> 0 then nthen (nsys env (RegisterServiceProcess 1)) nskip else nskip) (nret (an_num f))))))
       (\<lambda>fncptr.
          nthen (vt_Run cls (an_args args))
          (nthen (nsys env (GlobalFree_argv 0))
          (nthen (if fncptr \<noteq> 0 then nthen (nsys env (RegisterServiceProcess 0)) nskip else nskip) (nret True)))))))"

text \<open>The command line.\<close>

datatype nt_action = ActDispatcher | ActInstall | ActRemove | ActStartup | ActEnd | ActDebug bool

definition letter :: "string \<Rightarrow> TCHAR" where
  "letter s = hd (TEXT s)"

text \<open>The loop over the arguments, with the number of the argument: the action, the account, the password, and the number that the
  loop ended with. An option \<open>-l\<close> or \<open>-p\<close> without a value at the end steps over the end of the array.\<close>

fun parse_args ::
    "tstr list \<Rightarrow> nat \<Rightarrow> nt_action \<Rightarrow> tstr option \<Rightarrow> tstr option \<Rightarrow> cerror + nt_action \<times> tstr option \<times> tstr option \<times> nat" where
  "parse_args [] k fnc l p = Inr (fnc, l, p, k)"
| "parse_args (a # rest) k fnc l p =
     (if take 1 a \<noteq> TEXT ''-'' \<or> length a < 2 then parse_args rest (Suc k) fnc l p
      else if a ! 1 = letter ''i'' then parse_args rest (Suc k) ActInstall l p
      else if a ! 1 = letter ''l'' \<or> a ! 1 = letter ''p''
      then (if length a = 2
            then (case rest of
                    [] \<Rightarrow> Inl OutOfBounds
                  | v # rest' \<Rightarrow>
                      if a ! 1 = letter ''l'' then parse_args rest' (Suc (Suc k)) fnc (Some v) p
                      else parse_args rest' (Suc (Suc k)) fnc l (Some v))
            else if a ! 1 = letter ''l'' then parse_args rest (Suc k) fnc (Some (drop 2 a)) p
            else parse_args rest (Suc k) fnc l (Some (drop 2 a)))
      else if a ! 1 = letter ''u'' then parse_args rest (Suc k) ActRemove l p
      else if a ! 1 = letter ''s'' then parse_args rest (Suc k) ActStartup l p
      else if a ! 1 = letter ''e'' then parse_args rest (Suc k) ActEnd l p
      else if a ! 1 = letter ''d'' \<or> a ! 1 = letter ''f'' then Inr (ActDebug (a ! 1 = letter ''f''), l, p, k)
      else parse_args rest (Suc k) fnc l p)"

definition debug_run :: "nt_env \<Rightarrow> service_class \<Rightarrow> bool \<Rightarrow> bool nt" where
  "debug_run env cls faceless =
     nthen (nset (\<lambda>s. s\<lparr>m_bDebug := True\<rparr>)) (CNTService_DebugService env cls faceless)"

definition CNTService_RegisterService :: "nt_env \<Rightarrow> service_class \<Rightarrow> bool nt" where
  "CNTService_RegisterService env cls =
     nbind (nsys env CommandLineToArgvW) (\<lambda>args.
     nbind (this (\<lambda>s. (m_pszStartName s, m_pszPassword s, CNTService_OsIsWin95 s))) (\<lambda>(l0, p0, win95).
       if an_args args = [] then nfault OutOfBounds
       else
         nbind (nlift (parse_args (tl (an_args args)) 1 ActDispatcher l0 p0)) (\<lambda>(fnc, l, p, k).
         nthen (nset (\<lambda>s. s\<lparr>m_pszStartName := l, m_pszPassword := p\<rparr>))
         (nthen (nsys env (GlobalFree_argv k))
           (case fnc of
              ActDebug faceless \<Rightarrow> debug_run env cls faceless
            | ActInstall \<Rightarrow>
                nthen (CNTService_InstallService env)
                  (if win95 then debug_run env cls True else CNTService_StartupService env)
            | ActDispatcher \<Rightarrow> if win95 then debug_run env cls True else CNTService_StartDispatcher env
            | ActRemove \<Rightarrow> CNTService_RemoveService env
            | ActStartup \<Rightarrow> CNTService_StartupService env
            | ActEnd \<Rightarrow> CNTService_EndService env)))))"

section \<open>The handlers\<close>

definition CNTService_ServiceMain :: "nt_env \<Rightarrow> service_class \<Rightarrow> tstr list \<Rightarrow> unit nt" where
  "CNTService_ServiceMain env cls args =
     nthen need_service
     (nbind (this m_lpServiceName) (\<lambda>name.
      nbind (nsys env (RegisterServiceCtrlHandler name)) (\<lambda>h.
      nthen (nset (\<lambda>s. s\<lparr>m_sshStatusHandle := an_num h\<rparr>))
      (nthen
        (if an_num h = 0 then nskip
         else nbind (CNTService_ReportStatus env SERVICE_START_PENDING 3000 0) (\<lambda>b. if b then vt_Run cls args else nskip))
        (nbind (this m_sshStatusHandle) (\<lambda>hs.
           if hs = 0 then nskip else nthen (CNTService_ReportStatus env SERVICE_STOPPED 3000 0) nskip))))))"

definition set_state :: "u32 \<Rightarrow> CNTService \<Rightarrow> CNTService" where
  "set_state c s = s\<lparr>m_ssStatus := (m_ssStatus s)\<lparr>dwCurrentState := c\<rparr>\<rparr>"

definition CNTService_ServiceCtrl :: "nt_env \<Rightarrow> service_class \<Rightarrow> u32 \<Rightarrow> unit nt" where
  "CNTService_ServiceCtrl env cls dwCtrlCode =
     nthen need_service
     (if dwCtrlCode = SERVICE_CONTROL_STOP
      then nthen (nset (set_state SERVICE_STOP_PENDING)) (vt_Stop cls)
      else if dwCtrlCode = SERVICE_CONTROL_PAUSE
      then nthen (nset (set_state SERVICE_PAUSE_PENDING)) (CNTService_Pause env)
      else if dwCtrlCode = SERVICE_CONTROL_CONTINUE
      then nthen (nset (set_state SERVICE_CONTINUE_PENDING)) (CNTService_Continue env)
      else if dwCtrlCode = SERVICE_CONTROL_SHUTDOWN then CNTService_Shutdown
      else if dwCtrlCode = SERVICE_CONTROL_INTERROGATE
      then nbind (this (\<lambda>s. dwCurrentState (m_ssStatus s))) (\<lambda>c. nthen (CNTService_ReportStatus env c 3000 0) nskip)
      else nskip)"

definition CNTService_ControlHandler :: "nt_env \<Rightarrow> service_class \<Rightarrow> u32 \<Rightarrow> bool nt" where
  "CNTService_ControlHandler env cls dwCtrlType =
     nthen need_service
     (if dwCtrlType = 0 \<or> dwCtrlType = 1
      then nbind (this m_lpDisplayName) (\<lambda>name.
           nthen (Print env ''Stopping %s.'' [name]) (nthen (vt_Stop cls) (nret True)))
      else nret False)"

section \<open>Waiting\<close>

text \<open>What the manager answers to a question when the service is still, or no more, in the pending state.\<close>

definition still_pending :: "u32 \<Rightarrow> nt_answer \<Rightarrow> bool" where
  "still_pending pending a \<longleftrightarrow>
     an_num a \<noteq> 0 \<and> (case an_status a of None \<Rightarrow> False | Some st \<Rightarrow> dwCurrentState st = pending)"

definition left_pending :: "u32 \<Rightarrow> nt_answer \<Rightarrow> bool" where
  "left_pending pending a \<longleftrightarrow>
     an_num a = 0 \<or> (case an_status a of None \<Rightarrow> False | Some st \<Rightarrow> dwCurrentState st \<noteq> pending)"

text \<open>The loop ends when at some time the pending state is left.\<close>

lemma poll_state_ends:
  assumes "\<And>tr. k \<le> length tr \<Longrightarrow> left_pending pending (env tr (QueryServiceStatus h))"
  shows "\<exists>w'. poll_state env h pending w = Some (Inr ((), w'))"
proof (induction "k - length (nw_trace w)" arbitrary: w rule: less_induct)
  case less
  show ?case
  proof (cases "k \<le> length (nw_trace w)")
    case True
    from assms [OF this] show ?thesis
      by (subst poll_state.simps) (auto simp: left_pending_def Let_def split: option.splits)
  next
    case False
    then have IH: "\<exists>w'. poll_state env h pending v = Some (Inr ((), w'))" if "length (nw_trace w) < length (nw_trace v)" for v
      using less that by (meson diff_less_mono2 not_le)
    show ?thesis
      by (use IH in \<open>subst poll_state.simps, auto simp: Let_def split: option.splits\<close>)
  qed
qed

text \<open>It does not end while the manager goes on answering the pending state.\<close>

lemma poll_state_hangs:
  assumes "poll_state env h pending w = Some y"
  shows "\<exists>tr. \<not> still_pending pending (env tr (QueryServiceStatus h))"
  using assms
proof (induction env h pending w y rule: poll_state.raw_induct [rotated, consumes 1, case_names step])
  case (step f env h pending w y)
  show ?case
  proof (rule ccontr)
    assume "\<not> ?thesis"
    then have "still_pending pending (env (nw_trace w) (QueryServiceStatus h))" by blast
    then obtain v where "f env h pending v = Some y"
      using step(2) by (auto simp: still_pending_def Let_def split: option.splits)
    from step(1) [OF this] \<open>\<not> ?thesis\<close> show False by blast
  qed
qed

text \<open>So stopping a service tells the truth: it answers TRUE when the last status that the manager gave was the stopped one.\<close>

lemma wait_state_answer:
  assumes "wait_state env h pending goal good bad w = Some (Inr (r, w'))"
  shows "r \<longleftrightarrow> dwCurrentState (m_ssStatus (nw_this w')) = goal"
  using assms by (auto simp: wait_state_def Print_def nt_simps split: option.splits sum.splits prod.splits if_splits)

section \<open>The command line\<close>

text \<open>An option for the account as the last argument runs over the end; arguments without a dash are passed over.\<close>

lemma parse_args_plain:
  "\<forall>a \<in> set as. take 1 a \<noteq> TEXT ''-'' \<Longrightarrow> parse_args (as @ bs) k fnc l p = parse_args bs (k + length as) fnc l p"
  by (induction as arbitrary: k) auto

lemma parse_args_no_value:
  assumes "\<forall>a \<in> set as. take 1 a \<noteq> TEXT ''-''"
  shows "parse_args (as @ [TEXT ''-l'']) k fnc l p = Inl OutOfBounds" "parse_args (as @ [TEXT ''-p'']) k fnc l p = Inl OutOfBounds"
  using parse_args_plain [OF assms] by (simp_all add: TEXT_simps letter_def)

end
