(* ===== verification/AppService.thy ===== *)
theory AppService
  imports NTService
begin

text \<open>
  \<open>CAppBase\<close> of AppBase.cpp, and a service as two threads: the one of \<open>ServiceMain\<close> with \<open>CAppBase::Run\<close>, and the one of the
  control dispatcher, which calls \<open>ServiceCtrl\<close>, one request after the other. Both use \<open>m_ssStatus\<close>. Each report of a status is one step.
  The event \<open>m_oEventStop\<close> stays signaled. The service control manager sends a request when the documentation allows it: to
  a service whose last state is none of stopped, start pending and stop pending, and, for a request other than to interrogate, one
  that accepts it.
\<close>

section \<open>CAppBase\<close>

definition call :: "nt_env \<Rightarrow> nt_call \<Rightarrow> unit nt" where
  "call env c = nthen (nsys env c) nskip"

definition CAppBase_DoReadyWork :: "unit nt" where
  "CAppBase_DoReadyWork = nskip"

definition CAppBase_new :: "nt_env \<Rightarrow> tstr \<Rightarrow> tstr option \<Rightarrow> SERVICE_STATUS \<Rightarrow> unit nt" where
  "CAppBase_new env pszServiceName pszDisplayName junk =
     nthen (CNTService_new env pszServiceName pszDisplayName junk) CAppBase_DoReadyWork"

definition CAppBase_DoRun :: bool where
  "CAppBase_DoRun = False"

definition CAppBase_DoStop :: bool where
  "CAppBase_DoStop = True"

definition CAppBase_Stop :: "nt_env \<Rightarrow> unit nt" where
  "CAppBase_Stop env = nthen (CNTService_ReportStatus env SERVICE_STOP_PENDING 11000 0) (call env SignalStop)"

text \<open>\<open>DoRun\<close> and \<open>DoStop\<close> are virtual: calls whose answers are their results.\<close>

definition CAppBase_Run_work :: "nt_env \<Rightarrow> unit nt" where
  "CAppBase_Run_work env =
     nthen (nsys env LoadSocketLib)
     (nbind (nsys env DoRun) (\<lambda>r. if an_num r = 0 then call env SignalStop else nskip))"

definition CAppBase_Run_end :: "nt_env \<Rightarrow> unit nt" where
  "CAppBase_Run_end env = nthen (nsys env DoStop) (call env UnloadSocketLib)"

definition CAppBase_Run :: "nt_env \<Rightarrow> tstr list \<Rightarrow> unit nt" where
  "CAppBase_Run env args =
     nthen (CNTService_ReportStatus env SERVICE_START_PENDING 3000 0)
     (nthen (CNTService_ReportStatus env SERVICE_RUNNING 3000 0)
     (nthen (CAppBase_Run_work env)
     (nthen (call env LockStop) (CAppBase_Run_end env))))"

definition CAppBase_class :: "nt_env \<Rightarrow> service_class" where
  "CAppBase_class env = \<lparr>vt_Run = CAppBase_Run env, vt_Stop = CAppBase_Stop env\<rparr>"

section \<open>The two threads\<close>

datatype main_pc = MInit | MStart | MRun1 | MRun2 | MWork | MWait | MStop | MFinish | MDone

fun main_step :: "nt_env \<Rightarrow> main_pc \<Rightarrow> main_pc nt" where
  "main_step env MInit =
     nbind (this m_lpServiceName) (\<lambda>name.
     nbind (nsys env (RegisterServiceCtrlHandler name)) (\<lambda>h.
     nthen (nset (\<lambda>s. s\<lparr>m_sshStatusHandle := an_num h\<rparr>)) (nret (if an_num h = 0 then MFinish else MStart))))"
| "main_step env MStart =
     nbind (CNTService_ReportStatus env SERVICE_START_PENDING 3000 0) (\<lambda>b. nret (if b then MRun1 else MFinish))"
| "main_step env MRun1 = nthen (CNTService_ReportStatus env SERVICE_START_PENDING 3000 0) (nret MRun2)"
| "main_step env MRun2 = nthen (CNTService_ReportStatus env SERVICE_RUNNING 3000 0) (nret MWork)"
| "main_step env MWork = nthen (CAppBase_Run_work env) (nret MWait)"
| "main_step env MWait = nthen (call env LockStop) (nret MStop)"
| "main_step env MStop = nthen (CAppBase_Run_end env) (nret MFinish)"
| "main_step env MFinish =
     nbind (this m_sshStatusHandle) (\<lambda>hs.
     nthen (if hs = 0 then nskip else nthen (CNTService_ReportStatus env SERVICE_STOPPED 3000 0) nskip) (nret MDone))"
| "main_step env MDone = nret MDone"

datatype ctrl_pc = CIdle | CStopReport | CStopSignal | CPause | CContinue | CReport u32

text \<open>The beginning of a request, up to what another thread can notice.\<close>

definition ctrl_start :: "u32 \<Rightarrow> ctrl_pc nt" where
  "ctrl_start code =
     nthen need_service
     (if code = SERVICE_CONTROL_STOP then nthen (nset (set_state SERVICE_STOP_PENDING)) (nret CStopReport)
      else if code = SERVICE_CONTROL_PAUSE then nthen (nset (set_state SERVICE_PAUSE_PENDING)) (nret CPause)
      else if code = SERVICE_CONTROL_CONTINUE then nthen (nset (set_state SERVICE_CONTINUE_PENDING)) (nret CContinue)
      else if code = SERVICE_CONTROL_INTERROGATE then nbind (this (\<lambda>s. dwCurrentState (m_ssStatus s))) (\<lambda>c. nret (CReport c))
      else nret CIdle)"

fun ctrl_step :: "nt_env \<Rightarrow> ctrl_pc \<Rightarrow> ctrl_pc nt" where
  "ctrl_step env CIdle = nret CIdle"
| "ctrl_step env CStopReport = nthen (CNTService_ReportStatus env SERVICE_STOP_PENDING 11000 0) (nret CStopSignal)"
| "ctrl_step env CStopSignal = nthen (call env SignalStop) (nret CIdle)"
| "ctrl_step env CPause = nthen (CNTService_Pause env) (nret CIdle)"
| "ctrl_step env CContinue = nthen (CNTService_Continue env) (nret CIdle)"
| "ctrl_step env (CReport c) = nthen (CNTService_ReportStatus env c 3000 0) (nret CIdle)"

text \<open>Without the other thread, the steps are the methods.\<close>

primrec main_steps :: "nat \<Rightarrow> nt_env \<Rightarrow> main_pc \<Rightarrow> main_pc nt" where
  "main_steps 0 env pc = nret pc"
| "main_steps (Suc n) env pc = nbind (main_step env pc) (main_steps n env)"

primrec ctrl_steps :: "nat \<Rightarrow> nt_env \<Rightarrow> ctrl_pc \<Rightarrow> ctrl_pc nt" where
  "ctrl_steps 0 env pc = nret pc"
| "ctrl_steps (Suc n) env pc = nbind (ctrl_step env pc) (ctrl_steps n env)"

lemma nbind_ret [simp]: "nbind m nret = m"
  by (auto simp: nt_simps fun_eq_iff split: option.split sum.split)

lemma nbind_nskip: "nbind m (\<lambda>x. nskip) = m"
  by (auto simp: nt_simps fun_eq_iff split: option.split sum.split)

lemma nbind_if: "nbind (if b then m1 else m2) f = (if b then nbind m1 f else nbind m2 f)"
  by simp

lemma nbind_skip: "nbind nskip f = f ()"
  by (simp add: nskip_def)

lemma main_steps_if: "main_steps n env (if b then x else y) = (if b then main_steps n env x else main_steps n env y)"
  by simp

lemma main_steps_done [simp]: "main_steps n env MDone = nret MDone"
  by (induction n) simp_all

lemma ctrl_steps_are_ServiceCtrl:
  "nbind (nbind (ctrl_start code) (ctrl_steps 2 env)) (\<lambda>pc. nskip) = CNTService_ServiceCtrl env (CAppBase_class env) code"
  by (simp add: ctrl_start_def CNTService_ServiceCtrl_def CAppBase_class_def CAppBase_Stop_def CNTService_Shutdown_def nthen_def
      numeral_2_eq_2 nbind_nskip nskip_def nbind_if cong: if_cong)

lemma main_steps_are_ServiceMain:
  "nthen need_service (nbind (main_steps 8 env MInit) (\<lambda>pc. nskip)) = CNTService_ServiceMain env (CAppBase_class env) args"
  by (simp add: eval_nat_numeral CNTService_ServiceMain_def CAppBase_class_def CAppBase_Run_def nthen_def nbind_if nbind_skip
      main_steps_if nbind_nskip cong: if_cong)

section \<open>Runs\<close>

text \<open>What the service control manager was told, and what happened.\<close>

fun reports :: "nt_call list \<Rightarrow> SERVICE_STATUS list" where
  "reports [] = []"
| "reports (SetServiceStatus h st # cs) = st # reports cs"
| "reports (c # cs) = reports cs"

abbreviation calls :: "nt_world \<Rightarrow> nt_call list" where
  "calls w \<equiv> map fst (nw_trace w)"

abbreviation states :: "nt_world \<Rightarrow> u32 list" where
  "states w \<equiv> map dwCurrentState (reports (calls w))"

abbreviation signaled :: "nt_world \<Rightarrow> bool" where
  "signaled w \<equiv> SignalStop \<in> set (calls w)"

text \<open>When the manager sends a request.\<close>

definition accepts :: "u32 \<Rightarrow> SERVICE_STATUS \<Rightarrow> bool" where
  "accepts code st =
     (if code = SERVICE_CONTROL_STOP then dwControlsAccepted st AND SERVICE_ACCEPT_STOP \<noteq> 0
      else if code = SERVICE_CONTROL_PAUSE \<or> code = SERVICE_CONTROL_CONTINUE
      then dwControlsAccepted st AND SERVICE_ACCEPT_PAUSE_CONTINUE \<noteq> 0
      else if code = SERVICE_CONTROL_SHUTDOWN then dwControlsAccepted st AND 4 \<noteq> 0
      else code = SERVICE_CONTROL_INTERROGATE)"

definition scm_sends :: "u32 \<Rightarrow> nt_world \<Rightarrow> bool" where
  "scm_sends code w =
     (reports (calls w) \<noteq> [] \<and>
      dwCurrentState (last (reports (calls w))) \<notin> {SERVICE_STOPPED, SERVICE_START_PENDING, SERVICE_STOP_PENDING} \<and>
      accepts code (last (reports (calls w))))"

definition main_enabled :: "main_pc \<Rightarrow> nt_world \<Rightarrow> bool" where
  "main_enabled m w = (m \<noteq> MDone \<and> (m = MWait \<longrightarrow> signaled w))"

type_synonym svc_state = "main_pc \<times> ctrl_pc \<times> nt_world"

inductive svc_reach :: "nt_env \<Rightarrow> nt_world \<Rightarrow> svc_state \<Rightarrow> bool" for env w0 where
  svc_begin: "svc_reach env w0 (MInit, CIdle, w0)"
| svc_main: "svc_reach env w0 (m, c, w) \<Longrightarrow> main_enabled m w \<Longrightarrow> main_step env m w = Some (Inr (m', w')) \<Longrightarrow>
    svc_reach env w0 (m', c, w')"
| svc_request: "svc_reach env w0 (m, CIdle, w) \<Longrightarrow> scm_sends code w \<Longrightarrow> ctrl_start code w = Some (Inr (c', w')) \<Longrightarrow>
    svc_reach env w0 (m, c', w')"
| svc_ctrl: "svc_reach env w0 (m, c, w) \<Longrightarrow> ctrl_step env c w = Some (Inr (c', w')) \<Longrightarrow> svc_reach env w0 (m, c', w')"

text \<open>
  What the runs need of the system: a status is taken; a request that a service sends to itself out of its own handler times out, as
  the documentation says, without a status; messages of the system end with a line end of two characters.
\<close>

definition svc_env :: "nt_env \<Rightarrow> bool" where
  "svc_env env \<longleftrightarrow>
     (\<forall>tr h st. an_num (env tr (SetServiceStatus h st)) \<noteq> 0) \<and>
     (\<forall>tr h c. an_num (env tr (ControlService h c)) = 0 \<and> an_status (env tr (ControlService h c)) = None) \<and>
     (\<forall>tr e. length (an_text (env tr (FormatMessage e))) \<noteq> 1)"

section \<open>What the steps do\<close>

lemma report_status_handle: "m_sshStatusHandle (report_status c hint e s) = m_sshStatusHandle s"
  by (simp add: report_status_def Let_def)

lemma ReportStatus_result:
  assumes "svc_env env" "\<not> m_bDebug (nw_this w)"
  shows "\<exists>a. CNTService_ReportStatus env c hint 0 w = Some (Inr (True,
    w\<lparr>nw_this := report_status c hint 0 (nw_this w),
      nw_trace := nw_trace w @ [(SetServiceStatus (m_sshStatusHandle (nw_this w)) (m_ssStatus (report_status c hint 0 (nw_this w))), a)]\<rparr>))"
  by (rule exI [of _ "env (nw_trace w)
      (SetServiceStatus (m_sshStatusHandle (nw_this w)) (m_ssStatus (report_status c hint 0 (nw_this w))))"])
    (use assms in \<open>simp add: CNTService_ReportStatus_def nt_simps svc_env_def report_status_handle\<close>)

text \<open>\<open>Pause\<close> and \<open>Continue\<close> change nothing, and report nothing.\<close>

definition quiet :: "nt_world \<Rightarrow> nt_world \<Rightarrow> bool" where
  "quiet w w' \<longleftrightarrow> nw_this w' = nw_this w \<and> nw_gpTheService w' = nw_gpTheService w \<and> reports (calls w') = reports (calls w) \<and>
     signaled w' = signaled w \<and> count_list (calls w') DoStop = count_list (calls w) DoStop"

lemma reports_append [simp]: "reports (a @ b) = reports a @ reports b"
  by (induction a rule: reports.induct) auto

definition quiet_call :: "nt_call \<Rightarrow> bool" where
  "quiet_call c \<longleftrightarrow> reports [c] = [] \<and> c \<noteq> SignalStop \<and> c \<noteq> DoStop"

lemma nt_run_quiet:
  assumes "quiet_call c" "quiet w0 w" "\<And>tr w'. quiet w0 w' \<Longrightarrow> nt_run (f (env tr c)) w' Q"
  shows "nt_run (nbind (nsys env c) f) w Q"
  by (rule nt_run_sys, rule assms(3)) (use assms(1,2) in \<open>auto simp: quiet_def quiet_call_def\<close>)

lemma quiet_calls [simp]:
  "quiet_call OpenSCManager" "quiet_call (OpenService h n)" "quiet_call (ControlService h k)" "quiet_call (CloseServiceHandle h)"
  "quiet_call GetLastError" "quiet_call (FormatMessage e)" "quiet_call (LocalFree p)" "quiet_call (Tprintf x y)"
  by (simp_all add: quiet_call_def)

lemma fill_none: "an_status a = None \<Longrightarrow> fill_status a = nskip"
  by (simp add: fill_status_def nt_simps)

lemma error_text_ret:
  fixes n :: u32
  assumes "length t \<noteq> 1"
  shows "\<exists>u. (if of_nat (length t) = (0 :: u32) \<or> n < of_nat (length t) + 14 then nret []
    else if length t < 2 then nfault OutOfBounds else nret (take (length t - 2) t)) = nret u"
proof (cases "length t < 2")
  case True
  then have "length t = 0" using assms by linarith
  then show ?thesis by (intro exI [of _ "[]"]) simp
qed auto

lemma GetLastErrorText_quiet:
  assumes "svc_env env" "quiet w0 w" "\<And>t w'. quiet w0 w' \<Longrightarrow> nt_run (f t) w' Q"
  shows "nt_run (nbind (CNTService_GetLastErrorText env n) f) w Q"
  unfolding CNTService_GetLastErrorText_def nbind_simps
proof (rule nt_run_quiet [OF _ assms(2)], simp, rule nt_run_quiet, simp, assumption)
  fix tr w1 tr2 w2 assume q: "quiet w0 w2"
  let ?a = "env tr2 (FormatMessage (an_num (env tr GetLastError)))"
  have "length (an_text ?a) \<noteq> 1" using assms(1) unfolding svc_env_def by blast
  from error_text_ret [OF this, of n] obtain u where u: "(if of_nat (length (an_text ?a)) = (0 :: u32) \<or> n < of_nat (length (an_text ?a)) + 14 then nret []
    else if length (an_text ?a) < 2 then nfault OutOfBounds else nret (take (length (an_text ?a) - 2) (an_text ?a))) = nret u" by blast
  have "nt_run (nbind (nthen (if an_num ?a \<noteq> 0 then nthen (nsys env (LocalFree (an_num ?a))) nskip else nskip) (nret u)) f) w2 Q"
    using q assms(3) by (cases "an_num ?a = 0") (auto simp: nt_norm intro!: nt_run_quiet [OF _ q])
  then show "nt_run (nbind (let dwRet = of_nat (length (an_text ?a)) in
      nbind (if dwRet = 0 \<or> n < dwRet + 14 then nret [] else if length (an_text ?a) < 2 then nfault OutOfBounds
             else nret (take (length (an_text ?a) - 2) (an_text ?a)))
        (\<lambda>t. nthen (if an_num ?a \<noteq> 0 then nthen (nsys env (LocalFree (an_num ?a))) nskip else nskip) (nret t))) f) w2 Q"
    unfolding Let_def u by simp
qed

lemma Print_quiet:
  assumes "quiet w0 w" "\<And>w'. quiet w0 w' \<Longrightarrow> nt_run (f ()) w' Q"
  shows "nt_run (nbind (Print env x ys) f) w Q"
  unfolding Print_def by (simp add: nt_norm) (auto intro: nt_run_quiet [OF _ assms(1)] assms(2))

lemma Print_error_quiet:
  assumes "svc_env env" "quiet w0 w" "\<And>w'. quiet w0 w' \<Longrightarrow> nt_run (f ()) w' Q"
  shows "nt_run (nbind (Print_error env x ys) f) w Q"
  unfolding Print_error_def nbind_simps
  by (rule GetLastErrorText_quiet [OF assms(1,2)], rule Print_quiet, assumption, rule assms(3))

text \<open>The operation on the service itself: the request fails.\<close>

lemma control_self_quiet:
  assumes "svc_env env"
  shows "nt_run (nthen (with_service env False (\<lambda>h. control_and_wait env h k x p g y z)) nskip) w (\<lambda>r. \<exists>w'. r = Inr ((), w') \<and> quiet w w')"
proof -
  have R: "an_num (env tr (ControlService h c)) = 0" "fill_status (env tr (ControlService h c)) = nskip" for tr h c
    using assms fill_none unfolding svc_env_def by blast+
  have "quiet w w" by (simp add: quiet_def)
  then show ?thesis
    unfolding with_service_def control_and_wait_def
    by (simp add: nt_norm)
      (((rule nt_run_quiet, simp, assumption) | (rule Print_error_quiet [OF assms], assumption) | (intro conjI impI)
        | (simp add: nt_norm R))+)
qed

section \<open>The invariant\<close>

text \<open>Check points count the reports of pending states.\<close>

definition pending :: "u32 list \<Rightarrow> u32" where
  "pending ss = of_nat (length (filter (\<lambda>c. c \<noteq> SERVICE_RUNNING \<and> c \<noteq> SERVICE_STOPPED) ss))"

fun check_points :: "u32 \<Rightarrow> u32 list \<Rightarrow> u32 list" where
  "check_points k [] = []"
| "check_points k (c # cs) =
     (if c = SERVICE_RUNNING \<or> c = SERVICE_STOPPED then 0 # check_points k cs else (k + 1) # check_points (k + 1) cs)"

lemma check_points_snoc:
  "check_points k (cs @ [c]) =
     check_points k cs @ [if c = SERVICE_RUNNING \<or> c = SERVICE_STOPPED then 0 else k + pending cs + 1]"
  by (induction cs arbitrary: k) (auto simp: pending_def)

definition svc_base :: "nt_world \<Rightarrow> bool" where
  "svc_base w \<longleftrightarrow> \<not> m_bDebug (nw_this w) \<and> nw_gpTheService w \<and>
     map dwCheckPoint (reports (calls w)) = check_points 0 (states w) \<and> m_dwCheckPoint (nw_this w) = pending (states w)"

abbreviation current :: "nt_world \<Rightarrow> u32" where
  "current w \<equiv> dwCurrentState (m_ssStatus (nw_this w))"

definition same_marks :: "nt_world \<Rightarrow> nt_world \<Rightarrow> bool" where
  "same_marks w w' \<longleftrightarrow> signaled w' = signaled w \<and> count_list (calls w') DoStop = count_list (calls w) DoStop \<and>
     m_sshStatusHandle (nw_this w') = m_sshStatusHandle (nw_this w)"

lemma report_facts:
  assumes "svc_env env" "svc_base w"
  obtains w' where "CNTService_ReportStatus env c hint 0 w = Some (Inr (True, w'))" "svc_base w'" "states w' = states w @ [c]"
    "current w' = c" "same_marks w w'"
proof -
  have "\<not> m_bDebug (nw_this w)" using assms(2) by (simp add: svc_base_def)
  from ReportStatus_result [OF assms(1) this, of c hint] obtain a where
    r: "CNTService_ReportStatus env c hint 0 w = Some (Inr (True,
      w\<lparr>nw_this := report_status c hint 0 (nw_this w),
        nw_trace := nw_trace w @ [(SetServiceStatus (m_sshStatusHandle (nw_this w)) (m_ssStatus (report_status c hint 0 (nw_this w))), a)]\<rparr>))"
    by blast
  show thesis
    by (rule that [OF r]) (use assms(2) in \<open>auto simp: svc_base_def same_marks_def report_status_def Let_def check_points_snoc pending_def\<close>)
qed

text \<open>What was reported: of a service that works, that was asked to stop, and that has ended.\<close>

definition working :: "u32 list \<Rightarrow> bool" where
  "working R \<longleftrightarrow> (\<exists>mid. R = [2, 2, 4] @ mid \<and> set mid \<subseteq> {4, 5, 6})"

definition stopping :: "u32 list \<Rightarrow> bool" where
  "stopping R \<longleftrightarrow> (\<exists>R'. R = R' @ [3] \<and> working R')"

definition stopped :: "u32 list \<Rightarrow> bool" where
  "stopped R \<longleftrightarrow> (\<exists>R'. R = R' @ [1] \<and> stopping R')"

fun ctrl_ok :: "ctrl_pc \<Rightarrow> nt_world \<Rightarrow> bool" where
  "ctrl_ok CIdle w = (if signaled w then stopping (states w) else working (states w) \<and> current w \<in> {4, 5, 6})"
| "ctrl_ok CStopReport w = (\<not> signaled w \<and> working (states w))"
| "ctrl_ok CStopSignal w = (\<not> signaled w \<and> stopping (states w))"
| "ctrl_ok CPause w = (\<not> signaled w \<and> working (states w) \<and> current w \<in> {4, 5, 6})"
| "ctrl_ok CContinue w = (\<not> signaled w \<and> working (states w) \<and> current w \<in> {4, 5, 6})"
| "ctrl_ok (CReport x) w = (\<not> signaled w \<and> working (states w) \<and> current w \<in> {4, 5, 6} \<and> x \<in> {4, 5, 6})"

abbreviation stops :: "nt_world \<Rightarrow> nat" where
  "stops w \<equiv> count_list (calls w) DoStop"

abbreviation handle :: "nt_world \<Rightarrow> u32" where
  "handle w \<equiv> m_sshStatusHandle (nw_this w)"

fun main_ok :: "main_pc \<Rightarrow> ctrl_pc \<Rightarrow> nt_world \<Rightarrow> bool" where
  "main_ok MInit c w = (c = CIdle \<and> \<not> signaled w \<and> stops w = 0 \<and> states w = [])"
| "main_ok MStart c w = (c = CIdle \<and> \<not> signaled w \<and> stops w = 0 \<and> states w = [] \<and> handle w \<noteq> 0)"
| "main_ok MRun1 c w = (c = CIdle \<and> \<not> signaled w \<and> stops w = 0 \<and> states w = [2] \<and> handle w \<noteq> 0)"
| "main_ok MRun2 c w = (c = CIdle \<and> \<not> signaled w \<and> stops w = 0 \<and> states w = [2, 2] \<and> handle w \<noteq> 0)"
| "main_ok MWork c w = (ctrl_ok c w \<and> stops w = 0 \<and> handle w \<noteq> 0)"
| "main_ok MWait c w = (ctrl_ok c w \<and> stops w = 0 \<and> handle w \<noteq> 0)"
| "main_ok MStop c w = (c = CIdle \<and> stopping (states w) \<and> stops w = 0 \<and> handle w \<noteq> 0)"
| "main_ok MFinish c w = (c = CIdle \<and> (if handle w = 0 then states w = [] \<and> stops w = 0 else stopping (states w) \<and> stops w = 1))"
| "main_ok MDone c w = (c = CIdle \<and> (if states w = [] then stops w = 0 else stopped (states w) \<and> stops w = 1))"

definition svc_inv :: "svc_state \<Rightarrow> bool" where
  "svc_inv st \<longleftrightarrow> (case st of (m, c, w) \<Rightarrow> svc_base w \<and> main_ok m c w)"

lemma working_snoc: "working R \<Longrightarrow> c \<in> {4, 5, 6} \<Longrightarrow> working (R @ [c])"
  unfolding working_def by (elim exE) (rule_tac x = "mid @ [c]" in exI, auto)

lemma working_first: "working [2, 2, 4]"
  by (simp add: working_def)

lemma working_last: "working R \<Longrightarrow> R \<noteq> [] \<and> last R \<in> {4, 5, 6}"
proof (unfold working_def, elim exE conjE)
  fix mid assume m: "R = [2, 2, 4] @ mid" "set mid \<subseteq> {4, 5, 6}"
  show "R \<noteq> [] \<and> last R \<in> {4, 5, 6}"
  proof (cases "mid = []")
    case False
    then have "last mid \<in> {4, 5, 6}" using m(2) last_in_set by blast
    then show ?thesis using m(1) False by simp
  qed (simp add: m(1))
qed

lemma stopping_snoc: "working R \<Longrightarrow> stopping (R @ [3])"
  by (auto simp: stopping_def)

lemma stopped_snoc: "stopping R \<Longrightarrow> stopped (R @ [1])"
  by (auto simp: stopped_def)

lemma not_sent: "reports (calls w) = [] \<or> last (states w) \<in> {1, 2, 3} \<Longrightarrow> \<not> scm_sends code w"
  by (auto simp: scm_sends_def last_map)

lemma stopping_ends: "stopping R \<Longrightarrow> R \<noteq> [] \<and> last R = 3" "stopped R \<Longrightarrow> R \<noteq> [] \<and> last R = 1"
  by (auto simp: stopping_def stopped_def)

section \<open>Every step keeps it\<close>

lemma main_report_step:
  assumes "svc_env env" "svc_base w"
  obtains w' where "nthen (CNTService_ReportStatus env k hint 0) (nret m) w = Some (Inr (m, w'))" "svc_base w'"
    "states w' = states w @ [k]" "current w' = k" "same_marks w w'"
  by (rule report_facts [OF assms, of k hint]) (auto simp: nt_simps)

lemma main_step_ok:
  assumes "svc_env env" "\<And>tr. an_num (env tr DoRun) \<noteq> 0" "svc_inv (m, c, w)" "main_enabled m w"
  shows "\<exists>m' w'. main_step env m w = Some (Inr (m', w')) \<and> svc_inv (m', c, w')"
proof -
  have b: "svc_base w" and ok: "main_ok m c w" using assms(3) by (simp_all add: svc_inv_def)
  show ?thesis
  proof (cases m)
    case MInit
    then show ?thesis using b ok by (auto simp: nt_simps svc_inv_def svc_base_def pending_def)
  next
    case MStart
    obtain w' where r: "CNTService_ReportStatus env 2 3000 0 w = Some (Inr (True, w'))" "svc_base w'" "states w' = states w @ [2]"
      "same_marks w w'" by (rule report_facts [OF assms(1) b, of 2 3000])
    then show ?thesis using ok MStart by (simp add: nt_simps svc_inv_def same_marks_def)
  next
    case MRun1
    obtain w' where "main_step env m w = Some (Inr (MRun2, w'))" "svc_base w'" "states w' = states w @ [2]" "same_marks w w'"
      using main_report_step [OF assms(1) b, of 2 3000 MRun2] MRun1 by auto
    then show ?thesis using ok MRun1 by (simp add: svc_inv_def same_marks_def)
  next
    case MRun2
    obtain w' where "main_step env m w = Some (Inr (MWork, w'))" "svc_base w'" "states w' = states w @ [4]" "current w' = 4" "same_marks w w'"
      using main_report_step [OF assms(1) b, of 4 3000 MWork] MRun2 by auto
    then show ?thesis using ok MRun2 working_first by (simp add: svc_inv_def same_marks_def)
  next
    case MWork
    then show ?thesis using b ok assms(2)
      by (cases c) (auto simp: CAppBase_Run_work_def nt_simps svc_inv_def svc_base_def)
  next
    case MWait
    have "signaled w" using assms(4) MWait by (simp add: main_enabled_def)
    then have "c = CIdle" "stopping (states w)" using ok MWait by (cases c; simp)+
    then show ?thesis using b ok MWait by (auto simp: call_def nt_simps svc_inv_def svc_base_def)
  next
    case MStop
    then show ?thesis using b ok by (auto simp: CAppBase_Run_end_def call_def nt_simps svc_inv_def svc_base_def)
  next
    case MFinish
    show ?thesis
    proof (cases "handle w = 0")
      case True
      then show ?thesis using b ok MFinish by (simp add: nt_simps svc_inv_def)
    next
      case False
      obtain w' where r: "CNTService_ReportStatus env 1 3000 0 w = Some (Inr (True, w'))" "svc_base w'" "states w' = states w @ [1]"
        "same_marks w w'" by (rule report_facts [OF assms(1) b, of 1 3000])
      then show ?thesis using ok MFinish False stopped_snoc by (simp add: nt_simps svc_inv_def same_marks_def)
    qed
  next
    case MDone
    then show ?thesis using assms(4) by (simp add: main_enabled_def)
  qed
qed

lemma request_ok:
  assumes "svc_inv (m, CIdle, w)" "scm_sends code w" "ctrl_start code w = Some (Inr (c', w'))"
  shows "svc_inv (m, c', w')"
proof -
  have b: "svc_base w" and ok: "main_ok m CIdle w" using assms(1) by (simp_all add: svc_inv_def)
  have "reports (calls w) \<noteq> []" "last (states w) \<notin> {1, 2, 3}" using assms(2) not_sent by blast+
  then have m: "m \<in> {MWork, MWait}" "\<not> signaled w"
    using ok stopping_ends [of "states w"] by (cases m; auto split: if_splits)+
  then have w: "working (states w)" "current w \<in> {4, 5, 6}" using ok by auto
  have "svc_base w' \<and> main_ok m c' w'"
    using assms(3) b m w ok
    by (auto simp: ctrl_start_def need_service_def AfxGetService_def nt_simps set_state_def svc_base_def split: if_splits)
  then show ?thesis by (simp add: svc_inv_def)
qed

lemma ctrl_step_ok:
  assumes "svc_env env" "svc_inv (m, c, w)"
  shows "\<exists>c' w'. ctrl_step env c w = Some (Inr (c', w')) \<and> svc_inv (m, c', w')"
proof -
  have b: "svc_base w" and ok: "main_ok m c w" using assms(2) by (simp_all add: svc_inv_def)
  have m: "m \<in> {MWork, MWait}" if "c \<noteq> CIdle" using ok that by (cases m) auto
  have quiet_end: "svc_inv (m, CIdle, w')" if "quiet w w'" "c = CPause \<or> c = CContinue" for w'
  proof -
    have "c \<noteq> CIdle" using that(2) by (elim disjE) simp_all
    then have mm: "m = MWork \<or> m = MWait" using m by simp
    then have k: "ctrl_ok c w" "stops w = 0" "handle w \<noteq> 0" using ok by (elim disjE; simp)+
    have "\<not> signaled w \<and> working (states w) \<and> current w \<in> {4, 5, 6}"
      using that(2) k(1) by (elim disjE) (simp_all only: ctrl_ok.simps simp_thms)
    then have f: "\<not> signaled w" "working (states w)" "current w \<in> {4, 5, 6}" "stops w = 0" "handle w \<noteq> 0" "m \<in> {MWork, MWait}"
      using k mm by simp_all
    have q: "nw_this w' = nw_this w" "nw_gpTheService w' = nw_gpTheService w" "reports (calls w') = reports (calls w)"
      "signaled w' = signaled w" "stops w' = stops w" using that(1) unfolding quiet_def by blast+
    have "svc_base w'" using b unfolding svc_base_def q .
    moreover have "ctrl_ok CIdle w'" using f unfolding ctrl_ok.simps q by simp
    moreover have "stops w' = 0 \<and> handle w' \<noteq> 0" using k q by simp
    ultimately show ?thesis using mm unfolding svc_inv_def prod.case by (elim disjE) (simp_all only: main_ok.simps simp_thms)
  qed
  show ?thesis
  proof (cases c)
    case CIdle
    then show ?thesis using assms(2) by (simp add: nt_simps)
  next
    case CStopReport
    obtain w' where "ctrl_step env c w = Some (Inr (CStopSignal, w'))" "svc_base w'" "states w' = states w @ [3]" "same_marks w w'"
      using main_report_step [OF assms(1) b, of 3 11000 CStopSignal] CStopReport by auto
    then show ?thesis using ok m CStopReport stopping_snoc by (auto simp: svc_inv_def same_marks_def)
  next
    case CStopSignal
    then show ?thesis using b ok m by (auto simp: call_def nt_simps svc_inv_def svc_base_def)
  next
    case CPause
    obtain w' where "CNTService_Pause env w = Some (Inr ((), w'))" "quiet w w'"
      using control_self_quiet [OF assms(1)] unfolding CNTService_Pause_def nt_run_def by blast
    then show ?thesis using CPause quiet_end by (auto simp: nt_simps)
  next
    case CContinue
    obtain w' where "CNTService_Continue env w = Some (Inr ((), w'))" "quiet w w'"
      using control_self_quiet [OF assms(1)] unfolding CNTService_Continue_def nt_run_def by blast
    then show ?thesis using CContinue quiet_end by (auto simp: nt_simps)
  next
    case (CReport x)
    obtain w' where "ctrl_step env c w = Some (Inr (CIdle, w'))" "svc_base w'" "states w' = states w @ [x]" "current w' = x" "same_marks w w'"
      using main_report_step [OF assms(1) b, of x 3000 CIdle] CReport by auto
    then show ?thesis using ok m CReport working_snoc by (auto simp: svc_inv_def same_marks_def)
  qed
qed

lemma svc_reach_inv:
  assumes "svc_env env" "\<And>tr. an_num (env tr DoRun) \<noteq> 0" "svc_base w0" "calls w0 = cs" "reports cs = []" "SignalStop \<notin> set cs" "DoStop \<notin> set cs"
    and "svc_reach env w0 st"
  shows "svc_inv st"
  using assms(8)
proof (induction rule: svc_reach.induct)
  case svc_begin
  have "main_ok MInit CIdle w0" using assms(4-7) by (simp add: count_list_0_iff)
  then show ?case using assms(3) by (simp add: svc_inv_def)
next
  case (svc_main m c w m' w')
  then show ?case using main_step_ok [OF assms(1,2) svc_main.IH svc_main.hyps(2)] by auto
next
  case (svc_request m w code c' w')
  then show ?case using request_ok by blast
next
  case (svc_ctrl m c w c' w')
  then show ?case using ctrl_step_ok [OF assms(1) svc_ctrl.IH] by auto
qed

section \<open>The beginning\<close>

text \<open>The object that \<open>CAppBase\<close> makes.\<close>

lemma user_sid_quiet:
  "user_sid env w = Some r \<Longrightarrow> case r of Inl e \<Rightarrow> True | Inr (x, w') \<Rightarrow> quiet w w'"
  by (auto simp: user_sid_def nt_simps quiet_def split: if_splits)

lemma CAppBase_new_base:
  assumes "CAppBase_new env name display junk w = Some (Inr ((), w0))" "nw_trace w = []"
  shows "svc_base w0 \<and> reports (calls w0) = [] \<and> SignalStop \<notin> set (calls w0) \<and> DoStop \<notin> set (calls w0)"
proof -
  define v where "v = env [] GetVersionEx"
  define w1 where "w1 = w\<lparr>nw_trace := [(GetVersionEx, v)], nw_this := CNTService_init name display (an_num v = 2) junk,
    nw_bInstance := True, nw_gpTheService := True\<rparr>"
  have w1: "svc_base w1" "calls w1 = [GetVersionEx]"
    by (simp_all add: w1_def svc_base_def CNTService_init_def pending_def)
  have new: "(if an_num v = 2 then nbind (user_sid env) (\<lambda>sid. nset (\<lambda>s. s\<lparr>m_pUserSID := sid\<rparr>)) else nskip) w1 = Some (Inr ((), w0))"
    using assms unfolding w1_def v_def
    by (simp add: CAppBase_new_def CAppBase_DoReadyWork_def CNTService_new_def nt_global_def nt_simps split: if_splits option.splits sum.splits prod.splits)
  show ?thesis
  proof (cases "an_num v = 2")
    case True
    then obtain sid w2 where "user_sid env w1 = Some (Inr (sid, w2))" "w0 = w2\<lparr>nw_this := (nw_this w2)\<lparr>m_pUserSID := sid\<rparr>\<rparr>"
      using new by (auto simp: nt_simps split: option.splits sum.splits prod.splits)
    moreover from this(1) have "quiet w1 w2" using user_sid_quiet by fastforce
    ultimately show ?thesis using w1 by (simp add: quiet_def svc_base_def count_list_0_iff)
  next
    case False
    then show ?thesis using new w1 by (simp add: nt_simps)
  qed
qed

lemma reached_shape:
  assumes "svc_inv (m, c, w)"
  shows "\<exists>n mid. set mid \<subseteq> {4, 5, 6} \<and> states w = take n ([2, 2, 4] @ mid @ [3, 1])"
proof -
  consider "states w = []" | "states w = [2]" | "states w = [2, 2]" | "working (states w)" | "stopping (states w)" | "stopped (states w)"
    using assms by (cases m; cases c) (auto simp: svc_inv_def split: if_splits)
  then show ?thesis
  proof cases
    case 1
    then show ?thesis by (intro exI [of _ 0] exI [of _ "[]"]) simp
  next
    case 2
    then show ?thesis by (intro exI [of _ 1] exI [of _ "[]"]) simp
  next
    case 3
    then show ?thesis by (intro exI [of _ 2] exI [of _ "[]"]) simp
  next
    case 4
    then obtain mid where "states w = [2, 2, 4] @ mid" "set mid \<subseteq> {4, 5, 6}" unfolding working_def by blast
    then show ?thesis by (intro exI [of _ "Suc (Suc (Suc (length mid)))"] exI [of _ mid]) simp
  next
    case 5
    then obtain mid where "states w = ([2, 2, 4] @ mid) @ [3]" "set mid \<subseteq> {4, 5, 6}" unfolding stopping_def working_def by blast
    then show ?thesis by (intro exI [of _ "Suc (Suc (Suc (Suc (length mid))))"] exI [of _ mid]) simp
  next
    case 6
    then obtain mid where "states w = (([2, 2, 4] @ mid) @ [3]) @ [1]" "set mid \<subseteq> {4, 5, 6}"
      unfolding stopped_def stopping_def working_def by blast
    then show ?thesis by (intro exI [of _ "Suc (Suc (Suc (Suc (Suc (length mid)))))"] exI [of _ mid]) simp
  qed
qed

lemma inv_facts:
  assumes "svc_inv (m, c, w)"
  shows "stops w = (if m \<in> {MFinish, MDone} \<and> states w \<noteq> [] then 1 else 0)"
    "DoStop \<in> set (calls w) \<longrightarrow> 3 \<in> set (states w)" "m = MDone \<longrightarrow> states w = [] \<or> last (states w) = 1"
    "3 \<in> set (states w) \<and> c = CIdle \<and> m \<noteq> MDone \<longrightarrow> main_enabled m w"
proof -
  have ok: "main_ok m c w" using assms by (simp add: svc_inv_def)
  have st: "stopping R \<Longrightarrow> R \<noteq> [] \<and> 3 \<in> set R" "stopped R \<Longrightarrow> R \<noteq> [] \<and> 3 \<in> set R \<and> last R = 1" "working R \<Longrightarrow> 3 \<notin> set R" for R
    by (auto simp: stopping_def stopped_def working_def)
  show n: "stops w = (if m \<in> {MFinish, MDone} \<and> states w \<noteq> [] then 1 else 0)"
    using ok st by (cases m) (auto split: if_splits)
  show "m = MDone \<longrightarrow> states w = [] \<or> last (states w) = 1" using ok st(2) by (auto split: if_splits)
  show "DoStop \<in> set (calls w) \<longrightarrow> 3 \<in> set (states w)"
  proof
    assume "DoStop \<in> set (calls w)"
    then have "stops w \<noteq> 0" by (simp add: count_list_0_iff)
    then have "m \<in> {MFinish, MDone}" "states w \<noteq> []" using n by (auto split: if_splits)
    then have "stopping (states w) \<or> stopped (states w)" using ok by (auto split: if_splits)
    then show "3 \<in> set (states w)" using st(1,2) by blast
  qed
  show "3 \<in> set (states w) \<and> c = CIdle \<and> m \<noteq> MDone \<longrightarrow> main_enabled m w"
  proof (intro impI, elim conjE)
    assume a: "3 \<in> set (states w)" "c = CIdle" "m \<noteq> MDone"
    have "signaled w" if "m = MWait"
    proof (rule ccontr)
      assume "\<not> signaled w"
      then have "working (states w)" using ok that a(2) by simp
      then show False using st(3) a(1) by blast
    qed
    then show "main_enabled m w" using a(3) by (simp add: main_enabled_def)
  qed
qed

text \<open>A service whose \<open>DoRun\<close> returns FALSE ends by itself, while the dispatcher may still be answering a question.\<close>

lemma self_stop_race:
  assumes "svc_env env" "\<And>tr. an_num (env tr DoRun) = 0" "\<And>tr n. an_num (env tr (RegisterServiceCtrlHandler n)) \<noteq> 0"
    and "svc_base w0" "reports (calls w0) = []"
  shows "\<exists>w. svc_reach env w0 (MDone, CIdle, w) \<and> states w = [2, 2, 4, 1, 4]"
proof -
  obtain w1 where w1: "main_step env MInit w0 = Some (Inr (MStart, w1))" "svc_base w1" "states w1 = []" "handle w1 \<noteq> 0"
    using assms(3-5) by (auto simp: nt_simps svc_base_def pending_def)
  have r1: "svc_reach env w0 (MStart, CIdle, w1)"
    by (rule svc_reach.svc_main [OF svc_reach.svc_begin _ w1(1)]) (simp add: main_enabled_def)
  obtain w2 where w2: "CNTService_ReportStatus env 2 3000 0 w1 = Some (Inr (True, w2))" "svc_base w2" "states w2 = states w1 @ [2]"
    "same_marks w1 w2" by (rule report_facts [OF assms(1) w1(2), of 2 3000])
  have "main_step env MStart w1 = Some (Inr (MRun1, w2))" using w2(1) by (simp add: nt_simps)
  from svc_reach.svc_main [OF r1 _ this] have r2: "svc_reach env w0 (MRun1, CIdle, w2)" by (simp add: main_enabled_def)
  obtain w3 where w3: "main_step env MRun1 w2 = Some (Inr (MRun2, w3))" "svc_base w3" "states w3 = states w2 @ [2]" "same_marks w2 w3"
    using main_report_step [OF assms(1) w2(2), of 2 3000 MRun2] by auto
  from svc_reach.svc_main [OF r2 _ w3(1)] have r3: "svc_reach env w0 (MRun2, CIdle, w3)" by (simp add: main_enabled_def)
  obtain w4 where w4: "main_step env MRun2 w3 = Some (Inr (MWork, w4))" "svc_base w4" "states w4 = states w3 @ [4]" "current w4 = 4"
    "same_marks w3 w4" using main_report_step [OF assms(1) w3(2), of 4 3000 MWork] by auto
  from svc_reach.svc_main [OF r3 _ w4(1)] have r4: "svc_reach env w0 (MWork, CIdle, w4)" by (simp add: main_enabled_def)
  have s4: "states w4 = [2, 2, 4]" using w1(3) w2(3) w3(3) w4(3) by simp
  then have "reports (calls w4) \<noteq> []" "dwCurrentState (last (reports (calls w4))) = 4" by (auto simp flip: last_map)
  then have "scm_sends 4 w4" by (simp add: scm_sends_def accepts_def)
  moreover have "ctrl_start 4 w4 = Some (Inr (CReport 4, w4))"
    using w4(2,4) by (simp add: ctrl_start_def need_service_def AfxGetService_def nt_simps svc_base_def)
  ultimately have r5: "svc_reach env w0 (MWork, CReport 4, w4)" by (rule svc_reach.svc_request [OF r4])
  obtain w5 where w5: "main_step env MWork w4 = Some (Inr (MWait, w5))" "svc_base w5" "states w5 = states w4" "signaled w5" "handle w5 = handle w4"
    using assms(2) w4(2) by (auto simp: CAppBase_Run_work_def call_def nt_simps svc_base_def)
  from svc_reach.svc_main [OF r5 _ w5(1)] have r6: "svc_reach env w0 (MWait, CReport 4, w5)" by (simp add: main_enabled_def)
  obtain w6 where w6: "main_step env MWait w5 = Some (Inr (MStop, w6))" "svc_base w6" "states w6 = states w5" "handle w6 = handle w5"
    using w5(2) by (auto simp: call_def nt_simps svc_base_def)
  from svc_reach.svc_main [OF r6 _ w6(1)] w5(4) have r7: "svc_reach env w0 (MStop, CReport 4, w6)" by (simp add: main_enabled_def)
  obtain w7 where w7: "main_step env MStop w6 = Some (Inr (MFinish, w7))" "svc_base w7" "states w7 = states w6" "handle w7 = handle w6"
    using w6(2) by (auto simp: CAppBase_Run_end_def call_def nt_simps svc_base_def)
  from svc_reach.svc_main [OF r7 _ w7(1)] have r8: "svc_reach env w0 (MFinish, CReport 4, w7)" by (simp add: main_enabled_def)
  have h: "handle w7 \<noteq> 0" using w1(4) w2(4) w3(4) w4(5) w5(5) w6(4) w7(4) by (simp add: same_marks_def)
  obtain w8 where w8: "CNTService_ReportStatus env 1 3000 0 w7 = Some (Inr (True, w8))" "svc_base w8" "states w8 = states w7 @ [1]"
    by (rule report_facts [OF assms(1) w7(2), of 1 3000])
  have "main_step env MFinish w7 = Some (Inr (MDone, w8))" using w8(1) h by (simp add: nt_simps)
  from svc_reach.svc_main [OF r8 _ this] have r9: "svc_reach env w0 (MDone, CReport 4, w8)" by (simp add: main_enabled_def)
  obtain w9 where w9: "ctrl_step env (CReport 4) w8 = Some (Inr (CIdle, w9))" "states w9 = states w8 @ [4]"
    using main_report_step [OF assms(1) w8(2), of 4 3000 CIdle] by auto
  have "svc_reach env w0 (MDone, CIdle, w9)" by (rule svc_reach.svc_ctrl [OF r9 w9(1)])
  moreover have "states w9 = [2, 2, 4, 1, 4]" unfolding w9(2) w8(3) w7(3) w6(3) w5(3) s4 by simp
  ultimately show ?thesis by (intro exI [of _ w9] conjI)
qed

section \<open>Property\<close>

text \<open>
  C38. A service made with \<open>CAppBase\<close>, in every interleaving of its main thread with the control dispatcher. If \<open>DoRun\<close> succeeds, no step
  faults or hangs; the service reports start pending twice, running, then only states of a working service, and after a stop request
  stop pending and stopped, in this order, with check points that count the pending reports; \<open>DoStop\<close> is called once, after the stop was
  reported, and with the stop request carried out the main thread can always go on to its end. The state paused is never reported. But
  if \<open>DoRun\<close> returns FALSE, which is what it does by default, the service can report that it is running after it has reported that
  it is stopped.
\<close>

theorem service_protocol:
  assumes "svc_env env" "CAppBase_new env name display junk w = Some (Inr ((), w0))" "nw_trace w = []"
  shows "((\<forall>tr. an_num (env tr DoRun) \<noteq> 0) \<longrightarrow> (\<forall>m c w. svc_reach env w0 (m, c, w) \<longrightarrow>
      (\<exists>n mid. set mid \<subseteq> {SERVICE_RUNNING, SERVICE_CONTINUE_PENDING, SERVICE_PAUSE_PENDING} \<and>
         states w = take n ([SERVICE_START_PENDING, SERVICE_START_PENDING, SERVICE_RUNNING] @ mid @
           [SERVICE_STOP_PENDING, SERVICE_STOPPED])) \<and>
      map dwCheckPoint (reports (calls w)) = check_points 0 (states w) \<and>
      stops w = (if m \<in> {MFinish, MDone} \<and> states w \<noteq> [] then 1 else 0) \<and>
      (DoStop \<in> set (calls w) \<longrightarrow> SERVICE_STOP_PENDING \<in> set (states w)) \<and>
      (m = MDone \<longrightarrow> states w = [] \<or> last (states w) = SERVICE_STOPPED) \<and>
      (\<exists>c' w'. ctrl_step env c w = Some (Inr (c', w'))) \<and>
      (main_enabled m w \<longrightarrow> (\<exists>m' w'. main_step env m w = Some (Inr (m', w')))) \<and>
      (SERVICE_STOP_PENDING \<in> set (states w) \<and> c = CIdle \<and> m \<noteq> MDone \<longrightarrow> main_enabled m w))) \<and>
    ((\<forall>tr. an_num (env tr DoRun) = 0) \<and> (\<forall>tr n. an_num (env tr (RegisterServiceCtrlHandler n)) \<noteq> 0) \<longrightarrow>
      (\<exists>w. svc_reach env w0 (MDone, CIdle, w) \<and>
        states w = [SERVICE_START_PENDING, SERVICE_START_PENDING, SERVICE_RUNNING, SERVICE_STOPPED, SERVICE_RUNNING]))"
proof (intro conjI impI allI)
  fix m c w assume run: "\<forall>tr. an_num (env tr DoRun) \<noteq> 0" and r: "svc_reach env w0 (m, c, w)"
  have inv: "svc_inv (m, c, w)"
    using svc_reach_inv [OF assms(1) _ _ refl _ _ _ r] run CAppBase_new_base [OF assms(2,3)] by blast
  note facts = inv_facts [OF inv]
  show "\<exists>n mid. set mid \<subseteq> {4, 5, 6} \<and> states w = take n ([2, 2, 4] @ mid @ [3, 1])" by (rule reached_shape [OF inv])
  show "map dwCheckPoint (reports (calls w)) = check_points 0 (states w)" using inv by (simp add: svc_inv_def svc_base_def)
  show "stops w = (if m \<in> {MFinish, MDone} \<and> states w \<noteq> [] then 1 else 0)"
    "DoStop \<in> set (calls w) \<Longrightarrow> 3 \<in> set (states w)" "m = MDone \<Longrightarrow> states w = [] \<or> last (states w) = 1"
    "3 \<in> set (states w) \<and> c = CIdle \<and> m \<noteq> MDone \<Longrightarrow> main_enabled m w"
    using facts by blast+
  show "\<exists>c' w'. ctrl_step env c w = Some (Inr (c', w'))" using ctrl_step_ok [OF assms(1) inv] by blast
  show "\<exists>m' w'. main_step env m w = Some (Inr (m', w'))" if "main_enabled m w"
    using main_step_ok [OF assms(1) _ inv that] run by blast
next
  assume "(\<forall>tr. an_num (env tr DoRun) = 0) \<and> (\<forall>tr n. an_num (env tr (RegisterServiceCtrlHandler n)) \<noteq> 0)"
  then show "\<exists>w. svc_reach env w0 (MDone, CIdle, w) \<and> states w = [2, 2, 4, 1, 4]"
    using self_stop_race [OF assms(1)] CAppBase_new_base [OF assms(2,3)] by blast
qed

section \<open>Witness\<close>

text \<open>A system on which every call succeeds but those of \<open>svc_env\<close> and the look-up of the user; \<open>run\<close> is the answer of \<open>DoRun\<close>.\<close>

definition app_env :: "u32 \<Rightarrow> nt_env" where
  "app_env run tr c =
     (case c of
        ControlService h k \<Rightarrow> src_answer
      | LookupAccountName u \<Rightarrow> src_answer
      | GetVersionEx \<Rightarrow> src_answer\<lparr>an_num := 2\<rparr>
      | DoRun \<Rightarrow> src_answer\<lparr>an_num := run\<rparr>
      | _ \<Rightarrow> src_answer\<lparr>an_num := 1\<rparr>)"

lemma app_env_ok: "svc_env (app_env run)"
  by (simp add: svc_env_def app_env_def src_answer_def)

lemma app_env_run: "an_num (app_env run tr DoRun) = run" "an_num (app_env run tr (RegisterServiceCtrlHandler n)) = 1"
  by (simp_all add: app_env_def src_answer_def)

lemma app_new: "\<exists>w0. CAppBase_new (app_env run) name None src_status (src_world name) = Some (Inr ((), w0))"
  by (simp add: CAppBase_new_def CAppBase_DoReadyWork_def CNTService_new_def user_sid_def nt_global_def nt_simps app_env_def src_answer_def)

lemma service_protocol_witness:
  "(\<exists>w0 w n mid. CAppBase_new (app_env 1) (TEXT ''me'') None src_status (src_world (TEXT ''me'')) = Some (Inr ((), w0)) \<and>
      svc_reach (app_env 1) w0 (MStart, CIdle, w) \<and> main_enabled MStart w \<and>
      (\<exists>m' w'. main_step (app_env 1) MStart w = Some (Inr (m', w'))) \<and>
      set mid \<subseteq> {4, 5, 6} \<and> states w = take n ([2, 2, 4] @ mid @ [3, 1])) \<and>
   (\<exists>w0 w. CAppBase_new (app_env 0) (TEXT ''me'') None src_status (src_world (TEXT ''me'')) = Some (Inr ((), w0)) \<and>
      svc_reach (app_env 0) w0 (MDone, CIdle, w) \<and> states w = [2, 2, 4, 1, 4])"
proof (intro conjI)
  have t: "nw_trace (src_world (TEXT ''me'')) = []" by (simp add: src_world_def)
  obtain w0 where n: "CAppBase_new (app_env 1) (TEXT ''me'') None src_status (src_world (TEXT ''me'')) = Some (Inr ((), w0))"
    using app_new by blast
  have "an_num (app_env 1 tr (RegisterServiceCtrlHandler x)) \<noteq> 0" for tr x by (simp add: app_env_run)
  then obtain w where "main_step (app_env 1) MInit w0 = Some (Inr (MStart, w))" by (simp add: nt_simps)
  from svc_reach.svc_main [OF svc_reach.svc_begin _ this] have r: "svc_reach (app_env 1) w0 (MStart, CIdle, w)"
    by (simp add: main_enabled_def)
  have e: "main_enabled MStart w" by (simp add: main_enabled_def)
  have "\<forall>tr. an_num (app_env 1 tr DoRun) \<noteq> 0" by (simp add: app_env_run)
  with service_protocol [OF app_env_ok n t] r e
  show "\<exists>w0 w n mid. CAppBase_new (app_env 1) (TEXT ''me'') None src_status (src_world (TEXT ''me'')) = Some (Inr ((), w0)) \<and>
      svc_reach (app_env 1) w0 (MStart, CIdle, w) \<and> main_enabled MStart w \<and>
      (\<exists>m' w'. main_step (app_env 1) MStart w = Some (Inr (m', w'))) \<and>
      set mid \<subseteq> {4, 5, 6} \<and> states w = take n ([2, 2, 4] @ mid @ [3, 1])"
    using n by blast
next
  have t: "nw_trace (src_world (TEXT ''me'')) = []" by (simp add: src_world_def)
  obtain w0 where n: "CAppBase_new (app_env 0) (TEXT ''me'') None src_status (src_world (TEXT ''me'')) = Some (Inr ((), w0))"
    using app_new by blast
  have "(\<forall>tr. an_num (app_env 0 tr DoRun) = 0) \<and> (\<forall>tr x. an_num (app_env 0 tr (RegisterServiceCtrlHandler x)) \<noteq> 0)"
    by (simp add: app_env_run)
  then have "\<exists>w. svc_reach (app_env 0) w0 (MDone, CIdle, w) \<and> states w = [2, 2, 4, 1, 4]"
    by (rule service_protocol [OF app_env_ok n t, THEN conjunct2, THEN mp])
  then obtain w where "svc_reach (app_env 0) w0 (MDone, CIdle, w)" "states w = [2, 2, 4, 1, 4]" by (elim exE conjE)
  then show "\<exists>w0 w. CAppBase_new (app_env 0) (TEXT ''me'') None src_status (src_world (TEXT ''me'')) = Some (Inr ((), w0)) \<and>
      svc_reach (app_env 0) w0 (MDone, CIdle, w) \<and> states w = [2, 2, 4, 1, 4]"
    by (intro exI conjI) (rule n)
qed

end
