(* ===== verification/Spec2Isabelle.thy ===== *)
theory Spec2Isabelle
  imports MessageQueue TcpSession TcpServerProps SocketAPI TcpClientProps UdpSourceProps SyncProps RunnerProps TaskProps
    Allocators ScopeMemoryPool Util Fixed BlockObject BlockTcpProps ActiveList AppLog
    AppService
begin

text \<open>
  A model of SocketLib, a C++ library for Windows sockets with completion ports
  (src/SocketLibrary/SocketLibrary of the repository), and what holds of it.

  \<^bold>\<open>The program.\<close> A socket source (\<open>CTcpServer\<close>, \<open>CTcpClient\<close>, \<open>CUdpSource\<close>, all \<open>CSocketSource\<close>) owns sockets
  and the structures of the operations on them, which it takes from pools (\<open>CSocketSendPool\<close> and the free lists of
  sessions and receive structures). A runner (\<open>CTcpRunner\<close>, \<open>CUdpRunner\<close>) owns a completion port and worker
  threads, which call back the source and the application's \<open>CSocketEvent\<close>. \<open>CSLTcpSessionEvent\<close> is such an
  application: it gives each connection a \<open>CSLTcpSession\<close>, which cuts the byte stream into messages, and these go
  through a \<open>CSLMessageQueue\<close> to the threads of a \<open>CSLTask\<close> or \<open>CSLTaskEx\<close>. Below are buffers, pools,
  allocators and the wrappers of kernel objects in sync/; beside this are a simpler family of classes with blocking
  calls (SLBlock*.cpp), a list of scanned sessions, a log, a framework for Windows services (NTService.cpp, AppBase.cpp)
  and a few utilities.

  \<^bold>\<open>How it is modelled.\<close> A class is a record with the fields of the code behind a tag (\<open>sv_lstFreePool\<close> is
  \<open>m_lstFreePool\<close> of the server), a method \<open>m\<close> of class \<open>C\<close> the definition \<open>C_m\<close>, on the whole state it changes; parts of a
  method that loop or that several methods share have names of their own. Templates take their arguments as
  parameters. Faults of C++ (NULL, freed memory, double free, out of bounds, an exception, division by zero) are the \<open>Inl\<close> values of
  \<open>cerror + 'a\<close>; machine integers are words or are converted where the code converts. Win32 and Winsock are an environment
  \<open>env\<close> (theory Winsock), which answers a call from the trace of calls and answers so far; what theorems need of it are
  named hypotheses such as \<open>heap_env_ok\<close> (the heap hands out memory that is not in use) or \<open>send_env_ok\<close> (a send
  accepts between one byte and the packet). Callbacks of the application are calls of the environment, or parameters
  where the code relies on what they do. Threads are steps: a method that runs under a lock is one step, a thread
  procedure is cut at the points where others can come in, and the theorems quantify over all sequences of steps.
  Loops that may not end are \<open>partial_function (option)\<close>, and the theorems say when they return, so no fuel is used.

  \<^bold>\<open>Theories and sources.\<close>
  \<^item> Prelude, CHeap: faults, 32-bit arithmetic, the heap of the C library.
  \<^item> ByteBuffer: slext/ByteBuffer.h. SmallObjectPool: slext/SmallObjectPool.h. Fixed: slext/FixedArray.h and
    slext/FixedObjectPool.h. The contract \<open>object_pool\<close> of a pool of objects is a locale that both small pools and the
    free list of UDP receive structures interpret.
  \<^item> MessageQueue: SLMessageQueue.h and .cpp. It refines a list: any run delivers what was accepted, in order.
  \<^item> TcpSession: SLTcpSession.h and .cpp, SLTcpSessionEvent.h and the message heads of SLCommonDef.h. It refines a
    parser of the whole stream.
  \<^item> Winsock, SendPool, SocketSource, NetFacts: SocketLib.h, SocketSendPool.h, SocketSource.h and .cpp; the
    sending loops of all sources, over the locale \<open>send_call\<close>, and facts on traces.
  \<^item> TcpServer and TcpServerProps, TcpClient, TcpClientInv and TcpClientProps, UdpSource and UdpSourceProps: the sources. Each has an
    invariant of ownership that every step of every thread keeps, and theorems on sending, closing and reconnecting.
  \<^item> SocketAPI: SocketAPI.cpp. Sync, ThreadGroup and SyncProps: the classes of sync/, with the locale
    \<open>handle_owner\<close> (an object closes the handles that it made).
  \<^item> Runner and RunnerProps: SocketRunner, TcpRunner and UdpRunner; what a worker thread does with a completion is a
    sequence of the source's own steps. Task and TaskProps: SLTask.h and SLTaskEx.h.
  \<^item> PoolMem, BlockAlloc, NormalMemoryPool, ScopeMemoryPool, Allocators: SLAlloc.h, SLNormalMemoryPool.h, SLScopeMemoryPool.h,
    SLObjectPool.h. The lists of a pool lie in the memory that it hands out. The locale \<open>mem_pool\<close> says that a
    pool implements a store of independent byte strings; \<open>adapted_pool\<close> carries this to an adapter.
  \<^item> BlockObject: SLBlockObject(Mgr).h and SLBlockSession(Mgr).h. BlockTcp and BlockTcpProps: SLBlockTcpClient, -Event,
    -Runner and -Server. ActiveList: SLSession and SLSession_ActiveList.h. AppLog: AppLog.cpp.
  \<^item> ServiceApi, EventSources, NTService, AppService: NTService.h and .cpp, AppBase.h and .cpp, over an environment of their own; a service as
    the two threads that report its state, and the registry value that lists the event sources, byte by byte.
  \<^item> Util: util/utility.h and util/Random.cpp.

  \<^bold>\<open>What the theorems show.\<close> Each theory ends with its properties (the theorems behind a text with a claim id) and, for those with
  hypotheses, a witness that applies them to concrete values. Where the code does not do what it means to, a
  theorem shows the failure in general or on a concrete run: the stale successor in \<open>CSLMessageQueue::Clear\<close>, the splitter's lost
  bytes, the races of the TCP server with its listening thread and with late completions, the pool that is not reset by \<open>clear\<close>,
  the fixed pool that cannot take back its oldest object, the owning manager that frees what it iterates over, the log that is used after \<open>fclose\<close>,
  the event sources that are lost when a service is removed.

  \<^bold>\<open>Bounds.\<close> Addresses and \<open>size_t\<close> are 32 bits wide, as in the project files; sizes of structures are those of that target.
  Data buffers are bytes of a flat memory; the structures of the library are records at the address of their first byte.

  \<^bold>\<open>Not modelled.\<close> \<open>RandomReal\<close> of a range, a rounded \<open>double\<close>;
  the text of log messages of the socket classes; security attributes and names of kernel objects; declarations
  without a body (slext/refcount.h, sync/ThreadManager.h), SLSingleton.h, which does not compile, and slext/ByteBuffer.cpp, which does not fit its header; the
  test programs. Data races inside one step (two threads in a container of the library without its lock) are
  outside of a model of steps; where the code does this, it is a finding.
\<close>

end
